(* ===== verification/Prelude.thy ===== *)
theory Prelude
  imports Main "HOL-Library.Word"
begin

unbundle bit_operations_syntax

text \<open>
  Shared vocabulary of the model of the \<open>ustack\<close> user-space packet stack: the C integer
  types of \<open>uspace/include/common/types.h\<close>, pointers and allocation, results of C code that
  may stop (a fault), little-endian memory accesses and byte order, and the generic lemmas
  the components use. Pointers are natural numbers; NULL is the absence of a pointer
  (\<open>None\<close> of \<open>ptr option\<close>). Each C struct type lives in a store of its own, a map from
  pointers to records.
\<close>

named_theorems fault_simps \<open>unfolding of the fault-propagating combinators\<close>
named_theorems mem_simps \<open>little-endian loads after stores\<close>

section \<open>Machine integers and pointers\<close>

type_synonym u8 = "8 word"
type_synonym u16 = "16 word"
type_synonym u32 = "32 word"
type_synonym u64 = "64 word"
type_synonym ptr = nat
type_synonym 'a store = "ptr \<Rightarrow> 'a option"

section \<open>Code that may stop\<close>

text \<open>
  \<open>Bad_deref\<close>: a NULL or dangling pointer is dereferenced; \<open>Bad_index\<close>: an array is
  accessed out of range; \<open>Bad_arith\<close>: an integer division by zero; \<open>Exit_call\<close>: the code
  calls \<open>exit\<close>. The first three are undefined behaviour in C. \<open>Diverges\<close>: a loop did not end
  within the fuel the model gives it; where it matters the fuel is proved to be enough.
\<close>

datatype fault = Bad_deref | Bad_index | Bad_arith | Exit_call | Diverges

type_synonym 'a res = "fault + 'a"

fun bindE :: "'e + 'a \<Rightarrow> ('a \<Rightarrow> 'e + 'b) \<Rightarrow> 'e + 'b" where
  "bindE (Inl e) f = Inl e"
| "bindE (Inr x) f = f x"

definition deref :: "'a store \<Rightarrow> ptr \<Rightarrow> 'a res" where
  "deref m p = (case m p of None \<Rightarrow> Inl Bad_deref | Some x \<Rightarrow> Inr x)"

definition arr_get :: "'a list \<Rightarrow> nat \<Rightarrow> 'a res" where
  "arr_get xs i = (if i < length xs then Inr (xs ! i) else Inl Bad_index)"

definition arr_set :: "'a list \<Rightarrow> nat \<Rightarrow> 'a \<Rightarrow> 'a list res" where
  "arr_set xs i v = (if i < length xs then Inr (xs[i := v]) else Inl Bad_index)"

lemma bindE_assoc: "bindE (bindE r f) g = bindE r (\<lambda>x. bindE (f x) g)"
  by (cases r) auto

lemma bindE_cong [fundef_cong]:
  assumes "r = r'" and "\<And>x. r' = Inr x \<Longrightarrow> f x = g x"
  shows "bindE r f = bindE r' g"
  using assms by (cases r') auto

text \<open>A \<open>for\<close> loop over a list of values, stopping at the first fault.\<close>

fun foldE :: "('a \<Rightarrow> 's \<Rightarrow> 's res) \<Rightarrow> 'a list \<Rightarrow> 's \<Rightarrow> 's res" where
  "foldE f [] s = Inr s"
| "foldE f (x # xs) s = bindE (f x s) (foldE f xs)"

lemma foldE_append: "foldE f (xs @ ys) s = bindE (foldE f xs s) (foldE f ys)"
  by (induction xs arbitrary: s) (auto simp: bindE_assoc intro!: bindE_cong)

text \<open>An invariant of a fallible loop: no fault, and the result keeps the invariant.\<close>

lemma foldE_invariant:
  assumes "I s" and "\<And>x s. x \<in> set xs \<Longrightarrow> I s \<Longrightarrow> \<exists>s'. f x s = Inr s' \<and> I s'"
  shows "\<exists>s'. foldE f xs s = Inr s' \<and> I s'"
  using assms
proof (induction xs arbitrary: s)
  case (Cons x xs)
  obtain s1 where s1: "f x s = Inr s1" "I s1" using Cons.prems by (metis list.set_intros(1))
  from Cons.IH [OF s1(2)] Cons.prems(2) s1 show ?case by simp
qed simp

lemma bindE_eq_Inr [fault_simps]:
  "bindE r f = Inr y \<longleftrightarrow> (\<exists>x. r = Inr x \<and> f x = Inr y)"
  by (cases r) auto

lemma deref_Some [simp]: "m p = Some x \<Longrightarrow> deref m p = Inr x"
  by (simp add: deref_def)

lemma deref_eq_Inr [fault_simps]: "deref m p = Inr x \<longleftrightarrow> m p = Some x"
  by (simp add: deref_def split: option.splits)

lemma arr_get_ok [simp]: "i < length xs \<Longrightarrow> arr_get xs i = Inr (xs ! i)"
  by (simp add: arr_get_def)

lemma arr_set_ok [simp]: "i < length xs \<Longrightarrow> arr_set xs i v = Inr (xs[i := v])"
  by (simp add: arr_set_def)

lemma arr_eq_Inr [fault_simps]:
  "arr_get xs i = Inr x \<longleftrightarrow> i < length xs \<and> x = xs ! i"
  "arr_set xs i v = Inr ys \<longleftrightarrow> i < length xs \<and> ys = xs[i := v]"
  by (auto simp: arr_get_def arr_set_def)

section \<open>Allocation\<close>

text \<open>
  \<open>MALLOC\<close>/\<open>CALLOC\<close> (\<open>common/config.h\<close>) hand out a pointer never handed out before, or NULL
  once the quota of the heap is used up; the quota is arbitrary, so every pattern of late
  allocation failures is covered. \<open>FREE\<close> gives the quota back.
\<close>

record heap =
  brk :: ptr
  quota :: nat

definition malloc :: "heap \<Rightarrow> ptr option \<times> heap" where
  "malloc h = (if quota h = 0 then (None, h)
     else (Some (brk h), h\<lparr>brk := Suc (brk h), quota := quota h - 1\<rparr>))"

definition mfree :: "heap \<Rightarrow> heap" where
  "mfree h = h\<lparr>quota := Suc (quota h)\<rparr>"

lemma malloc_None: "malloc h = (None, h') \<Longrightarrow> h' = h \<and> quota h = 0"
  by (auto simp: malloc_def split: if_splits)

lemma malloc_Some:
  "malloc h = (Some p, h') \<Longrightarrow> p = brk h \<and> brk h' = Suc (brk h) \<and> quota h = Suc (quota h')"
  by (auto simp: malloc_def split: if_splits)

section \<open>Byte order and memory\<close>

text \<open>The machine is x86: multi-byte loads and stores are little-endian.\<close>

type_synonym bytes = "nat \<Rightarrow> u8"

definition htons :: "u16 \<Rightarrow> u16" where
  "htons x = push_bit 8 x OR drop_bit 8 x"

abbreviation ntohs :: "u16 \<Rightarrow> u16" where
  "ntohs \<equiv> htons"

definition ld16 :: "bytes \<Rightarrow> nat \<Rightarrow> u16" where
  "ld16 d i = ucast (d i) OR push_bit 8 (ucast (d (i + 1)))"

definition ld32 :: "bytes \<Rightarrow> nat \<Rightarrow> u32" where
  "ld32 d i = ucast (ld16 d i) OR push_bit 16 (ucast (ld16 d (i + 2)))"

definition st16 :: "bytes \<Rightarrow> nat \<Rightarrow> u16 \<Rightarrow> bytes" where
  "st16 d i v = d(i := ucast v, i + 1 := ucast (drop_bit 8 v))"

definition st32 :: "bytes \<Rightarrow> nat \<Rightarrow> u32 \<Rightarrow> bytes" where
  "st32 d i v = st16 (st16 d i (ucast v)) (i + 2) (ucast (drop_bit 16 v))"

text \<open>\<open>memcpy\<close> of \<open>n\<close> bytes to offset \<open>i\<close>; the source does not overlap the target.\<close>

definition put_bytes :: "bytes \<Rightarrow> nat \<Rightarrow> nat \<Rightarrow> (nat \<Rightarrow> u8) \<Rightarrow> bytes" where
  "put_bytes d i n src = (\<lambda>k. if i \<le> k \<and> k < i + n then src (k - i) else d k)"

lemma htons_htons [simp]: "htons (htons x) = x"
  unfolding htons_def
  by (rule bit_word_eqI) (auto simp: bit_simps)

lemma htons_inj: "htons x = htons y \<longleftrightarrow> x = y"
  by (metis htons_htons)

lemma htons_0 [simp]: "htons 0 = 0"
  by (simp add: htons_def)

lemma htons_eq_0 [simp]: "htons x = 0 \<longleftrightarrow> x = 0"
  by (metis htons_0 htons_htons)

lemma ld16_st16 [mem_simps, simp]: "ld16 (st16 d i v) i = v"
  unfolding ld16_def st16_def
  by (rule bit_word_eqI) (auto simp: bit_simps)

lemma ld16_st16_other [mem_simps]:
  "j + 1 < i \<or> i + 1 < j \<Longrightarrow> ld16 (st16 d i v) j = ld16 d j"
  by (auto simp: ld16_def st16_def)

lemma st16_other [mem_simps]: "j < i \<or> i + 1 < j \<Longrightarrow> st16 d i v j = d j"
  by (auto simp: st16_def)

lemma ld32_st32 [mem_simps, simp]: "ld32 (st32 d i v) i = v"
proof -
  have lo: "ld16 (st32 d i v) i = ucast v"
    by (simp add: st32_def ld16_st16_other)
  have hi: "ld16 (st32 d i v) (i + 2) = ucast (drop_bit 16 v)"
    by (simp add: st32_def)
  show ?thesis
    unfolding ld32_def lo hi
    by (rule bit_word_eqI) (auto simp: bit_simps)
qed

lemma st32_other [mem_simps]: "j < i \<or> i + 3 < j \<Longrightarrow> st32 d i v j = d j"
  by (auto simp: st32_def st16_def)

lemma put_bytes_at [mem_simps]: "k < n \<Longrightarrow> put_bytes d i n src (i + k) = src k"
  by (simp add: put_bytes_def)

lemma put_bytes_other [mem_simps]: "k < i \<or> i + n \<le> k \<Longrightarrow> put_bytes d i n src k = d k"
  by (auto simp: put_bytes_def)

lemma ld_other [mem_simps]:
  "j + 3 < i \<or> i + 3 < j \<Longrightarrow> ld32 (st32 d i v) j = ld32 d j"
  "j + 3 < i \<or> i + 1 < j \<Longrightarrow> ld32 (st16 d i w) j = ld32 d j"
  "j + 1 < i \<or> i + 3 < j \<Longrightarrow> ld16 (st32 d i v) j = ld16 d j"
  "j + 3 < i \<or> i + n \<le> j \<Longrightarrow> ld32 (put_bytes d i n src) j = ld32 d j"
  "j + 1 < i \<or> i + n \<le> j \<Longrightarrow> ld16 (put_bytes d i n src) j = ld16 d j"
  by (auto simp: ld32_def ld16_def st32_def st16_def put_bytes_def)

lemma ld_upd_other [mem_simps]:
  "k < j \<or> j + 1 < k \<Longrightarrow> ld16 (d(k := v)) j = ld16 d j"
  "k < j \<or> j + 3 < k \<Longrightarrow> ld32 (d(k := v)) j = ld32 d j"
  by (auto simp: ld32_def ld16_def)

lemma ld32_put_inside:
  assumes a: "i \<le> j" "j + 3 < i + n" and s: "\<And>k. k < 4 \<Longrightarrow> src (j - i + k) = d' (m + k)"
  shows "ld32 (put_bytes d i n src) j = ld32 d' m"
proof -
  have "put_bytes d i n src (j + k) = d' (m + k)" if "k < 4" for k
    using a s [OF that] that by (simp add: put_bytes_def)
  from this [of 0] this [of 1] this [of 2] this [of 3] show ?thesis by (simp add: ld32_def ld16_def numeral_3_eq_3)
qed

section \<open>Word bounds\<close>

lemma u8_less: "unat (w :: u8) < 256"
  using unsigned_less [of w] by simp

lemma u16_less: "unat (w :: u16) < 65536"
  using unsigned_less [of w] by simp

lemma u16_unat_of_nat: "i < 65536 \<Longrightarrow> unat (of_nat i :: u16) = i"
  by (simp add: unsigned_of_nat take_bit_nat_eq_self)

lemma u32_less: "unat (w :: u32) < 4294967296"
  using unsigned_less [of w] by simp

lemma u32_unat_of_nat: "i < 4294967296 \<Longrightarrow> unat (of_nat i :: u32) = i"
  by (simp add: unsigned_of_nat take_bit_nat_eq_self)

lemma u64_less: "unat (w :: u64) < 18446744073709551616"
  using unsigned_less [of w] by simp

lemma u64_unat_of_nat: "i < 18446744073709551616 \<Longrightarrow> unat (of_nat i :: u64) = i"
  by (simp add: unsigned_of_nat take_bit_nat_eq_self)

section \<open>Lists\<close>

lemma find_Some_append:
  "find P (xs @ ys) = (case find P xs of None \<Rightarrow> find P ys | Some x \<Rightarrow> Some x)"
  by (induction xs) auto

lemma find_SomeD: "find P xs = Some x \<Longrightarrow> x \<in> set xs \<and> P x"
  by (induction xs) (auto split: if_splits)

lemma find_None_iff_set: "find P xs = None \<longleftrightarrow> (\<forall>x\<in>set xs. \<not> P x)"
  by (induction xs) auto

lemma nat_int_range:
  "(a :: nat) \<le> b \<Longrightarrow> 0 \<le> int b - int a + 1 \<and> nat (int b - int a + 1) = Suc b - a"
  by linarith

lemma mod_Suc_eq_if: "i < n \<Longrightarrow> Suc i mod n = (if Suc i = n then 0 else Suc i)"
  by auto

end
