(* ===== verification/ListHead.thy ===== *)
theory ListHead
  imports Prelude
begin

text \<open>
  The intrusive lists of \<open>uspace/include/common/list.h\<close>, at the level of the pointers: a
  memory of \<open>next\<close>/\<open>prev\<close> fields, one definition per inline function, and the abstraction
  \<open>ring m h xs\<close> (the list head \<open>h\<close> links exactly the nodes \<open>xs\<close>, in this order). Every
  operation is shown to act on \<open>xs\<close> as the corresponding operation on HOL lists, and to
  leave every disjoint list alone; the two iteration macros the program uses are shown to
  visit exactly \<open>xs\<close>. These lemmas are what allows the other theories to represent a list
  head by the HOL list of the nodes it links. The last section does the same for \<open>slist\<close>.
\<close>

section \<open>The operations\<close>

record links =
  nxt :: "ptr \<Rightarrow> ptr"
  prv :: "ptr \<Rightarrow> ptr"

definition set_nxt :: "links \<Rightarrow> ptr \<Rightarrow> ptr \<Rightarrow> links" where
  "set_nxt m a b = m\<lparr>nxt := (nxt m)(a := b)\<rparr>"

definition set_prv :: "links \<Rightarrow> ptr \<Rightarrow> ptr \<Rightarrow> links" where
  "set_prv m a b = m\<lparr>prv := (prv m)(a := b)\<rparr>"

definition INIT_LIST_HEAD :: "links \<Rightarrow> ptr \<Rightarrow> links" where
  "INIT_LIST_HEAD m l = set_prv (set_nxt m l l) l l"

definition raw_list_add :: "links \<Rightarrow> ptr \<Rightarrow> ptr \<Rightarrow> ptr \<Rightarrow> links" where
  "raw_list_add m new prev next =
     (let m = set_prv m next new;
          m = set_nxt m new next;
          m = set_prv m new prev
      in set_nxt m prev new)"

definition list_add :: "links \<Rightarrow> ptr \<Rightarrow> ptr \<Rightarrow> links" where
  "list_add m new head = raw_list_add m new head (nxt m head)"

definition list_add_tail :: "links \<Rightarrow> ptr \<Rightarrow> ptr \<Rightarrow> links" where
  "list_add_tail m new head = raw_list_add m new (prv m head) head"

definition raw_list_del :: "links \<Rightarrow> ptr \<Rightarrow> ptr \<Rightarrow> links" where
  "raw_list_del m prev next = set_nxt (set_prv m next prev) prev next"

definition list_del :: "links \<Rightarrow> ptr \<Rightarrow> links" where
  "list_del m entry = raw_list_del m (prv m entry) (nxt m entry)"

definition list_replace :: "links \<Rightarrow> ptr \<Rightarrow> ptr \<Rightarrow> links" where
  "list_replace m old new =
     (let m = set_nxt m new (nxt m old);
          m = set_prv m (nxt m new) new;
          m = set_prv m new (prv m old)
      in set_nxt m (prv m new) new)"

definition list_del_init :: "links \<Rightarrow> ptr \<Rightarrow> links" where
  "list_del_init m entry = INIT_LIST_HEAD (raw_list_del m (prv m entry) (nxt m entry)) entry"

definition list_move :: "links \<Rightarrow> ptr \<Rightarrow> ptr \<Rightarrow> links" where
  "list_move m l head = list_add (raw_list_del m (prv m l) (nxt m l)) l head"

definition list_move_tail :: "links \<Rightarrow> ptr \<Rightarrow> ptr \<Rightarrow> links" where
  "list_move_tail m l head = list_add_tail (raw_list_del m (prv m l) (nxt m l)) l head"

definition list_is_last :: "links \<Rightarrow> ptr \<Rightarrow> ptr \<Rightarrow> bool" where
  "list_is_last m l head \<longleftrightarrow> nxt m l = head"

definition list_empty :: "links \<Rightarrow> ptr \<Rightarrow> bool" where
  "list_empty m head \<longleftrightarrow> nxt m head = head"

definition list_rotate_left :: "links \<Rightarrow> ptr \<Rightarrow> links" where
  "list_rotate_left m head =
     (if \<not> list_empty m head then list_move_tail m (nxt m head) head else m)"

definition list_is_singular :: "links \<Rightarrow> ptr \<Rightarrow> bool" where
  "list_is_singular m head \<longleftrightarrow> \<not> list_empty m head \<and> nxt m head = prv m head"

definition raw_list_splice :: "links \<Rightarrow> ptr \<Rightarrow> ptr \<Rightarrow> ptr \<Rightarrow> links" where
  "raw_list_splice m l prev next =
     (let first = nxt m l;
          last = prv m l;
          m = set_prv m first prev;
          m = set_nxt m prev first;
          m = set_nxt m last next
      in set_prv m next last)"

definition list_splice_init :: "links \<Rightarrow> ptr \<Rightarrow> ptr \<Rightarrow> links" where
  "list_splice_init m l head =
     (if \<not> list_empty m l then INIT_LIST_HEAD (raw_list_splice m l head (nxt m head)) l else m)"

definition list_splice_tail_init :: "links \<Rightarrow> ptr \<Rightarrow> ptr \<Rightarrow> links" where
  "list_splice_tail_init m l head =
     (if \<not> list_empty m l then INIT_LIST_HEAD (raw_list_splice m l (prv m head) head) l else m)"

text \<open>
  \<open>list_for_each_entry\<close>: the nodes visited from \<open>pos\<close> on, with fuel for the walk; and
  \<open>list_for_each_entry_safe\<close> with the body used throughout the program: nodes that satisfy
  \<open>P\<close> are deleted from the list (and collected), the others stay. \<open>pos\<close> and \<open>n\<close> are the two
  cursors of the macro.
\<close>

fun for_each_entry :: "nat \<Rightarrow> links \<Rightarrow> ptr \<Rightarrow> ptr \<Rightarrow> ptr list option" where
  "for_each_entry 0 m pos head = None"
| "for_each_entry (Suc k) m pos head =
     (if pos = head then Some []
      else map_option (Cons pos) (for_each_entry k m (nxt m pos) head))"

fun for_each_entry_safe ::
  "nat \<Rightarrow> (ptr \<Rightarrow> bool) \<Rightarrow> links \<Rightarrow> ptr \<Rightarrow> ptr \<Rightarrow> ptr \<Rightarrow> (links \<times> ptr list) option" where
  "for_each_entry_safe 0 P m pos n head = None"
| "for_each_entry_safe (Suc k) P m pos n head =
     (if pos = head then Some (m, [])
      else if P pos then
        map_option (\<lambda>(m', ys). (m', pos # ys))
          (for_each_entry_safe k P (list_del m pos) n (nxt (list_del m pos) n) head)
      else for_each_entry_safe k P m n (nxt m n) head)"

section \<open>The abstraction to HOL lists\<close>

fun linked :: "links \<Rightarrow> ptr list \<Rightarrow> bool" where
  "linked m (a # b # r) \<longleftrightarrow> nxt m a = b \<and> prv m b = a \<and> linked m (b # r)"
| "linked m _ \<longleftrightarrow> True"

definition ring :: "links \<Rightarrow> ptr \<Rightarrow> ptr list \<Rightarrow> bool" where
  "ring m h xs \<longleftrightarrow> distinct (h # xs) \<and> linked m (h # xs @ [h])"

lemma links_simps [simp]:
  "nxt (set_nxt m a b) = (nxt m)(a := b)" "prv (set_nxt m a b) = prv m"
  "prv (set_prv m a b) = (prv m)(a := b)" "nxt (set_prv m a b) = nxt m"
  by (simp_all add: set_nxt_def set_prv_def)

lemma linked_append:
  "linked m (xs @ a # ys) \<longleftrightarrow> linked m (xs @ [a]) \<and> linked m (a # ys)"
proof (induction xs)
  case (Cons x xs)
  then show ?case by (cases xs) simp_all
qed simp

lemma linked_cong:
  assumes "\<And>x. x \<in> set (butlast xs) \<Longrightarrow> nxt m' x = nxt m x"
    and "\<And>x. x \<in> set (tl xs) \<Longrightarrow> prv m' x = prv m x"
  shows "linked m' xs = linked m xs"
  using assms
proof (induction m xs rule: linked.induct)
  case (1 m a b r)
  then have "linked m' (b # r) = linked m (b # r)"
    by (auto intro!: "1.IH" dest: in_set_butlastD list.set_sel(2)[rotated])
  with 1 show ?case by simp
qed simp_all

text \<open>A ring seen from a place between two neighbours \<open>p\<close> and \<open>n\<close>.\<close>

lemma ring_split:
  assumes "h # as = ps @ [p]" and "bs @ [h] = n # ns"
  shows "ring m h (as @ bs) \<longleftrightarrow> distinct (h # as @ bs) \<and> linked m (ps @ [p]) \<and>
     nxt m p = n \<and> prv m n = p \<and> linked m (n # ns)"
proof -
  have "h # (as @ bs) @ [h] = ps @ p # n # ns"
    using assms by (metis append.assoc append_Cons append_Nil)
  then show ?thesis
    by (simp add: ring_def) (subst linked_append, simp)
qed

lemma last_split: obtains ps where "h # as = ps @ [last (h # as)]"
  by (metis append_butlast_last_id list.distinct(1))

lemma hd_split: obtains ns where "bs @ [h] = hd (bs @ [h]) # ns"
  by (metis Nil_is_append_conv hd_Cons_tl list.distinct(1))

lemma ring_frame:
  assumes "ring m h xs"
    and "\<And>x. x \<in> set (h # xs) \<Longrightarrow> nxt m' x = nxt m x \<and> prv m' x = prv m x"
  shows "ring m' h xs"
proof -
  have "linked m' (h # xs @ [h]) = linked m (h # xs @ [h])"
    by (rule linked_cong) (use assms(2) in \<open>auto dest: in_set_butlastD\<close>)
  with assms(1) show ?thesis by (simp add: ring_def)
qed

lemma ring_neighbours:
  assumes "ring m h (as @ bs)"
  shows "nxt m (last (h # as)) = hd (bs @ [h])" "prv m (hd (bs @ [h])) = last (h # as)"
proof -
  obtain ps where ps: "h # as = ps @ [last (h # as)]" by (rule last_split)
  obtain ns where ns: "bs @ [h] = hd (bs @ [h]) # ns" by (rule hd_split)
  from ring_split [OF ps ns, of m] assms
  show "nxt m (last (h # as)) = hd (bs @ [h])" "prv m (hd (bs @ [h])) = last (h # as)"
    by blast+
qed

lemma ring_nxt_head: "ring m h xs \<Longrightarrow> nxt m h = hd (xs @ [h])"
  using ring_neighbours(1)[of m h "[]" xs] by simp

lemma ring_prv_head: "ring m h xs \<Longrightarrow> prv m h = last (h # xs)"
  using ring_neighbours(2)[of m h xs "[]"] by simp

lemma ring_distinct: "ring m h xs \<Longrightarrow> distinct xs \<and> h \<notin> set xs"
  by (simp add: ring_def)

lemma ring_Nil: "ring m h [] \<longleftrightarrow> nxt m h = h \<and> prv m h = h"
  by (auto simp: ring_def)

text \<open>
  The set facts about the two halves of a ring, in the form the updates need them.
\<close>

lemma ring_halves:
  assumes d: "distinct (h # as @ bs)" and ps: "h # as = ps @ [p]" and ns: "bs @ [h] = n # ns"
  shows "butlast (ps @ [p]) = ps" "tl (ps @ [p]) = as" "butlast (n # ns) = bs" "tl (n # ns) = ns"
    and "p \<notin> set ps" "p \<notin> set bs" "n \<notin> set as" "n \<notin> set ns"
    and "set ps \<subseteq> set (h # as)" "set ns \<subseteq> set (h # bs)" "p \<in> set (h # as)" "n \<in> set (h # bs)"
proof -
  show "butlast (ps @ [p]) = ps" "tl (n # ns) = ns" by simp_all
  show "tl (ps @ [p]) = as" using ps by (metis list.sel(3))
  show "butlast (n # ns) = bs" using ns by (metis butlast_snoc)
  have dp: "distinct (ps @ [p])" using d ps by (metis distinct.simps(2) distinct_append append_Cons)
  then show "p \<notin> set ps" by simp
  have sp: "set (h # as) = insert p (set ps)" using ps by (metis list.simps(15) rotate1.simps(2) set_rotate1)
  then show "set ps \<subseteq> set (h # as)" "p \<in> set (h # as)" by auto
  then show "p \<notin> set bs" using d by auto
  have "distinct (bs @ [h])" using d by auto
  then have dn: "distinct (n # ns)" using ns by simp
  then show "n \<notin> set ns" by simp
  have sn: "set (h # bs) = insert n (set ns)" using ns by (metis list.simps(15) rotate1.simps(2) set_rotate1)
  then show "set ns \<subseteq> set (h # bs)" "n \<in> set (h # bs)" by auto
  then show "n \<notin> set as" using d by auto
qed

lemma ring_insert:
  assumes ring: "ring m h (as @ bs)" and new: "x \<notin> set (h # as @ bs)"
  shows "ring (raw_list_add m x (last (h # as)) (hd (bs @ [h]))) h (as @ x # bs)"
proof -
  let ?p = "last (h # as)" and ?n = "hd (bs @ [h])"
  let ?m = "raw_list_add m x ?p ?n"
  obtain ps where ps: "h # as = ps @ [?p]" by (rule last_split)
  obtain ns where ns: "bs @ [h] = ?n # ns" by (rule hd_split)
  note old = ring_split [OF ps ns, of m, THEN iffD1, OF ring]
  note halves = ring_halves [OF conjunct1 [OF old] ps ns]
  have xn: "(x # bs) @ [h] = x # ?n # ns" using ns by simp
  have dist: "distinct (h # as @ x # bs)" using old new by auto
  have neq: "?p \<noteq> x" "?n \<noteq> x" using halves(11,12) new by auto
  have left: "linked ?m (ps @ [?p])"
    using old halves new
    by (subst linked_cong [where m = m]) (auto simp: raw_list_add_def Let_def)
  have right: "linked ?m (?n # ns)"
    using old halves new neq
    by (subst linked_cong [where m = m]) (auto simp: raw_list_add_def Let_def)
  have mid: "nxt ?m ?p = x" "prv ?m x = ?p" "nxt ?m x = ?n" "prv ?m ?n = x"
    using neq by (auto simp: raw_list_add_def Let_def)
  show ?thesis
    using ring_split [OF ps xn, of ?m] dist left right mid by simp
qed

lemma ring_delete:
  assumes ring: "ring m h (as @ x # bs)"
  shows "ring (list_del m x) h (as @ bs)"
proof -
  let ?p = "last (h # as)" and ?n = "hd (bs @ [h])"
  have px: "prv m x = ?p" using ring_neighbours(2) [OF ring] by simp
  have nx: "nxt m x = ?n" using ring_neighbours(1) [of m h "as @ [x]" bs] ring by simp
  let ?m = "raw_list_del m ?p ?n"
  obtain ps where ps: "h # as = ps @ [?p]" by (rule last_split)
  obtain ns where ns: "bs @ [h] = ?n # ns" by (rule hd_split)
  have xn: "(x # bs) @ [h] = x # ?n # ns" using ns by simp
  note old = ring_split [OF ps xn, of m, THEN iffD1, OF ring]
  have dist: "distinct (h # as @ bs)" using old by auto
  note halves = ring_halves [OF dist ps ns]
  have left: "linked ?m (ps @ [?p])"
    using old halves by (subst linked_cong [where m = m]) (auto simp: raw_list_del_def)
  have right: "linked ?m (?n # ns)"
    using old halves by (subst linked_cong [where m = m]) (auto simp: raw_list_del_def)
  have "ring ?m h (as @ bs)"
    using ring_split [OF ps ns, of ?m] dist left right by (simp add: raw_list_del_def)
  then show ?thesis by (simp add: list_del_def px nx)
qed

section \<open>Every operation is the operation on HOL lists\<close>

lemma ring_INIT: "ring (INIT_LIST_HEAD m h) h []"
  by (simp add: ring_Nil INIT_LIST_HEAD_def)

lemma ring_list_empty: "ring m h xs \<Longrightarrow> list_empty m h \<longleftrightarrow> xs = []"
  using ring_nxt_head[of m h xs] by (cases xs) (auto simp: list_empty_def dest: ring_distinct)

lemma ring_list_add:
  "ring m h xs \<Longrightarrow> x \<notin> set (h # xs) \<Longrightarrow> ring (list_add m x h) h (x # xs)"
  using ring_insert [of m h "[]" xs x] ring_nxt_head[of m h xs] by (simp add: list_add_def)

lemma ring_list_add_tail:
  "ring m h xs \<Longrightarrow> x \<notin> set (h # xs) \<Longrightarrow> ring (list_add_tail m x h) h (xs @ [x])"
  using ring_insert [of m h xs "[]" x] ring_prv_head[of m h xs] by (simp add: list_add_tail_def)

lemma ring_list_del: "ring m h xs \<Longrightarrow> x \<in> set xs \<Longrightarrow> ring (list_del m x) h (remove1 x xs)"
proof -
  assume r: "ring m h xs" and x: "x \<in> set xs"
  then obtain as bs where xs: "xs = as @ x # bs" and "x \<notin> set as"
    by (meson split_list_first)
  then have "remove1 x xs = as @ bs" by (simp add: remove1_append)
  then show ?thesis using ring_delete [of m h as x bs] r xs by simp
qed

lemma ring_rotate_left: "ring m h xs \<Longrightarrow> ring (list_rotate_left m h) h (rotate1 xs)"
proof (cases xs)
  case Nil
  then show "ring m h xs \<Longrightarrow> ?thesis" by (simp add: list_rotate_left_def ring_list_empty)
next
  case (Cons x ys)
  assume r: "ring m h xs"
  have n: "nxt m h = x" using ring_nxt_head [OF r] Cons by simp
  have "ring (list_del m x) h ys" using ring_list_del [OF r, of x] Cons by simp
  moreover have "x \<notin> set (h # ys)" using ring_distinct [OF r] Cons by auto
  ultimately have "ring (list_add_tail (list_del m x) x h) h (ys @ [x])"
    by (rule ring_list_add_tail)
  then show ?thesis
    using r Cons n by (simp add: list_rotate_left_def ring_list_empty list_move_tail_def list_del_def)
qed

lemma list_is_singular_ring: "ring m h xs \<Longrightarrow> list_is_singular m h \<longleftrightarrow> length xs = 1"
proof -
  assume r: "ring m h xs"
  show ?thesis
  proof (cases xs)
    case Nil
    with r show ?thesis by (simp add: list_is_singular_def ring_list_empty)
  next
    case (Cons x ys)
    then have "nxt m h = x" "prv m h = last (x # ys)"
      using ring_nxt_head [OF r] ring_prv_head [OF r] by simp_all
    moreover have "last (x # ys) = x \<longleftrightarrow> ys = []"
      using ring_distinct [OF r] Cons by (cases ys rule: rev_cases) auto
    ultimately show ?thesis using r Cons by (auto simp: list_is_singular_def ring_list_empty)
  qed
qed

text \<open>The operations write only to the nodes they link, so other lists are not affected.\<close>

lemma list_add_frame:
  assumes "ring m h xs" "ring m g zs" "x \<notin> set (g # zs)" "set (h # xs) \<inter> set (g # zs) = {}"
  shows "ring (list_add m x h) g zs"
proof (rule ring_frame [OF assms(2)])
  fix y assume y: "y \<in> set (g # zs)"
  have "nxt m h \<in> set (h # xs)" using ring_nxt_head [OF assms(1)] by (cases xs) auto
  then show "nxt (list_add m x h) y = nxt m y \<and> prv (list_add m x h) y = prv m y"
    using y assms(3,4) by (auto simp: list_add_def raw_list_add_def Let_def)
qed

lemma list_add_tail_frame:
  assumes "ring m h xs" "ring m g zs" "x \<notin> set (g # zs)" "set (h # xs) \<inter> set (g # zs) = {}"
  shows "ring (list_add_tail m x h) g zs"
proof (rule ring_frame [OF assms(2)])
  fix y assume y: "y \<in> set (g # zs)"
  have "prv m h \<in> set (h # xs)" using ring_prv_head [OF assms(1)] last_in_set[of "h # xs"] by simp
  then show "nxt (list_add_tail m x h) y = nxt m y \<and> prv (list_add_tail m x h) y = prv m y"
    using y assms(3,4) by (auto simp: list_add_tail_def raw_list_add_def Let_def)
qed

lemma list_del_frame:
  assumes "ring m h xs" "x \<in> set xs" "ring m g zs" "set (h # xs) \<inter> set (g # zs) = {}"
  shows "ring (list_del m x) g zs"
proof (rule ring_frame [OF assms(3)])
  fix y assume y: "y \<in> set (g # zs)"
  obtain as bs where xs: "xs = as @ x # bs" using assms(2) by (meson split_list)
  have "prv m x = last (h # as)" "nxt m x = hd (bs @ [h])"
    using ring_neighbours(2) [of m h as "x # bs"] ring_neighbours(1) [of m h "as @ [x]" bs]
      assms(1) xs by simp_all
  moreover have "last (h # as) \<in> set (h # xs)" "hd (bs @ [h]) \<in> set (h # xs)"
    using last_in_set [of "h # as"] hd_in_set [of "bs @ [h]"] xs by auto
  ultimately show "nxt (list_del m x) y = nxt m y \<and> prv (list_del m x) y = prv m y"
    using y assms(4) by (auto simp: list_del_def raw_list_del_def)
qed

lemma ring_list_move_tail:
  assumes r: "ring m h xs" "x \<in> set xs" and g: "ring m g zs"
    and dis: "set (h # xs) \<inter> set (g # zs) = {}"
  shows "ring (list_move_tail m x g) h (remove1 x xs)"
    and "ring (list_move_tail m x g) g (zs @ [x])"
proof -
  let ?m = "list_del m x"
  have eq: "list_move_tail m x g = list_add_tail ?m x g"
    by (simp add: list_move_tail_def list_del_def)
  have h: "ring ?m h (remove1 x xs)" using r by (rule ring_list_del)
  have g': "ring ?m g zs" using list_del_frame [OF r g dis] .
  show "ring (list_move_tail m x g) g (zs @ [x])"
    unfolding eq using r(2) dis by (intro ring_list_add_tail [OF g']) auto
  have sub: "set (remove1 x xs) \<subseteq> set xs" by (rule set_remove1_subset)
  have "x \<notin> set (remove1 x xs)" using ring_distinct [OF r(1)] by simp
  moreover have "x \<noteq> h" using r ring_distinct by blast
  ultimately show "ring (list_move_tail m x g) h (remove1 x xs)"
    unfolding eq using dis sub by (intro list_add_tail_frame [OF g' h]) auto
qed

lemma ring_splice_tail_init:
  assumes l: "ring m l xs" and h: "ring m h ys" and dis: "set (l # xs) \<inter> set (h # ys) = {}"
  shows "ring (list_splice_tail_init m l h) h (ys @ xs) \<and> ring (list_splice_tail_init m l h) l []"
proof (cases "xs = []")
  case True
  with l h show ?thesis by (simp add: list_splice_tail_init_def ring_list_empty)
next
  case False
  let ?f = "hd xs" and ?t = "last xs" and ?p = "last (h # ys)"
  let ?m = "raw_list_splice m l ?p h"
  have ends: "nxt m l = ?f" "prv m l = ?t" "prv m h = ?p"
    using ring_nxt_head [OF l] ring_prv_head [OF l] ring_prv_head [OF h] False by simp_all
  have eq: "list_splice_tail_init m l h = INIT_LIST_HEAD ?m l"
    using l False by (simp add: list_splice_tail_init_def ring_list_empty ends)
  let ?i = "INIT_LIST_HEAD ?m l"
  obtain ps where ps: "h # ys = ps @ [?p]" by (rule last_split)
  obtain ns where ns: "xs @ [h] = hd (xs @ [h]) # ns" by (rule hd_split)
  have f: "hd (xs @ [h]) = ?f" using False by simp
  have dist: "distinct (h # ys @ xs)"
    using dis ring_distinct [OF l] ring_distinct [OF h] by auto
  note halves = ring_halves [OF dist ps ns, unfolded f]
  have in_ends: "?f \<in> set xs" "?t \<in> set xs" "?p \<in> set (h # ys)"
    using False last_in_set[of "h # ys"] by auto
  have len: "linked m (h # ys @ [h])" "linked m (l # xs @ [l])"
    using l h by (simp_all add: ring_def)
  have yl: "linked m (ps @ [?p])"
    using len(1) ps linked_append[of m ps ?p "[h]"] by (metis append_Cons append_assoc append_Nil)
  have left: "linked ?i (ps @ [?p])"
    using yl halves in_ends dis dist
    by (subst linked_cong [where m = m])
      (auto simp: raw_list_splice_def INIT_LIST_HEAD_def Let_def ends)
  obtain qs where qs: "xs = qs @ [?t]" using False by (metis append_butlast_last_id)
  have xl: "linked m xs"
  proof -
    have "l # xs @ [l] = (l # qs) @ ?t # [l]" using qs by simp
    then have "linked m ((l # qs) @ [?t])" using len(2) linked_append[of m "l # qs" ?t "[l]"] by metis
    then have "linked m (l # xs)" using qs by simp
    then show ?thesis by (cases xs) simp_all
  qed
  have tq: "?t \<notin> set qs" "?t \<noteq> l" "set (tl xs) \<subseteq> set xs" "?f \<notin> set (tl xs)"
    using ring_distinct [OF l] qs False in_ends
    by (metis distinct_append not_distinct_conv_prefix distinct_butlast butlast_snoc, metis in_ends(2),
        meson list.set_sel(2) False subsetI, metis distinct.simps(2) hd_Cons_tl)
  have "linked ?i xs"
  proof -
    have "butlast xs = qs" using qs by (metis butlast_snoc)
    then show ?thesis
      using xl tq dis in_ends ring_distinct [OF l] qs
      by (subst linked_cong [where m = m])
        (auto simp: raw_list_splice_def INIT_LIST_HEAD_def Let_def ends dest: in_set_butlastD)
  qed
  moreover have th: "nxt ?i ?t = h" "prv ?i h = ?t"
    using in_ends dis tq by (auto simp: raw_list_splice_def INIT_LIST_HEAD_def Let_def ends)
  ultimately have right: "linked ?i (?f # ns)"
    using linked_append[of ?i qs ?t "[h]"] qs ns f by (metis append_Cons append_assoc linked.simps(1,3) append_Nil)
  have lx: "l \<notin> set xs" using ring_distinct [OF l] by simp
  have mid: "nxt ?i ?p = ?f" "prv ?i ?f = ?p"
    using in_ends dis tq lx by (auto simp: raw_list_splice_def INIT_LIST_HEAD_def Let_def ends)
  have "ring ?i h (ys @ xs)"
    using ring_split [OF ps ns, of ?i] dist left right mid f by simp
  then show ?thesis by (simp add: eq ring_INIT)
qed

section \<open>Iteration\<close>

lemma for_each_suffix:
  assumes "ring m h (as @ bs)"
  shows "for_each_entry (Suc (length bs)) m (hd (bs @ [h])) h = Some bs"
  using assms
proof (induction bs arbitrary: as)
  case (Cons b bs)
  have "nxt m b = hd (bs @ [h])" "b \<noteq> h"
    using ring_neighbours(1) [of m h "as @ [b]" bs] Cons.prems ring_distinct [OF Cons.prems] by auto
  then show ?case using Cons.IH [of "as @ [b]"] Cons.prems by simp
qed simp

lemma for_each_entry_ring:
  "ring m h xs \<Longrightarrow> for_each_entry (Suc (length xs)) m (nxt m h) h = Some xs"
  using for_each_suffix [of m h "[]" xs] ring_nxt_head by simp

lemma for_each_safe_suffix:
  assumes "ring m h (as @ bs)"
  shows "\<exists>m' n. (bs = [] \<or> n = hd (tl bs @ [h])) \<and>
    for_each_entry_safe (Suc (length bs)) P m (hd (bs @ [h])) (nxt m (hd (bs @ [h]))) h
      = Some (m', filter P bs) \<and> ring m' h (as @ filter (\<lambda>x. \<not> P x) bs)"
  using assms
proof (induction bs arbitrary: as m)
  case (Cons b bs)
  have b: "b \<noteq> h" using ring_distinct [OF Cons.prems] by auto
  have nb: "nxt m b = hd (bs @ [h])"
    using ring_neighbours(1) [of m h "as @ [b]" bs] Cons.prems by simp
  show ?case
  proof (cases "P b")
    case True
    have "ring (list_del m b) h (as @ bs)" using Cons.prems by (rule ring_delete)
    from Cons.IH [OF this] True b nb show ?thesis by auto
  next
    case False
    have "ring m h ((as @ [b]) @ bs)" using Cons.prems by simp
    from Cons.IH [OF this] False b nb show ?thesis by auto
  qed
qed auto

lemma for_each_entry_safe_ring:
  assumes "ring m h xs"
  shows "\<exists>m'. for_each_entry_safe (Suc (length xs)) P m (nxt m h) (nxt m (nxt m h)) h
      = Some (m', filter P xs) \<and> ring m' h (filter (\<lambda>x. \<not> P x) xs)"
  using for_each_safe_suffix [of m h "[]" xs P] assms ring_nxt_head [OF assms] by auto

section \<open>Singly linked lists\<close>

text \<open>
  \<open>struct slist\<close>: the memory of the \<open>next\<close> fields, NULL being \<open>None\<close>. A chunk of a memory
  pool is a node, the pool's \<open>free_list\<close> a head.
\<close>

type_synonym slinks = "ptr \<Rightarrow> ptr option"

definition slist_init :: "slinks \<Rightarrow> ptr \<Rightarrow> slinks" where
  "slist_init m l = m(l := None)"

definition slist_add :: "slinks \<Rightarrow> ptr \<Rightarrow> ptr \<Rightarrow> slinks" where
  "slist_add m node head = (let m = m(node := m head) in m(head := Some node))"

definition slist_del_first :: "slinks \<Rightarrow> ptr \<Rightarrow> ptr option \<times> slinks" where
  "slist_del_first m head =
     (case m head of None \<Rightarrow> (None, m) | Some node \<Rightarrow> (Some node, m(head := m node)))"

definition slist_empty :: "slinks \<Rightarrow> ptr \<Rightarrow> bool" where
  "slist_empty m head \<longleftrightarrow> m head \<noteq> None"

fun schain :: "slinks \<Rightarrow> ptr \<Rightarrow> ptr list \<Rightarrow> bool" where
  "schain m a [] \<longleftrightarrow> m a = None"
| "schain m a (x # xs) \<longleftrightarrow> m a = Some x \<and> schain m x xs"

lemma schain_cong: "(\<And>x. x \<in> set (a # xs) \<Longrightarrow> m' x = m x) \<Longrightarrow> schain m' a xs = schain m a xs"
  by (induction xs arbitrary: a) simp_all

lemma schain_init: "schain (slist_init m l) l []"
  by (simp add: slist_init_def)

lemma schain_add:
  assumes "schain m h xs" "x \<notin> set (h # xs)" "distinct (h # xs)"
  shows "schain (slist_add m x h) h (x # xs)"
proof -
  have "schain (slist_add m x h) x xs = schain (m(x := m h)) x xs"
    using assms by (intro schain_cong) (auto simp: slist_add_def Let_def)
  also have "\<dots> = schain m h xs"
  proof (cases xs)
    case (Cons a ys)
    then have "schain (m(x := m h)) a ys = schain m a ys"
      using assms by (intro schain_cong) auto
    with Cons assms show ?thesis by simp
  qed (use assms in simp)
  finally show ?thesis using assms by (simp add: slist_add_def Let_def)
qed

lemma schain_del_first:
  assumes "schain m h xs" "distinct (h # xs)"
  shows "fst (slist_del_first m h) = (case xs of [] \<Rightarrow> None | x # _ \<Rightarrow> Some x)"
    and "schain (snd (slist_del_first m h)) h (tl xs)"
proof -
  show "fst (slist_del_first m h) = (case xs of [] \<Rightarrow> None | x # _ \<Rightarrow> Some x)"
    using assms by (cases xs) (simp_all add: slist_del_first_def)
  show "schain (snd (slist_del_first m h)) h (tl xs)"
  proof (cases xs)
    case (Cons x ys)
    have "schain (m(h := m x)) h ys"
    proof (cases ys)
      case (Cons y zs)
      then have "schain (m(h := m x)) y zs = schain m y zs"
        using assms \<open>xs = x # ys\<close> by (intro schain_cong) auto
      with Cons assms \<open>xs = x # ys\<close> show ?thesis by simp
    qed (use assms \<open>xs = x # ys\<close> in simp)
    then show ?thesis using assms Cons by (simp add: slist_del_first_def)
  qed (use assms in \<open>simp add: slist_del_first_def\<close>)
qed

end
