(* ===== verification/RingBuffer.thy ===== *)
theory RingBuffer
  imports Prelude
begin

text \<open>
  What the three ring buffers of the program share: the ports of a local IP
  (\<open>port_range.c\<close>), the queues between processes (\<open>lf_queue.c\<close>) and the descriptor rings of the
  network cards (\<open>driver.c\<close>) are arrays read from a start index, wrapping around at the size.
  \<open>window f s i n\<close> is the list of the \<open>n\<close> entries from index \<open>i\<close> on. The locale \<open>fifo\<close> states
  the contract of a bounded first-in first-out buffer and what follows for any sequence of
  operations; the providers interpret it on their own definitions.
\<close>

section \<open>Windows of a ring\<close>

definition window :: "(nat \<Rightarrow> 'a) \<Rightarrow> nat \<Rightarrow> nat \<Rightarrow> nat \<Rightarrow> 'a list" where
  "window f s i n = map (\<lambda>k. f ((i + k) mod s)) [0..<n]"

text \<open>The number of entries from \<open>head\<close> up to (not including) \<open>tail\<close>.\<close>

definition used :: "nat \<Rightarrow> nat \<Rightarrow> nat \<Rightarrow> nat" where
  "used s head tail = (tail + s - head) mod s"

lemma window_0 [simp]: "window f s i 0 = []"
  by (simp add: window_def)

lemma length_window [simp]: "length (window f s i n) = n"
  by (simp add: window_def)

lemma nth_window [simp]: "k < n \<Longrightarrow> window f s i n ! k = f ((i + k) mod s)"
  by (simp add: window_def)

lemma window_snoc: "window f s i (Suc n) = window f s i n @ [f ((i + n) mod s)]"
  by (simp add: window_def)

lemma window_Cons: "window f s i (Suc n) = f (i mod s) # window f s (Suc i mod s) n"
proof -
  have "map (\<lambda>k. f ((i + k) mod s)) [0..<Suc n]
      = f (i mod s) # map (\<lambda>k. f ((i + Suc k) mod s)) [0..<n]"
    by (simp only: upt_conv_Cons zero_less_Suc list.map map_Suc_upt [symmetric] map_map) (simp add: comp_def)
  also have "(\<lambda>k. f ((i + Suc k) mod s)) = (\<lambda>k. f ((Suc i mod s + k) mod s))"
    by (simp add: mod_add_left_eq)
  finally show ?thesis by (simp add: window_def)
qed

lemma window_cong:
  "(\<And>k. k < n \<Longrightarrow> f ((i + k) mod s) = g ((i + k) mod s)) \<Longrightarrow> window f s i n = window g s i n"
  by (simp add: window_def)

lemma window_nth: "window f s i n = window (\<lambda>j. f j) s i n"
  by simp

lemma ring_index_inj:
  fixes i k l s :: nat
  assumes "(i + k) mod s = (i + l) mod s" "k < s" "l < s"
  shows "k = l"
proof -
  obtain a b where "i + k + s * a = i + l + s * b"
    using assms(1) nat_mod_eq_iff by blast
  then have "k + s * a = l + s * b" by simp
  then have "k mod s = l mod s" using nat_mod_eq_iff by blast
  with assms(2,3) show ?thesis by simp
qed

lemma window_upd_outside:
  assumes "n \<le> l" "l < s"
  shows "window (f((i + l) mod s := v)) s i n = window f s i n"
  using assms by (intro window_cong) (auto dest!: ring_index_inj)

lemma window_upd_inside:
  assumes "l < n" "n \<le> s"
  shows "window (f((i + l) mod s := v)) s i n = (window f s i n)[l := v]"
proof (rule nth_equalityI)
  fix k assume "k < length (window (f((i + l) mod s := v)) s i n)"
  then have "k < n" by simp
  then show "window (f((i + l) mod s := v)) s i n ! k = (window f s i n)[l := v] ! k"
    using assms ring_index_inj[of i k s l] by (auto simp: nth_list_update)
qed simp

lemma used_less [simp]: "0 < s \<Longrightarrow> used s h t < s"
  by (simp add: used_def)

lemma used_same [simp]: "h < s \<Longrightarrow> used s h h = 0"
  by (simp add: used_def)

lemma used_eq: "h < s \<Longrightarrow> t < s \<Longrightarrow> used s h t = (if h \<le> t then t - h else t + s - h)"
proof -
  assume a: "h < s" "t < s"
  show ?thesis
  proof (cases "h \<le> t")
    case True
    then have "t + s - h = (t - h) + s" by simp
    moreover have "(t - h) mod s = t - h" using a by simp
    ultimately show ?thesis using True by (simp add: used_def del: add_diff_assoc2)
  next
    case False
    then have "t + s - h < s" using a by simp
    with False show ?thesis by (simp add: used_def)
  qed
qed

lemma used_eq_0: "h < s \<Longrightarrow> t < s \<Longrightarrow> used s h t = 0 \<longleftrightarrow> h = t"
  by (auto simp: used_eq)

lemma used_tail: "h < s \<Longrightarrow> t < s \<Longrightarrow> (h + used s h t) mod s = t"
  by (auto simp: used_eq)

lemma used_Suc_tail:
  assumes "h < s" "t < s" "Suc t mod s \<noteq> h"
  shows "used s h (Suc t mod s) = Suc (used s h t)"
  using assms by (auto simp: used_eq mod_Suc_eq_if)

lemma used_Suc_head:
  assumes "h < s" "t < s" "h \<noteq> t"
  shows "used s h t = Suc (used s (Suc h mod s) t)"
  using assms by (auto simp: used_eq mod_Suc_eq_if)

lemma used_full: "h < s \<Longrightarrow> t < s \<Longrightarrow> used s h t = s - 1 \<longleftrightarrow> Suc t mod s = h"
  by (auto simp: used_eq mod_Suc_eq_if)

text \<open>The entries between two indices, after writing at the tail and reading at the head.\<close>

definition between :: "'a list \<Rightarrow> nat \<Rightarrow> nat \<Rightarrow> 'a list" where
  "between xs h t = window ((!) xs) (length xs) h (used (length xs) h t)"

lemma length_between: "length (between xs h t) = used (length xs) h t"
  by (simp add: between_def)

lemma between_same [simp]: "h < length xs \<Longrightarrow> between xs h h = []"
  by (simp add: between_def)

lemma between_eq_Nil: "h < length xs \<Longrightarrow> t < length xs \<Longrightarrow> between xs h t = [] \<longleftrightarrow> h = t"
  using length_between [of xs h t] used_eq_0 [of h "length xs" t] by (metis length_0_conv)

lemma between_read:
  assumes "h < length xs" "t < length xs" "h \<noteq> t"
  shows "between xs h t = xs ! h # between xs (Suc h mod length xs) t"
  using assms used_Suc_head [of h "length xs" t] by (simp add: between_def window_Cons)

lemma between_write:
  assumes h: "h < length xs" and t: "t < length xs" and full: "Suc t mod length xs \<noteq> h"
  shows "between (xs[t := v]) h (Suc t mod length xs) = between xs h t @ [v]"
proof -
  let ?s = "length xs" and ?n = "used (length xs) h t"
  have n: "?n < ?s" by (rule used_less) (use h in linarith)
  have tl: "(h + ?n) mod ?s = t" using used_tail [OF h t] .
  have "window ((!) (xs[t := v])) ?s h ?n = window ((!) xs) ?s h ?n"
  proof (rule window_cong)
    fix k assume k: "k < ?n"
    then have "(h + k) mod ?s \<noteq> t" using ring_index_inj [of h k ?s ?n] tl n by auto
    then show "xs[t := v] ! ((h + k) mod ?s) = xs ! ((h + k) mod ?s)" by simp
  qed
  moreover have "xs[t := v] ! ((h + ?n) mod ?s) = v" using tl t by simp
  moreover have "used ?s h (Suc t mod ?s) = Suc ?n" using used_Suc_tail [OF h t full] .
  ultimately show ?thesis by (simp add: between_def window_snoc)
qed

text \<open>Writing outside the entries, and a longer stretch split in two.\<close>

lemma between_upd_outside:
  assumes h: "h < length xs" and t: "t < length xs" and j: "j < length xs"
    and out: "used (length xs) h t \<le> used (length xs) h j"
  shows "between (xs[j := v]) h t = between xs h t"
proof -
  let ?s = "length xs"
  have "window ((!) (xs[j := v])) ?s h (used ?s h t) = window ((!) xs) ?s h (used ?s h t)"
  proof (rule window_cong)
    fix k assume k: "k < used ?s h t"
    have "used ?s h j < ?s" by (rule used_less) (use h in linarith)
    moreover have "(h + used ?s h j) mod ?s = j" using used_tail [OF h j] .
    ultimately have "(h + k) mod ?s \<noteq> j" using ring_index_inj [of h k ?s "used ?s h j"] k out by auto
    then show "xs[j := v] ! ((h + k) mod ?s) = xs ! ((h + k) mod ?s)" by simp
  qed
  then show ?thesis by (simp add: between_def)
qed

lemma window_split: "window f s i (m + n) = window f s i m @ window f s ((i + m) mod s) n"
  by (induction n) (simp_all add: window_snoc mod_add_left_eq add.assoc)

lemma used_split:
  assumes "h < s" "i < s" "t < s" "used s h i \<le> used s h t"
  shows "used s h t = used s h i + used s i t"
  using assms by (auto simp: used_eq split: if_splits)

lemma between_split:
  assumes "h < length xs" "i < length xs" "t < length xs" "used (length xs) h i \<le> used (length xs) h t"
  shows "between xs h t = between xs h i @ between xs i t"
  using used_split [OF assms] used_tail [OF assms(1,2)] by (simp add: between_def window_split)

section \<open>Bounded first-in first-out buffers\<close>

text \<open>
  \<open>enq\<close> is only called while the buffer has room; \<open>deq\<close> of an empty buffer answers \<open>None\<close> and
  changes nothing.
\<close>

locale fifo =
  fixes ok :: "'q \<Rightarrow> bool"
    and content :: "'q \<Rightarrow> 'a list"
    and room :: "'q \<Rightarrow> nat"
    and good :: "'a \<Rightarrow> bool"
    and enq :: "'a \<Rightarrow> 'q \<Rightarrow> 'q"
    and deq :: "'q \<Rightarrow> 'a option \<times> 'q"
  assumes enq_ok: "ok q \<Longrightarrow> good x \<Longrightarrow> 0 < room q \<Longrightarrow> ok (enq x q)"
    and enq_content: "ok q \<Longrightarrow> good x \<Longrightarrow> 0 < room q \<Longrightarrow> content (enq x q) = content q @ [x]"
    and enq_room: "ok q \<Longrightarrow> good x \<Longrightarrow> 0 < room q \<Longrightarrow> Suc (room (enq x q)) = room q"
    and deq_empty: "ok q \<Longrightarrow> content q = [] \<Longrightarrow> deq q = (None, q)"
    and deq_first: "ok q \<Longrightarrow> content q = x # xs \<Longrightarrow> \<exists>q'. deq q = (Some x, q') \<and> ok q'
       \<and> content q' = xs \<and> room q' = Suc (room q)"
begin

lemma deq_content:
  "ok q \<Longrightarrow> ok (snd (deq q)) \<and> content (snd (deq q)) = tl (content q) \<and>
     fst (deq q) = (case content q of [] \<Rightarrow> None | x # _ \<Rightarrow> Some x)"
  using deq_empty deq_first by (cases "content q") fastforce+

text \<open>A whole batch goes in, in order, as long as it fits.\<close>

lemma enq_batch:
  "ok q \<Longrightarrow> \<forall>x\<in>set xs. good x \<Longrightarrow> length xs \<le> room q \<Longrightarrow>
     ok (fold enq xs q) \<and> content (fold enq xs q) = content q @ xs
       \<and> room (fold enq xs q) + length xs = room q"
proof (induction xs arbitrary: q)
  case (Cons x xs)
  then have "0 < room q" "good x" by simp_all
  with Cons.prems have s: "ok (enq x q)" "content (enq x q) = content q @ [x]"
      "Suc (room (enq x q)) = room q"
    using enq_ok enq_content enq_room by blast+
  with Cons.prems have "length xs \<le> room (enq x q)" by simp
  with Cons.IH [OF s(1)] Cons.prems s show ?case by simp
qed simp

end

end
