(* ===== verification/NetAddr.thy ===== *)
theory NetAddr
  imports Prelude
begin

text \<open>
  Addresses and hash functions: \<open>uspace/include/common/types.h\<close> (IPv4/IPv6 addresses and
  address/port pairs), \<open>common/jhash.h\<close> (the Jenkins hash on bytes, on words, and on three
  words) and \<open>common/hashtable.h\<close> (the hash keys of addresses and of address/port/protocol
  triples). The union \<open>inet_address\<close> is its four 32-bit words; an IPv4 address is the first.
\<close>

section \<open>Addresses\<close>

text \<open>The value of \<open>AF_INET\<close> comes from the socket headers, which \<open>types.h\<close> includes first.\<close>

definition AF_INET :: int where "AF_INET = 2"

definition AF_INET6 :: int where "AF_INET6 = 10"

record ip_address =
  family :: int
  ip_w0 :: u32
  ip_w1 :: u32
  ip_w2 :: u32
  ip_w3 :: u32

record net_address =
  na_ip :: ip_address
  na_port :: u16

definition ip_address_eq :: "ip_address \<Rightarrow> ip_address \<Rightarrow> bool" where
  "ip_address_eq ip1 ip2 =
     (if family ip1 = family ip2 then
        (if family ip1 = AF_INET then ip_w0 ip1 = ip_w0 ip2
         else ip_w0 ip1 = ip_w0 ip2 \<and> ip_w1 ip1 = ip_w1 ip2 \<and>
              ip_w2 ip1 = ip_w2 ip2 \<and> ip_w3 ip1 = ip_w3 ip2)
      else False)"

definition ip_address_copy :: "ip_address \<Rightarrow> ip_address \<Rightarrow> ip_address" where
  "ip_address_copy dest src = src"

text \<open>An IPv4 address, for instances.\<close>

definition sample_ip :: "u32 \<Rightarrow> ip_address" where
  "sample_ip w = \<lparr>family = 2, ip_w0 = w, ip_w1 = 0, ip_w2 = 0, ip_w3 = 0\<rparr>"

definition ip_address_is_ipv4 :: "ip_address \<Rightarrow> bool" where
  "ip_address_is_ipv4 ip \<longleftrightarrow> family ip = AF_INET"

definition ip_address_get_ipv4 :: "ip_address \<Rightarrow> u32" where
  "ip_address_get_ipv4 ip = ip_w0 ip"

type_synonym in6 = "u32 \<times> u32 \<times> u32 \<times> u32"

definition ip_address_get_ipv6 :: "ip_address \<Rightarrow> in6" where
  "ip_address_get_ipv6 ip = (ip_w0 ip, ip_w1 ip, ip_w2 ip, ip_w3 ip)"

definition ip_address_init_v4 :: "ip_address \<Rightarrow> u32 \<Rightarrow> ip_address" where
  "ip_address_init_v4 ip ip4 = ip\<lparr>family := AF_INET, ip_w0 := ip4\<rparr>"

fun ip_address_init_v6 :: "ip_address \<Rightarrow> in6 \<Rightarrow> ip_address" where
  "ip_address_init_v6 ip (a, b, c, d) =
     ip\<lparr>family := AF_INET6, ip_w0 := a, ip_w1 := b, ip_w2 := c, ip_w3 := d\<rparr>"

text \<open>
  \<open>inet_addr\<close> and \<open>inet_pton\<close> are functions of the C library's resolver: parameters.
\<close>

definition net_address_init_v4 ::
  "(string \<Rightarrow> u32) \<Rightarrow> net_address \<Rightarrow> string \<Rightarrow> u16 \<Rightarrow> net_address" where
  "net_address_init_v4 inet_addr addr ip port =
     addr\<lparr>na_ip := ip_address_init_v4 (na_ip addr) (inet_addr ip), na_port := htons port\<rparr>"

definition net_address_init_v6 ::
  "(string \<Rightarrow> in6) \<Rightarrow> net_address \<Rightarrow> string \<Rightarrow> u16 \<Rightarrow> net_address" where
  "net_address_init_v6 inet_pton addr ip port =
     addr\<lparr>na_ip := ip_address_init_v6 (na_ip addr) (inet_pton ip), na_port := htons port\<rparr>"

lemma ip_address_eq_refl [simp]: "ip_address_eq a a"
  by (simp add: ip_address_eq_def)

lemma ip_address_eq_sym: "ip_address_eq a b \<longleftrightarrow> ip_address_eq b a"
  by (auto simp: ip_address_eq_def)

lemma ip_address_eq_trans: "ip_address_eq a b \<Longrightarrow> ip_address_eq b c \<Longrightarrow> ip_address_eq a c"
  by (auto simp: ip_address_eq_def split: if_splits)

lemma ip_address_eq_family: "ip_address_eq a b \<Longrightarrow> family a = family b"
  by (simp add: ip_address_eq_def split: if_splits)

lemma ip_address_eq_w0: "ip_address_eq a b \<Longrightarrow> ip_w0 a = ip_w0 b"
  by (simp add: ip_address_eq_def split: if_splits)

section \<open>Jenkins hash\<close>

definition jhash_mix :: "u32 \<times> u32 \<times> u32 \<Rightarrow> u32 \<times> u32 \<times> u32" where
  "jhash_mix = (\<lambda>(a, b, c).
     let a = a - b; a = a - c; a = a XOR drop_bit 13 c;
         b = b - c; b = b - a; b = b XOR push_bit 8 a;
         c = c - a; c = c - b; c = c XOR drop_bit 13 b;
         a = a - b; a = a - c; a = a XOR drop_bit 12 c;
         b = b - c; b = b - a; b = b XOR push_bit 16 a;
         c = c - a; c = c - b; c = c XOR drop_bit 5 b;
         a = a - b; a = a - c; a = a XOR drop_bit 3 c;
         b = b - c; b = b - a; b = b XOR push_bit 10 a;
         c = c - a; c = c - b; c = c XOR drop_bit 15 b
     in (a, b, c))"

definition JHASH_GOLDEN_RATIO :: u32 where
  "JHASH_GOLDEN_RATIO = 0x9e3779b9"

definition shl8 :: "u8 \<Rightarrow> nat \<Rightarrow> u32" where
  "shl8 x n = push_bit n (ucast x)"

text \<open>The loop of \<open>jhash\<close> over 12-byte blocks: the byte index, the remaining length, the state.\<close>

fun jhash_loop ::
  "bytes \<Rightarrow> nat \<Rightarrow> nat \<Rightarrow> u32 \<times> u32 \<times> u32 \<Rightarrow> nat \<times> nat \<times> u32 \<times> u32 \<times> u32" where
  "jhash_loop key k len (a, b, c) =
     (if 12 \<le> len then
        (let a = a + (shl8 (key k) 0 + shl8 (key (k+1)) 8 + shl8 (key (k+2)) 16 + shl8 (key (k+3)) 24);
             b = b + (shl8 (key (k+4)) 0 + shl8 (key (k+5)) 8 + shl8 (key (k+6)) 16 + shl8 (key (k+7)) 24);
             c = c + (shl8 (key (k+8)) 0 + shl8 (key (k+9)) 8 + shl8 (key (k+10)) 16 + shl8 (key (k+11)) 24)
         in jhash_loop key (k + 12) (len - 12) (jhash_mix (a, b, c)))
      else (k, len, a, b, c))"

declare jhash_loop.simps [simp del]

text \<open>The fall-through \<open>switch\<close>: case \<open>n\<close> runs for every remaining length of at least \<open>n\<close>.\<close>

definition jhash_tail :: "bytes \<Rightarrow> nat \<Rightarrow> nat \<Rightarrow> u32 \<times> u32 \<times> u32 \<Rightarrow> u32 \<times> u32 \<times> u32" where
  "jhash_tail key k len = (\<lambda>(a, b, c).
     let c = (if 11 \<le> len then c + shl8 (key (k+10)) 24 else c);
         c = (if 10 \<le> len then c + shl8 (key (k+9)) 16 else c);
         c = (if 9 \<le> len then c + shl8 (key (k+8)) 8 else c);
         b = (if 8 \<le> len then b + shl8 (key (k+7)) 24 else b);
         b = (if 7 \<le> len then b + shl8 (key (k+6)) 16 else b);
         b = (if 6 \<le> len then b + shl8 (key (k+5)) 8 else b);
         b = (if 5 \<le> len then b + shl8 (key (k+4)) 0 else b);
         a = (if 4 \<le> len then a + shl8 (key (k+3)) 24 else a);
         a = (if 3 \<le> len then a + shl8 (key (k+2)) 16 else a);
         a = (if 2 \<le> len then a + shl8 (key (k+1)) 8 else a);
         a = (if 1 \<le> len then a + shl8 (key k) 0 else a)
     in (a, b, c))"

definition jhash :: "bytes \<Rightarrow> u32 \<Rightarrow> u32 \<Rightarrow> u32" where
  "jhash key nbytes initval =
     (case jhash_loop key 0 (unat nbytes) (JHASH_GOLDEN_RATIO, JHASH_GOLDEN_RATIO, initval) of
        (k, len, a, b, c) \<Rightarrow>
          (case jhash_mix (jhash_tail key k len (a, b, c + nbytes)) of (a, b, c) \<Rightarrow> c))"

fun jhash2_loop ::
  "(nat \<Rightarrow> u32) \<Rightarrow> nat \<Rightarrow> nat \<Rightarrow> u32 \<times> u32 \<times> u32 \<Rightarrow> nat \<times> nat \<times> u32 \<times> u32 \<times> u32" where
  "jhash2_loop key k len (a, b, c) =
     (if 3 \<le> len then
        jhash2_loop key (k + 3) (len - 3) (jhash_mix (a + key k, b + key (k+1), c + key (k+2)))
      else (k, len, a, b, c))"

declare jhash2_loop.simps [simp del]

definition jhash2 :: "(nat \<Rightarrow> u32) \<Rightarrow> u32 \<Rightarrow> u32 \<Rightarrow> u32" where
  "jhash2 key nwords initval =
     (case jhash2_loop key 0 (unat nwords) (JHASH_GOLDEN_RATIO, JHASH_GOLDEN_RATIO, initval) of
        (k, len, a, b, c) \<Rightarrow>
          (let c = c + nwords * 4;
               b = (if 2 \<le> len then b + key (k+1) else b);
               a = (if 1 \<le> len then a + key k else a)
           in case jhash_mix (a, b, c) of (a, b, c) \<Rightarrow> c))"

definition jhash_3words :: "u32 \<Rightarrow> u32 \<Rightarrow> u32 \<Rightarrow> u32 \<Rightarrow> u32" where
  "jhash_3words a b c initval =
     (case jhash_mix (a + JHASH_GOLDEN_RATIO, b + JHASH_GOLDEN_RATIO, c + initval) of
        (a, b, c) \<Rightarrow> c)"

definition jhash_2words :: "u32 \<Rightarrow> u32 \<Rightarrow> u32 \<Rightarrow> u32" where
  "jhash_2words a b initval = jhash_3words a b 0 initval"

definition jhash_1word :: "u32 \<Rightarrow> u32 \<Rightarrow> u32" where
  "jhash_1word a initval = jhash_3words a 0 0 initval"

section \<open>Hash keys of addresses\<close>

text \<open>The 16 bytes of the address union in memory.\<close>

definition ip6_bytes :: "ip_address \<Rightarrow> bytes" where
  "ip6_bytes ip i =
     (let w = (if i < 4 then ip_w0 ip else if i < 8 then ip_w1 ip
               else if i < 12 then ip_w2 ip else ip_w3 ip)
      in ucast (drop_bit (8 * (i mod 4)) w))"

definition ip_address_hash :: "u32 \<Rightarrow> ip_address \<Rightarrow> u32" where
  "ip_address_hash hash_rand ip =
     (if family ip = AF_INET then jhash_1word (ip_w0 ip) hash_rand
      else jhash (ip6_bytes ip) 4 hash_rand)"

definition ip_port_proto_hash :: "u32 \<Rightarrow> ip_address \<Rightarrow> u32 \<Rightarrow> u32 \<Rightarrow> u32" where
  "ip_port_proto_hash hash_rand ip port proto =
     (if family ip = AF_INET then jhash_3words (ip_w0 ip) port proto hash_rand
      else
        let t = JHASH_GOLDEN_RATIO;
            t = t + port;
            t = t + proto;
            t = t + hash_rand
        in jhash (ip6_bytes ip) 4 t)"

lemma jhash_4_first_word:
  assumes "\<And>i. i < 4 \<Longrightarrow> k1 i = k2 i"
  shows "jhash k1 4 iv = jhash k2 4 iv"
  using assms by (simp add: jhash_def jhash_loop.simps jhash_tail_def)

text \<open>
  The length passed to \<open>jhash\<close> counts bytes, so only the first word of an IPv6 address
  enters the hash keys.
\<close>

lemma ip6_hash_first_word:
  assumes "ip_w0 a = ip_w0 b"
  shows "jhash (ip6_bytes a) 4 iv = jhash (ip6_bytes b) 4 iv"
  by (rule jhash_4_first_word) (simp add: ip6_bytes_def assms)

lemma ip_address_hash_eq:
  "ip_address_eq a b \<Longrightarrow> ip_address_hash r a = ip_address_hash r b"
  using ip_address_eq_family ip_address_eq_w0
  by (auto simp: ip_address_hash_def intro: ip6_hash_first_word)

lemma ip_port_proto_hash_eq:
  "ip_address_eq a b \<Longrightarrow> ip_port_proto_hash r a p q = ip_port_proto_hash r b p q"
  using ip_address_eq_family ip_address_eq_w0
  by (auto simp: ip_port_proto_hash_def Let_def intro!: ip6_hash_first_word)

section \<open>The word hash is the byte hash on the words' bytes\<close>

definition le_bytes :: "(nat \<Rightarrow> u32) \<Rightarrow> bytes" where
  "le_bytes key i = ucast (drop_bit (8 * (i mod 4)) (key (i div 4)))"

lemma shl8_sum:
  "shl8 (ucast w) 0 + shl8 (ucast (drop_bit 8 w)) 8 + shl8 (ucast (drop_bit 16 w)) 16
     + shl8 (ucast (drop_bit 24 w)) 24 = (w :: u32)"
proof -
  have "shl8 (ucast w) 0 + shl8 (ucast (drop_bit 8 w)) 8 = take_bit 16 w"
    unfolding shl8_def
    by (subst disjunctive_add) (auto simp: bit_simps intro!: bit_word_eqI)
  moreover have "take_bit 16 w + shl8 (ucast (drop_bit 16 w)) 16 = take_bit 24 w"
    unfolding shl8_def
    by (subst disjunctive_add) (auto simp: bit_simps intro!: bit_word_eqI)
  moreover have "take_bit 24 w + shl8 (ucast (drop_bit 24 w)) 24 = w"
    unfolding shl8_def
    by (subst disjunctive_add) (auto simp: bit_simps intro!: bit_word_eqI)
  ultimately show ?thesis by simp
qed

lemma le_bytes_word:
  "le_bytes key (4 * k) = ucast (key k)"
  "le_bytes key (4 * k + 1) = ucast (drop_bit 8 (key k))"
  "le_bytes key (4 * k + 2) = ucast (drop_bit 16 (key k))"
  "le_bytes key (4 * k + 3) = ucast (drop_bit 24 (key k))"
proof -
  have "(4 * k + 1) div 4 = k" "(4 * k + 2) div 4 = k" "(4 * k + 3) div 4 = k"
    and "(4 * k + 1) mod 4 = 1" "(4 * k + 2) mod 4 = 2" "(4 * k + 3) mod 4 = 3"
    by presburger+
  then show "le_bytes key (4 * k) = ucast (key k)"
    "le_bytes key (4 * k + 1) = ucast (drop_bit 8 (key k))"
    "le_bytes key (4 * k + 2) = ucast (drop_bit 16 (key k))"
    "le_bytes key (4 * k + 3) = ucast (drop_bit 24 (key k))"
    by (simp_all only: le_bytes_def) simp_all
qed

lemma le_bytes_sum:
  "shl8 (le_bytes key (4 * k)) 0 + shl8 (le_bytes key (4 * k + 1)) 8
     + shl8 (le_bytes key (4 * k + 2)) 16 + shl8 (le_bytes key (4 * k + 3)) 24 = key k"
  unfolding le_bytes_word by (rule shl8_sum)

lemma le_bytes_sum_next:
  "shl8 (le_bytes key (4 * k + 4)) 0 + shl8 (le_bytes key (4 * k + 5)) 8
     + shl8 (le_bytes key (4 * k + 6)) 16 + shl8 (le_bytes key (4 * k + 7)) 24 = key (k + 1)"
  "shl8 (le_bytes key (4 * k + 8)) 0 + shl8 (le_bytes key (4 * k + 9)) 8
     + shl8 (le_bytes key (4 * k + 10)) 16 + shl8 (le_bytes key (4 * k + 11)) 24 = key (k + 2)"
  using le_bytes_sum[of key "k + 1"] le_bytes_sum[of key "k + 2"]
  by (simp_all add: algebra_simps)

lemma jhash_loop_le_bytes:
  "jhash_loop (le_bytes key) (4 * k) (4 * n) st =
     (case jhash2_loop key k n st of (k', n', st') \<Rightarrow> (4 * k', 4 * n', st'))"
proof (induction key k n st rule: jhash2_loop.induct)
  case (1 key k n a b c)
  show ?case
  proof (cases "3 \<le> n")
    case True
    have "jhash_loop (le_bytes key) (4 * k) (4 * n) (a, b, c) =
       jhash_loop (le_bytes key) (4 * (k + 3)) (4 * (n - 3))
         (jhash_mix (a + key k, b + key (k + 1), c + key (k + 2)))"
    proof -
      have e: "4 * k + 12 = 4 * (k + 3)" "4 * n - 12 = 4 * (n - 3)" "12 \<le> 4 * n"
        using True by simp_all
      show ?thesis
        by (subst jhash_loop.simps) (simp only: Let_def le_bytes_sum le_bytes_sum_next e if_True)
    qed
    also have "\<dots> = (case jhash2_loop key (k + 3) (n - 3)
         (jhash_mix (a + key k, b + key (k + 1), c + key (k + 2)))
       of (k', n', st') \<Rightarrow> (4 * k', 4 * n', st'))"
      by (rule "1.IH" [OF True])
    finally show ?thesis using True by (simp add: jhash2_loop.simps)
  next
    case False
    then show ?thesis by (simp add: jhash2_loop.simps jhash_loop.simps)
  qed
qed

lemma jhash2_loop_rest: "jhash2_loop key k n st = (k', n', st') \<Longrightarrow> n' < 3"
proof (induction key k n st rule: jhash2_loop.induct)
  case (1 key k n a b c)
  then show ?case by (cases "3 \<le> n") (auto simp: jhash2_loop.simps)
qed

lemma jhash_tail_le_bytes:
  assumes "n < 3"
  shows "jhash_tail (le_bytes key) (4 * k) (4 * n) (a, b, c) =
    (if 1 \<le> n then a + key k else a, if 2 \<le> n then b + key (k + 1) else b, c)"
proof -
  have a: "a + shl8 (le_bytes key (4 * k + 3)) 24 + shl8 (le_bytes key (4 * k + 2)) 16
      + shl8 (le_bytes key (4 * k + 1)) 8 + shl8 (le_bytes key (4 * k)) 0 = a + key k"
    using le_bytes_sum[of key k] by (simp add: algebra_simps)
  have b: "b + shl8 (le_bytes key (4 * k + 7)) 24 + shl8 (le_bytes key (4 * k + 6)) 16
      + shl8 (le_bytes key (4 * k + 5)) 8 + shl8 (le_bytes key (4 * k + 4)) 0 = b + key (k + 1)"
    using le_bytes_sum_next(1)[of key k] by (simp add: algebra_simps)
  from assms consider "n = 0" | "n = 1" | "n = 2" by linarith
  then show ?thesis
    using a b by cases (simp_all add: jhash_tail_def Let_def)
qed

text \<open>
  C37: hashing a key of 32-bit words with \<open>jhash2\<close> is hashing its little-endian bytes with \<open>jhash\<close>, as
  long as the number of bytes fits in 32 bits.
\<close>

theorem jhash2_eq_jhash:
  assumes "4 * unat n < 2 ^ 32"
  shows "jhash2 key n iv = jhash (le_bytes key) (4 * n) iv"
proof -
  obtain k' n' a b c where l:
    "jhash2_loop key 0 (unat n) (JHASH_GOLDEN_RATIO, JHASH_GOLDEN_RATIO, iv) = (k', n', a, b, c)"
    by (metis prod_cases5)
  have u: "unat (4 * n) = 4 * unat n"
    using assms by (simp add: unat_word_ariths)
  have "jhash_loop (le_bytes key) 0 (4 * unat n) (JHASH_GOLDEN_RATIO, JHASH_GOLDEN_RATIO, iv)
      = (4 * k', 4 * n', a, b, c)"
    using jhash_loop_le_bytes [of key 0 "unat n"] l by simp
  then show ?thesis
    using l u jhash2_loop_rest [OF l]
    by (simp add: jhash2_def jhash_def jhash_tail_le_bytes Let_def mult.commute [of n 4])
qed

lemma jhash2_eq_jhash_witness:
  "4 * unat (3 :: u32) < 2 ^ 32 \<and> jhash2 (\<lambda>i. of_nat i) 3 5 = jhash (le_bytes (\<lambda>i. of_nat i)) (4 * 3) 5"
  using jhash2_eq_jhash [of 3 "\<lambda>i. of_nat i" 5] by simp

end
