(* ===== verification/Packet.thy ===== *)
theory Packet
  imports NetAddr
begin

text \<open>
  \<open>uspace/src/packet.c\<close> with \<open>packet.h\<close>: the packet buffers. Shared memory is cut into one zone per
  process and each zone into buffers of 2048 bytes: 1792 bytes of frame (\<open>p_data\<close>) and then the
  packet structure. A packet is named by the address of its structure. The second half of the
  file fills the structure from the headers of a received frame.
\<close>

section \<open>Packets\<close>

text \<open>Where a packet is on its way between processes (\<open>types/lf_queue.h\<close>).\<close>

datatype lfq_state = LFQ_START | LFQ_DISPATCH | LFQ_RECLAIM | LFQ_XMIT | LFQ_END

record packet =
  p_phys :: u64
  p_len :: u16
  p_size :: u16
  protocol_eth :: u16
  protocol_ip :: u8
  p_family :: u8
  adapter_idx :: u8
  p_lfq_state :: lfq_state
  p_id :: int
  p_saddr :: net_address
  p_daddr :: net_address
  transport_header :: nat
  network_header :: nat
  mac_header :: nat
  p_data :: bytes

definition PACKET_SIZE :: u64 where "PACKET_SIZE = 2048"

definition PACKET_OFFSET :: u64 where "PACKET_OFFSET = 1792"

definition PROTO_NULL :: u8 where "PROTO_NULL = 0"

definition PROTO_ICMP :: u8 where "PROTO_ICMP = 88"

definition PROTO_ICMPV6 :: u8 where "PROTO_ICMPV6 = 99"

definition PROTO_TCP :: u8 where "PROTO_TCP = 6"

definition PROTO_UDP :: u8 where "PROTO_UDP = 17"

definition PROTO_IP :: u16 where "PROTO_IP = 0x08"

definition PROTO_ARP :: u16 where "PROTO_ARP = 0x608"

definition PACKET_IS_ARP :: "packet \<Rightarrow> bool" where
  "PACKET_IS_ARP pkt \<longleftrightarrow> protocol_eth pkt = PROTO_ARP"

definition PACKET_IS_IPV4 :: "packet \<Rightarrow> bool" where
  "PACKET_IS_IPV4 pkt \<longleftrightarrow> int (unat (p_family pkt)) = AF_INET"

definition PACKET_IS_IPV6 :: "packet \<Rightarrow> bool" where
  "PACKET_IS_IPV6 pkt \<longleftrightarrow> int (unat (p_family pkt)) = AF_INET6"

definition PACKET_IS_IP :: "packet \<Rightarrow> bool" where
  "PACKET_IS_IP pkt \<longleftrightarrow> protocol_eth pkt = PROTO_IP"

definition PACKET_IS_TCP :: "packet \<Rightarrow> bool" where
  "PACKET_IS_TCP pkt \<longleftrightarrow> protocol_ip pkt = PROTO_TCP"

definition PACKET_IS_UDP :: "packet \<Rightarrow> bool" where
  "PACKET_IS_UDP pkt \<longleftrightarrow> protocol_ip pkt = PROTO_UDP"

definition PACKET_IS_ICMP :: "packet \<Rightarrow> bool" where
  "PACKET_IS_ICMP pkt \<longleftrightarrow> protocol_ip pkt = PROTO_ICMP"

definition PACKET_IS_ICMPV6 :: "packet \<Rightarrow> bool" where
  "PACKET_IS_ICMPV6 pkt \<longleftrightarrow> protocol_ip pkt = PROTO_ICMPV6"

datatype verdict = PACKET_ACCEPT | PACKET_DROP | PACKET_STOLEN

definition packet_of :: "u64 \<Rightarrow> u64" where
  "packet_of data = data + PACKET_OFFSET"

definition packet_data :: "u64 \<Rightarrow> u64" where
  "packet_data pkt = pkt - PACKET_OFFSET"

definition packet_set_data_len :: "packet \<Rightarrow> u16 \<Rightarrow> packet" where
  "packet_set_data_len pkt n = pkt\<lparr>p_len := n\<rparr>"

definition packet_get_dport :: "packet \<Rightarrow> u16" where
  "packet_get_dport pkt = na_port (p_daddr pkt)"

definition packet_get_sport :: "packet \<Rightarrow> u16" where
  "packet_get_sport pkt = na_port (p_saddr pkt)"

definition packet_get_sip :: "packet \<Rightarrow> ip_address" where
  "packet_get_sip pkt = na_ip (p_saddr pkt)"

definition packet_get_dip :: "packet \<Rightarrow> ip_address" where
  "packet_get_dip pkt = na_ip (p_daddr pkt)"

definition packet_get_transport_protocol :: "packet \<Rightarrow> u8" where
  "packet_get_transport_protocol pkt = protocol_ip pkt"

definition packet_set_lfq_state :: "packet \<Rightarrow> lfq_state \<Rightarrow> packet" where
  "packet_set_lfq_state pkt s = pkt\<lparr>p_lfq_state := s\<rparr>"

definition packet_get_lfq_state :: "packet \<Rightarrow> lfq_state" where
  "packet_get_lfq_state pkt = p_lfq_state pkt"

text \<open>An IPv4 frame with an empty TCP segment, for instances.\<close>

definition sample_packet :: packet where
  "sample_packet = \<lparr>p_phys = 0x200000, p_len = 54, p_size = 2048, protocol_eth = PROTO_IP, protocol_ip = PROTO_TCP,
     p_family = 2, adapter_idx = 0, p_lfq_state = LFQ_START, p_id = 0,
     p_saddr = \<lparr>na_ip = \<lparr>family = 2, ip_w0 = 1, ip_w1 = 0, ip_w2 = 0, ip_w3 = 0\<rparr>, na_port = 0\<rparr>,
     p_daddr = \<lparr>na_ip = \<lparr>family = 2, ip_w0 = 2, ip_w1 = 0, ip_w2 = 0, ip_w3 = 0\<rparr>, na_port = 0\<rparr>,
     transport_header = 34, network_header = 14, mac_header = 0,
     p_data = (\<lambda>_. 0)(12 := 8, 14 := 0x45, 17 := 40, 23 := 6, 26 := 1, 30 := 2)\<rparr>"

section \<open>Pools\<close>

record packet_pool =
  pp_num :: u64
  pp_list :: "ptr list"

definition packet_pool_create :: "heap \<Rightarrow> ptr option \<times> heap" where
  "packet_pool_create h = malloc h"

definition packet_pool_init :: packet_pool where
  "packet_pool_init = \<lparr>pp_num = 0, pp_list = []\<rparr>"

text \<open>A positive count of an empty list would unlink the list head as if it were a packet.\<close>

definition packet_pool_get :: "packet_pool \<Rightarrow> (ptr option \<times> packet_pool) res" where
  "packet_pool_get pp =
     (if 0 < pp_num pp then
        (case pp_list pp of
           [] \<Rightarrow> Inl Bad_deref
         | p # ps \<Rightarrow> Inr (Some p, pp\<lparr>pp_list := ps, pp_num := pp_num pp - 1\<rparr>))
      else Inr (None, pp))"

definition packet_pool_put :: "packet_pool \<Rightarrow> ptr \<Rightarrow> packet_pool" where
  "packet_pool_put pp p = pp\<lparr>pp_list := pp_list pp @ [p], pp_num := pp_num pp + 1\<rparr>"

text \<open>Both functions answer the pool and the list \<open>head\<close>.\<close>

definition packet_pool_get_all :: "packet_pool \<Rightarrow> ptr list \<Rightarrow> packet_pool \<times> ptr list" where
  "packet_pool_get_all pp head =
     (if 0 < pp_num pp then (pp\<lparr>pp_num := 0, pp_list := []\<rparr>, head @ pp_list pp) else (pp, head))"

fun packet_pool_put_all :: "packet_pool \<Rightarrow> ptr list \<Rightarrow> packet_pool \<times> ptr list" where
  "packet_pool_put_all pp [] = (pp, [])"
| "packet_pool_put_all pp (p # ps) = packet_pool_put_all (packet_pool_put pp p) ps"

section \<open>Zones\<close>

record packet_zone =
  start_all :: u64
  phys_all :: u64
  zone_start :: u64
  zone_phys :: u64
  zone_size :: u64
  zone_id :: int
  free_packet_pool :: packet_pool

definition packet_of_phys :: "packet_zone \<Rightarrow> u64 \<Rightarrow> u64" where
  "packet_of_phys z phys = packet_of (start_all z + (phys - phys_all z))"

definition packet_zone_create :: "heap \<Rightarrow> ptr option \<times> heap" where
  "packet_zone_create h = malloc h"

text \<open>\<open>mem\<close> is what the memory holds where a packet structure is placed.\<close>

definition packet_init ::
  "(ptr \<Rightarrow> packet) \<Rightarrow> u64 \<Rightarrow> u64 \<Rightarrow> int \<Rightarrow> packet store \<Rightarrow> ptr \<times> packet store" where
  "packet_init mem start phys i pkts =
     (let p = unat (packet_of start)
      in (p, pkts(p \<mapsto> (mem p)\<lparr>p_lfq_state := LFQ_END, p_phys := phys, p_len := 0,
                               p_size := ucast PACKET_SIZE, p_id := i\<rparr>)))"

fun add_packets_loop ::
  "nat \<Rightarrow> (ptr \<Rightarrow> packet) \<Rightarrow> u64 \<Rightarrow> u64 \<Rightarrow> int \<Rightarrow> packet_pool \<Rightarrow> packet store
     \<Rightarrow> packet_pool \<times> packet store" where
  "add_packets_loop 0 mem start phys i pool pkts = (pool, pkts)"
| "add_packets_loop (Suc n) mem start phys i pool pkts =
     (case packet_init mem start phys i pkts of (p, pkts) \<Rightarrow>
        add_packets_loop n mem (start + PACKET_SIZE) (phys + PACKET_SIZE) i (packet_pool_put pool p) pkts)"

definition pool_add_packets ::
  "(ptr \<Rightarrow> packet) \<Rightarrow> packet_zone \<Rightarrow> packet_pool \<Rightarrow> packet store \<Rightarrow> packet_pool \<times> packet store" where
  "pool_add_packets mem zone pool pkts =
     add_packets_loop (unat (zone_size zone div PACKET_SIZE)) mem (zone_start zone) (zone_phys zone)
       (zone_id zone) pool pkts"

definition packet_zone_init ::
  "(ptr \<Rightarrow> packet) \<Rightarrow> u64 \<Rightarrow> u64 \<Rightarrow> u64 \<Rightarrow> u64 \<Rightarrow> u64 \<Rightarrow> int \<Rightarrow> packet store
     \<Rightarrow> packet_zone \<times> packet store" where
  "packet_zone_init mem all_start all_phys start phys sz i pkts =
     (let zone = \<lparr>start_all = all_start, phys_all = all_phys, zone_start = start, zone_phys = phys,
                  zone_size = sz, zone_id = i, free_packet_pool = packet_pool_init\<rparr>
      in case pool_add_packets mem zone (free_packet_pool zone) pkts of (pool, pkts) \<Rightarrow>
           (zone\<lparr>free_packet_pool := pool\<rparr>, pkts))"

definition packet_module_init ::
  "(ptr \<Rightarrow> packet) \<Rightarrow> u64 \<Rightarrow> u64 \<Rightarrow> u64 \<Rightarrow> int \<Rightarrow> int \<Rightarrow> heap \<Rightarrow> packet store
     \<Rightarrow> (packet_zone option \<times> heap \<times> packet store) res" where
  "packet_module_init mem start phys sz nproc i h pkts =
     (if nproc = 0 \<or> sz \<le> 0 \<or> start \<le> 0 \<or> phys \<le> 0 then Inr (None, h, pkts)
      else
        let total_num = sz div PACKET_SIZE;
            num = total_num div of_int nproc;
            sz = num * PACKET_SIZE;
            all_phys = phys;
            all_start = start;
            start = start + sz * of_int i;
            phys = phys + sz * of_int i
        in case packet_zone_create h of
             (None, h) \<Rightarrow> Inl Bad_deref
           | (Some _, h) \<Rightarrow>
               (case packet_zone_init mem all_start all_phys start phys sz i pkts of (z, pkts) \<Rightarrow>
                  Inr (Some z, h, pkts)))"

definition packet_zone_reclaim :: "packet_zone \<Rightarrow> ptr list \<Rightarrow> packet_zone \<times> ptr list" where
  "packet_zone_reclaim z head =
     (case packet_pool_put_all (free_packet_pool z) head of (pp, head) \<Rightarrow>
        (z\<lparr>free_packet_pool := pp\<rparr>, head))"

definition packet_zone_get_free_packet_pool :: "packet_zone \<Rightarrow> packet_pool" where
  "packet_zone_get_free_packet_pool z = free_packet_pool z"

section \<open>Reading the headers\<close>

text \<open>
  Offsets in the frame: the ethernet header has 14 bytes, the type at 12; the IPv4 header has 20
  and the IPv6 header 40 bytes; a TCP or UDP header starts with the two ports.
\<close>

definition ETH_HDR :: nat where "ETH_HDR = 14"

definition IP_HDR :: nat where "IP_HDR = 20"

definition IP6_HDR :: nat where "IP6_HDR = 40"

definition eth_proto :: "bytes \<Rightarrow> u16" where "eth_proto d = ld16 d 12"

definition ip_version :: "bytes \<Rightarrow> u8" where "ip_version d = drop_bit 4 (d ETH_HDR)"

definition ip_tot_len :: "bytes \<Rightarrow> nat \<Rightarrow> u16" where "ip_tot_len d nh = ld16 d (nh + 2)"

definition ip_protocol :: "bytes \<Rightarrow> nat \<Rightarrow> u8" where "ip_protocol d nh = d (nh + 9)"

definition ip_saddr :: "bytes \<Rightarrow> nat \<Rightarrow> u32" where "ip_saddr d nh = ld32 d (nh + 12)"

definition ip_daddr :: "bytes \<Rightarrow> nat \<Rightarrow> u32" where "ip_daddr d nh = ld32 d (nh + 16)"

definition ip6_payload_len :: "bytes \<Rightarrow> nat \<Rightarrow> u16" where "ip6_payload_len d nh = ld16 d (nh + 4)"

definition ip6_nexthdr :: "bytes \<Rightarrow> nat \<Rightarrow> u8" where "ip6_nexthdr d nh = d (nh + 6)"

definition ld_in6 :: "bytes \<Rightarrow> nat \<Rightarrow> in6" where
  "ld_in6 d i = (ld32 d i, ld32 d (i + 4), ld32 d (i + 8), ld32 d (i + 12))"

definition ip6_saddr :: "bytes \<Rightarrow> nat \<Rightarrow> in6" where "ip6_saddr d nh = ld_in6 d (nh + 8)"

definition ip6_daddr :: "bytes \<Rightarrow> nat \<Rightarrow> in6" where "ip6_daddr d nh = ld_in6 d (nh + 24)"

definition set_ports :: "packet \<Rightarrow> u16 \<Rightarrow> u16 \<Rightarrow> packet" where
  "set_ports pkt sport dport =
     pkt\<lparr>p_saddr := (p_saddr pkt)\<lparr>na_port := sport\<rparr>, p_daddr := (p_daddr pkt)\<lparr>na_port := dport\<rparr>\<rparr>"

text \<open>The port variables are uninitialised (\<open>junk\<close>) for ICMP; success is \<open>True\<close>.\<close>

definition packet_init_port :: "u16 \<times> u16 \<Rightarrow> packet \<Rightarrow> nat \<Rightarrow> u8 \<Rightarrow> bool \<times> packet" where
  "packet_init_port junk pkt header proto =
     (if proto = PROTO_TCP \<or> proto = PROTO_UDP then
        (True, set_ports pkt (ld16 (p_data pkt) header) (ld16 (p_data pkt) (header + 2)))
      else if proto = PROTO_ICMP \<or> proto = PROTO_ICMPV6 then
        (True, set_ports pkt (fst junk) (snd junk))
      else (False, pkt))"

definition set_v4 :: "ip_address \<Rightarrow> u32 \<Rightarrow> ip_address" where
  "set_v4 ip a = ip\<lparr>family := AF_INET, ip_w0 := a\<rparr>"

fun set_v6 :: "ip_address \<Rightarrow> in6 \<Rightarrow> ip_address" where
  "set_v6 ip (a, b, c, d) = ip\<lparr>family := AF_INET6, ip_w0 := a, ip_w1 := b, ip_w2 := c, ip_w3 := d\<rparr>"

definition set_ips :: "packet \<Rightarrow> (ip_address \<Rightarrow> ip_address) \<Rightarrow> (ip_address \<Rightarrow> ip_address) \<Rightarrow> packet" where
  "set_ips pkt f g =
     pkt\<lparr>p_saddr := (p_saddr pkt)\<lparr>na_ip := f (na_ip (p_saddr pkt))\<rparr>,
         p_daddr := (p_daddr pkt)\<lparr>na_ip := g (na_ip (p_daddr pkt))\<rparr>\<rparr>"

definition packet_recv_init_arp :: "packet \<Rightarrow> bool \<times> packet" where
  "packet_recv_init_arp pkt =
     (let d = p_data pkt;
          pkt = pkt\<lparr>p_family := of_int AF_INET, protocol_ip := PROTO_NULL\<rparr>;
          pkt = set_ips pkt (\<lambda>ip. set_v4 ip (ld32 d (ETH_HDR + 14))) (\<lambda>ip. set_v4 ip (ld32 d (ETH_HDR + 24)))
      in (True, pkt\<lparr>transport_header := 0, network_header := ETH_HDR, mac_header := 0\<rparr>))"

definition packet_recv_init_ipv4 :: "u16 \<times> u16 \<Rightarrow> packet \<Rightarrow> bool \<times> packet" where
  "packet_recv_init_ipv4 junk pkt =
     (let d = p_data pkt;
          pkt = pkt\<lparr>p_family := of_int AF_INET, protocol_ip := ip_protocol d ETH_HDR\<rparr>;
          header = ETH_HDR + IP_HDR
      in case packet_init_port junk pkt header (ip_protocol d ETH_HDR) of
           (False, pkt) \<Rightarrow> (False, pkt)
         | (True, pkt) \<Rightarrow>
             let pkt = set_ips pkt (\<lambda>ip. set_v4 ip (ip_saddr d ETH_HDR)) (\<lambda>ip. set_v4 ip (ip_daddr d ETH_HDR))
             in (True, pkt\<lparr>transport_header := header, network_header := ETH_HDR, mac_header := 0\<rparr>))"

definition packet_recv_init_ipv6 :: "u16 \<times> u16 \<Rightarrow> packet \<Rightarrow> bool \<times> packet" where
  "packet_recv_init_ipv6 junk pkt =
     (let d = p_data pkt;
          pkt = pkt\<lparr>p_family := of_int AF_INET6, protocol_ip := ip6_nexthdr d ETH_HDR\<rparr>;
          header = ETH_HDR + IP6_HDR
      in case packet_init_port junk pkt header (protocol_ip pkt) of
           (False, pkt) \<Rightarrow> (False, pkt)
         | (True, pkt) \<Rightarrow>
             let pkt = set_ips pkt (\<lambda>ip. set_v6 ip (ip6_saddr d ETH_HDR)) (\<lambda>ip. set_v6 ip (ip6_daddr d ETH_HDR))
             in (True, pkt\<lparr>transport_header := header, network_header := ETH_HDR, mac_header := 0\<rparr>))"

definition packet_recv_init :: "u16 \<times> u16 \<Rightarrow> packet \<Rightarrow> bool \<times> packet" where
  "packet_recv_init junk pkt =
     (let pkt = pkt\<lparr>p_lfq_state := LFQ_START, protocol_eth := eth_proto (p_data pkt)\<rparr>
      in if PACKET_IS_IP pkt then
           (if ip_version (p_data pkt) = 4 then packet_recv_init_ipv4 junk pkt
            else packet_recv_init_ipv6 junk pkt)
         else if PACKET_IS_ARP pkt then packet_recv_init_arp pkt
         else (False, pkt))"

text \<open>
  The iteration is safe for removal: it visits the nodes linked at its start. State: the packets,
  the list \<open>head\<close> and the list \<open>drop_out\<close>.
\<close>

definition filter_step ::
  "(ptr \<Rightarrow> u16 \<times> u16) \<Rightarrow> ptr \<Rightarrow> packet store \<times> ptr list \<times> ptr list \<Rightarrow> (packet store \<times> ptr list \<times> ptr list) res" where
  "filter_step junk pos = (\<lambda>(pkts, head, drop_out).
     bindE (deref pkts pos) (\<lambda>pkt.
       case packet_recv_init (junk pos) pkt of
         (True, pkt) \<Rightarrow> Inr (pkts(pos \<mapsto> pkt), head, drop_out)
       | (False, pkt) \<Rightarrow> Inr (pkts(pos \<mapsto> pkt), remove1 pos head, drop_out @ [pos])))"

definition packet_init_and_filter ::
  "(ptr \<Rightarrow> u16 \<times> u16) \<Rightarrow> packet store \<Rightarrow> ptr list \<Rightarrow> ptr list \<Rightarrow> (packet store \<times> ptr list \<times> ptr list) res" where
  "packet_init_and_filter junk pkts head drop_out = foldE (filter_step junk) head (pkts, head, drop_out)"

section \<open>Pools keep count\<close>

definition pool_count_ok :: "packet_pool \<Rightarrow> bool" where
  "pool_count_ok pp \<longleftrightarrow> unat (pp_num pp) = length (pp_list pp)"

lemma pool_get_spec:
  assumes "pool_count_ok pp"
  shows "\<exists>pp'. packet_pool_get pp = Inr (case pp_list pp of [] \<Rightarrow> None | p # _ \<Rightarrow> Some p, pp')
    \<and> pp_list pp' = tl (pp_list pp) \<and> pool_count_ok pp'"
proof (cases "pp_list pp")
  case Nil
  then show ?thesis using assms by (simp add: pool_count_ok_def packet_pool_get_def word_less_nat_alt)
next
  case (Cons p ps)
  then have n: "unat (pp_num pp) = Suc (length ps)" using assms by (simp add: pool_count_ok_def)
  then have "pp_num pp \<noteq> 0" by auto
  moreover have "unat (pp_num pp - 1) = length ps"
    using n unat_minus_one [of "pp_num pp"] \<open>pp_num pp \<noteq> 0\<close> by simp
  ultimately show ?thesis
    using Cons by (simp add: packet_pool_get_def pool_count_ok_def word_neq_0_conv [symmetric])
qed

lemma pool_put_all_spec:
  "packet_pool_put_all pp ps = (pp\<lparr>pp_list := pp_list pp @ ps, pp_num := pp_num pp + of_nat (length ps)\<rparr>, [])"
proof (induction ps arbitrary: pp)
  case (Cons p ps)
  then show ?case by (simp add: packet_pool_put_def)
qed simp

lemma pool_put_all_count:
  assumes "pool_count_ok pp" "length (pp_list pp) + length ps < 2 ^ 64"
  shows "pool_count_ok (fst (packet_pool_put_all pp ps))"
  using assms
  by (simp add: pool_put_all_spec pool_count_ok_def unat_word_ariths u64_unat_of_nat)

lemma pool_get_all_spec:
  assumes "pool_count_ok pp"
  shows "snd (packet_pool_get_all pp head) = head @ pp_list pp"
    and "pp_list (fst (packet_pool_get_all pp head)) = []" "pool_count_ok (fst (packet_pool_get_all pp head))"
proof -
  have "0 < pp_num pp \<longleftrightarrow> pp_list pp \<noteq> []"
    using assms by (auto simp: pool_count_ok_def word_less_nat_alt)
  with assms show "snd (packet_pool_get_all pp head) = head @ pp_list pp"
    "pp_list (fst (packet_pool_get_all pp head)) = []" "pool_count_ok (fst (packet_pool_get_all pp head))"
    by (auto simp: packet_pool_get_all_def pool_count_ok_def)
qed

section \<open>Zones are disjoint and physical addresses find their packets\<close>

text \<open>The packets of \<open>n\<close> buffers from \<open>start\<close> on.\<close>

definition buffer :: "u64 \<Rightarrow> nat \<Rightarrow> u64" where
  "buffer start k = start + of_nat k * PACKET_SIZE"

lemma buffer_Suc: "buffer (start + PACKET_SIZE) k = buffer start (Suc k)"
  by (simp add: buffer_def algebra_simps)

text \<open>The \<open>k\<close>-th address, and what the loop leaves there: a later buffer may fall on an earlier one.\<close>

abbreviation pkt_at :: "u64 \<Rightarrow> nat \<Rightarrow> ptr" where
  "pkt_at start k \<equiv> unat (packet_of (buffer start k))"

definition inited :: "packet store \<Rightarrow> u64 \<Rightarrow> u64 \<Rightarrow> nat \<Rightarrow> int \<Rightarrow> nat \<Rightarrow> bool" where
  "inited pkts start phys n i k \<longleftrightarrow> (\<exists>j < n. \<exists>pkt. pkt_at start j = pkt_at start k \<and>
     pkts (pkt_at start k) = Some pkt \<and> p_phys pkt = buffer phys j \<and> p_id pkt = i)"

lemma pkt_at_Suc: "pkt_at (start + PACKET_SIZE) k = pkt_at start (Suc k)"
  by (simp add: buffer_Suc)

lemma inited_Suc:
  assumes "inited pkts (start + PACKET_SIZE) (phys + PACKET_SIZE) n i m"
  shows "inited pkts start phys (Suc n) i (Suc m)"
proof -
  obtain j pkt where "j < n" "pkt_at start (Suc j) = pkt_at start (Suc m)"
     "pkts (pkt_at start (Suc m)) = Some pkt" "p_phys pkt = buffer phys (Suc j)" "p_id pkt = i"
    using assms unfolding inited_def pkt_at_Suc buffer_Suc by blast
  then show ?thesis unfolding inited_def by (intro exI [of _ "Suc j"]) simp
qed

lemma inited_same:
  "pkt_at start k = pkt_at start m \<Longrightarrow> inited pkts start phys n i m \<Longrightarrow> inited pkts start phys n i k"
  unfolding inited_def by simp

lemma add_packets_loop_spec:
  "add_packets_loop n mem start phys i pool pkts = (pool', pkts') \<Longrightarrow>
     pp_list pool' = pp_list pool @ map (pkt_at start) [0..<n] \<and>
     pp_num pool' = pp_num pool + of_nat n \<and>
     (\<forall>p. p \<notin> pkt_at start ` {0..<n} \<longrightarrow> pkts' p = pkts p) \<and>
     (\<forall>k < n. inited pkts' start phys n i k)"
proof (induction n arbitrary: start phys pool pkts)
  case (Suc n)
  let ?p = "unat (packet_of start)"
  let ?pk = "(mem ?p)\<lparr>p_lfq_state := LFQ_END, p_phys := phys, p_len := 0,
      p_size := ucast PACKET_SIZE, p_id := i\<rparr>"
  have p0: "?p = pkt_at start 0" by (simp add: buffer_def)
  obtain pk where "pk = ?pk" by simp
  then have pk: "p_phys pk = phys" "p_id pk = i"
    and rec: "add_packets_loop n mem (start + PACKET_SIZE) (phys + PACKET_SIZE) i (packet_pool_put pool ?p)
      (pkts(?p \<mapsto> pk)) = (pool', pkts')"
    using Suc.prems by (auto simp: packet_init_def Let_def)
  note IH = Suc.IH [OF rec]
  let ?later = "pkt_at (start + PACKET_SIZE) ` {0..<n}"
  have up: "[0..<Suc n] = 0 # map Suc [0..<n]" by (simp add: map_Suc_upt upt_conv_Cons)
  have sets: "pkt_at start ` {0..<Suc n} = insert ?p ?later"
  proof -
    have "{0..<Suc n} = insert 0 (Suc ` {0..<n})" by (metis list.simps(15) set_map set_upt up)
    then show ?thesis by (simp only: image_insert image_image pkt_at_Suc p0)
  qed
  have "pp_list pool' = pp_list pool @ map (pkt_at start) [0..<Suc n]"
    using IH by (simp add: up packet_pool_put_def p0 comp_def pkt_at_Suc del: upt_Suc)
  moreover have "pp_num pool' = pp_num pool + of_nat (Suc n)"
    using IH by (simp add: packet_pool_put_def)
  moreover have frame: "pkts' p = (pkts(?p \<mapsto> pk)) p" if "p \<notin> ?later" for p
    using IH that by blast
  moreover have "inited pkts' start phys (Suc n) i k" if "k < Suc n" for k
  proof (cases "pkt_at start k \<in> ?later")
    case True
    then obtain m where m: "m < n" "pkt_at start k = pkt_at start (Suc m)" by (auto simp: pkt_at_Suc)
    then show ?thesis using IH inited_Suc inited_same by blast
  next
    case False
    then have "k = 0" using that by (cases k) (auto simp: pkt_at_Suc)
    then have "pkts' (pkt_at start 0) = Some pk" using frame [of "pkt_at start 0"] False p0 by simp
    then show ?thesis
      using \<open>k = 0\<close> pk by (auto simp: inited_def buffer_def intro!: exI [of _ 0])
  qed
  ultimately show ?case by (simp only: sets) auto
qed simp

text \<open>Buffers of memory that does not wrap around have distinct addresses.\<close>

lemma buffer_unat:
  assumes "unat start + n * 2048 \<le> 2 ^ 64" "k < n"
  shows "unat (packet_of (buffer start k)) = unat start + k * 2048 + 1792"
proof -
  have "buffer start k + PACKET_OFFSET = of_nat (unat start + k * 2048 + 1792)"
    by (simp add: buffer_def PACKET_SIZE_def PACKET_OFFSET_def)
  moreover have "unat start + k * 2048 + 1792 < 18446744073709551616" using assms by simp
  ultimately show ?thesis by (simp only: packet_of_def u64_unat_of_nat)
qed

lemma round_trip_phys:
  "start_all z = start \<Longrightarrow> phys_all z = phys \<Longrightarrow> packet_of_phys z (buffer phys k) = packet_of (buffer start k)"
  by (simp add: packet_of_phys_def buffer_def)

text \<open>
  One process's share: \<open>num\<close> buffers from buffer number \<open>num * i\<close> on, all of them in its free
  pool, and every packet of it is found again from its physical address by any process.
\<close>

definition zone_packets :: "u64 \<Rightarrow> nat \<Rightarrow> nat \<Rightarrow> ptr list" where
  "zone_packets start num i = map (\<lambda>k. unat (packet_of (buffer start (num * i + k)))) [0..<num]"

definition zone_share :: "u64 \<Rightarrow> nat \<Rightarrow> nat" where
  "zone_share sz nproc = unat sz div 2048 div nproc"

lemma zone_fits:
  assumes "i < nproc" "k < zone_share sz nproc"
  shows "zone_share sz nproc * i + k < unat sz div 2048"
proof -
  let ?n = "zone_share sz nproc"
  have "?n * i + k < ?n * Suc i" using assms(2) by simp
  also have "\<dots> \<le> ?n * nproc" using assms(1) by (intro mult_le_mono2) simp
  also have "\<dots> \<le> unat sz div 2048" by (simp add: zone_share_def)
  finally show ?thesis .
qed

text \<open>
  C28: the zone of a process holds exactly the packets of the process's share of the buffer memory, each
  initialised with the process's number and found again from its physical address.
\<close>

theorem packet_module_init_spec:
  assumes np: "i < nproc" "nproc < 2 ^ 31"
    and mem: "0 < start" "0 < phys" "0 < sz" "unat start + unat sz \<le> 2 ^ 64" and q: "0 < quota h"
  shows "\<exists>z h' pkts'. packet_module_init mem start phys sz (int nproc) (int i) h pkts = Inr (Some z, h', pkts') \<and>
    start_all z = start \<and> phys_all z = phys \<and> zone_id z = int i \<and>
    pp_list (free_packet_pool z) = zone_packets start (zone_share sz nproc) i \<and>
    pool_count_ok (free_packet_pool z) \<and>
    (\<forall>p. p \<notin> set (pp_list (free_packet_pool z)) \<longrightarrow> pkts' p = pkts p) \<and>
    (\<forall>p \<in> set (pp_list (free_packet_pool z)). \<exists>pkt. pkts' p = Some pkt \<and> p_id pkt = int i \<and>
       unat (packet_of_phys z (p_phys pkt)) = p)"
proof -
  let ?n = "zone_share sz nproc"
  let ?b = "?n * i"
  have n_word: "sz div PACKET_SIZE div of_nat nproc = (of_nat ?n :: u64)"
  proof -
    have "unat (of_nat nproc :: u64) = nproc"
      using np by (simp add: u64_unat_of_nat)
    then have "unat (sz div PACKET_SIZE div of_nat nproc) = ?n"
      by (simp add: unat_div zone_share_def PACKET_SIZE_def)
    then show ?thesis by (metis word_unat_eq_iff word_of_nat_eq_iff unsigned_of_nat of_nat_unat ucast_id)
  qed
  have n_le: "?n * 2048 \<le> unat sz"
  proof -
    have "?n * 2048 \<le> unat sz div 2048 * 2048" by (intro mult_le_mono1) (simp add: zone_share_def)
    then show ?thesis using div_times_less_eq_dividend [of "unat sz" 2048] by linarith
  qed
  then have n_bound: "?n < 9007199254740992" using u64_less [of sz] by linarith
  let ?sz = "of_nat ?n * PACKET_SIZE :: u64"
  have sz_unat: "unat ?sz = ?n * 2048"
  proof -
    have "?sz = of_nat (?n * 2048)" by (simp add: PACKET_SIZE_def)
    moreover have "?n * 2048 < 18446744073709551616" using n_bound by linarith
    ultimately show ?thesis by (simp only: u64_unat_of_nat)
  qed
  have cnt: "unat (?sz div PACKET_SIZE) = ?n"
  proof -
    have "unat PACKET_SIZE = 2048" by (simp add: PACKET_SIZE_def)
    then show ?thesis by (simp only: unat_div sz_unat)
  qed
  have off: "start + ?sz * of_nat i = buffer start ?b" "phys + ?sz * of_nat i = buffer phys ?b"
    by (simp_all add: buffer_def algebra_simps)
  obtain h1 where h1: "packet_zone_create h = (Some (brk h), h1)" using q by (simp add: packet_zone_create_def malloc_def)
  obtain pool pkts' where loop:
    "add_packets_loop ?n mem (buffer start ?b) (buffer phys ?b) (int i) packet_pool_init pkts = (pool, pkts')"
    by fastforce
  let ?z = "\<lparr>start_all = start, phys_all = phys, zone_start = buffer start ?b, zone_phys = buffer phys ?b,
     zone_size = ?sz, zone_id = int i, free_packet_pool = pool\<rparr>"
  have res: "packet_module_init mem start phys sz (int nproc) (int i) h pkts = Inr (Some ?z, h1, pkts')"
    using np mem h1 loop
    by (simp add: packet_module_init_def packet_zone_init_def pool_add_packets_def n_word off cnt Let_def word_neq_0_conv)
  have bb: "buffer (buffer s ?b) k = buffer s (?b + k)" for s k
    by (simp add: buffer_def algebra_simps)
  note L = add_packets_loop_spec [OF loop]
  have list: "pp_list pool = zone_packets start ?n i" using L by (simp add: packet_pool_init_def zone_packets_def bb)
  have inj: "?b + j = ?b + k"
    if "j < ?n" "k < ?n" "unat (packet_of (buffer start (?b + j))) = unat (packet_of (buffer start (?b + k)))" for j k
  proof -
    have fit: "unat start + unat sz div 2048 * 2048 \<le> 2 ^ 64" using mem(4) div_times_less_eq_dividend [of "unat sz" 2048] by linarith
    show ?thesis
      using that buffer_unat [OF fit zone_fits [OF np(1)]] by simp
  qed
  have "\<exists>pkt. pkts' p = Some pkt \<and> p_id pkt = int i \<and> unat (packet_of_phys ?z (p_phys pkt)) = p"
    if p: "p \<in> set (pp_list pool)" for p
  proof -
    obtain k where k: "k < ?n" "p = unat (packet_of (buffer start (?b + k)))"
      using p list by (auto simp: zone_packets_def)
    then obtain j pkt where j: "j < ?n" "unat (packet_of (buffer start (?b + j))) = p"
       "pkts' p = Some pkt" "p_phys pkt = buffer phys (?b + j)" "p_id pkt = int i"
      using L unfolding inited_def bb by blast
    have "packet_of_phys ?z (p_phys pkt) = packet_of (buffer start (?b + j))"
      unfolding j(4) by (rule round_trip_phys) simp_all
    with j show ?thesis by auto
  qed
  moreover have "pool_count_ok pool"
    using L n_bound by (simp add: pool_count_ok_def packet_pool_init_def u64_unat_of_nat)
  moreover have "\<forall>p. p \<notin> set (pp_list pool) \<longrightarrow> pkts' p = pkts p"
    using L list by (simp add: zone_packets_def bb)
  ultimately show ?thesis using res list by (intro exI [of _ ?z] exI [of _ h1] exI [of _ pkts']) simp
qed

lemma packet_module_init_spec_witness:
  "\<exists>z h' pkts'. packet_module_init (\<lambda>_. sample_packet) 0x100000 0x200000 8192 2 1 \<lparr>brk = 0, quota = 1\<rparr> Map.empty
      = Inr (Some z, h', pkts') \<and> zone_id z = 1 \<and> pool_count_ok (free_packet_pool z)"
  using packet_module_init_spec [where i = 1 and nproc = 2 and start = "0x100000" and phys = "0x200000" and sz = 8192 and
      mem = "\<lambda>_. sample_packet" and h = "\<lparr>brk = 0, quota = 1\<rparr>" and pkts = Map.empty] by auto

lemma zone_packets_disjoint:
  assumes mem: "unat start + unat sz \<le> 2 ^ 64" and "i < nproc" "j < nproc" "i \<noteq> j"
  shows "set (zone_packets start (zone_share sz nproc) i) \<inter> set (zone_packets start (zone_share sz nproc) j) = {}"
proof -
  let ?n = "zone_share sz nproc"
  have fit: "unat start + unat sz div 2048 * 2048 \<le> 2 ^ 64" using mem div_times_less_eq_dividend [of "unat sz" 2048] by linarith
  have "False" if k: "k < ?n" "l < ?n"
    "unat (packet_of (buffer start (?n * i + k))) = unat (packet_of (buffer start (?n * j + l)))" for k l
  proof -
    have "?n * i + k = ?n * j + l"
      using k buffer_unat [OF fit zone_fits [OF assms(2) k(1)]] buffer_unat [OF fit zone_fits [OF assms(3) k(2)]]
      by simp
    then have "(?n * i + k) div ?n = (?n * j + l) div ?n" by simp
    with k assms(4) show False by simp
  qed
  then show ?thesis by (auto simp: zone_packets_def)
qed

section \<open>The filter keeps the supported packets\<close>

definition supported :: "u8 \<Rightarrow> bool" where
  "supported proto \<longleftrightarrow> proto = PROTO_TCP \<or> proto = PROTO_UDP \<or> proto = PROTO_ICMP \<or> proto = PROTO_ICMPV6"

definition accepted :: "bytes \<Rightarrow> bool" where
  "accepted d \<longleftrightarrow> eth_proto d = PROTO_ARP \<or>
     (eth_proto d = PROTO_IP \<and>
      supported (if ip_version d = 4 then ip_protocol d ETH_HDR else ip6_nexthdr d ETH_HDR))"

lemmas parse_defs = packet_recv_init_def packet_recv_init_ipv4_def packet_recv_init_ipv6_def
  packet_recv_init_arp_def packet_init_port_def set_ports_def set_ips_def Let_def

lemma recv_init_accepts: "fst (packet_recv_init junk pkt) = accepted (p_data pkt)"
  by (simp add: parse_defs accepted_def supported_def PACKET_IS_IP_def PACKET_IS_ARP_def
      PROTO_IP_def PROTO_ARP_def)

lemma recv_init_frame:
  "p_data (snd (packet_recv_init junk pkt)) = p_data pkt"
  "p_len (snd (packet_recv_init junk pkt)) = p_len pkt"
  "p_phys (snd (packet_recv_init junk pkt)) = p_phys pkt"
  "p_id (snd (packet_recv_init junk pkt)) = p_id pkt"
  "adapter_idx (snd (packet_recv_init junk pkt)) = adapter_idx pkt"
  "p_lfq_state (snd (packet_recv_init junk pkt)) = LFQ_START"
  "protocol_eth (snd (packet_recv_init junk pkt)) = eth_proto (p_data pkt)"
  by (simp_all add: parse_defs)

text \<open>The fields of an accepted IPv4 packet with ports, and of an ARP packet.\<close>

lemma recv_init_ipv4:
  assumes "eth_proto (p_data pkt) = PROTO_IP" "ip_version (p_data pkt) = 4"
    and "ip_protocol (p_data pkt) ETH_HDR = PROTO_TCP \<or> ip_protocol (p_data pkt) ETH_HDR = PROTO_UDP"
    and q_def: "q = snd (packet_recv_init junk pkt)"
  shows "PACKET_IS_IPV4 q" "PACKET_IS_IP q" "protocol_ip q = ip_protocol (p_data pkt) ETH_HDR"
    and "family (packet_get_sip q) = AF_INET" "ip_w0 (packet_get_sip q) = ip_saddr (p_data pkt) ETH_HDR"
    and "family (packet_get_dip q) = AF_INET" "ip_w0 (packet_get_dip q) = ip_daddr (p_data pkt) ETH_HDR"
    and "packet_get_sport q = ld16 (p_data pkt) 34" "packet_get_dport q = ld16 (p_data pkt) 36"
    and "network_header q = 14" "transport_header q = 34" "mac_header q = 0"
  using assms(1-3) unfolding q_def
  by (auto simp: parse_defs PACKET_IS_IP_def PACKET_IS_IPV4_def AF_INET_def set_v4_def ETH_HDR_def IP_HDR_def
      packet_get_sip_def packet_get_dip_def packet_get_sport_def packet_get_dport_def)

lemma recv_init_arp:
  assumes "eth_proto (p_data pkt) = PROTO_ARP" and q_def: "q = snd (packet_recv_init junk pkt)"
  shows "PACKET_IS_ARP q" "protocol_ip q = PROTO_NULL" "network_header q = 14" "mac_header q = 0"
    and "family (packet_get_sip q) = AF_INET" "ip_w0 (packet_get_sip q) = ld32 (p_data pkt) 28"
    and "family (packet_get_dip q) = AF_INET" "ip_w0 (packet_get_dip q) = ld32 (p_data pkt) 38"
  using assms(1) unfolding q_def
  by (simp_all add: parse_defs PACKET_IS_IP_def PACKET_IS_ARP_def PROTO_IP_def PROTO_ARP_def set_v4_def ETH_HDR_def
      packet_get_sip_def packet_get_dip_def)

lemma filter_loop:
  assumes "distinct todo" "set todo \<subseteq> dom pkts" "set todo \<subseteq> set head" "distinct head"
  shows "foldE (filter_step junk) todo (pkts, head, drop_out)
    = Inr (\<lambda>p. if p \<in> set todo then map_option (\<lambda>pkt. snd (packet_recv_init (junk p) pkt)) (pkts p) else pkts p,
           filter (\<lambda>p. p \<in> set todo \<longrightarrow> accepted (p_data (the (pkts p)))) head,
           drop_out @ filter (\<lambda>p. \<not> accepted (p_data (the (pkts p)))) todo)"
  using assms
proof (induction todo arbitrary: pkts head drop_out)
  case (Cons p ps)
  obtain pkt where pkt: "pkts p = Some pkt" using Cons.prems(2) by auto
  let ?q = "snd (packet_recv_init (junk p) pkt)"
  have p: "p \<notin> set ps" "distinct ps" using Cons.prems(1) by simp_all
  let ?pkts = "pkts(p \<mapsto> ?q)"
  let ?head = "if accepted (p_data pkt) then head else remove1 p head"
  let ?out = "if accepted (p_data pkt) then drop_out else drop_out @ [p]"
  have step: "filter_step junk p (pkts, head, drop_out) = Inr (?pkts, ?head, ?out)"
    using pkt recv_init_accepts [of "junk p" pkt]
    by (cases "packet_recv_init (junk p) pkt") (auto simp: filter_step_def split: bool.splits)
  have h: "distinct ?head" "set ps \<subseteq> set ?head"
    using Cons.prems p by (auto simp: set_remove1_eq)
  have d: "set ps \<subseteq> dom ?pkts" using Cons.prems(2) by auto
  have 1: "(\<lambda>q. if q \<in> set ps then map_option (\<lambda>pkt. snd (packet_recv_init (junk q) pkt)) (?pkts q) else ?pkts q)
      = (\<lambda>q. if q \<in> set (p # ps) then map_option (\<lambda>pkt. snd (packet_recv_init (junk q) pkt)) (pkts q) else pkts q)"
    using p pkt by auto
  have 2: "filter (\<lambda>q. q \<in> set ps \<longrightarrow> accepted (p_data (the (?pkts q)))) ?head
      = filter (\<lambda>q. q \<in> set (p # ps) \<longrightarrow> accepted (p_data (the (pkts q)))) head"
  proof (cases "accepted (p_data pkt)")
    case True
    then show ?thesis using pkt p by (auto intro!: filter_cong)
  next
    case False
    have "remove1 p head = filter (\<lambda>q. q \<noteq> p) head"
      using Cons.prems(4) by (simp add: distinct_remove1_removeAll removeAll_filter_not_eq eq_commute)
    then show ?thesis using False pkt p by (auto intro!: filter_cong)
  qed
  have 3: "?out @ filter (\<lambda>q. \<not> accepted (p_data (the (?pkts q)))) ps
      = drop_out @ filter (\<lambda>q. \<not> accepted (p_data (the (pkts q)))) (p # ps)"
    using pkt p by (auto intro!: filter_cong)
  show ?case
    using step Cons.IH [OF p(2) d h(2) h(1), of ?out] by (simp only: foldE.simps bindE.simps 1 2 3)
qed simp

lemma packet_init_and_filter_ok:
  assumes "distinct head" "set head \<subseteq> dom pkts"
  shows "packet_init_and_filter junk pkts head drop_out
    = Inr (\<lambda>p. if p \<in> set head then map_option (\<lambda>pkt. snd (packet_recv_init (junk p) pkt)) (pkts p) else pkts p,
           filter (\<lambda>p. accepted (p_data (the (pkts p)))) head,
           drop_out @ filter (\<lambda>p. \<not> accepted (p_data (the (pkts p)))) head)"
  unfolding packet_init_and_filter_def
  using filter_loop [OF assms(1,2) subset_refl assms(1), of junk drop_out]
  by (simp cong: filter_cong)



end
