(* ===== verification/LfQueue.thy ===== *)
theory LfQueue
  imports RingBuffer Packet
begin

text \<open>
  \<open>uspace/src/lf_queue.c\<close>: the lock-free queues between processes. Every ordered pair of
  processes has one queue in shared memory, a ring of physical packet addresses written by the
  sender only and read by the receiver only. Here the operations are functions of the shared
  queues, each run without interference; \<open>LfqProtocol\<close> takes them apart into atomic steps.
\<close>

section \<open>Queues and their layout\<close>

record lf_queue =
  lq_size :: nat
  lq_list :: "ptr list"
  lq_head :: nat
  lq_tail :: nat
  lq_desc :: "u64 list"

record lfq =
  lfq_nproc :: int
  lfq_id :: int
  lfq_desc_num :: int
  lfq_module_size :: int
  lfq_queue_size :: int
  lfq_start :: ptr
  recv_queue :: "ptr list"
  send_queue :: "ptr list"

definition ALIGN_BYTES :: int where "ALIGN_BYTES = 64"

text \<open>
  \<open>sizeof(struct lf_queue)\<close>: \<open>head\<close> and \<open>tail\<close> each start a cache line of 64 bytes, the
  descriptors follow the tail at offset 136, and the size is a multiple of the alignment.
\<close>

definition SIZEOF_LF_QUEUE :: int where "SIZEOF_LF_QUEUE = 192"

definition OFFSET_DESC :: int where "OFFSET_DESC = 136"

definition lf_queue_aligned_size :: "int \<Rightarrow> int" where
  "lf_queue_aligned_size desc_num =
     (let align = ALIGN_BYTES;
          sz = SIZEOF_LF_QUEUE + 8 * desc_num
      in ((sz + align - 1) div align) * align)"

definition lf_queue_num :: "int \<Rightarrow> int" where
  "lf_queue_num n = n * n"

text \<open>\<open>getpagesize\<close> is a value of the system.\<close>

definition lfq_calc_module_size :: "int \<Rightarrow> int \<Rightarrow> int \<Rightarrow> int" where
  "lfq_calc_module_size pagesize n desc_num =
     (let sz = lf_queue_aligned_size desc_num;
          total = sz * lf_queue_num n
      in ((total + pagesize - 1) div pagesize) * pagesize)"

definition lf_queue_at :: "lfq \<Rightarrow> int \<Rightarrow> int \<Rightarrow> ptr" where
  "lf_queue_at q row column = lfq_start q + nat ((row * lfq_nproc q + column) * lfq_queue_size q)"

text \<open>\<open>mem\<close> is what the shared memory holds where the descriptors of a queue are.\<close>

definition lfq_queue_create_init ::
  "(ptr \<Rightarrow> nat \<Rightarrow> u64) \<Rightarrow> lfq \<Rightarrow> int \<Rightarrow> int \<Rightarrow> lf_queue store \<Rightarrow> ptr \<times> lf_queue store" where
  "lfq_queue_create_init mem q row column queues =
     (let a = lf_queue_at q row column
      in (a, queues(a \<mapsto> \<lparr>lq_size = nat (lfq_desc_num q), lq_list = [], lq_head = 0, lq_tail = 0,
                           lq_desc = map (mem a) [0..<nat (lfq_desc_num q)]\<rparr>)))"

definition init_pair ::
  "(ptr \<Rightarrow> nat \<Rightarrow> u64) \<Rightarrow> nat \<Rightarrow> lfq \<times> lf_queue store \<Rightarrow> lfq \<times> lf_queue store" where
  "init_pair mem i = (\<lambda>(q, queues).
     case lfq_queue_create_init mem q (lfq_id q) (int i) queues of (a, queues) \<Rightarrow>
     case lfq_queue_create_init mem q (int i) (lfq_id q) queues of (b, queues) \<Rightarrow>
       (q\<lparr>recv_queue := recv_queue q @ [a], send_queue := send_queue q @ [b]\<rparr>, queues))"

text \<open>An early return for lack of memory keeps what was allocated before.\<close>

definition lfq_module_init ::
  "int \<Rightarrow> (ptr \<Rightarrow> nat \<Rightarrow> u64) \<Rightarrow> int \<Rightarrow> int \<Rightarrow> int \<Rightarrow> ptr option \<Rightarrow> lf_queue store \<Rightarrow> heap
     \<Rightarrow> lfq option \<times> lf_queue store \<times> heap" where
  "lfq_module_init pagesize mem n my_id desc_num start queues h =
     (case start of None \<Rightarrow> (None, queues, h) | Some start \<Rightarrow>
      if n = 0 \<or> my_id < 0 \<or> n \<le> my_id \<or> desc_num \<le> 0 then (None, queues, h)
      else case malloc h of
        (None, h) \<Rightarrow> (None, queues, h)
      | (Some _, h) \<Rightarrow>
          (case malloc h of (recv, h) \<Rightarrow> case malloc h of (send, h) \<Rightarrow>
             if recv = None \<or> send = None then (None, queues, h)
             else
               let q = \<lparr>lfq_nproc = n, lfq_id = my_id, lfq_desc_num = desc_num,
                        lfq_module_size = lfq_calc_module_size pagesize n desc_num,
                        lfq_queue_size = lf_queue_aligned_size desc_num, lfq_start = start,
                        recv_queue = [], send_queue = []\<rparr>
               in case fold (init_pair mem) [0..<nat n] (q, queues) of (q, queues) \<Rightarrow> (Some q, queues, h)))"

definition lfq_get_module_size :: "lfq \<Rightarrow> int" where
  "lfq_get_module_size q = lfq_module_size q"

definition lfq_free :: "lfq \<Rightarrow> heap \<Rightarrow> int \<times> heap" where
  "lfq_free q h = (1, mfree (mfree (mfree h)))"

section \<open>Receiving and sending\<close>

text \<open>
  The loop of \<open>__get_packet_from_queue\<close>: index, list and count; \<open>bCAS\<close> on the head then finds the
  value read at the start, or the program exits.
\<close>

fun get_loop ::
  "nat \<Rightarrow> packet_zone \<Rightarrow> lf_queue \<Rightarrow> nat \<Rightarrow> nat \<Rightarrow> ptr list \<Rightarrow> nat \<Rightarrow> (nat \<times> ptr list \<times> nat) res" where
  "get_loop 0 z queue tail i lhead count = Inl Diverges"
| "get_loop (Suc fuel) z queue tail i lhead count =
     (if i \<noteq> tail then
        bindE (arr_get (lq_desc queue) i) (\<lambda>phys.
          let lhead = lhead @ [unat (packet_of_phys z phys)];
              count = count + 1;
              i = i + 1;
              i = (if lq_size queue \<le> i then 0 else i)
          in get_loop fuel z queue tail i lhead count)
      else Inr (i, lhead, count))"

definition cas_head :: "lf_queue \<Rightarrow> nat \<Rightarrow> nat \<Rightarrow> lf_queue res" where
  "cas_head queue old new = (if lq_head queue = old then Inr (queue\<lparr>lq_head := new\<rparr>) else Inl Exit_call)"

definition cas_tail :: "lf_queue \<Rightarrow> nat \<Rightarrow> nat \<Rightarrow> lf_queue res" where
  "cas_tail queue old new = (if lq_tail queue = old then Inr (queue\<lparr>lq_tail := new\<rparr>) else Inl Exit_call)"

definition get_packet_from_queue :: "packet_zone \<Rightarrow> lf_queue \<Rightarrow> ptr list \<Rightarrow> (nat \<times> lf_queue \<times> ptr list) res" where
  "get_packet_from_queue z queue lhead =
     (let head = lq_head queue;
          tail = lq_tail queue
      in bindE (get_loop (Suc (lq_size queue)) z queue tail head lhead 0) (\<lambda>(i, lhead, count).
           if 0 < count then bindE (cas_head queue head i) (\<lambda>queue. Inr (count, queue, lhead))
           else Inr (count, queue, lhead)))"

text \<open>The \<open>do\<close> loop of \<open>__put_packet_to_queue\<close>.\<close>

fun put_loop ::
  "nat \<Rightarrow> packet store \<Rightarrow> nat \<Rightarrow> nat \<Rightarrow> nat \<Rightarrow> lf_queue \<Rightarrow> ptr list \<Rightarrow> nat \<Rightarrow> (nat \<times> lf_queue \<times> ptr list \<times> nat) res" where
  "put_loop 0 pkts head i i_next queue lhead count = Inl Diverges"
| "put_loop (Suc fuel) pkts head i i_next queue lhead count =
     (case lhead of
        [] \<Rightarrow> Inr (i, queue, lhead, count)
      | p # ps \<Rightarrow>
          bindE (deref pkts p) (\<lambda>pkt.
          bindE (arr_set (lq_desc queue) i (p_phys pkt)) (\<lambda>d.
            let queue = queue\<lparr>lq_desc := d\<rparr>;
                count = count + 1;
                i = i_next;
                i_next = i_next + 1;
                i_next = (if lq_size queue \<le> i_next then 0 else i_next)
            in if i_next \<noteq> head then put_loop fuel pkts head i i_next queue ps count
               else Inr (i, queue, ps, count))))"

definition put_packet_to_queue :: "packet store \<Rightarrow> lf_queue \<Rightarrow> ptr list \<Rightarrow> (nat \<times> lf_queue \<times> ptr list) res" where
  "put_packet_to_queue pkts queue lhead =
     (let head = lq_head queue;
          tail = lq_tail queue
      in if lq_size queue = 0 then Inl Bad_arith
         else
           let i_next = (tail + 1) mod lq_size queue
           in if i_next = head then Inr (0, queue, lhead)
              else bindE (put_loop (Suc (lq_size queue)) pkts head tail i_next queue lhead 0)
                (\<lambda>(i, queue, lhead, count).
                   if 0 < count then bindE (cas_tail queue tail i) (\<lambda>queue. Inr (count, queue, lhead))
                   else Inr (count, queue, lhead)))"

text \<open>\<open>__lfq_recv\<close> over all other processes; the state is the shared queues and the list.\<close>

definition recv_from ::
  "packet_zone \<Rightarrow> lfq \<Rightarrow> nat \<Rightarrow> nat \<times> lf_queue store \<times> ptr list \<Rightarrow> (nat \<times> lf_queue store \<times> ptr list) res" where
  "recv_from z q i = (\<lambda>(count, queues, head).
     if int i \<noteq> lfq_id q then
       bindE (arr_get (recv_queue q) i) (\<lambda>a.
       bindE (deref queues a) (\<lambda>queue.
       bindE (get_packet_from_queue z queue head) (\<lambda>(n, queue, head).
         Inr (count + n, queues(a \<mapsto> queue), head))))
     else Inr (count, queues, head))"

definition lfq_recv :: "packet_zone \<Rightarrow> lfq \<Rightarrow> lf_queue store \<Rightarrow> ptr list \<Rightarrow> (nat \<times> lf_queue store \<times> ptr list) res" where
  "lfq_recv z q queues head = foldE (recv_from z q) [0..<nat (lfq_nproc q)] (0, queues, head)"

definition lfq_send :: "lfq \<Rightarrow> lf_queue store \<Rightarrow> ptr \<Rightarrow> int \<Rightarrow> lf_queue store res" where
  "lfq_send q queues p i =
     (if i < 0 then Inl Bad_index
      else bindE (arr_get (send_queue q) (nat i)) (\<lambda>a.
           bindE (deref queues a) (\<lambda>queue.
             Inr (queues(a \<mapsto> queue\<lparr>lq_list := lq_list queue @ [p]\<rparr>)))))"

definition flush_to ::
  "packet store \<Rightarrow> lfq \<Rightarrow> nat \<Rightarrow> nat \<times> lf_queue store \<Rightarrow> (nat \<times> lf_queue store) res" where
  "flush_to pkts q i = (\<lambda>(count, queues).
     bindE (arr_get (send_queue q) i) (\<lambda>a.
     bindE (deref queues a) (\<lambda>queue.
       if int i \<noteq> lfq_id q then
         bindE (put_packet_to_queue pkts queue (lq_list queue)) (\<lambda>(n, queue, rest).
           Inr (count + n, queues(a \<mapsto> queue\<lparr>lq_list := rest\<rparr>)))
       else Inr (count, queues))))"

definition lfq_send_flush :: "packet store \<Rightarrow> lfq \<Rightarrow> lf_queue store \<Rightarrow> (nat \<times> lf_queue store) res" where
  "lfq_send_flush pkts q queues = foldE (flush_to pkts q) [0..<nat (lfq_nproc q)] (0, queues)"

text \<open>Packets of other processes are taken from the list and sent home.\<close>

definition reclaim_step ::
  "lfq \<Rightarrow> ptr \<Rightarrow> packet store \<times> lf_queue store \<times> ptr list \<Rightarrow> (packet store \<times> lf_queue store \<times> ptr list) res" where
  "reclaim_step q pos = (\<lambda>(pkts, queues, head).
     bindE (deref pkts pos) (\<lambda>pkt.
       if p_id pkt \<noteq> lfq_id q then
         let head = remove1 pos head;
             pkts = pkts(pos \<mapsto> packet_set_lfq_state pkt LFQ_RECLAIM)
         in bindE (lfq_send q queues pos (p_id pkt)) (\<lambda>queues. Inr (pkts, queues, head))
       else Inr (pkts, queues, head)))"

definition lfq_reclaim_filter ::
  "lfq \<Rightarrow> packet store \<Rightarrow> lf_queue store \<Rightarrow> ptr list \<Rightarrow> (packet store \<times> lf_queue store \<times> ptr list) res" where
  "lfq_reclaim_filter q pkts queues head =
     (if head \<noteq> [] then
        bindE (foldE (reclaim_step q) head (pkts, queues, head)) (\<lambda>(pkts, queues, head).
        bindE (lfq_send_flush pkts q queues) (\<lambda>(_, queues). Inr (pkts, queues, head)))
      else Inr (pkts, queues, head))"

section \<open>The layout is sound\<close>

lemma round_up_bounds:
  fixes a :: int
  assumes "0 < a"
  shows "x \<le> (x + a - 1) div a * a" "(x + a - 1) div a * a < x + a" "((x + a - 1) div a * a) mod a = 0"
proof -
  let ?y = "x + a - 1"
  have "?y = ?y div a * a + ?y mod a" by simp
  moreover have "0 \<le> ?y mod a" "?y mod a < a" using assms by simp_all
  ultimately show "x \<le> ?y div a * a" "?y div a * a < x + a" by linarith+
qed simp

text \<open>The descriptors of a queue end within its share, and all shares within the module.\<close>

lemma aligned_size_covers:
  "OFFSET_DESC + 8 * n \<le> lf_queue_aligned_size n" "lf_queue_aligned_size n mod 64 = 0"
  using round_up_bounds [of 64 "192 + 8 * n"]
  by (simp_all add: lf_queue_aligned_size_def ALIGN_BYTES_def SIZEOF_LF_QUEUE_def OFFSET_DESC_def Let_def)

lemma queue_shares:
  assumes r: "0 \<le> row" "row < n" and c: "0 \<le> col" "col < n" and p: "0 < pagesize"
    and sz_def: "sz = lf_queue_aligned_size d" and d: "0 \<le> d"
  shows "(row * n + col) * sz + sz \<le> lfq_calc_module_size pagesize n d"
proof -
  have sz: "0 < sz" using aligned_size_covers(1) [of d] d by (simp add: sz_def OFFSET_DESC_def)
  have "row * n + col + 1 \<le> (n - 1) * n + n"
    using r c mult_right_mono [of row "n - 1" n] by linarith
  then have "row * n + col + 1 \<le> n * n" by (simp add: algebra_simps)
  then have "(row * n + col + 1) * sz \<le> n * n * sz" using sz by (intro mult_right_mono) simp_all
  moreover have "n * n * sz \<le> lfq_calc_module_size pagesize n d"
    using round_up_bounds(1) [OF p, of "sz * (n * n)"]
    by (simp add: lfq_calc_module_size_def lf_queue_num_def sz_def Let_def mult.commute)
  ultimately show ?thesis by (simp add: algebra_simps)
qed

lemma row_col_inj:
  fixes n :: int
  assumes "0 \<le> c" "c < n" "0 \<le> c'" "c' < n" "r * n + c = r' * n + c'"
  shows "r = r' \<and> c = c'"
proof -
  have "(a * n + b) div n = a" if "0 \<le> b" "b < n" for a b
    using that by (simp add: add.commute [of "a * n"] div_pos_pos_trivial)
  then have "(r * n + c) div n = r" "(r' * n + c') div n = r'" using assms by blast+
  then have "r = r'" using assms(5) by metis
  with assms(5) show ?thesis by simp
qed

lemma lf_queue_at_apart:
  assumes q: "lfq_queue_size q = lf_queue_aligned_size (lfq_desc_num q)" "0 < lfq_desc_num q" "0 < lfq_nproc q"
    and i: "0 \<le> r" "0 \<le> c" "c < lfq_nproc q" "0 \<le> r'" "0 \<le> c'" "c' < lfq_nproc q"
    and ne: "(r, c) \<noteq> (r', c')"
  shows "lf_queue_at q r c + nat (lfq_queue_size q) \<le> lf_queue_at q r' c' \<or>
         lf_queue_at q r' c' + nat (lfq_queue_size q) \<le> lf_queue_at q r c"
proof -
  let ?n = "lfq_nproc q" and ?sz = "lfq_queue_size q"
  have sz: "0 < ?sz" using aligned_size_covers(1) [of "lfq_desc_num q"] q by (simp add: OFFSET_DESC_def)
  have pos: "0 \<le> r * ?n + c" "0 \<le> r' * ?n + c'" using i q(3) by simp_all
  have step: "nat (a * ?sz) + nat ?sz \<le> nat (b * ?sz)" if "a < b" "0 \<le> a" for a b
  proof -
    have "(a + 1) * ?sz \<le> b * ?sz" using that sz by (intro mult_right_mono) simp_all
    then have "a * ?sz + ?sz \<le> b * ?sz" by (simp add: algebra_simps)
    moreover have "0 \<le> a * ?sz" using that sz by simp
    ultimately show ?thesis using sz by linarith
  qed
  have "r * ?n + c \<noteq> r' * ?n + c'" using row_col_inj [of c ?n c' r r'] i ne by auto
  then consider "r * ?n + c < r' * ?n + c'" | "r' * ?n + c' < r * ?n + c" by linarith
  then show ?thesis
  proof cases
    case 1
    from step [OF this pos(1)] show ?thesis by (simp add: lf_queue_at_def)
  next
    case 2
    from step [OF this pos(2)] show ?thesis by (simp add: lf_queue_at_def)
  qed
qed

section \<open>A queue is a bounded buffer\<close>

definition lq_ok :: "lf_queue \<Rightarrow> bool" where
  "lq_ok q \<longleftrightarrow> 0 < lq_size q \<and> length (lq_desc q) = lq_size q \<and> lq_head q < lq_size q \<and> lq_tail q < lq_size q"

definition lq_content :: "lf_queue \<Rightarrow> u64 list" where
  "lq_content q = between (lq_desc q) (lq_head q) (lq_tail q)"

definition lq_room :: "lf_queue \<Rightarrow> nat" where
  "lq_room q = lq_size q - 1 - length (lq_content q)"

lemma wrap_eq: "i < n \<Longrightarrow> (if n \<le> Suc i then 0 else Suc i) = Suc i mod (n :: nat)"
  by (auto simp: mod_Suc_eq_if)

lemma get_loop_spec:
  assumes q: "length (lq_desc q) = lq_size q" and t: "t < lq_size q"
  shows "i < lq_size q \<Longrightarrow> used (lq_size q) i t < fuel \<Longrightarrow>
    get_loop fuel z q t i lhead count
      = Inr (t, lhead @ map (\<lambda>phys. unat (packet_of_phys z phys)) (between (lq_desc q) i t),
             count + used (lq_size q) i t)"
proof (induction fuel arbitrary: i lhead count)
  case (Suc fuel)
  show ?case
  proof (cases "i = t")
    case True
    then show ?thesis using t q by simp
  next
    case False
    let ?i = "Suc i mod lq_size q"
    have i: "?i < lq_size q" using Suc.prems by simp
    have u: "used (lq_size q) i t = Suc (used (lq_size q) ?i t)"
      using used_Suc_head [OF Suc.prems(1) t] False by blast
    have "between (lq_desc q) i t = lq_desc q ! i # between (lq_desc q) ?i t"
      using between_read [of i "lq_desc q" t] Suc.prems(1) t q False by simp
    moreover have "get_loop (Suc fuel) z q t i lhead count
        = get_loop fuel z q t ?i (lhead @ [unat (packet_of_phys z (lq_desc q ! i))]) (count + 1)"
      using False Suc.prems(1) q wrap_eq [OF Suc.prems(1)] by (simp add: Let_def split del: if_split cong: if_cong)
    ultimately show ?thesis
      using Suc.IH [OF i] Suc.prems u by (simp del: get_loop.simps)
  qed
qed simp

text \<open>Receiving empties the queue: every packet, in order, none twice.\<close>

lemma get_packet_spec:
  assumes ok: "lq_ok q"
  shows "\<exists>q'. get_packet_from_queue z q lhead
      = Inr (length (lq_content q), q', lhead @ map (\<lambda>phys. unat (packet_of_phys z phys)) (lq_content q)) \<and>
    q' = q\<lparr>lq_head := lq_tail q\<rparr> \<and> lq_ok q' \<and> lq_content q' = []"
proof -
  have s: "0 < lq_size q" "length (lq_desc q) = lq_size q" "lq_head q < lq_size q" "lq_tail q < lq_size q"
    using ok by (auto simp: lq_ok_def)
  have len: "length (lq_content q) = used (lq_size q) (lq_head q) (lq_tail q)"
    by (simp add: lq_content_def length_between s)
  have fuel: "used (lq_size q) (lq_head q) (lq_tail q) < Suc (lq_size q)"
    using used_less [of "lq_size q" "lq_head q" "lq_tail q"] s(1) by linarith
  note loop = get_loop_spec [OF s(2,4,3) fuel, of z lhead 0]
  let ?q = "q\<lparr>lq_head := lq_tail q\<rparr>"
  have "get_packet_from_queue z q lhead
      = Inr (length (lq_content q), ?q, lhead @ map (\<lambda>phys. unat (packet_of_phys z phys)) (lq_content q))"
  proof (cases "lq_head q = lq_tail q")
    case True
    then have "?q = q" by simp
    with True loop s len show ?thesis
      by (simp add: get_packet_from_queue_def lq_content_def del: get_loop.simps)
  next
    case False
    then have "0 < used (lq_size q) (lq_head q) (lq_tail q)" using used_eq_0 [OF s(3,4)] by simp
    then show ?thesis using loop len
      by (simp add: get_packet_from_queue_def cas_head_def lq_content_def [symmetric] del: get_loop.simps)
  qed
  moreover have "lq_ok ?q" "lq_content ?q = []" using s by (simp_all add: lq_ok_def lq_content_def)
  ultimately show ?thesis by blast
qed

text \<open>
  Sending moves the longest prefix of the list that fits, in order; the loop works on the queue
  whose tail is its index.
\<close>

lemma put_loop_spec:
  "length (lq_desc q) = lq_size q \<Longrightarrow> h < lq_size q \<Longrightarrow> i < lq_size q \<Longrightarrow> Suc i mod lq_size q \<noteq> h \<Longrightarrow>
    set lhead \<subseteq> dom pkts \<Longrightarrow> lq_size q - 1 - used (lq_size q) h i < fuel \<Longrightarrow>
    \<exists>d i'. let k = min (length lhead) (lq_size q - 1 - used (lq_size q) h i) in
      put_loop fuel pkts h i (Suc i mod lq_size q) q lhead count
        = Inr (i', q\<lparr>lq_desc := d\<rparr>, drop k lhead, count + k) \<and>
      length d = lq_size q \<and> i' < lq_size q \<and>
      between d h i' = between (lq_desc q) h i @ map (\<lambda>p. p_phys (the (pkts p))) (take k lhead)"
proof (induction fuel arbitrary: i q lhead count)
  case (Suc fuel)
  show ?case
  proof (cases lhead)
    case Nil
    then show ?thesis using Suc.prems by (intro exI [of _ "lq_desc q"] exI [of _ i]) simp
  next
    case (Cons p ps)
    then obtain pkt where pkt: "pkts p = Some pkt" using Suc.prems by auto
    let ?s = "lq_size q"
    let ?i = "Suc i mod ?s"
    let ?q = "q\<lparr>lq_desc := (lq_desc q)[i := p_phys pkt]\<rparr>"
    have i: "?i < ?s" using Suc.prems by simp
    have b: "between (lq_desc ?q) h ?i = between (lq_desc q) h i @ [p_phys pkt]"
      using between_write [of h "lq_desc q" i "p_phys pkt"] Suc.prems by simp
    have u: "used ?s h ?i = Suc (used ?s h i)" using used_Suc_tail Suc.prems by simp
    have nx: "(if ?s \<le> Suc ?i then 0 else Suc ?i) = Suc ?i mod ?s" using wrap_eq [OF i] .
    have le: "used ?s h ?i \<le> ?s - 1" using used_less [of ?s h ?i] Suc.prems by linarith
    show ?thesis
    proof (cases "Suc ?i mod ?s = h")
      case True
      then have full: "used ?s h ?i = ?s - 1" using used_full [OF Suc.prems(2) i] by simp
      then have "min (length lhead) (?s - 1 - used ?s h i) = 1" using u Cons by simp
      then show ?thesis
        using Cons pkt Suc.prems nx True b i
        by (intro exI [of _ "(lq_desc q)[i := p_phys pkt]"] exI [of _ ?i]) (simp add: Let_def)
    next
      case False
      have pre: "length (lq_desc ?q) = lq_size ?q" "h < lq_size ?q" "?i < lq_size ?q" "Suc ?i mod lq_size ?q \<noteq> h"
        "set ps \<subseteq> dom pkts" "lq_size ?q - 1 - used (lq_size ?q) h ?i < fuel"
        using Suc.prems Cons i False u le by auto
      obtain d i' where d: "put_loop fuel pkts h ?i (Suc ?i mod ?s) ?q ps (count + 1)
          = Inr (i', q\<lparr>lq_desc := d\<rparr>, drop (min (length ps) (?s - 1 - used ?s h ?i)) ps,
                 count + 1 + min (length ps) (?s - 1 - used ?s h ?i))"
        "length d = ?s" "i' < ?s"
        "between d h i' = between (lq_desc ?q) h ?i
           @ map (\<lambda>p. p_phys (the (pkts p))) (take (min (length ps) (?s - 1 - used ?s h ?i)) ps)"
        using Suc.IH [OF pre, of "count + 1"] by (auto simp: Let_def)
      have k: "min (length lhead) (?s - 1 - used ?s h i) = Suc (min (length ps) (?s - 1 - used ?s h ?i))"
        using u le Cons by simp
      show ?thesis
        unfolding k Let_def using Cons pkt Suc.prems nx False d b
        by (intro exI [of _ d] exI [of _ i']) (simp add: Let_def)
    qed
  qed
qed simp

lemma put_packet_spec:
  assumes ok: "lq_ok q" and known: "set lhead \<subseteq> dom pkts"
  defines "k \<equiv> min (length lhead) (lq_room q)"
  shows "\<exists>q'. put_packet_to_queue pkts q lhead = Inr (k, q', drop k lhead) \<and> lq_ok q' \<and>
    lq_content q' = lq_content q @ map (\<lambda>p. p_phys (the (pkts p))) (take k lhead) \<and>
    lq_size q' = lq_size q \<and> lq_head q' = lq_head q \<and> lq_list q' = lq_list q"
proof -
  let ?s = "lq_size q" and ?h = "lq_head q" and ?t = "lq_tail q"
  have s: "0 < ?s" "length (lq_desc q) = ?s" "?h < ?s" "?t < ?s" using ok by (auto simp: lq_ok_def)
  have room: "lq_room q = ?s - 1 - used ?s ?h ?t" by (simp add: lq_room_def lq_content_def length_between s)
  show ?thesis
  proof (cases "Suc ?t mod ?s = ?h")
    case True
    then have "used ?s ?h ?t = ?s - 1" using used_full [OF s(3,4)] by simp
    then have "k = 0" using room by (simp add: k_def)
    then show ?thesis using True s ok by (intro exI [of _ q]) (simp add: put_packet_to_queue_def)
  next
    case False
    have fuel: "?s - 1 - used ?s ?h ?t < Suc ?s" by simp
    obtain d i' where d: "put_loop (Suc ?s) pkts ?h ?t (Suc ?t mod ?s) q lhead 0
          = Inr (i', q\<lparr>lq_desc := d\<rparr>, drop k lhead, k)" "length d = ?s" "i' < ?s"
        "between d ?h i' = between (lq_desc q) ?h ?t @ map (\<lambda>p. p_phys (the (pkts p))) (take k lhead)"
      using put_loop_spec [OF s(2,3,4) False known fuel, of 0]
      unfolding Let_def room [symmetric] k_def [symmetric] add_0 by (auto simp del: put_loop.simps)
    have "\<exists>q'. put_packet_to_queue pkts q lhead = Inr (k, q', drop k lhead) \<and> q' = q\<lparr>lq_desc := d, lq_tail := i'\<rparr>"
    proof (cases lhead)
      case Nil
      then have "d = lq_desc q \<and> i' = ?t" using d(1)
        by (simp) (metis lf_queue.select_convs(5) lf_queue.surjective lf_queue.update_convs(5))
      then show ?thesis using Nil False s by (simp add: put_packet_to_queue_def k_def)
    next
      case (Cons p ps)
      have "used ?s ?h ?t \<noteq> ?s - 1" using False used_full [OF s(3,4)] by simp
      moreover have "used ?s ?h ?t < ?s" using s(1) by (rule used_less)
      ultimately have "0 < k" using Cons room by (simp add: k_def)
      then show ?thesis using d False s by (simp add: put_packet_to_queue_def cas_tail_def del: put_loop.simps)
    qed
    moreover have "lq_ok (q\<lparr>lq_desc := d, lq_tail := i'\<rparr>)" using s d by (simp add: lq_ok_def)
    moreover have "lq_content (q\<lparr>lq_desc := d, lq_tail := i'\<rparr>)
        = lq_content q @ map (\<lambda>p. p_phys (the (pkts p))) (take k lhead)"
      using d(4) by (simp add: lq_content_def)
    ultimately show ?thesis by auto
  qed
qed

end
