(* ===== verification/LfqProtocol.thy ===== *)
theory LfqProtocol
  imports LfQueue
begin

text \<open>
  One lock-free queue with its sender and its receiver running at the same time: the two loops of
  \<open>lf_queue.c\<close> taken apart into atomic accesses to the shared words, in any interleaving
  (sequentially consistent memory: the code orders its stores with \<open>wmb\<close> and \<open>barrier\<close>). The
  sender alone writes \<open>desc\<close> and \<open>tail\<close>, the receiver alone writes \<open>head\<close>. It is shown that neither
  compare-and-swap can fail, so neither process exits, and that packets arrive in order, none
  lost, none duplicated.
\<close>

section \<open>The step relation\<close>

text \<open>
  \<open>SWrite h t i n\<close>: the sender has read head \<open>h\<close> and tail \<open>t\<close> and written \<open>n\<close> descriptors up to
  index \<open>i\<close>. \<open>RRead h t i n\<close> is the receiver's loop in the same way. \<open>SExit\<close>, \<open>RExit\<close>: \<open>exit(-1)\<close>.
\<close>

datatype sender = SIdle | SWrite nat nat nat nat | SExit

datatype receiver = RIdle | RRead nat nat nat nat | RExit

text \<open>
  \<open>outbox\<close> is the sender's list, \<open>inbox\<close> the receiver's, both as physical addresses; \<open>offered\<close>
  records every packet ever put on the sender's list.
\<close>

record spsc =
  sq :: lf_queue
  snd_pc :: sender
  rcv_pc :: receiver
  outbox :: "u64 list"
  inbox :: "u64 list"
  offered :: "u64 list"

inductive send_step :: "spsc \<Rightarrow> spsc \<Rightarrow> bool" where
  offer: "snd_pc s = SIdle \<Longrightarrow>
     send_step s (s\<lparr>outbox := outbox s @ [x], offered := offered s @ [x]\<rparr>)"
| send_begin: "snd_pc s = SIdle \<Longrightarrow> Suc (lq_tail (sq s)) mod lq_size (sq s) \<noteq> lq_head (sq s) \<Longrightarrow>
     send_step s (s\<lparr>snd_pc := SWrite (lq_head (sq s)) (lq_tail (sq s)) (lq_tail (sq s)) 0\<rparr>)"
| send_write: "snd_pc s = SWrite h t i n \<Longrightarrow> outbox s = x # xs \<Longrightarrow> Suc i mod lq_size (sq s) \<noteq> h \<Longrightarrow>
     send_step s (s\<lparr>sq := (sq s)\<lparr>lq_desc := (lq_desc (sq s))[i := x]\<rparr>, outbox := xs,
                    snd_pc := SWrite h t (Suc i mod lq_size (sq s)) (Suc n)\<rparr>)"
| send_none: "snd_pc s = SWrite h t i 0 \<Longrightarrow> outbox s = [] \<Longrightarrow> send_step s (s\<lparr>snd_pc := SIdle\<rparr>)"
| send_commit: "snd_pc s = SWrite h t i (Suc n) \<Longrightarrow> outbox s = [] \<or> Suc i mod lq_size (sq s) = h \<Longrightarrow>
     lq_tail (sq s) = t \<Longrightarrow>
     send_step s (s\<lparr>sq := (sq s)\<lparr>lq_tail := i\<rparr>, snd_pc := SIdle\<rparr>)"
| send_fail: "snd_pc s = SWrite h t i (Suc n) \<Longrightarrow> outbox s = [] \<or> Suc i mod lq_size (sq s) = h \<Longrightarrow>
     lq_tail (sq s) \<noteq> t \<Longrightarrow> send_step s (s\<lparr>snd_pc := SExit\<rparr>)"

inductive recv_step :: "spsc \<Rightarrow> spsc \<Rightarrow> bool" where
  recv_begin: "rcv_pc s = RIdle \<Longrightarrow>
     recv_step s (s\<lparr>rcv_pc := RRead (lq_head (sq s)) (lq_tail (sq s)) (lq_head (sq s)) 0\<rparr>)"
| recv_copy: "rcv_pc s = RRead h t i n \<Longrightarrow> i \<noteq> t \<Longrightarrow>
     recv_step s (s\<lparr>inbox := inbox s @ [lq_desc (sq s) ! i],
                    rcv_pc := RRead h t (Suc i mod lq_size (sq s)) (Suc n)\<rparr>)"
| recv_none: "rcv_pc s = RRead h t t 0 \<Longrightarrow> recv_step s (s\<lparr>rcv_pc := RIdle\<rparr>)"
| recv_commit: "rcv_pc s = RRead h t t (Suc n) \<Longrightarrow> lq_head (sq s) = h \<Longrightarrow>
     recv_step s (s\<lparr>sq := (sq s)\<lparr>lq_head := t\<rparr>, rcv_pc := RIdle\<rparr>)"
| recv_fail: "rcv_pc s = RRead h t t (Suc n) \<Longrightarrow> lq_head (sq s) \<noteq> h \<Longrightarrow>
     recv_step s (s\<lparr>rcv_pc := RExit\<rparr>)"

inductive spsc_reach :: "nat \<Rightarrow> spsc \<Rightarrow> bool" for sz :: nat where
  init: "lq_size q = sz \<Longrightarrow> length (lq_desc q) = sz \<Longrightarrow> lq_head q = 0 \<Longrightarrow> lq_tail q = 0 \<Longrightarrow>
     spsc_reach sz \<lparr>sq = q, snd_pc = SIdle, rcv_pc = RIdle, outbox = [], inbox = [], offered = []\<rparr>"
| send: "spsc_reach sz s \<Longrightarrow> send_step s s' \<Longrightarrow> spsc_reach sz s'"
| recv: "spsc_reach sz s \<Longrightarrow> recv_step s s' \<Longrightarrow> spsc_reach sz s'"

inductive_cases send_stepE: "send_step s s'"

inductive_cases recv_stepE: "recv_step s s'"

section \<open>The invariant\<close>

text \<open>
  Indices as positions in the sequence of all packets ever offered: \<open>H0 \<le> H \<le> R \<le> T0 \<le> T \<le> I\<close> are the
  head the sender last read, the head, the receiver's index, the tail the receiver last read, the
  tail, and the sender's index, each taken modulo the size in the program. The sender never runs
  a full ring ahead of the head it has read.
\<close>

definition sender_at :: "nat \<Rightarrow> sender \<Rightarrow> nat \<Rightarrow> nat \<Rightarrow> nat \<Rightarrow> bool" where
  "sender_at sz pc H0 T I \<longleftrightarrow>
     (case pc of
        SIdle \<Rightarrow> I = T
      | SWrite h t i n \<Rightarrow> h = H0 mod sz \<and> t = T mod sz \<and> i = I mod sz \<and> I = T + n
      | SExit \<Rightarrow> False)"

definition receiver_at :: "nat \<Rightarrow> receiver \<Rightarrow> nat \<Rightarrow> nat \<Rightarrow> nat \<Rightarrow> bool" where
  "receiver_at sz pc H R T0 \<longleftrightarrow>
     (case pc of
        RIdle \<Rightarrow> R = H
      | RRead h t i n \<Rightarrow> h = H mod sz \<and> t = T0 mod sz \<and> i = R mod sz \<and> R = H + n
      | RExit \<Rightarrow> False)"

definition spsc_at :: "nat \<Rightarrow> spsc \<Rightarrow> nat \<Rightarrow> nat \<Rightarrow> nat \<Rightarrow> nat \<Rightarrow> nat \<Rightarrow> nat \<Rightarrow> bool" where
  "spsc_at sz s H0 H R T0 T I \<longleftrightarrow>
     lq_size (sq s) = sz \<and> length (lq_desc (sq s)) = sz \<and>
     H0 \<le> H \<and> H \<le> R \<and> R \<le> T0 \<and> T0 \<le> T \<and> T \<le> I \<and> I < H0 + sz \<and> I \<le> length (offered s) \<and>
     lq_head (sq s) = H mod sz \<and> lq_tail (sq s) = T mod sz \<and>
     sender_at sz (snd_pc s) H0 T I \<and> receiver_at sz (rcv_pc s) H R T0 \<and>
     inbox s = take R (offered s) \<and> outbox s = drop I (offered s) \<and>
     (\<forall>k. R \<le> k \<longrightarrow> k < I \<longrightarrow> lq_desc (sq s) ! (k mod sz) = offered s ! k)"

lemma mod_eq_near:
  fixes a b n :: nat
  assumes "a mod n = b mod n" "a \<le> b" "b < a + n"
  shows "a = b"
proof -
  have "n dvd b - a" using assms(1,2) mod_eq_dvd_iff_nat [of a b n] by simp
  then have "b - a = 0" using assms(3) nat_dvd_not_less [of "b - a" n] by fastforce
  then show ?thesis using assms(2) by simp
qed

lemma send_step_keeps:
  assumes at: "spsc_at sz s H0 H R T0 T I" and pos: "0 < sz" and step: "send_step s s'"
  shows "\<exists>H0' T' I'. spsc_at sz s' H0' H R T0 T' I'"
  using step
proof cases
  case (offer x)
  have "drop I (offered s @ [x]) = drop I (offered s) @ [x]" "take R (offered s @ [x]) = take R (offered s)"
    using at by (auto simp: spsc_at_def)
  then have "spsc_at sz s' H0 H R T0 T I" using at offer by (auto simp: spsc_at_def nth_append)
  then show ?thesis by blast
next
  case send_begin
  then have "I = T" using at by (simp add: spsc_at_def sender_at_def)
  then have "spsc_at sz s' H H R T0 T I"
    using at send_begin by (auto simp: spsc_at_def sender_at_def)
  then show ?thesis by blast
next
  case (send_write h t i n x xs)
  have pc: "h = H0 mod sz" "t = T mod sz" "i = I mod sz" "I = T + n" "lq_size (sq s) = sz"
    using at send_write by (auto simp: spsc_at_def sender_at_def)
  have lt: "Suc I < H0 + sz"
  proof -
    have "Suc I mod sz \<noteq> H0 mod sz" using send_write pc by (simp add: mod_Suc_eq)
    moreover have "(H0 + sz) mod sz = H0 mod sz" by simp
    ultimately have "Suc I \<noteq> H0 + sz" by metis
    then show ?thesis using at by (simp add: spsc_at_def)
  qed
  have x: "I < length (offered s)" "offered s ! I = x" "drop (Suc I) (offered s) = xs"
  proof -
    have d: "drop I (offered s) = x # xs" using at send_write by (simp add: spsc_at_def)
    then show l: "I < length (offered s)" by (metis drop_eq_Nil2 list.distinct(1) not_le)
    with d show "offered s ! I = x" "drop (Suc I) (offered s) = xs"
      by (metis Cons_nth_drop_Suc list.inject)+
  qed
  have desc: "(lq_desc (sq s))[I mod sz := x] ! (k mod sz) = offered s ! k" if "R \<le> k" "k < Suc I" for k
  proof (cases "k = I")
    case True
    then show ?thesis using x at pos by (simp add: spsc_at_def)
  next
    case False
    then have k: "k < I" "I < k + sz" using that at by (auto simp: spsc_at_def)
    then have "k mod sz \<noteq> I mod sz" using mod_eq_near [of k sz I] by auto
    then show ?thesis using at that k by (simp add: spsc_at_def)
  qed
  have "spsc_at sz s' H0 H R T0 T (Suc I)"
    using at send_write pc lt x desc by (simp add: spsc_at_def sender_at_def mod_Suc_eq)
  then show ?thesis by blast
next
  case (send_none h t i)
  then have "spsc_at sz s' H0 H R T0 T I" using at by (simp add: spsc_at_def sender_at_def)
  then show ?thesis by blast
next
  case (send_commit h t i n)
  then have "spsc_at sz s' H0 H R T0 I I" using at by (auto simp: spsc_at_def sender_at_def)
  then show ?thesis by blast
next
  case (send_fail h t i n)
  then show ?thesis using at by (simp add: spsc_at_def sender_at_def)
qed

lemma recv_step_keeps:
  assumes at: "spsc_at sz s H0 H R T0 T I" and pos: "0 < sz" and step: "recv_step s s'"
  shows "\<exists>H' R' T0'. spsc_at sz s' H0 H' R' T0' T I"
  using step
proof cases
  case recv_begin
  then have "R = H" using at by (simp add: spsc_at_def receiver_at_def)
  then have "spsc_at sz s' H0 H R T T I"
    using at recv_begin by (auto simp: spsc_at_def receiver_at_def)
  then show ?thesis by blast
next
  case (recv_copy h t i n)
  have pc: "h = H mod sz" "t = T0 mod sz" "i = R mod sz" "R = H + n" "lq_size (sq s) = sz"
    using at recv_copy by (auto simp: spsc_at_def receiver_at_def)
  have "R \<noteq> T0" using recv_copy pc by auto
  then have r: "R < T0" "R < I" "R < length (offered s)" using at by (auto simp: spsc_at_def)
  have "lq_desc (sq s) ! i = offered s ! R" using at r pc by (simp add: spsc_at_def)
  then have "inbox s @ [lq_desc (sq s) ! i] = take (Suc R) (offered s)"
    using at r by (simp add: spsc_at_def take_Suc_conv_app_nth)
  then have "spsc_at sz s' H0 H (Suc R) T0 T I"
    using at recv_copy pc r by (simp add: spsc_at_def receiver_at_def mod_Suc_eq)
  then show ?thesis by blast
next
  case (recv_none h t)
  then have "R = H" using at by (simp add: spsc_at_def receiver_at_def)
  then have "spsc_at sz s' H0 H R T0 T I"
    using at recv_none by (simp add: spsc_at_def receiver_at_def)
  then show ?thesis by blast
next
  case (recv_commit h t n)
  then have "t = R mod sz" "R \<le> T0" using at by (auto simp: spsc_at_def receiver_at_def)
  then have "spsc_at sz s' H0 R R T0 T I"
    using at recv_commit by (auto simp: spsc_at_def receiver_at_def)
  then show ?thesis by blast
next
  case (recv_fail h t n)
  then show ?thesis using at by (simp add: spsc_at_def receiver_at_def)
qed

lemma spsc_reach_at:
  assumes "spsc_reach sz s" "0 < sz"
  shows "\<exists>H0 H R T0 T I. spsc_at sz s H0 H R T0 T I"
  using assms(1)
proof induction
  case (init q)
  then have "spsc_at sz \<lparr>sq = q, snd_pc = SIdle, rcv_pc = RIdle, outbox = [], inbox = [], offered = []\<rparr> 0 0 0 0 0 0"
    using assms(2) by (simp add: spsc_at_def sender_at_def receiver_at_def)
  then show ?case by blast
next
  case (send s s')
  then obtain H0 H R T0 T I where "spsc_at sz s H0 H R T0 T I" by blast
  from send_step_keeps [OF this assms(2) send(2)] show ?case by blast
next
  case (recv s s')
  then obtain H0 H R T0 T I where "spsc_at sz s H0 H R T0 T I" by blast
  from recv_step_keeps [OF this assms(2) recv(2)] show ?case by blast
qed

section \<open>What the invariant gives\<close>

text \<open>Neither process exits; the ring holds fewer packets than it has places; order is kept.\<close>

lemma spsc_no_exit:
  assumes "spsc_reach sz s" "0 < sz"
  shows "snd_pc s \<noteq> SExit \<and> rcv_pc s \<noteq> RExit"
  using spsc_reach_at [OF assms] by (auto simp: spsc_at_def sender_at_def receiver_at_def)

text \<open>
  C4: in every interleaving of the sender's and the receiver's steps on one shared queue, the packets
  received, the packets under way and the packets still on the sender's list are, in this order, all
  packets ever offered: none is lost, duplicated or overtaken, and fewer are under way than the queue
  has places.
\<close>

theorem spsc_fifo:
  assumes "spsc_reach sz s" "0 < sz"
  shows "\<exists>flight. offered s = inbox s @ flight @ outbox s \<and> length flight < sz"
proof -
  obtain H0 H R T0 T I where at: "spsc_at sz s H0 H R T0 T I" using spsc_reach_at [OF assms] by blast
  then have r: "R \<le> I" "I < R + sz" by (auto simp: spsc_at_def)
  have "offered s = take R (offered s) @ drop R (take I (offered s)) @ drop I (offered s)"
    using r(1) by (metis append_take_drop_id append_assoc take_drop min.absorb1 take_take)
  then show ?thesis using at r by (intro exI [of _ "drop R (take I (offered s))"]) (auto simp: spsc_at_def)
qed

lemma spsc_fifo_witness:
  "\<exists>s flight. spsc_reach 2 s \<and> inbox s = [7] \<and> offered s = inbox s @ flight @ outbox s \<and> length flight < 2"
proof -
  define S where "S t d sp rp ob ib = \<lparr>sq = \<lparr>lq_size = 2, lq_list = [], lq_head = 0, lq_tail = t, lq_desc = [d, 0]\<rparr>,
    snd_pc = sp, rcv_pc = rp, outbox = ob, inbox = ib, offered = ob @ (if d = 7 then [7] else [])\<rparr>" for t d sp rp ob ib
  have "spsc_reach 2 (S 0 0 SIdle RIdle [] [])" unfolding S_def by (simp add: spsc_reach.init)
  from spsc_reach.send [OF this send_step.offer [where x = 7]]
  have "spsc_reach 2 (S 0 0 SIdle RIdle [7] [])" by (simp add: S_def)
  from spsc_reach.send [OF this send_step.send_begin]
  have "spsc_reach 2 (S 0 0 (SWrite 0 0 0 0) RIdle [7] [])" by (simp add: S_def)
  from spsc_reach.send [OF this send_step.send_write [where x = 7 and xs = "[]"]]
  have "spsc_reach 2 (S 0 7 (SWrite 0 0 1 1) RIdle [] [])" by (simp add: S_def)
  from spsc_reach.send [OF this send_step.send_commit [where n = 0]]
  have "spsc_reach 2 (S 1 7 SIdle RIdle [] [])" by (simp add: S_def)
  from spsc_reach.recv [OF this recv_step.recv_begin]
  have "spsc_reach 2 (S 1 7 SIdle (RRead 0 1 0 0) [] [])" by (simp add: S_def)
  from spsc_reach.recv [OF this recv_step.recv_copy]
  have r: "spsc_reach 2 (S 1 7 SIdle (RRead 0 1 1 1) [] [7])" by (simp add: S_def)
  moreover have "inbox (S 1 7 SIdle (RRead 0 1 1 1) [] [7]) = [7]" by (simp add: S_def)
  ultimately show ?thesis using spsc_fifo [OF r] by fastforce
qed

text \<open>With both loops at rest the packets on their way are exactly the content of the queue.\<close>

lemma window_of_positions:
  assumes "length xs = sz" "0 < sz" "H \<le> T" "T < H + sz"
  shows "between xs (H mod sz) (T mod sz) = map (\<lambda>k. xs ! (k mod sz)) [H..<T]"
proof -
  let ?n = "used sz (H mod sz) (T mod sz)"
  have "(H mod sz + ?n) mod sz = T mod sz" using assms(2) by (intro used_tail) simp_all
  then have "(H + ?n) mod sz = (H + (T - H)) mod sz" using assms(3) by (simp add: mod_add_left_eq)
  moreover have "?n < sz" "T - H < sz" using assms by auto
  ultimately have n: "?n = T - H" by (rule ring_index_inj)
  have "map (\<lambda>k. xs ! ((H mod sz + k) mod sz)) [0..<T - H] = map (\<lambda>k. xs ! ((k + H) mod sz)) [0..<T - H]"
    by (simp add: mod_add_left_eq add.commute mod_add_right_eq)
  also have "\<dots> = map (\<lambda>k. xs ! (k mod sz)) (map (\<lambda>k. k + H) [0..<T - H])" by (simp add: comp_def)
  also have "map (\<lambda>k. k + H) [0..<T - H] = [H..<T]" using map_add_upt [of H "T - H"] assms(3) by simp
  finally show ?thesis by (simp add: between_def window_def assms(1) n)
qed

lemma spsc_rest:
  assumes "spsc_reach sz s" "0 < sz" and idle: "snd_pc s = SIdle" "rcv_pc s = RIdle"
  shows "offered s = inbox s @ lq_content (sq s) @ outbox s"
proof -
  obtain H0 H R T0 T I where at: "spsc_at sz s H0 H R T0 T I" using spsc_reach_at [OF assms(1,2)] by blast
  then have r: "R = H" "I = T" "H \<le> T" "T < H + sz" "T \<le> length (offered s)"
    using idle by (auto simp: spsc_at_def sender_at_def receiver_at_def)
  have "lq_content (sq s) = map (\<lambda>k. lq_desc (sq s) ! (k mod sz)) [H..<T]"
    using at r window_of_positions [of "lq_desc (sq s)" sz H T] assms(2)
    by (simp add: lq_content_def spsc_at_def)
  also have "\<dots> = map ((!) (offered s)) [H..<T]"
    using at r by (intro map_cong) (auto simp: spsc_at_def)
  also have "\<dots> = drop H (take T (offered s))"
    using r by (intro nth_equalityI) auto
  finally have c: "lq_content (sq s) = drop H (take T (offered s))" .
  have "offered s = take H (offered s) @ drop H (take T (offered s)) @ drop T (offered s)"
    using r(3) by (metis append_take_drop_id append_assoc take_drop min.absorb1 take_take)
  then show ?thesis using at r c by (simp add: spsc_at_def)
qed

lemma recv_has_step:
  assumes "spsc_reach sz s" "0 < sz"
  shows "\<exists>s'. recv_step s s'"
proof (cases "rcv_pc s")
  case RIdle
  then show ?thesis using recv_begin by blast
next
  case (RRead h t i n)
  show ?thesis
  proof (cases "i = t")
    case False
    then show ?thesis using RRead recv_copy by blast
  next
    case True
    then show ?thesis using RRead recv_none recv_commit recv_fail by (cases n) blast+
  qed
next
  case RExit
  then show ?thesis using spsc_no_exit [OF assms] by simp
qed

lemma recv_never_blocked:
  assumes r: "spsc_reach sz s" and pos: "0 < sz"
  shows "\<exists>s'. recv_step s s' \<and> rcv_pc s' \<noteq> RExit \<and> snd_pc s' \<noteq> SExit"
proof -
  obtain s' where s: "recv_step s s'" using recv_has_step [OF r pos] by blast
  then show ?thesis using spsc_no_exit [OF spsc_reach.recv [OF r s] pos] by blast
qed

section \<open>The functions are runs of steps\<close>

text \<open>\<open>__get_packet_from_queue\<close> run alone is a sequence of receiver steps.\<close>

lemma recv_copies:
  "rcv_pc s = RRead h t i n \<Longrightarrow> length (lq_desc (sq s)) = lq_size (sq s) \<Longrightarrow> i < lq_size (sq s) \<Longrightarrow>
     t < lq_size (sq s) \<Longrightarrow>
     recv_step\<^sup>*\<^sup>* s (s\<lparr>inbox := inbox s @ between (lq_desc (sq s)) i t,
        rcv_pc := RRead h t t (n + used (lq_size (sq s)) i t)\<rparr>)"
proof (induction "used (lq_size (sq s)) i t" arbitrary: s i n)
  case 0
  then have "i = t" using used_eq_0 by metis
  then have "s\<lparr>inbox := inbox s @ between (lq_desc (sq s)) i t,
      rcv_pc := RRead h t t (n + used (lq_size (sq s)) i t)\<rparr> = s"
    using 0 by (cases s) simp
  then show ?case by (simp only:)
next
  case (Suc m)
  let ?sz = "lq_size (sq s)" and ?d = "lq_desc (sq s)"
  let ?i = "Suc i mod ?sz"
  have ne: "i \<noteq> t" using Suc.hyps(2) Suc.prems by auto
  have u: "used ?sz i t = Suc (used ?sz ?i t)" using used_Suc_head [OF Suc.prems(3,4) ne] .
  let ?s = "s\<lparr>inbox := inbox s @ [?d ! i], rcv_pc := RRead h t ?i (Suc n)\<rparr>"
  have step: "recv_step s ?s" using recv_copy [OF Suc.prems(1) ne] .
  have "recv_step\<^sup>*\<^sup>* ?s (?s\<lparr>inbox := inbox ?s @ between (lq_desc (sq ?s)) ?i t,
        rcv_pc := RRead h t t (Suc n + used (lq_size (sq ?s)) ?i t)\<rparr>)"
    using Suc.prems u Suc.hyps(2) by (intro Suc.hyps(1)) simp_all
  moreover have "between ?d i t = ?d ! i # between ?d ?i t"
    using between_read [of i ?d t] Suc.prems ne by simp
  ultimately show ?case using step u by (simp add: converse_rtranclp_into_rtranclp)
qed



end
