(* ===== verification/Rss.thy ===== *)
theory Rss
  imports Prelude
begin

text \<open>
  \<open>uspace/src/rss.c\<close> with \<open>rss.h\<close>: the receive-side-scaling hash the network card applies to
  choose a receive queue, recomputed in software. The table \<open>K\<close> holds, for every input bit, the
  32 bits of the hash key that start at it.
\<close>

section \<open>The operations\<close>

definition K :: "u32 list" where
  "K = [
   0x6d5a56da, 0xdab4adb4, 0xb5695b68, 0x6ad2b6d1, 0xd5a56da2, 0xab4adb44, 0x5695b689, 0xad2b6d12,
   0x5a56da25, 0xb4adb44a, 0x695b6895, 0xd2b6d12a, 0xa56da255, 0x4adb44ab, 0x95b68956, 0x2b6d12ad,
   0x56da255b, 0xadb44ab6, 0x5b68956c, 0xb6d12ad8, 0x6da255b0, 0xdb44ab61, 0xb68956c3, 0x6d12ad87,
   0xda255b0e, 0xb44ab61d, 0x68956c3b, 0xd12ad876, 0xa255b0ec, 0x44ab61d8, 0x8956c3b0, 0x12ad8761,
   0x255b0ec2, 0x4ab61d84, 0x956c3b09, 0x2ad87612, 0x55b0ec24, 0xab61d848, 0x56c3b090, 0xad876120,
   0x5b0ec241, 0xb61d8482, 0x6c3b0905, 0xd876120b, 0xb0ec2416, 0x61d8482c, 0xc3b09059, 0x876120b3,
   0xec24167, 0x1d8482ce, 0x3b09059c, 0x76120b39, 0xec241672, 0xd8482ce4, 0xb09059c9, 0x6120b392,
   0xc2416725, 0x8482ce4a, 0x9059c94, 0x120b3929, 0x24167253, 0x482ce4a7, 0x9059c94f, 0x20b3929e,
   0x4167253d, 0x82ce4a7a, 0x59c94f5, 0xb3929ea, 0x167253d4, 0x2ce4a7a8, 0x59c94f50, 0xb3929ea1,
   0x67253d43, 0xce4a7a87, 0x9c94f50e, 0x3929ea1d, 0x7253d43a, 0xe4a7a874, 0xc94f50e8, 0x929ea1d1,
   0x253d43a3, 0x4a7a8747, 0x94f50e8e, 0x29ea1d1c, 0x53d43a38, 0xa7a87471, 0x4f50e8e3, 0x9ea1d1c7,
   0x3d43a38f, 0x7a87471f, 0xf50e8e3e, 0xea1d1c7d, 0xd43a38fb, 0xa87471f6, 0x50e8e3ec, 0xa1d1c7d8]"

text \<open>The inner loop body: one bit of a byte, most significant first.\<close>

definition rss_bit :: "nat \<Rightarrow> u8 \<times> u32 \<times> nat \<Rightarrow> (u8 \<times> u32 \<times> nat) res" where
  "rss_bit i = (\<lambda>(input, result, j).
     bindE (if input AND 0x80 \<noteq> 0 then bindE (arr_get K j) (\<lambda>k. Inr (result XOR k)) else Inr result)
       (\<lambda>result. Inr (push_bit 1 input, result, j + 1)))"

definition rss_byte :: "bytes \<Rightarrow> nat \<Rightarrow> u32 \<times> nat \<Rightarrow> (u32 \<times> nat) res" where
  "rss_byte a k = (\<lambda>(result, j).
     bindE (foldE rss_bit [0..<8] (a k, result, j)) (\<lambda>(_, result, j). Inr (result, j)))"

definition rss_hash_v4 :: "u32 \<Rightarrow> u32 \<Rightarrow> u32 \<Rightarrow> u32 \<Rightarrow> u32 res" where
  "rss_hash_v4 saddr daddr sport dport =
     (let tmp = sport OR push_bit 16 dport;
          t = st32 (st32 (st32 (\<lambda>_. 0) 0 saddr) 4 daddr) 8 tmp
      in bindE (foldE (rss_byte t) [0..<12] (0, 0)) (\<lambda>(result, _). Inr result))"

definition rss_hash_v4_idx :: "nat \<Rightarrow> u32 \<Rightarrow> u32 \<Rightarrow> u32 \<Rightarrow> u32 \<Rightarrow> u8 res" where
  "rss_hash_v4_idx ring_num saddr daddr sport dport =
     bindE (rss_hash_v4 saddr daddr sport dport) (\<lambda>hash.
       let idx = (ucast (hash AND 0x7f) :: u8)
       in if ring_num = 0 then Inl Bad_arith else Inr (of_nat (unat idx mod ring_num)))"

section \<open>The Toeplitz hash\<close>

text \<open>
  The specification of the card (Microsoft's receive-side scaling): the input is a bit string,
  most significant bit of the first byte first, and for every bit set the 32-bit window of the
  key at that position is added modulo 2. \<open>rss_key\<close> is the start of the key.
\<close>

definition rss_key :: "128 word" where
  "rss_key = 0x6d5a56da255b0ec24167253d43a38fb0"

definition key_window :: "nat \<Rightarrow> u32" where
  "key_window j = ucast (drop_bit (96 - j) rss_key)"

definition toeplitz :: "(nat \<Rightarrow> bool) \<Rightarrow> nat \<Rightarrow> u32" where
  "toeplitz bits n = fold (\<lambda>j r. if bits j then r XOR key_window j else r) [0..<n] 0"

definition msb_bits :: "bytes \<Rightarrow> nat \<Rightarrow> bool" where
  "msb_bits a j = bit (a (j div 8)) (7 - j mod 8)"

lemma toeplitz_Suc:
  "toeplitz bits (Suc n) = (if bits n then toeplitz bits n XOR key_window n else toeplitz bits n)"
  by (simp add: toeplitz_def)

lemma K_windows: "K = map key_window [0..<96]"
  by code_simp

lemma length_K [simp]: "length K = 96"
  by (simp add: K_windows)

lemma K_nth: "j < 96 \<Longrightarrow> K ! j = key_window j"
  by (simp add: K_windows)

lemma u8_top_bit: "(x :: u8) AND 0x80 \<noteq> 0 \<longleftrightarrow> bit x 7"
  using bit_iff_and_push_bit_not_eq_0 [of x 7] by simp

lemma rss_bit_run:
  assumes "i < 8" "j + i < 96"
  shows "rss_bit i (push_bit i b, r, j + i)
    = Inr (push_bit (Suc i) b, if bit b (7 - i) then r XOR key_window (j + i) else r, j + Suc i)"
proof -
  have "push_bit 1 (push_bit i b) = push_bit (Suc i) b" by (simp only: push_bit_push_bit plus_1_eq_Suc)
  then have "push_bit i b * 2 = push_bit i (b * 2)" by (simp add: push_bit_eq_mult)
  moreover have "bit (push_bit i b) 7 = bit b (7 - i)" using assms by (simp add: bit_simps)
  ultimately show ?thesis using assms
    by (simp only: rss_bit_def u8_top_bit split) (simp add: K_nth)
qed

lemma rss_bits_run:
  assumes "j + 8 \<le> 96"
  shows "n \<le> 8 \<Longrightarrow> foldE rss_bit [0..<n] (b, r, j) = Inr (push_bit n b,
     fold (\<lambda>i r. if bit b (7 - i) then r XOR key_window (j + i) else r) [0..<n] r, j + n)"
proof (induction n)
  case (Suc n)
  then show ?case using assms by (simp add: foldE_append rss_bit_run)
qed simp

lemma rss_byte_run:
  assumes "k < 12"
  shows "rss_byte a k (toeplitz (msb_bits a) (8 * k), 8 * k)
    = Inr (toeplitz (msb_bits a) (8 * Suc k), 8 * Suc k)"
proof -
  have "fold (\<lambda>i r. if bit (a k) (7 - i) then r XOR key_window (8 * k + i) else r) [0..<n]
      (toeplitz (msb_bits a) (8 * k)) = toeplitz (msb_bits a) (8 * k + n)" if "n \<le> 8" for n
    using that by (induction n) (simp_all add: toeplitz_Suc msb_bits_def)
  from this [of 8] show ?thesis
    using assms rss_bits_run [of "8 * k" 8 "a k"] by (simp add: rss_byte_def add.commute)
qed

text \<open>The routine computes the Toeplitz hash of its twelve input bytes, and never leaves \<open>K\<close>.\<close>

lemma rss_hash_run:
  "n \<le> 12 \<Longrightarrow> foldE (rss_byte a) [0..<n] (0, 0) = Inr (toeplitz (msb_bits a) (8 * n), 8 * n)"
proof (induction n)
  case 0
  then show ?case by (simp add: toeplitz_def)
next
  case (Suc n)
  then show ?case by (simp add: foldE_append rss_byte_run del: mult_Suc_right)
qed

definition rss_input :: "u32 \<Rightarrow> u32 \<Rightarrow> u32 \<Rightarrow> u32 \<Rightarrow> bytes" where
  "rss_input saddr daddr sport dport =
     st32 (st32 (st32 (\<lambda>_. 0) 0 saddr) 4 daddr) 8 (sport OR push_bit 16 dport)"

lemma rss_hash_toeplitz:
  "rss_hash_v4 saddr daddr sport dport = Inr (toeplitz (msb_bits (rss_input saddr daddr sport dport)) 96)"
  by (simp add: rss_hash_v4_def rss_input_def rss_hash_run Let_def)

text \<open>The hash is linear: the card's hash of a changed address follows from the change.\<close>

lemma toeplitz_xor:
  "toeplitz (\<lambda>j. f j \<noteq> g j) n = toeplitz f n XOR toeplitz g n"
proof (induction n)
  case 0
  then show ?case by (simp add: toeplitz_def)
next
  case (Suc n)
  have "a XOR k XOR (b XOR k) = a XOR b" for a b k :: u32
    by (auto simp: bit_eq_iff bit_simps)
  with Suc show ?case by (auto simp: toeplitz_Suc ac_simps)
qed

text \<open>
  C38: the queue a flow is steered to is one of the card's: the low seven bits of the Toeplitz hash of
  the 96 bits of addresses and ports under the card's key, modulo the number of queues. The
  bit-serial loop with its table of precomputed key windows never leaves the table.
\<close>

theorem rss_queue:
  assumes n: "0 < ring_num"
  shows "\<exists>idx. rss_hash_v4_idx ring_num saddr daddr sport dport = Inr idx \<and> unat idx < ring_num \<and>
    unat idx = unat (take_bit 7 (toeplitz (msb_bits (rss_input saddr daddr sport dport)) 96)) mod ring_num"
proof -
  define h where "h = toeplitz (msb_bits (rss_input saddr daddr sport dport)) 96"
  have m7: "(0x7f :: u32) = mask 7" by (simp add: mask_eq_exp_minus_1)
  then have t: "h AND 0x7f = take_bit 7 h" by (simp add: take_bit_eq_mask)
  have lt: "unat (take_bit 7 h) < 128"
    using take_bit_nat_less_exp [of 7 "unat h"] by (simp add: unsigned_take_bit_eq)
  let ?m = "unat (take_bit 7 h) mod ring_num"
  have u: "unat (ucast (take_bit 7 h) :: u8) = unat (take_bit 7 h)"
    using lt by (simp add: unsigned_ucast_eq take_bit_nat_eq_self)
  have lm: "?m < 256" using lt mod_less_eq_dividend [of "unat (take_bit 7 h)" ring_num] by linarith
  have "rss_hash_v4_idx ring_num saddr daddr sport dport = Inr (of_nat ?m)"
    using n by (simp add: rss_hash_v4_idx_def rss_hash_toeplitz h_def [symmetric] t u Let_def)
  moreover have "unat (of_nat ?m :: u8) = ?m" using lm by (simp add: unsigned_of_nat take_bit_nat_eq_self)
  ultimately show ?thesis using n by (simp add: h_def)
qed

lemma rss_queue_witness:
  "\<exists>idx. rss_hash_v4_idx 4 1 2 3 4 = Inr idx \<and> unat idx < 4"
  using rss_queue [of 4 1 2 3 4] by auto

end
