(* ===== verification/HashTable.thy ===== *)
theory HashTable
  imports NetAddr ListHead
begin

text \<open>
  The chained hash tables of \<open>uspace/src/hashtable.c\<close>: an array of list heads. By the
  abstraction lemmas of \<open>ListHead\<close> a bucket is the list of the pointers it links, so a table
  maps a bucket number to a list. Four components (the local IP sets, the route table, the
  virtual servers, the connections) look records up by walking one bucket; what they share is
  stated as a pair of locales over the hash key and the comparison the walk uses.
\<close>

type_synonym buckets = "nat \<Rightarrow> ptr list"

text \<open>
  \<open>hashtable_alloc\<close> returns uninitialised memory (\<open>junk\<close>) or NULL; \<open>hashtable_init\<close> empties the
  first \<open>size\<close> heads. \<open>hash_module_init\<close> draws the hash seed from the time stamp counter.
\<close>

definition hashtable_alloc :: "heap \<Rightarrow> buckets \<Rightarrow> buckets option \<times> heap" where
  "hashtable_alloc h junk =
     (case malloc h of (None, h) \<Rightarrow> (None, h) | (Some _, h) \<Rightarrow> (Some junk, h))"

fun hashtable_init :: "buckets \<Rightarrow> nat \<Rightarrow> buckets" where
  "hashtable_init table 0 = table"
| "hashtable_init table (Suc n) = (hashtable_init table n)(n := [])"

definition hashtable_free :: "buckets \<Rightarrow> nat \<Rightarrow> buckets" where
  "hashtable_free table n = table"

definition SEED :: "u64 \<Rightarrow> u64" where
  "SEED tsc = tsc"

definition pseudo_random32 :: "u32 \<Rightarrow> u32" where
  "pseudo_random32 seed = seed * 1664525 + 1013904223"

definition hash_module_init :: "u64 \<Rightarrow> u32 \<times> int" where
  "hash_module_init tsc = (ucast (SEED tsc), 1)"

text \<open>Linking into a bucket (\<open>list_add\<close>, \<open>list_add_tail\<close>) and unlinking (\<open>list_del\<close>).\<close>

definition ht_add :: "buckets \<Rightarrow> nat \<Rightarrow> ptr \<Rightarrow> buckets" where
  "ht_add t i p = t(i := p # t i)"

definition ht_add_tail :: "buckets \<Rightarrow> nat \<Rightarrow> ptr \<Rightarrow> buckets" where
  "ht_add_tail t i p = t(i := t i @ [p])"

definition ht_del :: "buckets \<Rightarrow> ptr \<Rightarrow> buckets" where
  "ht_del t p = (\<lambda>i. remove1 p (t i))"

text \<open>
  \<open>list_for_each_entry(e, head) if (cond(e)) return e; return NULL;\<close> the condition may
  dereference pointers.
\<close>

fun list_find :: "(ptr \<Rightarrow> bool res) \<Rightarrow> ptr list \<Rightarrow> ptr option res" where
  "list_find cond [] = Inr None"
| "list_find cond (p # ps) =
     bindE (cond p) (\<lambda>b. if b then Inr (Some p) else list_find cond ps)"

lemma hashtable_init_eq: "hashtable_init t n i = (if i < n then [] else t i)"
  by (induction n) (auto simp: less_Suc_eq)

section \<open>Well-formed tables\<close>

definition ht_mem :: "buckets \<Rightarrow> ptr \<Rightarrow> bool" where
  "ht_mem t p \<longleftrightarrow> (\<exists>i. p \<in> set (t i))"

text \<open>
  \<open>slot_of p\<close> is the bucket number of the record at \<open>p\<close>, a fault if it cannot be read. In a
  well-formed table every linked record can be read, lies in its bucket, and is linked once.
\<close>

definition table_ok :: "(ptr \<Rightarrow> nat res) \<Rightarrow> buckets \<Rightarrow> bool" where
  "table_ok slot_of t \<longleftrightarrow> (\<forall>i. distinct (t i) \<and> (\<forall>p\<in>set (t i). slot_of p = Inr i))"

lemma table_ok_empty: "table_ok slot_of (\<lambda>_. [])"
  by (simp add: table_ok_def)

lemma table_okD: "table_ok slot_of t \<Longrightarrow> p \<in> set (t i) \<Longrightarrow> slot_of p = Inr i"
  by (auto simp: table_ok_def)

lemma table_ok_distinct: "table_ok slot_of t \<Longrightarrow> distinct (t i)"
  by (auto simp: table_ok_def)

lemma ht_mem_empty [simp]: "\<not> ht_mem (\<lambda>_. []) q"
  by (simp add: ht_mem_def)

lemma ht_mem_add [simp]: "ht_mem (ht_add t i p) q \<longleftrightarrow> q = p \<or> ht_mem t q"
  by (auto simp: ht_mem_def ht_add_def)

lemma ht_mem_add_tail [simp]: "ht_mem (ht_add_tail t i p) q \<longleftrightarrow> q = p \<or> ht_mem t q"
  by (auto simp: ht_mem_def ht_add_tail_def)

lemma table_ok_add:
  "table_ok slot_of t \<Longrightarrow> slot_of p = Inr i \<Longrightarrow> \<not> ht_mem t p \<Longrightarrow> table_ok slot_of (ht_add t i p)"
  by (auto simp: table_ok_def ht_add_def ht_mem_def)

lemma table_ok_add_tail:
  "table_ok slot_of t \<Longrightarrow> slot_of p = Inr i \<Longrightarrow> \<not> ht_mem t p \<Longrightarrow> table_ok slot_of (ht_add_tail t i p)"
  by (auto simp: table_ok_def ht_add_tail_def ht_mem_def)

lemma table_ok_del: "table_ok slot_of t \<Longrightarrow> table_ok slot_of (ht_del t p)"
  by (auto simp: table_ok_def ht_del_def)

lemma ht_mem_del: "table_ok slot_of t \<Longrightarrow> ht_mem (ht_del t p) q \<longleftrightarrow> q \<noteq> p \<and> ht_mem t q"
  by (auto simp: table_ok_def ht_mem_def ht_del_def)

text \<open>Only the bucket numbers of the linked records matter.\<close>

lemma table_ok_cong:
  assumes "table_ok slot_of t" "\<And>p. ht_mem t p \<Longrightarrow> slot_of' p = slot_of p"
  shows "table_ok slot_of' t"
  using assms unfolding table_ok_def ht_mem_def by metis

section \<open>Walking a bucket\<close>

lemma list_find_total:
  "(\<And>p. p \<in> set ps \<Longrightarrow> \<exists>b. cond p = Inr b) \<Longrightarrow> \<exists>r. list_find cond ps = Inr r"
proof (induction ps)
  case (Cons p ps)
  then obtain b where "cond p = Inr b" by (metis list.set_intros(1))
  with Cons show ?case by simp
qed simp

lemma list_find_SomeD:
  "list_find cond ps = Inr (Some p) \<Longrightarrow>
     \<exists>as bs. ps = as @ p # bs \<and> cond p = Inr True \<and> (\<forall>q\<in>set as. cond q = Inr False)"
proof (induction ps)
  case (Cons q ps)
  then obtain b where b: "cond q = Inr b" by (auto simp: fault_simps)
  show ?case
  proof (cases b)
    case True
    with Cons.prems b have "q = p" by simp
    with True b show ?thesis by (intro exI [of _ "[]"] exI [of _ ps]) auto
  next
    case False
    with Cons.prems b have "list_find cond ps = Inr (Some p)" by simp
    from Cons.IH [OF this] obtain as bs where
      "ps = as @ p # bs" "cond p = Inr True" "\<forall>q\<in>set as. cond q = Inr False" by auto
    with False b show ?thesis by (intro exI [of _ "q # as"] exI [of _ bs]) auto
  qed
qed simp

lemma list_find_NoneD: "list_find cond ps = Inr None \<Longrightarrow> p \<in> set ps \<Longrightarrow> cond p = Inr False"
  by (induction ps) (auto simp: fault_simps split: if_splits)

lemma list_find_mem: "list_find cond ps = Inr (Some p) \<Longrightarrow> p \<in> set ps \<and> cond p = Inr True"
  using list_find_SomeD by fastforce

lemma list_find_cong [cong]:
  "ps = qs \<Longrightarrow> (\<And>p. p \<in> set qs \<Longrightarrow> cond p = cond' p) \<Longrightarrow> list_find cond ps = list_find cond' qs"
proof (induction ps arbitrary: qs)
  case (Cons p ps)
  then show ?case by (cases qs) (auto intro!: bindE_cong)
qed auto

text \<open>
  A client that walks the bucket \<open>slot k\<close> with the condition \<open>cond s \<cdot> k\<close>, \<open>s\<close> being the memory
  it reads: whatever is found is linked in that bucket and satisfies the condition.
\<close>

locale bucket_search =
  fixes slot :: "'k \<Rightarrow> nat"
    and cond :: "'s \<Rightarrow> ptr \<Rightarrow> 'k \<Rightarrow> bool res"
begin

lemma search_sound:
  assumes "list_find (\<lambda>p. cond s p k) (t (slot k)) = Inr (Some p)"
  shows "cond s p k = Inr True \<and> p \<in> set (t (slot k))"
  using list_find_mem [OF assms] by auto

lemma search_first:
  assumes "t (slot k) = as @ p # bs" "cond s p k = Inr True" "\<forall>q\<in>set as. cond s q k = Inr False"
  shows "list_find (\<lambda>p. cond s p k) (t (slot k)) = Inr (Some p)"
proof -
  have "list_find (\<lambda>p. cond s p k) (as @ p # bs) = Inr (Some p)"
    using assms(2,3) by (induction as) simp_all
  then show ?thesis using assms(1) by simp
qed

end

text \<open>
  A client whose condition implies equal buckets: the one bucket decides for the whole table,
  so a search fails only if no linked record satisfies the condition, and a record just
  linked is found.
\<close>

locale keyed_table = bucket_search slot cond
  for slot :: "'k \<Rightarrow> nat" and cond :: "'s \<Rightarrow> ptr \<Rightarrow> 'k \<Rightarrow> bool res" +
  fixes key_of :: "'s \<Rightarrow> ptr \<Rightarrow> 'k res"
  assumes cond_total: "key_of s p = Inr k0 \<Longrightarrow> \<exists>b. cond s p k = Inr b"
    and cond_slot: "key_of s p = Inr k0 \<Longrightarrow> cond s p k = Inr True \<Longrightarrow> slot k0 = slot k"
    and cond_self: "key_of s p = Inr k \<Longrightarrow> cond s p k = Inr True"
begin

abbreviation keyed :: "'s \<Rightarrow> buckets \<Rightarrow> bool" where
  "keyed s \<equiv> table_ok (\<lambda>p. bindE (key_of s p) (\<lambda>k. Inr (slot k)))"

lemma keyedD: "keyed s t \<Longrightarrow> p \<in> set (t i) \<Longrightarrow> \<exists>k. key_of s p = Inr k \<and> slot k = i"
  using table_okD by (fastforce simp: fault_simps)

lemma search_total:
  assumes "keyed s t"
  shows "\<exists>r. list_find (\<lambda>p. cond s p k) (t (slot k)) = Inr r"
  using keyedD [OF assms] cond_total by (intro list_find_total) blast

lemma search_complete:
  assumes ok: "keyed s t" and none: "list_find (\<lambda>p. cond s p k) (t (slot k)) = Inr None"
    and p: "ht_mem t p"
  shows "cond s p k = Inr False"
proof -
  obtain i where i: "p \<in> set (t i)" using p by (auto simp: ht_mem_def)
  from keyedD [OF ok i] obtain k0 where k0: "key_of s p = Inr k0" "slot k0 = i" by blast
  obtain b where b: "cond s p k = Inr b" using cond_total [OF k0(1)] by blast
  show ?thesis
  proof (cases b)
    case True
    with cond_slot [OF k0(1)] b k0(2) have "i = slot k" by simp
    with list_find_NoneD [OF none] i show ?thesis by simp
  qed (use b in simp)
qed

lemma search_iff:
  assumes "keyed s t"
  shows "(\<exists>p. list_find (\<lambda>p. cond s p k) (t (slot k)) = Inr (Some p))
     \<longleftrightarrow> (\<exists>p. ht_mem t p \<and> cond s p k = Inr True)"
proof -
  obtain r where r: "list_find (\<lambda>p. cond s p k) (t (slot k)) = Inr r"
    using search_total [OF assms] by blast
  show ?thesis
  proof (cases r)
    case None
    then show ?thesis using r search_complete [OF assms] by auto
  next
    case (Some p)
    then have "cond s p k = Inr True \<and> p \<in> set (t (slot k))" using r search_sound by simp
    then show ?thesis using r Some by (auto simp: ht_mem_def)
  qed
qed

lemma search_after_add:
  assumes "key_of s p = Inr k"
  shows "list_find (\<lambda>q. cond s q k) (ht_add t (slot k) p (slot k)) = Inr (Some p)"
  using cond_self [OF assms] by (simp add: ht_add_def)

lemma search_other_add:
  assumes "cond s p k = Inr False"
  shows "list_find (\<lambda>q. cond s q k) (ht_add t i p (slot k)) = list_find (\<lambda>q. cond s q k) (t (slot k))"
  using assms by (simp add: ht_add_def)

lemma keyed_add:
  "keyed s t \<Longrightarrow> key_of s p = Inr k \<Longrightarrow> \<not> ht_mem t p \<Longrightarrow> keyed s (ht_add t (slot k) p)"
  by (rule table_ok_add) simp_all

text \<open>Keys stay unique when a record is linked only after a search for its key has failed.\<close>

lemma search_add_unique:
  assumes ok: "keyed s t" and p: "key_of s p = Inr k" "\<not> ht_mem t p"
    and none: "list_find (\<lambda>q. cond s q k) (t (slot k)) = Inr None"
    and q: "ht_mem (ht_add t (slot k) p) q" "cond s q k = Inr True"
  shows "q = p"
  using search_complete [OF ok none] q by auto

end

end
