(* ===== verification/PortRange.thy ===== *)
theory PortRange
  imports RingBuffer "HOL-Library.Multiset"
begin

text \<open>
  \<open>uspace/src/port_range.c\<close>: the free TCP (or UDP) ports of a local IP, a ring of ports in
  network byte order. The record is \<open>struct port_range\<close> of \<open>types/port_range.h\<close>; a
  \<open>struct port_range *\<close> that may be NULL is an option.
\<close>

section \<open>The operations\<close>

record port_range =
  pr_size :: nat
  pr_get :: nat
  pr_put :: nat
  pr_avail :: nat
  pr_ports :: "u16 list"

definition RESERVED_PORTS_MAX :: u16 where "RESERVED_PORTS_MAX = 1023"

definition port_range_get_port1 :: "port_range \<Rightarrow> (u16 \<times> port_range) res" where
  "port_range_get_port1 r =
     (if pr_avail r = 0 then Inr (0, r)
      else bindE (arr_get (pr_ports r) (pr_get r)) (\<lambda>ret.
        let r = r\<lparr>pr_get := pr_get r + 1\<rparr>;
            r = (if pr_size r \<le> pr_get r then r\<lparr>pr_get := 0\<rparr> else r);
            r = r\<lparr>pr_avail := pr_avail r - 1\<rparr>
        in Inr (ret, r)))"

definition port_range_put_port :: "port_range option \<Rightarrow> u16 \<Rightarrow> port_range option res" where
  "port_range_put_port rng port =
     (if port = 0 then Inr rng
      else case rng of
        None \<Rightarrow> Inr None
      | Some r \<Rightarrow>
          bindE (arr_set (pr_ports r) (pr_put r) port) (\<lambda>ps.
            let r = r\<lparr>pr_ports := ps\<rparr>;
                r = r\<lparr>pr_avail := pr_avail r + 1\<rparr>;
                r = r\<lparr>pr_put := pr_put r + 1\<rparr>;
                r = (if pr_size r \<le> pr_put r then r\<lparr>pr_put := 0\<rparr> else r)
            in Inr (Some r)))"

text \<open>\<open>CALLOC\<close> zeroes the structure; its result is written to without a check for NULL.\<close>

definition port_range_create :: "int \<Rightarrow> heap \<Rightarrow> (port_range \<times> heap) res" where
  "port_range_create n h =
     (let n = n + 1 in
      case malloc h of
        (None, h) \<Rightarrow> Inl Bad_deref
      | (Some _, h) \<Rightarrow>
          Inr (\<lparr>pr_size = nat n, pr_get = 0, pr_put = 0, pr_avail = 0,
                pr_ports = replicate (nat n) 0\<rparr>, h))"

definition port_range_init :: "port_range option \<Rightarrow> u16 \<Rightarrow> u16 \<Rightarrow> port_range option res" where
  "port_range_init rng port1 port2 =
     foldE (\<lambda>i r. port_range_put_port r (htons (of_nat i))) [unat port1..<Suc (unat port2)] rng"

definition port_range_free :: "heap \<Rightarrow> heap" where
  "port_range_free h = mfree h"

fun get_port2_loop :: "nat \<Rightarrow> port_range \<Rightarrow> u16 \<Rightarrow> nat \<Rightarrow> (u16 \<times> port_range) res" where
  "get_port2_loop 0 r port i = Inl Diverges"
| "get_port2_loop (Suc fuel) r port i =
     (if i = pr_put r then Inr (0, r)
      else bindE (arr_get (pr_ports r) i) (\<lambda>x.
        if x = port then
          bindE (arr_get (pr_ports r) (pr_get r)) (\<lambda>tmp.
          bindE (arr_set (pr_ports r) i tmp) (\<lambda>ps.
          bindE (port_range_get_port1 (r\<lparr>pr_ports := ps\<rparr>)) (\<lambda>(_, r). Inr (port, r))))
        else if pr_size r = 0 then Inl Bad_arith
        else get_port2_loop fuel r port ((i + 1) mod pr_size r)))"

definition port_range_get_port2 :: "port_range \<Rightarrow> u16 \<Rightarrow> (u16 \<times> port_range) res" where
  "port_range_get_port2 r port =
     (if RESERVED_PORTS_MAX < ntohs port then Inr (0, r)
      else get_port2_loop (pr_size r) r port (pr_get r))"

definition port_range_get_port :: "port_range \<Rightarrow> u16 \<Rightarrow> (u16 \<times> port_range) res" where
  "port_range_get_port r port =
     (if port = 0 then port_range_get_port1 r else port_range_get_port2 r port)"

section \<open>Invariant and contents\<close>

definition pr_content :: "port_range \<Rightarrow> u16 list" where
  "pr_content r = window ((!) (pr_ports r)) (pr_size r) (pr_get r) (pr_avail r)"

definition pr_ok :: "port_range \<Rightarrow> bool" where
  "pr_ok r \<longleftrightarrow> length (pr_ports r) = pr_size r \<and> pr_get r < pr_size r \<and> pr_put r < pr_size r \<and>
     pr_avail r = used (pr_size r) (pr_get r) (pr_put r) \<and> (\<forall>p\<in>set (pr_content r). p \<noteq> 0)"

definition pr_room :: "port_range \<Rightarrow> nat" where
  "pr_room r = pr_size r - 1 - pr_avail r"

lemma pr_avail_less: "pr_ok r \<Longrightarrow> pr_avail r < pr_size r"
  by (auto simp: pr_ok_def)

lemma length_pr_content [simp]: "length (pr_content r) = pr_avail r"
  by (simp add: pr_content_def)

lemma get_port1_empty: "pr_avail r = 0 \<Longrightarrow> port_range_get_port1 r = Inr (0, r)"
  by (simp add: port_range_get_port1_def)

lemma get_port1_first:
  assumes ok: "pr_ok r" and c: "pr_content r = p # ps"
  shows "\<exists>r'. port_range_get_port1 r = Inr (p, r') \<and> pr_ok r' \<and> pr_content r' = ps \<and>
    pr_size r' = pr_size r \<and> Suc (pr_avail r') = pr_avail r \<and> pr_ports r' = pr_ports r
    \<and> pr_put r' = pr_put r"
proof -
  let ?s = "pr_size r" and ?g = "pr_get r"
  obtain n where n: "pr_avail r = Suc n" using c length_pr_content[of r] by (cases "pr_avail r") auto
  have g: "?g < ?s" "pr_put r < ?s" "length (pr_ports r) = ?s" using ok by (auto simp: pr_ok_def)
  have win: "p # ps = pr_ports r ! ?g # window ((!) (pr_ports r)) ?s (Suc ?g mod ?s) n"
    using c g(1) by (simp add: pr_content_def n window_Cons)
  let ?r = "r\<lparr>pr_get := Suc ?g mod ?s, pr_avail := n\<rparr>"
  have res: "port_range_get_port1 r = Inr (p, ?r)"
    using g n win by (auto simp: port_range_get_port1_def Let_def mod_Suc_eq_if)
  have cont: "pr_content ?r = ps" using win by (simp add: pr_content_def)
  have "?g \<noteq> pr_put r" using ok n by (auto simp: pr_ok_def used_eq_0)
  then have "used ?s ?g (pr_put r) = Suc (used ?s (Suc ?g mod ?s) (pr_put r))"
    using g used_Suc_head by blast
  then have "n = used ?s (Suc ?g mod ?s) (pr_put r)" using ok n by (simp add: pr_ok_def)
  then have "pr_ok ?r" using ok c cont g by (auto simp: pr_ok_def)
  with res cont n show ?thesis by auto
qed

lemma put_port_room:
  assumes ok: "pr_ok r" and p: "p \<noteq> 0" and room: "0 < pr_room r"
  shows "\<exists>r'. port_range_put_port (Some r) p = Inr (Some r') \<and> pr_ok r' \<and>
    pr_content r' = pr_content r @ [p] \<and> pr_size r' = pr_size r \<and> Suc (pr_room r') = pr_room r"
proof -
  let ?s = "pr_size r" and ?t = "pr_put r" and ?g = "pr_get r" and ?n = "pr_avail r"
  let ?r = "r\<lparr>pr_ports := (pr_ports r)[?t := p], pr_avail := Suc ?n, pr_put := Suc ?t mod ?s\<rparr>"
  have g: "?g < ?s" "?t < ?s" "length (pr_ports r) = ?s" "?n = used ?s ?g ?t"
    using ok by (auto simp: pr_ok_def)
  have n: "?n < ?s" using ok by (rule pr_avail_less)
  have res: "port_range_put_port (Some r) p = Inr (Some ?r)"
    using g p by (auto simp: port_range_put_port_def Let_def mod_Suc_eq_if)
  have t: "(?g + ?n) mod ?s = ?t" using g used_tail by simp
  have "window ((!) ((pr_ports r)[?t := p])) ?s ?g ?n = window ((!) (pr_ports r)) ?s ?g ?n"
    using g n t ring_index_inj[of ?g _ ?s ?n] by (intro window_cong) (metis nat_neq_iff nth_list_update_neq less_trans)
  moreover have "(pr_ports r)[?t := p] ! ((?g + ?n) mod ?s) = p" using t g by simp
  ultimately have cont: "pr_content ?r = pr_content r @ [p]"
    by (simp add: pr_content_def window_snoc)
  have "Suc ?t mod ?s \<noteq> ?g"
    using room g used_full[of ?g ?s ?t] by (auto simp: pr_room_def)
  then have "Suc ?n = used ?s ?g (Suc ?t mod ?s)" using g used_Suc_tail by simp
  then have "pr_ok ?r" using ok p cont g by (auto simp: pr_ok_def)
  with res cont room show ?thesis by (auto simp: pr_room_def)
qed

section \<open>The ports form a queue\<close>

definition port_enq :: "u16 \<Rightarrow> port_range \<Rightarrow> port_range" where
  "port_enq p r = (case port_range_put_port (Some r) p of Inr (Some r') \<Rightarrow> r' | _ \<Rightarrow> r)"

definition port_deq :: "port_range \<Rightarrow> u16 option \<times> port_range" where
  "port_deq r = (case port_range_get_port1 r of
       Inr (p, r') \<Rightarrow> (if p = 0 then None else Some p, r') | Inl _ \<Rightarrow> (None, r))"

interpretation ports: fifo pr_ok pr_content pr_room "\<lambda>p. p \<noteq> 0" port_enq port_deq
proof
  fix r and p :: u16 assume "pr_ok r" "p \<noteq> 0" "0 < pr_room r"
  from put_port_room [OF this] show "pr_ok (port_enq p r)"
    "pr_content (port_enq p r) = pr_content r @ [p]" "Suc (pr_room (port_enq p r)) = pr_room r"
    by (auto simp: port_enq_def)
next
  fix r assume ok: "pr_ok r" and "pr_content r = []"
  then have "pr_avail r = 0" using length_pr_content[of r] by simp
  then show "port_deq r = (None, r)" by (simp add: port_deq_def get_port1_empty)
next
  fix r p ps assume ok: "pr_ok r" and c: "pr_content r = p # ps"
  have "p \<noteq> 0" using ok c by (simp add: pr_ok_def)
  with get_port1_first [OF ok c] pr_avail_less [OF ok]
  show "\<exists>r'. port_deq r = (Some p, r') \<and> pr_ok r' \<and> pr_content r' = ps \<and> pr_room r' = Suc (pr_room r)"
    by (auto simp: port_deq_def pr_room_def)
qed

lemma put_ports_fold:
  "pr_ok r \<Longrightarrow> \<forall>p\<in>set ps. p \<noteq> 0 \<Longrightarrow> length ps \<le> pr_room r \<Longrightarrow>
     foldE (\<lambda>p r. port_range_put_port r p) ps (Some r) = Inr (Some (fold port_enq ps r))"
proof (induction ps arbitrary: r)
  case (Cons p ps)
  then have "0 < pr_room r" "p \<noteq> 0" by simp_all
  from put_port_room [OF Cons.prems(1) this(2,1)]
  have e: "port_range_put_port (Some r) p = Inr (Some (port_enq p r))"
    by (auto simp: port_enq_def)
  have "length ps \<le> pr_room (port_enq p r)"
    using ports.enq_room[of r p] Cons.prems by simp
  with Cons.IH ports.enq_ok Cons.prems e show ?case by simp
qed simp

lemma port_enq_frame:
  "pr_ok r \<Longrightarrow> p \<noteq> 0 \<Longrightarrow> 0 < pr_room r \<Longrightarrow> pr_size (port_enq p r) = pr_size r"
  using put_port_room by (fastforce simp: port_enq_def)

section \<open>Taking a given port\<close>

lemma swap_content:
  assumes ok: "pr_ok r" and l: "l < pr_avail r"
  defines "r1 \<equiv> r\<lparr>pr_ports := (pr_ports r)[(pr_get r + l) mod pr_size r := pr_ports r ! pr_get r]\<rparr>"
  shows "pr_content r1 = (pr_content r)[l := pr_content r ! 0]" "pr_ok r1"
proof -
  let ?s = "pr_size r" and ?g = "pr_get r" and ?n = "pr_avail r"
  have g: "?g < ?s" "length (pr_ports r) = ?s" "0 < ?s" using ok by (auto simp: pr_ok_def)
  have n: "?n < ?s" using ok by (rule pr_avail_less)
  have first: "pr_content r ! 0 = pr_ports r ! ?g" using l g by (simp add: pr_content_def)
  have "window ((!) ((pr_ports r)[(?g + l) mod ?s := pr_ports r ! ?g])) ?s ?g ?n
      = window (((!) (pr_ports r))((?g + l) mod ?s := pr_ports r ! ?g)) ?s ?g ?n"
    using g by (intro window_cong) (simp add: nth_list_update)
  also have "\<dots> = (window ((!) (pr_ports r)) ?s ?g ?n)[l := pr_ports r ! ?g]"
    using l n by (intro window_upd_inside) simp_all
  finally show c: "pr_content r1 = (pr_content r)[l := pr_content r ! 0]"
    by (simp add: pr_content_def r1_def first [unfolded pr_content_def])
  have "pr_content r ! 0 \<in> set (pr_content r)" using l by (intro nth_mem) simp
  then have "\<forall>p\<in>set (pr_content r1). p \<noteq> 0"
    using ok unfolding c pr_ok_def by (metis insertE set_update_subset_insert subsetD)
  then show "pr_ok r1" using ok g by (auto simp: pr_ok_def r1_def)
qed

lemma mset_swap_out:
  assumes "l < length xs" "xs \<noteq> []"
  shows "mset (tl (xs[l := xs ! 0])) = mset xs - {#xs ! l#}"
proof (cases xs)
  case (Cons a ys)
  then show ?thesis using assms
    by (cases l) (auto simp: mset_update)
qed (use assms in simp)

lemma take_found_port:
  assumes ok: "pr_ok r" and l: "l < pr_avail r"
  shows "\<exists>r'. port_range_get_port1 (r\<lparr>pr_ports :=
        (pr_ports r)[(pr_get r + l) mod pr_size r := pr_ports r ! pr_get r]\<rparr>)
      = Inr (pr_content r ! 0, r') \<and> pr_ok r' \<and> pr_size r' = pr_size r \<and>
     Suc (pr_avail r') = pr_avail r \<and> mset (pr_content r') = mset (pr_content r) - {#pr_content r ! l#}"
proof -
  note sw = swap_content [OF ok l]
  have ne: "pr_content r \<noteq> []" using l length_pr_content[of r] by (metis list.size(3) not_less_zero)
  then obtain ps where ps: "(pr_content r)[l := pr_content r ! 0] = pr_content r ! 0 # ps"
    by (cases "pr_content r"; cases l) auto
  then have "ps = tl ((pr_content r)[l := pr_content r ! 0])" by simp
  then have "mset ps = mset (pr_content r) - {#pr_content r ! l#}"
    using mset_swap_out [of l "pr_content r"] l ne by simp
  with get_port1_first [OF sw(2), unfolded sw(1), OF ps] show ?thesis by auto
qed

lemma get_port2_loop_spec:
  assumes ok: "pr_ok r"
  shows "j \<le> pr_avail r \<Longrightarrow> pr_avail r - j < fuel \<Longrightarrow>
    (if port \<in> set (drop j (pr_content r)) then
       \<exists>r'. get_port2_loop fuel r port ((pr_get r + j) mod pr_size r) = Inr (port, r') \<and> pr_ok r' \<and>
         pr_size r' = pr_size r \<and> Suc (pr_avail r') = pr_avail r \<and>
         mset (pr_content r') = mset (pr_content r) - {#port#}
     else get_port2_loop fuel r port ((pr_get r + j) mod pr_size r) = Inr (0, r))"
proof (induction fuel arbitrary: j)
  case (Suc fuel)
  let ?s = "pr_size r" and ?g = "pr_get r" and ?n = "pr_avail r"
  have g: "?g < ?s" "pr_put r < ?s" "length (pr_ports r) = ?s" "?n = used ?s ?g (pr_put r)"
    using ok by (auto simp: pr_ok_def)
  have n: "?n < ?s" using ok by (rule pr_avail_less)
  have put: "(?g + ?n) mod ?s = pr_put r" using g used_tail by simp
  show ?case
  proof (cases "j = ?n")
    case True
    then show ?thesis using put by simp
  next
    case False
    with Suc.prems have j: "j < ?n" by simp
    have neq: "(?g + j) mod ?s \<noteq> pr_put r"
      using ring_index_inj[of ?g j ?s ?n] put j n by auto
    have cj: "pr_ports r ! ((?g + j) mod ?s) = pr_content r ! j" using j by (simp add: pr_content_def)
    have dr: "drop j (pr_content r) = pr_content r ! j # drop (Suc j) (pr_content r)"
      using j by (intro Cons_nth_drop_Suc [symmetric]) simp
    show ?thesis
    proof (cases "pr_content r ! j = port")
      case True
      have "\<exists>r'. get_port2_loop (Suc fuel) r port ((?g + j) mod ?s) = Inr (port, r') \<and> pr_ok r' \<and>
         pr_size r' = ?s \<and> Suc (pr_avail r') = ?n \<and> mset (pr_content r') = mset (pr_content r) - {#port#}"
        using take_found_port [OF ok j] True neq cj g by auto
      then show ?thesis using dr True by simp
    next
      case False
      have step: "get_port2_loop (Suc fuel) r port ((?g + j) mod ?s)
          = get_port2_loop fuel r port ((?g + Suc j) mod ?s)"
        using neq cj False g by (simp add: mod_Suc_eq)
      have "port \<in> set (drop j (pr_content r)) \<longleftrightarrow> port \<in> set (drop (Suc j) (pr_content r))"
        using dr False by simp
      then show ?thesis
        unfolding step using Suc.IH [of "Suc j"] j Suc.prems
        by (cases "port \<in> set (drop (Suc j) (pr_content r))") (simp_all del: get_port2_loop.simps)
    qed
  qed
qed simp

text \<open>
  C17: asking a range for a particular reserved port takes that port out of the range if the range has it
  and answers 0 otherwise; the other ports stay, whatever their order, and the range stays consistent.
\<close>

theorem get_port2_spec:
  assumes ok: "pr_ok r" and low: "ntohs port \<le> RESERVED_PORTS_MAX"
  shows "if port \<in> set (pr_content r) then
       \<exists>r'. port_range_get_port2 r port = Inr (port, r') \<and> pr_ok r' \<and> pr_size r' = pr_size r \<and>
         Suc (pr_avail r') = pr_avail r \<and> mset (pr_content r') = mset (pr_content r) - {#port#}
     else port_range_get_port2 r port = Inr (0, r)"
proof -
  have "pr_get r mod pr_size r = pr_get r" using ok by (simp add: pr_ok_def)
  then show ?thesis
    using get_port2_loop_spec [OF ok, of 0 "pr_size r" port] pr_avail_less [OF ok] low
    by (cases "port \<in> set (pr_content r)")
      (simp_all add: port_range_get_port2_def not_less [symmetric])
qed

lemma get_port2_spec_witness:
  "pr_ok \<lparr>pr_size = 3, pr_get = 0, pr_put = 2, pr_avail = 2, pr_ports = [htons 70, htons 80, 0]\<rparr> \<and>
   (\<exists>r'. port_range_get_port2 \<lparr>pr_size = 3, pr_get = 0, pr_put = 2, pr_avail = 2, pr_ports = [htons 70, htons 80, 0]\<rparr> (htons 80)
      = Inr (htons 80, r') \<and> pr_ok r' \<and> mset (pr_content r') = {#htons 70#})"
proof -
  let ?r = "\<lparr>pr_size = 3, pr_get = 0, pr_put = 2, pr_avail = 2, pr_ports = [htons 70, htons 80, 0]\<rparr>"
  have c: "pr_content ?r = [htons 70, htons 80]" by code_simp
  have n: "htons 70 \<noteq> 0" "htons 80 \<noteq> 0" "ntohs (htons 80) \<le> RESERVED_PORTS_MAX" by code_simp+
  have ok: "pr_ok ?r" using n by (simp add: pr_ok_def c used_def)
  show ?thesis using get_port2_spec [OF ok n(3)] ok by (auto simp: c)
qed

section \<open>A fresh range\<close>

lemma created_ok:
  assumes "0 \<le> n" and c: "port_range_create n h = Inr (r, h')"
  shows "pr_ok r" "pr_content r = []" "pr_size r = Suc (nat n)" "pr_room r = nat n"
  using assms
  by (auto simp: port_range_create_def pr_ok_def pr_content_def pr_room_def Let_def nat_add_distrib
      split: prod.splits option.splits)

definition port_list :: "u16 \<Rightarrow> u16 \<Rightarrow> u16 list" where
  "port_list lo hi = map (\<lambda>i. htons (of_nat i)) [unat lo..<Suc (unat hi)]"

lemma port_list_distinct: "distinct (port_list lo hi)"
proof -
  have "inj_on (\<lambda>i. htons (of_nat i :: u16)) {unat lo..<Suc (unat hi)}"
  proof (rule inj_onI)
    fix i j assume "i \<in> {unat lo..<Suc (unat hi)}" "j \<in> {unat lo..<Suc (unat hi)}"
      and e: "htons (of_nat i :: u16) = htons (of_nat j)"
    then have "i < 65536" "j < 65536" using u16_less[of hi] by auto
    moreover have "(of_nat i :: u16) = of_nat j" using e by (simp add: htons_inj)
    ultimately show "i = j" by (metis u16_unat_of_nat)
  qed
  then show ?thesis unfolding port_list_def by (simp only: distinct_map distinct_upt set_upt)
qed

lemma port_list_mem: "p \<in> set (port_list lo hi) \<longleftrightarrow> lo \<le> ntohs p \<and> ntohs p \<le> hi"
proof
  assume "p \<in> set (port_list lo hi)"
  then obtain i where i: "unat lo \<le> i" "i \<le> unat hi" "ntohs p = of_nat i"
    by (auto simp: port_list_def)
  then have "unat (ntohs p) = i" using u16_less[of hi] by (simp add: u16_unat_of_nat)
  with i show "lo \<le> ntohs p \<and> ntohs p \<le> hi" by (simp add: word_le_nat_alt)
next
  assume "lo \<le> ntohs p \<and> ntohs p \<le> hi"
  then have m: "unat (ntohs p) \<in> {unat lo..<Suc (unat hi)}" by (simp add: word_le_nat_alt)
  have e: "p = htons (of_nat (unat (ntohs p)))" by simp
  show "p \<in> set (port_list lo hi)"
    unfolding port_list_def set_map set_upt using e m by (rule image_eqI)
qed

lemma length_port_list: "length (port_list lo hi) = Suc (unat hi) - unat lo"
  by (simp only: port_list_def length_map length_upt)

text \<open>
  Filling a fresh range of \<open>high - low + 1\<close> places with the ports \<open>low\<close> to \<open>high\<close> never
  fails, and the queue then holds exactly these ports, in order, in network byte order.
\<close>

lemma init_fresh_range:
  assumes lo: "0 < lo" "lo \<le> hi"
    and c: "port_range_create (int (unat hi) - int (unat lo) + 1) h = Inr (r, h')"
  shows "\<exists>r'. port_range_init (Some r) lo hi = Inr (Some r') \<and> pr_ok r' \<and>
    pr_content r' = port_list lo hi \<and> pr_room r' = 0"
proof -
  have le: "unat lo \<le> unat hi" using lo(2) by (simp add: word_le_nat_alt)
  have n: "0 \<le> int (unat hi) - int (unat lo) + 1" "nat (int (unat hi) - int (unat lo) + 1)
      = Suc (unat hi) - unat lo"
    using nat_int_range [OF le] by (simp_all only:)
  note r = created_ok [OF n(1) c, unfolded n(2)]
  have nz: "\<forall>p\<in>set (port_list lo hi). p \<noteq> 0"
  proof
    fix p assume "p \<in> set (port_list lo hi)"
    then have "lo \<le> ntohs p" by (simp add: port_list_mem)
    with lo(1) have "ntohs p \<noteq> 0" by auto
    then show "p \<noteq> 0" by simp
  qed
  have len: "length (port_list lo hi) \<le> pr_room r" using length_port_list[of lo hi] r(4) by simp
  have "port_range_init (Some r) lo hi = foldE (\<lambda>p r. port_range_put_port r p) (port_list lo hi) (Some r)"
  proof -
    have "foldE (\<lambda>i r. port_range_put_port r (htons (of_nat i))) is s
        = foldE (\<lambda>p r. port_range_put_port r p) (map (\<lambda>i. htons (of_nat i)) is) s" for "is" s
      by (induction "is" arbitrary: s) (auto intro!: bindE_cong)
    then show ?thesis by (simp add: port_range_init_def port_list_def)
  qed
  also have "\<dots> = Inr (Some (fold port_enq (port_list lo hi) r))"
    by (rule put_ports_fold [OF r(1) nz len])
  finally show ?thesis
    using ports.enq_batch [OF r(1) nz len] r length_port_list[of lo hi] by auto
qed

end
