(* ===== verification/LocalIp.thy ===== *)
theory LocalIp
  imports HashTable PortRange
begin

text \<open>
  \<open>uspace/src/local_ip.c\<close> with \<open>local_ip.h\<close>: the IP addresses the stack owns. A virtual-server
  IP accepts client traffic; a self IP is the source of connections to the servers in full-NAT
  mode. Each has a ring of TCP and one of UDP ports. Four hash tables index them by kind and
  address family.
\<close>

definition SELF_IP_T :: int where "SELF_IP_T = 1"

definition VS_IP_T :: int where "VS_IP_T = 2"

definition LOCAL_IP_HT_BITS :: nat where "LOCAL_IP_HT_BITS = 8"

definition LOCAL_IP_HT_SIZE :: nat where "LOCAL_IP_HT_SIZE = 2 ^ LOCAL_IP_HT_BITS"

definition LOCAL_IP_HT_MASK :: u32 where "LOCAL_IP_HT_MASK = of_nat LOCAL_IP_HT_SIZE - 1"

record local_ip =
  lip_type :: int
  lip_addr :: ip_address
  lip_nic_id :: int
  tcp_port :: "port_range option"
  udp_port :: "port_range option"

record ip_space =
  vs_port_low :: u16
  vs_port_high :: u16
  self_port_low :: u16
  self_port_high :: u16
  self_ip_v4_set :: "buckets option"
  self_ip_v6_set :: "buckets option"
  vs_ip_v4_set :: "buckets option"
  vs_ip_v6_set :: "buckets option"

section \<open>One local IP\<close>

text \<open>A local IP without ports, for instances.\<close>

definition sample_lip :: local_ip where
  "sample_lip = \<lparr>lip_type = 0, lip_addr = sample_ip 5, lip_nic_id = 0, tcp_port = None, udp_port = None\<rparr>"

definition lip_hashkey :: "u32 \<Rightarrow> ip_address \<Rightarrow> nat" where
  "lip_hashkey hash_rand ip = unat (ip_address_hash hash_rand ip AND LOCAL_IP_HT_MASK)"

definition lip_free :: "local_ip option \<Rightarrow> heap \<Rightarrow> heap" where
  "lip_free lip h =
     (case lip of None \<Rightarrow> h
      | Some l \<Rightarrow>
          let h = (if tcp_port l \<noteq> None then port_range_free h else h);
              h = (if udp_port l \<noteq> None then port_range_free h else h)
          in mfree h)"

text \<open>The structure comes from \<open>CALLOC\<close>: all its bytes are zero.\<close>

definition zero_ip :: ip_address where
  "zero_ip = \<lparr>family = 0, ip_w0 = 0, ip_w1 = 0, ip_w2 = 0, ip_w3 = 0\<rparr>"

definition lip_create :: "int \<Rightarrow> heap \<Rightarrow> ((ptr \<times> local_ip) option \<times> heap) res" where
  "lip_create port_num h =
     (case malloc h of
        (None, h) \<Rightarrow> Inr (None, h)
      | (Some p, h) \<Rightarrow>
          bindE (port_range_create port_num h) (\<lambda>(tcp, h).
          bindE (port_range_create port_num h) (\<lambda>(udp, h).
            Inr (Some (p, \<lparr>lip_type = 0, lip_addr = zero_ip, lip_nic_id = 0,
                            tcp_port = Some tcp, udp_port = Some udp\<rparr>), h))))"

definition lip_init ::
  "local_ip \<Rightarrow> ip_address \<Rightarrow> u16 \<Rightarrow> u16 \<Rightarrow> int \<Rightarrow> int \<Rightarrow> local_ip res" where
  "lip_init lip ip low high type nic_id =
     bindE (port_range_init (tcp_port lip) low high) (\<lambda>tcp.
     bindE (port_range_init (udp_port lip) low high) (\<lambda>udp.
       Inr (lip\<lparr>tcp_port := tcp, udp_port := udp,
                lip_addr := ip_address_copy (lip_addr lip) ip,
                lip_type := type, lip_nic_id := nic_id\<rparr>)))"

text \<open>Port accessors of \<open>local_ip.h\<close>; a NULL range is dereferenced by \<open>port_range_get_port\<close>.\<close>

definition get_from_range :: "port_range option \<Rightarrow> u16 \<Rightarrow> (u16 \<times> port_range option) res" where
  "get_from_range r port =
     (case r of None \<Rightarrow> Inl Bad_deref
      | Some r \<Rightarrow> bindE (port_range_get_port r port) (\<lambda>(p, r). Inr (p, Some r)))"

definition lip_get_tcp_port :: "local_ip \<Rightarrow> u16 \<Rightarrow> (u16 \<times> local_ip) res" where
  "lip_get_tcp_port lip port =
     bindE (get_from_range (tcp_port lip) port) (\<lambda>(p, r). Inr (p, lip\<lparr>tcp_port := r\<rparr>))"

definition lip_get_udp_port :: "local_ip \<Rightarrow> u16 \<Rightarrow> (u16 \<times> local_ip) res" where
  "lip_get_udp_port lip port =
     bindE (get_from_range (udp_port lip) port) (\<lambda>(p, r). Inr (p, lip\<lparr>udp_port := r\<rparr>))"

definition lip_put_tcp_port :: "local_ip \<Rightarrow> u16 \<Rightarrow> local_ip res" where
  "lip_put_tcp_port lip port =
     bindE (port_range_put_port (tcp_port lip) port) (\<lambda>r. Inr (lip\<lparr>tcp_port := r\<rparr>))"

definition lip_put_udp_port :: "local_ip \<Rightarrow> u16 \<Rightarrow> local_ip res" where
  "lip_put_udp_port lip port =
     bindE (port_range_put_port (udp_port lip) port) (\<lambda>r. Inr (lip\<lparr>udp_port := r\<rparr>))"

definition lip_is_selfip :: "local_ip \<Rightarrow> bool" where
  "lip_is_selfip lip \<longleftrightarrow> lip_type lip = SELF_IP_T"

definition lip_is_vsip :: "local_ip \<Rightarrow> bool" where
  "lip_is_vsip lip \<longleftrightarrow> lip_type lip = VS_IP_T"

definition lip_is_ipv4 :: "local_ip \<Rightarrow> bool" where
  "lip_is_ipv4 lip \<longleftrightarrow> family (lip_addr lip) = AF_INET"

definition lip_get_ip_address :: "local_ip \<Rightarrow> ip_address" where
  "lip_get_ip_address lip = lip_addr lip"

section \<open>Sets of local IPs\<close>

definition ip_set_create :: "heap \<Rightarrow> buckets \<Rightarrow> buckets option \<times> heap" where
  "ip_set_create h junk =
     (case malloc h of
        (None, h) \<Rightarrow> (None, h)
      | (Some _, h) \<Rightarrow>
          (case hashtable_alloc h junk of
             (None, h) \<Rightarrow> (None, mfree h)
           | (Some t, h) \<Rightarrow> (Some (hashtable_init t LOCAL_IP_HT_SIZE), h)))"

definition lip_eq_cond :: "local_ip store \<Rightarrow> ptr \<Rightarrow> ip_address \<Rightarrow> bool res" where
  "lip_eq_cond lips p ip = bindE (deref lips p) (\<lambda>lip. Inr (ip_address_eq ip (lip_addr lip)))"

definition ip_set_lookup ::
  "u32 \<Rightarrow> local_ip store \<Rightarrow> buckets \<Rightarrow> ip_address \<Rightarrow> ptr option res" where
  "ip_set_lookup hash_rand lips ips ip =
     (let idx = lip_hashkey hash_rand ip in list_find (\<lambda>p. lip_eq_cond lips p ip) (ips idx))"

definition ip_set_add :: "u32 \<Rightarrow> buckets \<Rightarrow> ptr \<Rightarrow> local_ip \<Rightarrow> buckets" where
  "ip_set_add hash_rand ips p lip =
     (let idx = lip_hashkey hash_rand (lip_addr lip) in ht_add ips idx p)"

definition ip_set_del :: "buckets \<Rightarrow> ptr \<Rightarrow> buckets" where
  "ip_set_del ips p = ht_del ips p"

section \<open>The IP space\<close>

definition lip_ip_space_create ::
  "u16 \<Rightarrow> u16 \<Rightarrow> u16 \<Rightarrow> u16 \<Rightarrow> heap \<Rightarrow> buckets \<Rightarrow> (ip_space \<times> heap) res" where
  "lip_ip_space_create vs_low vs_high self_low self_high h junk =
     (case malloc h of (space, h) \<Rightarrow>
      case ip_set_create h junk of (self_v4, h) \<Rightarrow>
      case ip_set_create h junk of (self_v6, h) \<Rightarrow>
      case ip_set_create h junk of (vs_v4, h) \<Rightarrow>
      case ip_set_create h junk of (vs_v6, h) \<Rightarrow>
        if space = None then Inl Bad_deref
        else Inr (\<lparr>vs_port_low = vs_low, vs_port_high = vs_high,
                   self_port_low = self_low, self_port_high = self_high,
                   self_ip_v4_set = self_v4, self_ip_v6_set = self_v6,
                   vs_ip_v4_set = vs_v4, vs_ip_v6_set = vs_v6\<rparr>, h))"

definition get_ip_set :: "ip_space \<Rightarrow> bool \<Rightarrow> bool \<Rightarrow> buckets option" where
  "get_ip_set space is_vs is_ipv4 =
     (if is_vs then (if is_ipv4 then vs_ip_v4_set space else vs_ip_v6_set space)
      else (if is_ipv4 then self_ip_v4_set space else self_ip_v6_set space))"

text \<open>Writing through the pointer \<open>__get_ip_set\<close> returns.\<close>

definition put_ip_set :: "ip_space \<Rightarrow> bool \<Rightarrow> bool \<Rightarrow> buckets \<Rightarrow> ip_space" where
  "put_ip_set space is_vs is_ipv4 t =
     (if is_vs then (if is_ipv4 then space\<lparr>vs_ip_v4_set := Some t\<rparr> else space\<lparr>vs_ip_v6_set := Some t\<rparr>)
      else (if is_ipv4 then space\<lparr>self_ip_v4_set := Some t\<rparr> else space\<lparr>self_ip_v6_set := Some t\<rparr>))"

definition lip_ip_space_lookup ::
  "u32 \<Rightarrow> local_ip store \<Rightarrow> ip_space \<Rightarrow> ip_address \<Rightarrow> bool \<Rightarrow> ptr option res" where
  "lip_ip_space_lookup hash_rand lips space ip is_vs =
     (case get_ip_set space is_vs (ip_address_is_ipv4 ip) of
        None \<Rightarrow> Inl Bad_deref
      | Some ips \<Rightarrow> ip_set_lookup hash_rand lips ips ip)"

definition lip_ip_space_add :: "u32 \<Rightarrow> ip_space \<Rightarrow> ptr \<Rightarrow> local_ip \<Rightarrow> ip_space res" where
  "lip_ip_space_add hash_rand space p lip =
     (case get_ip_set space (lip_is_vsip lip) (lip_is_ipv4 lip) of
        None \<Rightarrow> Inl Bad_deref
      | Some ips \<Rightarrow>
          Inr (put_ip_set space (lip_is_vsip lip) (lip_is_ipv4 lip) (ip_set_add hash_rand ips p lip)))"

text \<open>\<open>list_del\<close> unlinks the node from the one bucket of the one set that links it.\<close>

definition lip_ip_space_del :: "ip_space \<Rightarrow> ptr \<Rightarrow> ip_space" where
  "lip_ip_space_del space p =
     space\<lparr>self_ip_v4_set := map_option (\<lambda>t. ip_set_del t p) (self_ip_v4_set space),
           self_ip_v6_set := map_option (\<lambda>t. ip_set_del t p) (self_ip_v6_set space),
           vs_ip_v4_set := map_option (\<lambda>t. ip_set_del t p) (vs_ip_v4_set space),
           vs_ip_v6_set := map_option (\<lambda>t. ip_set_del t p) (vs_ip_v6_set space)\<rparr>"

text \<open>\<open>lip_init\<close> dereferences the result of \<open>lip_create\<close> without a check.\<close>

definition lip_ip_space_create_local_ip ::
  "ip_space \<Rightarrow> ip_address \<Rightarrow> int \<Rightarrow> int \<Rightarrow> local_ip store \<Rightarrow> heap \<Rightarrow> (ptr \<times> local_ip store \<times> heap) res" where
  "lip_ip_space_create_local_ip space ip type nic_id lips h =
     (let port_high = (if type = SELF_IP_T then self_port_high space else vs_port_high space);
          port_low = (if type = SELF_IP_T then self_port_low space else vs_port_low space);
          port_num = int (unat port_high) - int (unat port_low) + 1
      in bindE (lip_create port_num h) (\<lambda>(lip, h).
           case lip of None \<Rightarrow> Inl Bad_deref
           | Some (p, lip) \<Rightarrow>
               bindE (lip_init lip ip port_low port_high type nic_id) (\<lambda>lip.
                 Inr (p, lips(p \<mapsto> lip), h))))"

section \<open>Lookup finds exactly the linked addresses\<close>

definition lip_key :: "local_ip store \<Rightarrow> ptr \<Rightarrow> ip_address res" where
  "lip_key lips p = bindE (deref lips p) (\<lambda>lip. Inr (lip_addr lip))"

lemma lip_hashkey_eq: "ip_address_eq a b \<Longrightarrow> lip_hashkey r a = lip_hashkey r b"
  by (simp add: lip_hashkey_def ip_address_hash_eq)

interpretation ipset: keyed_table "lip_hashkey r" lip_eq_cond lip_key for r
proof
  fix lips p k0 k assume "lip_key lips p = Inr k0"
  then show "\<exists>b. lip_eq_cond lips p k = Inr b"
    by (auto simp: lip_key_def lip_eq_cond_def fault_simps)
next
  fix lips p k0 k assume "lip_key lips p = Inr k0" "lip_eq_cond lips p k = Inr True"
  then show "lip_hashkey r k0 = lip_hashkey r k"
    by (auto simp: lip_key_def lip_eq_cond_def fault_simps intro: lip_hashkey_eq [symmetric])
next
  fix lips p k assume "lip_key lips p = Inr k"
  then show "lip_eq_cond lips p k = Inr True"
    by (auto simp: lip_key_def lip_eq_cond_def fault_simps)
qed

lemma lip_eq_cond_iff:
  "lip_eq_cond lips p ip = Inr b \<longleftrightarrow>
     (\<exists>lip. lips p = Some lip \<and> b = ip_address_eq ip (lip_addr lip))"
  by (auto simp: lip_eq_cond_def fault_simps)

section \<open>Creating a local IP\<close>

text \<open>
  With memory for the structure and the two rings and a sane port range, the new IP owns every
  port of the range of its kind, in order, for TCP and for UDP.
\<close>

definition port_bounds :: "ip_space \<Rightarrow> int \<Rightarrow> u16 \<times> u16" where
  "port_bounds space type =
     (if type = SELF_IP_T then (self_port_low space, self_port_high space)
      else (vs_port_low space, vs_port_high space))"

definition full_range :: "port_range option \<Rightarrow> u16 \<Rightarrow> u16 \<Rightarrow> bool" where
  "full_range pr lo hi \<longleftrightarrow> (\<exists>r. pr = Some r \<and> pr_ok r \<and> pr_content r = port_list lo hi \<and> pr_room r = 0)"

lemma port_range_create_ok:
  "0 < quota h \<Longrightarrow> \<exists>r h'. port_range_create n h = Inr (r, h') \<and> brk h' = Suc (brk h) \<and> quota h' = quota h - 1"
  by (simp add: port_range_create_def malloc_def Let_def)

lemma create_local_ip_spec:
  assumes q: "3 \<le> quota h" and b: "port_bounds space type = (lo, hi)" "0 < lo" "lo \<le> hi"
  shows "\<exists>lip h'. lip_ip_space_create_local_ip space ip type nic_id lips h
      = Inr (brk h, lips(brk h \<mapsto> lip), h') \<and> brk h < brk h' \<and>
    lip_addr lip = ip \<and> lip_type lip = type \<and> lip_nic_id lip = nic_id \<and>
    full_range (tcp_port lip) lo hi \<and> full_range (udp_port lip) lo hi"
proof -
  let ?n = "int (unat hi) - int (unat lo) + 1"
  obtain h0 where h0: "malloc h = (Some (brk h), h0)" "brk h0 = Suc (brk h)" "quota h0 = quota h - 1"
    using that [of "snd (malloc h)"] q by (simp add: malloc_def)
  obtain r1 h1 where r1: "port_range_create ?n h0 = Inr (r1, h1)" "brk h1 = Suc (brk h0)"
      "quota h1 = quota h0 - 1"
    using port_range_create_ok [of h0 ?n] q h0 by auto
  obtain r2 h2 where r2: "port_range_create ?n h1 = Inr (r2, h2)" "brk h2 = Suc (brk h1)"
    using port_range_create_ok [of h1 ?n] q h0 r1 by auto
  obtain f1 where f1: "port_range_init (Some r1) lo hi = Inr (Some f1)" "full_range (Some f1) lo hi"
    using init_fresh_range [OF b(2,3) r1(1)] by (auto simp: full_range_def)
  obtain f2 where f2: "port_range_init (Some r2) lo hi = Inr (Some f2)" "full_range (Some f2) lo hi"
    using init_fresh_range [OF b(2,3) r2(1)] by (auto simp: full_range_def)
  have "(if type = SELF_IP_T then self_port_low space else vs_port_low space) = lo"
    "(if type = SELF_IP_T then self_port_high space else vs_port_high space) = hi"
    using b(1) by (auto simp: port_bounds_def split: if_splits)
  then have "lip_ip_space_create_local_ip space ip type nic_id lips h
      = Inr (brk h, lips(brk h \<mapsto> \<lparr>lip_type = type, lip_addr = ip, lip_nic_id = nic_id,
          tcp_port = Some f1, udp_port = Some f2\<rparr>), h2)"
    using h0 r1 r2 f1 f2
    by (simp add: lip_ip_space_create_local_ip_def lip_create_def lip_init_def ip_address_copy_def)
  moreover have "brk h < brk h2" using h0(2) r1(2) r2(2) by simp
  ultimately show ?thesis
    using f1(2) f2(2)
    by (intro exI [of _ "\<lparr>lip_type = type, lip_addr = ip, lip_nic_id = nic_id,
          tcp_port = Some f1, udp_port = Some f2\<rparr>"] exI [of _ h2]) simp
qed

end
