(* ===== verification/RoundRobin.thy ===== *)
theory RoundRobin
  imports Prelude
begin

text \<open>
  Round-robin selection from a linked list: the local IPs of a network card
  (\<open>interface_get_lip_rr\<close>), the servers of the pool (\<open>server_pool_get_rr\<close>) and the route entries
  of a destination (\<open>rt_lookup_rr\<close>) hand out the first node that fits and move it to the tail. The
  locale states that contract and what it gives over any number of calls: the \<open>k\<close>-th call
  answers the \<open>k\<close>-th node in cyclic order, and every full round serves every node exactly once.
\<close>

text \<open>\<open>n\<close> calls in a row, with the answers in order.\<close>

fun serve_n :: "('s \<Rightarrow> ('a option \<times> 's) res) \<Rightarrow> nat \<Rightarrow> 's \<Rightarrow> ('a option list \<times> 's) res" where
  "serve_n serve 0 s = Inr ([], s)"
| "serve_n serve (Suc n) s =
     bindE (serve s) (\<lambda>(x, s).
     bindE (serve_n serve n s) (\<lambda>(xs, s). Inr (x # xs, s)))"

locale round_robin =
  fixes ok :: "'s \<Rightarrow> bool"
    and turn :: "'s \<Rightarrow> 'a list"
    and serve :: "'s \<Rightarrow> ('a option \<times> 's) res"
  assumes serve_empty: "ok s \<Longrightarrow> turn s = [] \<Longrightarrow> \<exists>s'. serve s = Inr (None, s') \<and> ok s' \<and> turn s' = []"
    and serve_next: "ok s \<Longrightarrow> turn s = x # xs \<Longrightarrow>
       \<exists>s'. serve s = Inr (Some x, s') \<and> ok s' \<and> turn s' = xs @ [x]"
begin

lemma serve_Some:
  "ok s \<Longrightarrow> turn s \<noteq> [] \<Longrightarrow>
     \<exists>s'. serve s = Inr (Some (hd (turn s)), s') \<and> ok s' \<and> turn s' = rotate1 (turn s)"
  using serve_next by (cases "turn s") fastforce+

lemma serve_total: "ok s \<Longrightarrow> \<exists>x s'. serve s = Inr (x, s') \<and> ok s' \<and> turn s' = rotate1 (turn s)"
  using serve_empty[of s] serve_Some[of s] by (cases "turn s = []") fastforce+

lemma serve_n_rotate:
  "ok s \<Longrightarrow> turn s \<noteq> [] \<Longrightarrow>
     \<exists>s'. serve_n serve n s = Inr (map (\<lambda>k. Some (turn s ! (k mod length (turn s)))) [0..<n], s')
        \<and> ok s' \<and> turn s' = rotate n (turn s)"
proof (induction n arbitrary: s)
  case (Suc n)
  let ?l = "length (turn s)"
  obtain s1 where s1: "serve s = Inr (Some (hd (turn s)), s1)" "ok s1" "turn s1 = rotate1 (turn s)"
    using serve_Some [OF Suc.prems] by blast
  have ne: "turn s1 \<noteq> []" using s1(3) Suc.prems(2) by simp
  obtain s2 where s2: "serve_n serve n s1 =
      Inr (map (\<lambda>k. Some (turn s1 ! (k mod length (turn s1)))) [0..<n], s2)"
      "ok s2" "turn s2 = rotate n (turn s1)"
    using Suc.IH [OF s1(2) ne] by blast
  have l: "0 < ?l" using Suc.prems(2) by simp
  have nth: "turn s1 ! (k mod length (turn s1)) = turn s ! (Suc k mod ?l)" for k
    using s1(3) l nth_rotate1 [of "k mod ?l" "turn s"] by (simp add: mod_Suc_eq)
  have "map (\<lambda>k. Some (turn s ! (k mod ?l))) [0..<Suc n]
      = Some (hd (turn s)) # map (\<lambda>k. Some (turn s ! (Suc k mod ?l))) [0..<n]"
    using Suc.prems(2)
    by (simp only: upt_conv_Cons zero_less_Suc list.map map_Suc_upt [symmetric] map_map)
      (simp add: comp_def hd_conv_nth)
  moreover have "rotate (Suc n) (turn s) = rotate n (turn s1)"
    using s1(3) by (metis rotate1_rotate_swap rotate_Suc)
  ultimately show ?case using s1(1) s2 by (simp add: nth)
qed simp

text \<open>Fairness: a full round answers every node once, in order, and restores the order.\<close>

lemma full_round:
  assumes "ok s" "turn s \<noteq> []"
  shows "\<exists>s'. serve_n serve (length (turn s)) s = Inr (map Some (turn s), s')
    \<and> ok s' \<and> turn s' = turn s"
proof -
  have "map (\<lambda>k. Some (turn s ! (k mod length (turn s)))) [0..<length (turn s)]
      = map Some (map ((!) (turn s)) [0..<length (turn s)])"
    by simp
  also have "\<dots> = map Some (turn s)" by (simp only: map_nth)
  finally show ?thesis
    using serve_n_rotate [OF assms, of "length (turn s)"] by simp
qed

end

end
