(* ===== verification/Interface.thy ===== *)
theory Interface
  imports LocalIp RoundRobin
begin

text \<open>
  \<open>uspace/src/interface.c\<close>: the network cards with the local IPs bound to each, and the IP space
  they share. Each card has four lists of local IPs, by kind and address family; the IPs are
  used in turn.
\<close>

section \<open>The operations\<close>

record nic =
  nic_no :: int
  self_list_ipv4 :: "ptr list"
  self_list_ipv6 :: "ptr list"
  vs_list_ipv4 :: "ptr list"
  vs_list_ipv6 :: "ptr list"

record interface_t =
  itf_num :: int
  itf_space :: ip_space
  itf_nics :: "nic list"

definition nic_init :: "int \<Rightarrow> nic" where
  "nic_init i = \<lparr>nic_no = i, self_list_ipv4 = [], self_list_ipv6 = [],
                   vs_list_ipv4 = [], vs_list_ipv6 = []\<rparr>"

definition interface_module_init ::
  "int \<Rightarrow> u16 \<Rightarrow> u16 \<Rightarrow> u16 \<Rightarrow> u16 \<Rightarrow> heap \<Rightarrow> buckets \<Rightarrow> (interface_t option \<times> heap) res" where
  "interface_module_init num vs_low vs_high self_low self_high h junk =
     (case malloc h of
        (None, h) \<Rightarrow> Inr (None, h)
      | (Some _, h) \<Rightarrow>
          bindE (lip_ip_space_create vs_low vs_high self_low self_high h junk) (\<lambda>(space, h).
            Inr (Some \<lparr>itf_num = num, itf_space = space,
                       itf_nics = map (\<lambda>i. nic_init (int i)) [0..<nat num]\<rparr>, h)))"

definition get_list_head2 :: "nic \<Rightarrow> bool \<Rightarrow> bool \<Rightarrow> ptr list" where
  "get_list_head2 n is_vsip is_ipv4 =
     (if is_vsip then (if is_ipv4 then vs_list_ipv4 n else vs_list_ipv6 n)
      else (if is_ipv4 then self_list_ipv4 n else self_list_ipv6 n))"

text \<open>Writing through the pointer \<open>__get_list_head2\<close> returns.\<close>

definition put_list_head2 :: "nic \<Rightarrow> bool \<Rightarrow> bool \<Rightarrow> ptr list \<Rightarrow> nic" where
  "put_list_head2 n is_vsip is_ipv4 xs =
     (if is_vsip then (if is_ipv4 then n\<lparr>vs_list_ipv4 := xs\<rparr> else n\<lparr>vs_list_ipv6 := xs\<rparr>)
      else (if is_ipv4 then n\<lparr>self_list_ipv4 := xs\<rparr> else n\<lparr>self_list_ipv6 := xs\<rparr>))"

text \<open>
  \<open>__get_list_head3\<close>: NULL from the card number on, and out of the array for a negative number.
  The list is identified by its card; \<open>None\<close> is NULL.
\<close>

definition get_list_head3 :: "interface_t \<Rightarrow> int \<Rightarrow> bool \<Rightarrow> bool \<Rightarrow> (nat \<times> ptr list) option res" where
  "get_list_head3 itf nic_id is_vsip is_ipv4 =
     (if itf_num itf \<le> nic_id then Inr None
      else if nic_id < 0 then Inl Bad_index
      else bindE (arr_get (itf_nics itf) (nat nic_id)) (\<lambda>n.
        Inr (Some (nat nic_id, get_list_head2 n is_vsip is_ipv4))))"

definition set_nic_list :: "interface_t \<Rightarrow> nat \<Rightarrow> bool \<Rightarrow> bool \<Rightarrow> ptr list \<Rightarrow> interface_t" where
  "set_nic_list itf i is_vsip is_ipv4 xs =
     itf\<lparr>itf_nics := (itf_nics itf)[i := put_list_head2 (itf_nics itf ! i) is_vsip is_ipv4 xs]\<rparr>"

definition nic_add_lip :: "interface_t \<Rightarrow> ptr \<Rightarrow> local_ip \<Rightarrow> interface_t res" where
  "nic_add_lip itf p lip =
     bindE (get_list_head3 itf (lip_nic_id lip) (lip_is_vsip lip) (lip_is_ipv4 lip)) (\<lambda>head.
       case head of
         None \<Rightarrow> Inl Bad_deref
       | Some (i, xs) \<Rightarrow> Inr (set_nic_list itf i (lip_is_vsip lip) (lip_is_ipv4 lip) (p # xs)))"

definition nic_unlink :: "ptr \<Rightarrow> nic \<Rightarrow> nic" where
  "nic_unlink p n =
     n\<lparr>self_list_ipv4 := remove1 p (self_list_ipv4 n), self_list_ipv6 := remove1 p (self_list_ipv6 n),
       vs_list_ipv4 := remove1 p (vs_list_ipv4 n), vs_list_ipv6 := remove1 p (vs_list_ipv6 n)\<rparr>"

definition nic_del_lip :: "interface_t \<Rightarrow> ptr \<Rightarrow> interface_t" where
  "nic_del_lip itf p = itf\<lparr>itf_nics := map (nic_unlink p) (itf_nics itf)\<rparr>"

definition interface_get_lip_rr ::
  "interface_t \<Rightarrow> int \<Rightarrow> bool \<Rightarrow> bool \<Rightarrow> (ptr option \<times> interface_t) res" where
  "interface_get_lip_rr itf nic_id is_vsip is_ipv4 =
     bindE (get_list_head3 itf nic_id is_vsip is_ipv4) (\<lambda>head.
       case head of
         None \<Rightarrow> Inl Bad_deref
       | Some (i, []) \<Rightarrow> Inr (None, itf)
       | Some (i, p # ps) \<Rightarrow> Inr (Some p, set_nic_list itf i is_vsip is_ipv4 (ps @ [p])))"

definition interface_lookup ::
  "u32 \<Rightarrow> local_ip store \<Rightarrow> interface_t \<Rightarrow> ip_address \<Rightarrow> bool \<Rightarrow> ptr option res" where
  "interface_lookup hash_rand lips itf ip is_vs =
     lip_ip_space_lookup hash_rand lips (itf_space itf) ip is_vs"

definition interface_add_lip :: "u32 \<Rightarrow> interface_t \<Rightarrow> ptr \<Rightarrow> local_ip \<Rightarrow> interface_t res" where
  "interface_add_lip hash_rand itf p lip =
     bindE (lip_ip_space_add hash_rand (itf_space itf) p lip) (\<lambda>space.
       nic_add_lip (itf\<lparr>itf_space := space\<rparr>) p lip)"

definition interface_del_lip :: "interface_t \<Rightarrow> ptr \<Rightarrow> interface_t" where
  "interface_del_lip itf p =
     nic_del_lip (itf\<lparr>itf_space := lip_ip_space_del (itf_space itf) p\<rparr>) p"

definition interface_create_local_ip ::
  "u32 \<Rightarrow> interface_t \<Rightarrow> ip_address \<Rightarrow> int \<Rightarrow> int \<Rightarrow> local_ip store \<Rightarrow> heap
     \<Rightarrow> (ptr \<times> interface_t \<times> local_ip store \<times> heap) res" where
  "interface_create_local_ip hash_rand itf ip type nic_id lips h =
     bindE (lip_ip_space_create_local_ip (itf_space itf) ip type nic_id lips h) (\<lambda>(p, lips, h).
     bindE (deref lips p) (\<lambda>lip.
     bindE (interface_add_lip hash_rand itf p lip) (\<lambda>itf. Inr (p, itf, lips, h))))"

definition interface_create_vsip where
  "interface_create_vsip hash_rand itf ip nic_id =
     interface_create_local_ip hash_rand itf ip VS_IP_T nic_id"

definition interface_create_selfip where
  "interface_create_selfip hash_rand itf ip nic_id =
     interface_create_local_ip hash_rand itf ip SELF_IP_T nic_id"

section \<open>Well-formed interfaces\<close>

definition nic_list :: "interface_t \<Rightarrow> nat \<Rightarrow> bool \<Rightarrow> bool \<Rightarrow> ptr list" where
  "nic_list itf i vs v4 = get_list_head2 (itf_nics itf ! i) vs v4"

definition nic_ok :: "interface_t \<Rightarrow> int \<Rightarrow> bool" where
  "nic_ok itf i \<longleftrightarrow> 0 \<le> i \<and> i < itf_num itf \<and> itf_num itf = int (length (itf_nics itf))"

lemma get_put_list_head2 [simp]:
  "get_list_head2 (put_list_head2 n vs v4 xs) vs' v4'
     = (if vs' = vs \<and> v4' = v4 then xs else get_list_head2 n vs' v4')"
  by (auto simp: get_list_head2_def put_list_head2_def)

lemma get_list_head3_ok:
  "nic_ok itf i \<Longrightarrow> get_list_head3 itf i vs v4 = Inr (Some (nat i, nic_list itf (nat i) vs v4))"
  by (auto simp: get_list_head3_def nic_ok_def nic_list_def)

lemma nic_list_set [simp]:
  "i < length (itf_nics itf) \<Longrightarrow> nic_list (set_nic_list itf i vs v4 xs) j vs' v4'
     = (if j = i \<and> vs' = vs \<and> v4' = v4 then xs else nic_list itf j vs' v4')"
  by (auto simp: nic_list_def set_nic_list_def nth_list_update)

lemma set_nic_list_frame [simp]:
  "itf_num (set_nic_list itf i vs v4 xs) = itf_num itf"
  "itf_space (set_nic_list itf i vs v4 xs) = itf_space itf"
  "length (itf_nics (set_nic_list itf i vs v4 xs)) = length (itf_nics itf)"
  by (simp_all add: set_nic_list_def)

lemma nic_ok_set [simp]: "nic_ok (set_nic_list itf i vs v4 xs) j = nic_ok itf j"
  by (simp add: nic_ok_def)

lemma nic_ok_nat: "nic_ok itf i \<Longrightarrow> nat i < length (itf_nics itf)"
  by (auto simp: nic_ok_def)

text \<open>The local IPs of one list are used in turn.\<close>

interpretation lip_rr: round_robin "\<lambda>itf. nic_ok itf i" "\<lambda>itf. nic_list itf (nat i) vs v4"
  "\<lambda>itf. interface_get_lip_rr itf i vs v4" for i vs v4
proof
  fix itf assume "nic_ok itf i" "nic_list itf (nat i) vs v4 = []"
  then show "\<exists>s'. interface_get_lip_rr itf i vs v4 = Inr (None, s') \<and> nic_ok s' i
      \<and> nic_list s' (nat i) vs v4 = []"
    by (simp add: interface_get_lip_rr_def get_list_head3_ok)
next
  fix itf x xs assume "nic_ok itf i" "nic_list itf (nat i) vs v4 = x # xs"
  then show "\<exists>s'. interface_get_lip_rr itf i vs v4 = Inr (Some x, s') \<and> nic_ok s' i
      \<and> nic_list s' (nat i) vs v4 = xs @ [x]"
    by (simp add: interface_get_lip_rr_def get_list_head3_ok nic_ok_nat)
qed

text \<open>
  C33: the local IPs of a card, kind and family are used in turn: as many requests as the list has IPs are
  answered by every IP exactly once, in order, and the order is then as before.
\<close>

theorem lips_in_turn:
  assumes "nic_ok itf i" "nic_list itf (nat i) vs v4 \<noteq> []"
  shows "\<exists>itf'. serve_n (\<lambda>itf. interface_get_lip_rr itf i vs v4) (length (nic_list itf (nat i) vs v4)) itf
      = Inr (map Some (nic_list itf (nat i) vs v4), itf') \<and>
    nic_ok itf' i \<and> nic_list itf' (nat i) vs v4 = nic_list itf (nat i) vs v4"
  using assms by (rule lip_rr.full_round)

lemma lips_in_turn_witness:
  "\<exists>itf'. serve_n (\<lambda>itf. interface_get_lip_rr itf 0 False True) 2
      \<lparr>itf_num = 1, itf_space = \<lparr>vs_port_low = 1, vs_port_high = 2, self_port_low = 1, self_port_high = 2,
          self_ip_v4_set = None, self_ip_v6_set = None, vs_ip_v4_set = None, vs_ip_v6_set = None\<rparr>,
        itf_nics = [(nic_init 0)\<lparr>self_list_ipv4 := [5, 9]\<rparr>]\<rparr> = Inr ([Some 5, Some 9], itf')"
proof -
  let ?i = "\<lparr>itf_num = 1, itf_space = \<lparr>vs_port_low = 1, vs_port_high = 2, self_port_low = 1, self_port_high = 2,
      self_ip_v4_set = None, self_ip_v6_set = None, vs_ip_v4_set = None, vs_ip_v6_set = None\<rparr>,
      itf_nics = [(nic_init 0)\<lparr>self_list_ipv4 := [5, 9]\<rparr>]\<rparr>"
  have l: "nic_list ?i (nat 0) False True = [5, 9]" by (simp add: nic_list_def get_list_head2_def)
  have "nic_ok ?i 0" by (simp add: nic_ok_def)
  from lips_in_turn [OF this, of False True] show ?thesis by (auto simp: l [simplified] numeral_2_eq_2 simp del: serve_n.simps)
qed

lemma lip_rr_other_list:
  assumes "interface_get_lip_rr itf i vs v4 = Inr (p, itf')" "nic_ok itf i"
    and "j \<noteq> nat i \<or> vs' \<noteq> vs \<or> v4' \<noteq> v4"
  shows "nic_list itf' j vs' v4' = nic_list itf j vs' v4'"
  using assms
  by (cases "nic_list itf (nat i) vs v4")
    (auto simp: interface_get_lip_rr_def get_list_head3_ok nic_ok_nat)

text \<open>
  \<open>itf_ok\<close>: the four sets exist, every IP is filed under its own kind, family and hash key, and
  the lists of the cards hold exactly the IPs of the sets that are bound to the card.
\<close>

definition set_mem :: "interface_t \<Rightarrow> bool \<Rightarrow> bool \<Rightarrow> ptr \<Rightarrow> bool" where
  "set_mem itf vs v4 p \<longleftrightarrow> (\<exists>t. get_ip_set (itf_space itf) vs v4 = Some t \<and> ht_mem t p)"

definition itf_ok :: "u32 \<Rightarrow> local_ip store \<Rightarrow> interface_t \<Rightarrow> bool" where
  "itf_ok r lips itf \<longleftrightarrow>
     itf_num itf = int (length (itf_nics itf)) \<and>
     (\<forall>vs v4. \<exists>t. get_ip_set (itf_space itf) vs v4 = Some t \<and> ipset.keyed r lips t \<and>
        (\<forall>p lip. ht_mem t p \<longrightarrow> lips p = Some lip \<longrightarrow> lip_is_vsip lip = vs \<and> lip_is_ipv4 lip = v4)) \<and>
     (\<forall>i vs v4. i < length (itf_nics itf) \<longrightarrow> distinct (nic_list itf i vs v4) \<and>
        (\<forall>p. p \<in> set (nic_list itf i vs v4) \<longleftrightarrow>
          set_mem itf vs v4 p \<and> (\<exists>lip. lips p = Some lip \<and> lip_nic_id lip = int i)))"

lemma get_put_ip_set [simp]:
  "get_ip_set (put_ip_set s vs v4 t) vs' v4'
     = (if vs' = vs \<and> v4' = v4 then Some t else get_ip_set s vs' v4')"
  by (auto simp: get_ip_set_def put_ip_set_def)

lemma itf_ok_set:
  assumes "itf_ok r lips itf"
  obtains t where "get_ip_set (itf_space itf) vs v4 = Some t" "ipset.keyed r lips t"
    "\<forall>p lip. ht_mem t p \<longrightarrow> lips p = Some lip \<longrightarrow> lip_is_vsip lip = vs \<and> lip_is_ipv4 lip = v4"
  using assms unfolding itf_ok_def by metis

lemma set_mem_known:
  assumes "itf_ok r lips itf" "set_mem itf vs v4 p"
  shows "\<exists>lip. lips p = Some lip \<and> lip_is_vsip lip = vs \<and> lip_is_ipv4 lip = v4"
proof -
  obtain t where t: "get_ip_set (itf_space itf) vs v4 = Some t" "ipset.keyed r lips t"
    "\<forall>p lip. ht_mem t p \<longrightarrow> lips p = Some lip \<longrightarrow> lip_is_vsip lip = vs \<and> lip_is_ipv4 lip = v4"
    by (rule itf_ok_set [OF assms(1), of vs v4])
  have m: "ht_mem t p" using assms(2) t(1) by (simp add: set_mem_def)
  then obtain k where "lip_key lips p = Inr k" using ipset.keyedD [OF t(2)] by (auto simp: ht_mem_def)
  then obtain lip where "lips p = Some lip" by (auto simp: lip_key_def fault_simps)
  with t(3) m show ?thesis by simp
qed

text \<open>An interface of one card without IPs, for instances.\<close>

definition sample_interface :: interface_t where
  "sample_interface = \<lparr>itf_num = 1, itf_space = \<lparr>vs_port_low = 1, vs_port_high = 9, self_port_low = 10, self_port_high = 19,
      self_ip_v4_set = Some (\<lambda>_. []), self_ip_v6_set = Some (\<lambda>_. []), vs_ip_v4_set = Some (\<lambda>_. []),
      vs_ip_v6_set = Some (\<lambda>_. [])\<rparr>, itf_nics = [nic_init 0]\<rparr>"

lemma sample_interface_ok: "itf_ok r lips sample_interface" "nic_ok sample_interface 0"
  by (simp_all add: itf_ok_def sample_interface_def get_ip_set_def table_ok_empty set_mem_def nic_list_def nic_init_def
      get_list_head2_def nic_ok_def)

text \<open>Lookup answers an IP of the asked kind with the asked address, if one is bound.\<close>

lemma interface_lookup_spec:
  assumes ok: "itf_ok r lips itf"
  shows "\<exists>res. interface_lookup r lips itf ip vs = Inr res \<and>
    (case res of
       None \<Rightarrow> \<forall>p lip. set_mem itf vs (ip_address_is_ipv4 ip) p \<longrightarrow> lips p = Some lip \<longrightarrow>
                 \<not> ip_address_eq ip (lip_addr lip)
     | Some p \<Rightarrow> set_mem itf vs (ip_address_is_ipv4 ip) p \<and>
                 (\<exists>lip. lips p = Some lip \<and> ip_address_eq ip (lip_addr lip) \<and> lip_is_vsip lip = vs))"
proof -
  let ?v4 = "ip_address_is_ipv4 ip"
  obtain t where t: "get_ip_set (itf_space itf) vs ?v4 = Some t" "ipset.keyed r lips t"
    by (rule itf_ok_set [OF ok, of vs "ip_address_is_ipv4 ip"])
  have eq: "interface_lookup r lips itf ip vs
      = list_find (\<lambda>p. lip_eq_cond lips p ip) (t (lip_hashkey r ip))"
    by (simp add: interface_lookup_def lip_ip_space_lookup_def t ip_set_lookup_def)
  obtain res where res: "list_find (\<lambda>p. lip_eq_cond lips p ip) (t (lip_hashkey r ip)) = Inr res"
    using ipset.search_total [OF t(2)] by blast
  show ?thesis
  proof (cases res)
    case None
    have "\<not> ip_address_eq ip (lip_addr lip)"
      if "set_mem itf vs ?v4 p" "lips p = Some lip" for p lip
    proof -
      have "ht_mem t p" using that(1) t(1) by (simp add: set_mem_def)
      from ipset.search_complete [OF t(2) _ this, where k = ip] res None that(2)
      show ?thesis by (simp add: lip_eq_cond_iff)
    qed
    then show ?thesis using eq res None by auto
  next
    case (Some p)
    from ipset.search_sound [where s = lips and k = ip and t = t and r = r and p = p] res Some
    have c: "lip_eq_cond lips p ip = Inr True" "p \<in> set (t (lip_hashkey r ip))" by simp_all
    then have m: "set_mem itf vs ?v4 p" using t(1) by (auto simp: set_mem_def ht_mem_def)
    from set_mem_known [OF ok m] c(1) m
    have "\<exists>lip. lips p = Some lip \<and> ip_address_eq ip (lip_addr lip) \<and> lip_is_vsip lip = vs"
      by (auto simp: lip_eq_cond_iff)
    with m show ?thesis using eq res Some by auto
  qed
qed

text \<open>Binding an IP that no set and no list links keeps the invariant.\<close>

lemma interface_add_lip_ok:
  assumes ok: "itf_ok r lips itf" and p: "lips p = Some lip" and new: "\<And>vs v4. \<not> set_mem itf vs v4 p"
    and nic: "nic_ok itf (lip_nic_id lip)"
  shows "\<exists>itf'. interface_add_lip r itf p lip = Inr itf' \<and> itf_ok r lips itf' \<and>
    (\<forall>vs v4 q. set_mem itf' vs v4 q \<longleftrightarrow>
       set_mem itf vs v4 q \<or> (q = p \<and> vs = lip_is_vsip lip \<and> v4 = lip_is_ipv4 lip))"
proof -
  let ?vs = "lip_is_vsip lip" and ?v4 = "lip_is_ipv4 lip" and ?i = "nat (lip_nic_id lip)"
  obtain t where t: "get_ip_set (itf_space itf) ?vs ?v4 = Some t" "ipset.keyed r lips t"
    "\<forall>p lip'. ht_mem t p \<longrightarrow> lips p = Some lip' \<longrightarrow> lip_is_vsip lip' = ?vs \<and> lip_is_ipv4 lip' = ?v4"
    by (rule itf_ok_set [OF ok, of "lip_is_vsip lip" "lip_is_ipv4 lip"])
  let ?t = "ht_add t (lip_hashkey r (lip_addr lip)) p"
  let ?sp = "put_ip_set (itf_space itf) ?vs ?v4 ?t"
  let ?itf1 = "itf\<lparr>itf_space := ?sp\<rparr>"
  let ?itf' = "set_nic_list ?itf1 ?i ?vs ?v4 (p # nic_list itf ?i ?vs ?v4)"
  have i: "?i < length (itf_nics itf)" "int ?i = lip_nic_id lip"
    using nic by (auto simp: nic_ok_def)
  have nic1: "nic_ok ?itf1 (lip_nic_id lip)" using nic by (simp add: nic_ok_def)
  have nl: "nic_list ?itf1 j vs v4 = nic_list itf j vs v4" for j vs v4 by (simp add: nic_list_def)
  have res: "interface_add_lip r itf p lip = Inr ?itf'"
    using nic1 by (simp add: interface_add_lip_def lip_ip_space_add_def t ip_set_add_def nic_add_lip_def
        get_list_head3_ok nl)
  have np: "\<not> ht_mem t p" using new t(1) by (auto simp: set_mem_def)
  have kt: "ipset.keyed r lips ?t"
    using ipset.keyed_add [OF t(2) _ np, of "lip_addr lip"] p by (simp add: lip_key_def)
  have mem: "set_mem ?itf' vs v4 q \<longleftrightarrow>
      set_mem itf vs v4 q \<or> (q = p \<and> vs = ?vs \<and> v4 = ?v4)" for vs v4 q
    using t(1) by (auto simp: set_mem_def)
  have "itf_ok r lips ?itf'"
    unfolding itf_ok_def
  proof (intro conjI allI impI)
    show "itf_num ?itf' = int (length (itf_nics ?itf'))" using ok by (simp add: itf_ok_def)
  next
    fix vs v4
    show "\<exists>t. get_ip_set (itf_space ?itf') vs v4 = Some t \<and> ipset.keyed r lips t \<and>
        (\<forall>p lip. ht_mem t p \<longrightarrow> lips p = Some lip \<longrightarrow> lip_is_vsip lip = vs \<and> lip_is_ipv4 lip = v4)"
    proof (cases "vs = ?vs \<and> v4 = ?v4")
      case True
      then show ?thesis using kt t(3) p by auto
    next
      case False
      obtain u where u: "get_ip_set (itf_space itf) vs v4 = Some u" "ipset.keyed r lips u"
        "\<forall>p lip. ht_mem u p \<longrightarrow> lips p = Some lip \<longrightarrow> lip_is_vsip lip = vs \<and> lip_is_ipv4 lip = v4"
        by (rule itf_ok_set [OF ok])
      have "get_ip_set (itf_space ?itf') vs v4 = Some u" using False u(1) by (simp del: de_Morgan_conj)
      with u(2,3) show ?thesis by blast
    qed
  next
    fix j vs v4 assume j: "j < length (itf_nics ?itf')"
    have old: "distinct (nic_list itf j vs v4)"
      "\<And>q. q \<in> set (nic_list itf j vs v4) \<longleftrightarrow>
          set_mem itf vs v4 q \<and> (\<exists>lip. lips q = Some lip \<and> lip_nic_id lip = int j)"
      using ok j by (auto simp: itf_ok_def)
    then show "distinct (nic_list ?itf' j vs v4)" using i new by (auto simp: nl)
    fix q
    show "q \<in> set (nic_list ?itf' j vs v4) \<longleftrightarrow>
          set_mem ?itf' vs v4 q \<and> (\<exists>lip. lips q = Some lip \<and> lip_nic_id lip = int j)"
      unfolding mem using old(2) [of q] i p new by (auto simp: nl)
  qed
  with res mem show ?thesis by blast
qed

section \<open>Creating and binding an IP\<close>

lemma itf_ok_extend:
  assumes ok: "itf_ok r lips itf" and p: "lips p = None"
  shows "itf_ok r (lips(p \<mapsto> lip)) itf"
proof -
  have known: "q \<noteq> p" if "ht_mem t q" "ipset.keyed r lips t" for q t
    using ipset.keyedD [OF that(2)] that(1) p
    by (fastforce simp: ht_mem_def lip_key_def deref_def)
  have keyed: "ipset.keyed r (lips(p \<mapsto> lip)) t" if "ipset.keyed r lips t" for t
    using that by (rule table_ok_cong) (use known [OF _ that] in \<open>auto simp: lip_key_def deref_def\<close>)
  have sets: "\<exists>t. get_ip_set (itf_space itf) vs v4 = Some t \<and> ipset.keyed r (lips(p \<mapsto> lip)) t \<and>
      (\<forall>q l. ht_mem t q \<longrightarrow> (lips(p \<mapsto> lip)) q = Some l \<longrightarrow> lip_is_vsip l = vs \<and> lip_is_ipv4 l = v4)" for vs v4
  proof -
    obtain t where t: "get_ip_set (itf_space itf) vs v4 = Some t" "ipset.keyed r lips t"
      "\<forall>q l. ht_mem t q \<longrightarrow> lips q = Some l \<longrightarrow> lip_is_vsip l = vs \<and> lip_is_ipv4 l = v4"
      by (rule itf_ok_set [OF ok])
    then have "\<forall>q l. ht_mem t q \<longrightarrow> (lips(p \<mapsto> lip)) q = Some l \<longrightarrow> lip_is_vsip l = vs \<and> lip_is_ipv4 l = v4"
      using known [OF _ t(2)] by auto
    with t(1) keyed [OF t(2)] show ?thesis by blast
  qed
  have "\<not> set_mem itf vs v4 p" for vs v4
    using set_mem_known [OF ok, of vs v4 p] p by auto
  then have "set_mem itf vs v4 q \<and> (\<exists>l. (lips(p \<mapsto> lip)) q = Some l \<and> lip_nic_id l = int i) \<longleftrightarrow>
      set_mem itf vs v4 q \<and> (\<exists>l. lips q = Some l \<and> lip_nic_id l = int i)" for vs v4 q i
    by auto
  with ok sets show ?thesis unfolding itf_ok_def by simp
qed

lemma lookup_added_first:
  assumes add: "interface_add_lip r itf p lip = Inr itf'" and p: "lips p = Some lip"
  shows "interface_lookup r lips itf' (lip_addr lip) (lip_is_vsip lip) = Inr (Some p)"
proof -
  obtain t where t: "get_ip_set (itf_space itf) (lip_is_vsip lip) (lip_is_ipv4 lip) = Some t"
    and sp: "itf_space itf' = put_ip_set (itf_space itf) (lip_is_vsip lip) (lip_is_ipv4 lip)
      (ip_set_add r t p lip)"
    using add
    by (auto simp: interface_add_lip_def lip_ip_space_add_def nic_add_lip_def fault_simps
        split: option.splits)
  have "ip_address_is_ipv4 (lip_addr lip) = lip_is_ipv4 lip"
    by (simp add: ip_address_is_ipv4_def lip_is_ipv4_def)
  then show ?thesis
    using p by (simp add: interface_lookup_def lip_ip_space_lookup_def sp ip_set_lookup_def
        ip_set_add_def ht_add_def lip_eq_cond_def Let_def)
qed



end
