(* ===== verification/Route.thy ===== *)
theory Route
  imports HashTable RoundRobin
begin

text \<open>
  \<open>uspace/src/route.c\<close>: the route table, a hash table from destination addresses to the network
  card that reaches them. Lookups may rotate the entries of a destination (round robin) and may
  ask for an entry of a given card.
\<close>

section \<open>The operations\<close>

definition ROUTE_HT_BITS :: nat where "ROUTE_HT_BITS = 8"

definition ROUTE_HT_SIZE :: nat where "ROUTE_HT_SIZE = 2 ^ ROUTE_HT_BITS"

definition ROUTE_HT_MASK :: u32 where "ROUTE_HT_MASK = of_nat ROUTE_HT_SIZE - 1"

record route_entry =
  re_addr :: ip_address
  re_nic_id :: u32

record route_table =
  gw_nic_id :: u32
  rt_hashtable :: buckets

text \<open>
  The structure is written to without a check of \<open>MALLOC\<close>'s result; \<open>gw_nic_id\<close> keeps the value
  the memory had.
\<close>

definition rt_create :: "heap \<Rightarrow> u32 \<Rightarrow> buckets \<Rightarrow> (route_table option \<times> heap) res" where
  "rt_create h gw junk =
     (case malloc h of (rt, h) \<Rightarrow>
      case hashtable_alloc h junk of (table, h) \<Rightarrow>
        if rt = None then Inl Bad_deref
        else case table of
          None \<Rightarrow> Inr (None, mfree h)
        | Some t \<Rightarrow> Inr (Some \<lparr>gw_nic_id = gw, rt_hashtable = hashtable_init t ROUTE_HT_SIZE\<rparr>, h))"

definition rt_module_init where
  "rt_module_init h gw junk = rt_create h gw junk"

definition rt_hashkey :: "u32 \<Rightarrow> ip_address \<Rightarrow> nat" where
  "rt_hashkey hash_rand ip = unat (ip_address_hash hash_rand ip AND ROUTE_HT_MASK)"

definition rt_entry_create :: "heap \<Rightarrow> ptr option \<times> heap" where
  "rt_entry_create h = malloc h"

definition rt_entry_free :: "ptr option \<Rightarrow> heap \<Rightarrow> heap" where
  "rt_entry_free re h = (if re = None then h else mfree h)"

definition rt_entry_init :: "ip_address \<Rightarrow> u32 \<Rightarrow> route_entry" where
  "rt_entry_init addr nic_id = \<lparr>re_addr = addr, re_nic_id = nic_id\<rparr>"

text \<open>The test of the loop: a card number of \<open>-1\<close> fits every entry; an \<open>int\<close> is compared as \<open>u32\<close>.\<close>

definition rt_match :: "int \<Rightarrow> route_entry store \<Rightarrow> ptr \<Rightarrow> ip_address \<Rightarrow> bool res" where
  "rt_match nic_id ents p ip =
     (if nic_id = -1 then bindE (deref ents p) (\<lambda>re. Inr (ip_address_eq (re_addr re) ip))
      else bindE (deref ents p) (\<lambda>re.
        Inr (of_int nic_id = re_nic_id re \<and> ip_address_eq (re_addr re) ip)))"

definition rt_lookup_impl ::
  "u32 \<Rightarrow> route_entry store \<Rightarrow> route_table \<Rightarrow> ip_address \<Rightarrow> bool \<Rightarrow> int \<Rightarrow> (ptr option \<times> route_table) res" where
  "rt_lookup_impl hash_rand ents rt ip rr_enable nic_id =
     (let idx = rt_hashkey hash_rand ip in
      bindE (list_find (\<lambda>p. rt_match nic_id ents p ip) (rt_hashtable rt idx)) (\<lambda>found.
        case found of
          None \<Rightarrow> Inr (None, rt)
        | Some re \<Rightarrow>
            if rr_enable then
              Inr (Some re, rt\<lparr>rt_hashtable := ht_add_tail (ht_del (rt_hashtable rt) re) idx re\<rparr>)
            else Inr (Some re, rt)))"

definition rt_lookup_rr where
  "rt_lookup_rr hash_rand ents rt ip = rt_lookup_impl hash_rand ents rt ip True (-1)"

definition rt_lookup where
  "rt_lookup hash_rand ents rt ip =
     bindE (rt_lookup_impl hash_rand ents rt ip False (-1)) (\<lambda>(re, _). Inr re)"

definition rt_lookup_with_nic_id where
  "rt_lookup_with_nic_id hash_rand ents rt ip nic_id =
     bindE (rt_lookup_impl hash_rand ents rt ip False nic_id) (\<lambda>(re, _). Inr re)"

definition rt_add_entry ::
  "u32 \<Rightarrow> route_entry store \<Rightarrow> route_table \<Rightarrow> ptr \<Rightarrow> (int \<times> route_table) res" where
  "rt_add_entry hash_rand ents rt p =
     bindE (deref ents p) (\<lambda>re.
     bindE (rt_lookup hash_rand ents rt (re_addr re)) (\<lambda>found.
       if found \<noteq> None then Inr (0, rt)
       else
         let idx = rt_hashkey hash_rand (re_addr re)
         in Inr (1, rt\<lparr>rt_hashtable := ht_add (rt_hashtable rt) idx p\<rparr>)))"

definition rt_del_entry :: "route_table \<Rightarrow> ptr \<Rightarrow> int \<times> route_table" where
  "rt_del_entry rt p = (1, rt\<lparr>rt_hashtable := ht_del (rt_hashtable rt) p\<rparr>)"

section \<open>Lookup\<close>

definition re_key :: "route_entry store \<Rightarrow> ptr \<Rightarrow> ip_address res" where
  "re_key ents p = bindE (deref ents p) (\<lambda>re. Inr (re_addr re))"

lemma rt_match_any:
  "rt_match (-1) ents p ip = Inr b \<longleftrightarrow> (\<exists>re. ents p = Some re \<and> b = ip_address_eq (re_addr re) ip)"
  by (auto simp: rt_match_def fault_simps)

lemma rt_hashkey_eq: "ip_address_eq a b \<Longrightarrow> rt_hashkey r a = rt_hashkey r b"
  by (simp add: rt_hashkey_def ip_address_hash_eq)

interpretation routes: keyed_table "rt_hashkey r" "rt_match (-1)" re_key for r
proof
  fix ents p k0 k assume "re_key ents p = Inr k0"
  then show "\<exists>b. rt_match (-1) ents p k = Inr b"
    by (auto simp: re_key_def rt_match_def fault_simps)
next
  fix ents p k0 k assume "re_key ents p = Inr k0" "rt_match (-1) ents p k = Inr True"
  then show "rt_hashkey r k0 = rt_hashkey r k"
    by (auto simp: re_key_def rt_match_any fault_simps intro: rt_hashkey_eq)
next
  fix ents p k assume "re_key ents p = Inr k"
  then show "rt_match (-1) ents p k = Inr True"
    by (auto simp: re_key_def rt_match_any fault_simps)
qed

text \<open>The entries of a destination, in the order the lookups find them.\<close>

definition routes_to :: "u32 \<Rightarrow> route_entry store \<Rightarrow> ip_address \<Rightarrow> route_table \<Rightarrow> ptr list" where
  "routes_to r ents ip rt =
     filter (\<lambda>p. rt_match (-1) ents p ip = Inr True) (rt_hashtable rt (rt_hashkey r ip))"

abbreviation rt_ok :: "u32 \<Rightarrow> route_entry store \<Rightarrow> route_table \<Rightarrow> bool" where
  "rt_ok r ents rt \<equiv> routes.keyed r ents (rt_hashtable rt)"

lemma list_find_filter:
  assumes "list_find cond ps = Inr res"
  shows "res = (case filter (\<lambda>p. cond p = Inr True) ps of [] \<Rightarrow> None | p # _ \<Rightarrow> Some p)"
  using assms by (induction ps) (auto simp: fault_simps split: if_splits)

lemma rt_find:
  "rt_ok r ents rt \<Longrightarrow> list_find (\<lambda>p. rt_match (-1) ents p ip) (rt_hashtable rt (rt_hashkey r ip))
     = Inr (case routes_to r ents ip rt of [] \<Rightarrow> None | p # _ \<Rightarrow> Some p)"
  using routes.search_total [where r = r and s = ents and t = "rt_hashtable rt" and k = ip] list_find_filter
  unfolding routes_to_def by fastforce

lemma rt_lookup_eq:
  "rt_ok r ents rt \<Longrightarrow> rt_lookup r ents rt ip
     = Inr (case routes_to r ents ip rt of [] \<Rightarrow> None | p # _ \<Rightarrow> Some p)"
  by (simp add: rt_lookup_def rt_lookup_impl_def rt_find Let_def split: list.splits)

lemma remove1_filter_hd:
  assumes "filter P xs = p # ps" "distinct xs"
  shows "filter P (remove1 p xs @ [p]) = ps @ [p]"
proof -
  have "P p" using assms(1) by (metis Cons_eq_filterD)
  moreover have "filter P (remove1 p xs) = remove1 p (filter P xs)"
    using \<open>P p\<close> by (induction xs) auto
  ultimately show ?thesis using assms(1) by simp
qed

lemma rt_rr_moves:
  assumes ok: "rt_ok r ents rt" and m: "p \<in> set (rt_hashtable rt (rt_hashkey r ip))"
  shows "rt_ok r ents (rt\<lparr>rt_hashtable := ht_add_tail (ht_del (rt_hashtable rt) p) (rt_hashkey r ip) p\<rparr>)"
proof -
  have "\<not> ht_mem (ht_del (rt_hashtable rt) p) p" using ht_mem_del [OF ok] by blast
  then show ?thesis
    using table_ok_add_tail [OF table_ok_del [OF ok, of p] table_okD [OF ok m]] by simp
qed

text \<open>Repeated lookups hand out the entries of a destination in turn.\<close>

interpretation rt_rr: round_robin "rt_ok r ents" "routes_to r ents ip"
  "\<lambda>rt. rt_lookup_rr r ents rt ip" for r ents ip
proof
  fix rt assume "rt_ok r ents rt" "routes_to r ents ip rt = []"
  then show "\<exists>s'. rt_lookup_rr r ents rt ip = Inr (None, s') \<and> rt_ok r ents s' \<and> routes_to r ents ip s' = []"
    by (simp add: rt_lookup_rr_def rt_lookup_impl_def rt_find Let_def)
next
  fix rt x xs assume ok: "rt_ok r ents rt" and t: "routes_to r ents ip rt = x # xs"
  let ?i = "rt_hashkey r ip" and ?t = "rt_hashtable rt"
  let ?rt = "rt\<lparr>rt_hashtable := ht_add_tail (ht_del ?t x) ?i x\<rparr>"
  have res: "rt_lookup_rr r ents rt ip = Inr (Some x, ?rt)"
    using rt_find [OF ok, of ip] t by (simp add: rt_lookup_rr_def rt_lookup_impl_def Let_def)
  have "x \<in> set (filter (\<lambda>p. rt_match (-1) ents p ip = Inr True) (?t ?i))"
    using t unfolding routes_to_def by simp
  then have m: "x \<in> set (?t ?i)" by simp
  have "routes_to r ents ip ?rt = xs @ [x]"
    using remove1_filter_hd [OF t [unfolded routes_to_def] table_ok_distinct [OF ok]]
    by (simp add: routes_to_def ht_add_tail_def ht_del_def)
  with res rt_rr_moves [OF ok m]
  show "\<exists>s'. rt_lookup_rr r ents rt ip = Inr (Some x, s') \<and> rt_ok r ents s' \<and> routes_to r ents ip s' = xs @ [x]"
    by blast
qed

section \<open>One entry per destination\<close>

text \<open>
  \<open>rt_add_entry\<close> refuses a second entry of an address, so a table built by it has at most one
  entry of each destination.
\<close>

definition rt_unique :: "route_entry store \<Rightarrow> route_table \<Rightarrow> bool" where
  "rt_unique ents rt \<longleftrightarrow> (\<forall>p q a b. ht_mem (rt_hashtable rt) p \<longrightarrow> ht_mem (rt_hashtable rt) q \<longrightarrow>
     ents p = Some a \<longrightarrow> ents q = Some b \<longrightarrow> ip_address_eq (re_addr a) (re_addr b) \<longrightarrow> p = q)"

lemma routes_to_mem:
  assumes "rt_ok r ents rt"
  shows "p \<in> set (routes_to r ents ip rt) \<longleftrightarrow>
     ht_mem (rt_hashtable rt) p \<and> (\<exists>re. ents p = Some re \<and> ip_address_eq (re_addr re) ip)"
proof
  assume "p \<in> set (routes_to r ents ip rt)"
  then show "ht_mem (rt_hashtable rt) p \<and> (\<exists>re. ents p = Some re \<and> ip_address_eq (re_addr re) ip)"
    by (auto simp: routes_to_def ht_mem_def rt_match_any)
next
  assume a: "ht_mem (rt_hashtable rt) p \<and> (\<exists>re. ents p = Some re \<and> ip_address_eq (re_addr re) ip)"
  then obtain i where i: "p \<in> set (rt_hashtable rt i)" by (auto simp: ht_mem_def)
  from routes.keyedD [OF assms this] a have "i = rt_hashkey r ip"
    by (auto simp: re_key_def fault_simps intro: rt_hashkey_eq)
  with a i show "p \<in> set (routes_to r ents ip rt)" by (auto simp: routes_to_def rt_match_any)
qed

lemma unique_routes:
  assumes ok: "rt_ok r ents rt" and u: "rt_unique ents rt"
  shows "length (routes_to r ents ip rt) \<le> 1"
proof (rule ccontr)
  assume "\<not> length (routes_to r ents ip rt) \<le> 1"
  then obtain p q ps where pq: "routes_to r ents ip rt = p # q # ps"
    by (cases "routes_to r ents ip rt" rule: remdups_adj.cases) auto
  have "distinct (routes_to r ents ip rt)"
    unfolding routes_to_def using table_ok_distinct [OF ok] by (rule distinct_filter)
  then have "p \<noteq> q" using pq by simp
  have m: "p \<in> set (routes_to r ents ip rt)" "q \<in> set (routes_to r ents ip rt)" using pq by simp_all
  then obtain a b where "ents p = Some a" "ip_address_eq (re_addr a) ip"
      "ents q = Some b" "ip_address_eq (re_addr b) ip"
      "ht_mem (rt_hashtable rt) p" "ht_mem (rt_hashtable rt) q"
    using routes_to_mem [OF ok] by auto
  then have "p = q"
    using u unfolding rt_unique_def by (meson ip_address_eq_sym ip_address_eq_trans)
  with \<open>p \<noteq> q\<close> show False ..
qed

lemma rt_add_entry_ok:
  assumes ok: "rt_ok r ents rt" and u: "rt_unique ents rt"
    and p: "ents p = Some re" "\<not> ht_mem (rt_hashtable rt) p"
  shows "\<exists>res rt'. rt_add_entry r ents rt p = Inr (res, rt') \<and> rt_ok r ents rt' \<and> rt_unique ents rt' \<and>
    (\<forall>q. ht_mem (rt_hashtable rt') q \<longrightarrow> q = p \<or> ht_mem (rt_hashtable rt) q) \<and>
    (\<forall>ip. \<not> ip_address_eq (re_addr re) ip \<longrightarrow> routes_to r ents ip rt' = routes_to r ents ip rt) \<and>
    (if routes_to r ents (re_addr re) rt = [] then
       res = 1 \<and> rt_lookup r ents rt' (re_addr re) = Inr (Some p)
     else res = 0 \<and> rt' = rt)"
proof (cases "routes_to r ents (re_addr re) rt")
  case (Cons q qs)
  then show ?thesis using rt_lookup_eq [OF ok, of "re_addr re"] ok u p by (simp add: rt_add_entry_def)
next
  case Nil
  let ?ip = "re_addr re"
  let ?t = "ht_add (rt_hashtable rt) (rt_hashkey r ?ip) p"
  let ?rt = "rt\<lparr>rt_hashtable := ?t\<rparr>"
  have key: "re_key ents p = Inr ?ip" using p(1) by (simp add: re_key_def)
  have res: "rt_add_entry r ents rt p = Inr (1, ?rt)"
    using rt_lookup_eq [OF ok, of ?ip] Nil p(1) by (simp add: rt_add_entry_def Let_def)
  have ok': "rt_ok r ents ?rt" using routes.keyed_add [OF ok key p(2)] by simp
  have none: "\<not> ip_address_eq (re_addr b) ?ip" if "ht_mem (rt_hashtable rt) q" "ents q = Some b" for q b
    using routes_to_mem [OF ok, of q ?ip] Nil that by auto
  have u': "rt_unique ents ?rt"
    unfolding rt_unique_def
  proof (intro allI impI)
    fix x y a b assume x: "ht_mem (rt_hashtable ?rt) x" and y: "ht_mem (rt_hashtable ?rt) y"
      and e: "ents x = Some a" "ents y = Some b" "ip_address_eq (re_addr a) (re_addr b)"
    show "x = y"
    proof (cases "x = p \<or> y = p")
      case True
      then show ?thesis using none [of x a] none [of y b] x y e p ip_address_eq_sym [of "re_addr a" "re_addr b"] by auto
    next
      case False
      then show ?thesis using x y e u by (auto simp: rt_unique_def)
    qed
  qed
  have "rt_lookup r ents ?rt ?ip = Inr (Some p)"
    using routes.search_after_add [OF key, where r = r and t = "rt_hashtable rt"]
    by (simp add: rt_lookup_def rt_lookup_impl_def Let_def)
  moreover have "routes_to r ents ip ?rt = routes_to r ents ip rt" if "\<not> ip_address_eq ?ip ip" for ip
    using that p(1) by (auto simp: routes_to_def ht_add_def rt_match_any)
  ultimately show ?thesis using res ok' u' Nil by simp
qed

text \<open>
  C34: an entry is added, and from then on found, exactly if its destination has no entry yet; otherwise
  the table is left alone. The table stays consistent, with at most one entry of each destination.
\<close>

theorem rt_add_entry_spec:
  assumes ok: "rt_ok r ents rt" and u: "rt_unique ents rt"
    and p: "ents p = Some re" "\<not> ht_mem (rt_hashtable rt) p"
  shows "\<exists>res rt'. rt_add_entry r ents rt p = Inr (res, rt') \<and> rt_ok r ents rt' \<and> rt_unique ents rt' \<and>
    (\<forall>ip. \<not> ip_address_eq (re_addr re) ip \<longrightarrow> routes_to r ents ip rt' = routes_to r ents ip rt) \<and>
    (if routes_to r ents (re_addr re) rt = [] then
       res = 1 \<and> rt_lookup r ents rt' (re_addr re) = Inr (Some p)
     else res = 0 \<and> rt' = rt)"
  using rt_add_entry_ok [OF assms] by blast

lemma rt_add_entry_spec_witness:
  "\<exists>rt'. rt_add_entry 0 [5 \<mapsto> rt_entry_init (sample_ip 7) 1] \<lparr>gw_nic_id = 0, rt_hashtable = (\<lambda>_. [])\<rparr> 5 = Inr (1, rt') \<and>
    rt_lookup 0 [5 \<mapsto> rt_entry_init (sample_ip 7) 1] rt' (sample_ip 7) = Inr (Some 5)"
  using rt_add_entry_spec [where r = 0 and ents = "[5 \<mapsto> rt_entry_init (sample_ip 7) 1]" and
      rt = "\<lparr>gw_nic_id = 0, rt_hashtable = (\<lambda>_. [])\<rparr>" and p = 5]
  by (auto simp: table_ok_empty rt_unique_def rt_entry_init_def routes_to_def)

lemma rt_del_entry_spec:
  assumes "rt_ok r ents rt" "rt_unique ents rt"
  shows "rt_ok r ents (snd (rt_del_entry rt p))" "rt_unique ents (snd (rt_del_entry rt p))"
    and "ht_mem (rt_hashtable (snd (rt_del_entry rt p))) q \<longleftrightarrow> q \<noteq> p \<and> ht_mem (rt_hashtable rt) q"
  using assms table_ok_del [OF assms(1)] ht_mem_del [OF assms(1)]
  by (auto simp: rt_del_entry_def rt_unique_def)

lemma unique_lookup_rr:
  assumes ok: "rt_ok r ents rt" and u: "rt_unique ents rt" and n: "routes_to r ents ip rt \<noteq> []"
  shows "\<exists>p rt'. routes_to r ents ip rt = [p] \<and>
    serve_n (\<lambda>rt. rt_lookup_rr r ents rt ip) k rt = Inr (replicate k (Some p), rt') \<and>
    rt_ok r ents rt' \<and> routes_to r ents ip rt' = [p]"
proof -
  obtain p where p: "routes_to r ents ip rt = [p]"
    using unique_routes [OF ok u, of ip] n by (cases "routes_to r ents ip rt") auto
  have "map (\<lambda>k. Some ([p] ! (k mod 1))) [0..<k] = replicate k (Some p)"
    by (simp add: map_replicate_const)
  then show ?thesis
    using rt_rr.serve_n_rotate [OF ok n, of k] p by simp
qed

end
