(* ===== verification/Checksum.thy ===== *)
theory Checksum
  imports Packet
begin

text \<open>
  \<open>uspace/src/checksum.c\<close>: the Internet checksum of the IPv4 header and of TCP and UDP segments.
  Sums are 64 bits wide; words are loaded in the byte order of the machine, which the sum does
  not depend on. Bytes behind the frame stand for whatever memory follows the buffer: nothing
  bounds the length the code takes from the header.
\<close>

section \<open>The operations\<close>

fun csum_words :: "bytes \<Rightarrow> nat \<Rightarrow> nat \<Rightarrow> u64 \<Rightarrow> u64" where
  "csum_words d i n cksum =
     (if 1 < n then csum_words d (i + 2) (n - 2) (cksum + ucast (ld16 d i))
      else if n \<noteq> 0 then cksum + ucast (d i)
      else cksum)"

declare csum_words.simps [simp del]

function csum_fold :: "u64 \<Rightarrow> u64" where
  "csum_fold cksum =
     (if drop_bit 16 cksum \<noteq> 0 then csum_fold (drop_bit 16 cksum + (cksum AND 0xffff)) else cksum)"
  by auto

lemma unat_drop16: "unat (drop_bit 16 (c :: u64)) = unat c div 65536"
  by (simp only: unat_drop_bit_eq) (simp add: drop_bit_eq_div)

lemma fold_step:
  "unat (drop_bit 16 c + (c AND 0xffff) :: u64) = unat c div 65536 + unat c mod 65536"
proof -
  have "c AND 0xffff = take_bit 16 c" by (simp add: take_bit_eq_mask mask_eq_exp_minus_1)
  then have "unat (c AND 0xffff) = take_bit 16 (unat c)" by (simp only: unsigned_take_bit_eq)
  then have m: "unat (c AND 0xffff) = unat c mod 65536" by (simp add: take_bit_eq_mod)
  have d: "unat (drop_bit 16 c) = unat c div 65536" by (rule unat_drop16)
  have "unat c div 65536 + unat c mod 65536 < 2 ^ 64" using u64_less [of c] by simp
  then show ?thesis
    using unat_add_lem [of "drop_bit 16 c" "c AND 0xffff"] m d by simp
qed

lemma fold_done: "drop_bit 16 (c :: u64) = 0 \<longleftrightarrow> unat c < 65536"
proof -
  have "drop_bit 16 c = 0 \<longleftrightarrow> unat (drop_bit 16 c) = 0" by (simp add: unsigned_eq_0_iff)
  also have "unat (drop_bit 16 c) = unat c div 65536" by (rule unat_drop16)
  finally show ?thesis by (simp add: div_eq_0_iff)
qed

termination csum_fold
proof (relation "measure unat")
  fix c :: u64 assume "drop_bit 16 c \<noteq> 0"
  then have "65536 \<le> unat c" by (simp add: fold_done)
  then have "unat c div 65536 + unat c mod 65536 < unat c"
    using div_mult_mod_eq [of "unat c" 65536] div_le_mono [of 65536 "unat c" 65536] by linarith
  then show "(drop_bit 16 c + (c AND 0xffff), c) \<in> measure unat" by (simp only: fold_step in_measure)
qed simp

declare csum_fold.simps [simp del]

definition raw_checksum :: "bytes \<Rightarrow> nat \<Rightarrow> nat \<Rightarrow> u64 \<Rightarrow> u16" where
  "raw_checksum d buf n init = NOT (ucast (csum_fold (csum_words d buf n init)))"

text \<open>\<open>checksum\<close> has a parameter for the initial sum and passes zero whatever it is.\<close>

definition checksum :: "bytes \<Rightarrow> nat \<Rightarrow> nat \<Rightarrow> u64 \<Rightarrow> u16" where
  "checksum d buf n init = raw_checksum d buf n 0"

text \<open>\<open>src\<close> and \<open>dst\<close> are the offsets of the addresses, \<open>ip_len\<close> their length in 32-bit words.\<close>

definition add_word :: "bytes \<Rightarrow> nat \<Rightarrow> u64 \<Rightarrow> u64" where
  "add_word d off cksum =
     cksum + ucast (drop_bit 16 (ld32 d off)) + ucast (ld32 d off AND 0xffff)"

definition checksum_tcpudp ::
  "bytes \<Rightarrow> nat \<Rightarrow> nat \<Rightarrow> nat \<Rightarrow> nat \<Rightarrow> nat \<Rightarrow> u8 \<Rightarrow> u16 \<Rightarrow> u16" where
  "checksum_tcpudp d buf n src dst ip_len proto len =
     (let cksum = fold (\<lambda>i c. add_word d (dst + 4 * i) (add_word d (src + 4 * i) c)) [0..<ip_len] 0;
          proto16 = push_bit 8 (ucast proto) :: u16;
          cksum = cksum + ucast proto16;
          cksum = cksum + ucast len
      in raw_checksum d buf n cksum)"

definition checksum_ipv4 :: "packet \<Rightarrow> packet" where
  "checksum_ipv4 pkt =
     (let d = p_data pkt;
          ip = ETH_HDR;
          d = st16 d (ip + 10) 0;
          d = st16 d (ip + 10) (checksum d ip IP_HDR 0)
      in pkt\<lparr>p_data := d\<rparr>)"

text \<open>The common part of \<open>checksum_udp\<close> and \<open>checksum_tcp\<close>, which differ in the check's offset.\<close>

definition checksum_segment :: "packet \<Rightarrow> nat \<Rightarrow> packet" where
  "checksum_segment pkt check =
     (let nh = network_header pkt;
          th = transport_header pkt;
          d = st16 (p_data pkt) (th + check) 0
      in if PACKET_IS_IPV4 pkt then
           let n = ntohs (ip_tot_len d nh) - 20;
               len = htons n
           in pkt\<lparr>p_data := st16 d (th + check)
                (checksum_tcpudp d th (unat n) (nh + 12) (nh + 16) 1 (ip_protocol d nh) len)\<rparr>
         else
           let len = ip6_payload_len d nh;
               n = ntohs len
           in pkt\<lparr>p_data := st16 d (th + check)
                (checksum_tcpudp d th (unat n) (nh + 8) (nh + 24) 4 (ip_protocol d nh) len)\<rparr>)"

definition checksum_udp :: "packet \<Rightarrow> packet" where
  "checksum_udp pkt = checksum_segment pkt 6"

definition checksum_tcp :: "packet \<Rightarrow> packet" where
  "checksum_tcp pkt = checksum_segment pkt 16"

section \<open>The sum\<close>

text \<open>The sum of the 16-bit words of a buffer, an odd last byte counting as a word.\<close>

fun word_sum :: "bytes \<Rightarrow> nat \<Rightarrow> nat \<Rightarrow> nat" where
  "word_sum d i n =
     (if 1 < n then unat (ld16 d i) + word_sum d (i + 2) (n - 2)
      else if n \<noteq> 0 then unat (d i) else 0)"

declare word_sum.simps [simp del]

lemma word_sum_bound: "word_sum d i n \<le> n * 65535"
proof (induction d i n rule: word_sum.induct)
  case (1 d i n)
  have "unat (ld16 d i) \<le> 65535" using u16_less [of "ld16 d i"] by simp
  moreover have "unat (d i) \<le> 255" using u8_less [of "d i"] by simp
  ultimately show ?case using "1.IH" by (subst word_sum.simps) auto
qed

lemma csum_words_unat:
  "unat c + word_sum d i n < 2 ^ 64 \<Longrightarrow> unat (csum_words d i n c) = unat c + word_sum d i n"
proof (induction d i n c rule: csum_words.induct)
  case (1 d i n c)
  have w: "unat (ucast (ld16 d i) :: u64) = unat (ld16 d i)" "unat (ucast (d i) :: u64) = unat (d i)"
    using u16_less [of "ld16 d i"] u8_less [of "d i"]
    by (simp_all add: unsigned_ucast_eq take_bit_nat_eq_self)
  consider "1 < n" | "n = 1" | "n = 0" by linarith
  then show ?case
  proof cases
    case 1
    have s: "word_sum d i n = unat (ld16 d i) + word_sum d (i + 2) (n - 2)"
      using 1 by (subst word_sum.simps) simp
    have a: "unat (c + ucast (ld16 d i)) = unat c + unat (ld16 d i)"
      using "1.prems" s w unat_add_lem [of c "ucast (ld16 d i)"] by simp
    show ?thesis using "1.IH" 1 "1.prems" s a by (subst csum_words.simps) simp
  next
    case 2
    then have s: "word_sum d i n = unat (d i)" by (subst word_sum.simps) simp
    have "unat (c + ucast (d i)) = unat c + unat (d i)"
      using "1.prems" s w unat_add_lem [of c "ucast (d i)"] by simp
    then show ?thesis using 2 s by (subst csum_words.simps) simp
  next
    case 3
    then show ?thesis by (subst csum_words.simps, subst word_sum.simps) simp
  qed
qed

text \<open>Replacing an aligned word of the buffer.\<close>

lemma word_sum_cong:
  "(\<And>j. i \<le> j \<Longrightarrow> j < i + n \<Longrightarrow> d j = e j) \<Longrightarrow> word_sum d i n = word_sum e i n"
proof (induction d i n rule: word_sum.induct)
  case (1 d i n)
  have "ld16 d i = ld16 e i" if "1 < n" using "1.prems" that by (simp add: ld16_def)
  moreover have "d i = e i" if "n \<noteq> 0" using "1.prems" that by simp
  moreover have "word_sum d (i + 2) (n - 2) = word_sum e (i + 2) (n - 2)" if "1 < n"
    using that by (intro "1.IH") (auto intro: "1.prems")
  ultimately show ?case by (subst word_sum.simps, subst word_sum.simps [of e]) auto
qed

lemma word_sum_st16:
  "2 * k + 1 < n \<Longrightarrow> word_sum (st16 d (i + 2 * k) v) i n + unat (ld16 d (i + 2 * k)) = word_sum d i n + unat v"
proof (induction k arbitrary: i n)
  case 0
  have "word_sum (st16 d i v) (i + 2) (n - 2) = word_sum d (i + 2) (n - 2)"
    by (rule word_sum_cong) (simp add: st16_other)
  then show ?case using 0 by (subst word_sum.simps, subst word_sum.simps [of d]) simp
next
  case (Suc k)
  have ix: "i + 2 * Suc k = (i + 2) + 2 * k" by simp
  have l: "ld16 (st16 d (i + 2 * Suc k) v) i = ld16 d i" by (rule ld16_st16_other) simp
  have n: "1 < n" using Suc.prems by simp
  have "word_sum (st16 d (i + 2 * Suc k) v) i n
      = unat (ld16 d i) + word_sum (st16 d ((i + 2) + 2 * k) v) (i + 2) (n - 2)"
    using n l by (subst word_sum.simps) (simp only: ix if_True)
  moreover have "word_sum d i n = unat (ld16 d i) + word_sum d (i + 2) (n - 2)"
    using n by (subst word_sum.simps) simp
  ultimately show ?case using Suc.IH [of "n - 2" "i + 2"] Suc.prems by (simp only: ix) simp
qed

text \<open>Folding keeps the sum modulo \<open>2 ^ 16 - 1\<close>.\<close>

lemma csum_fold_mod: "unat (csum_fold c) mod 65535 = unat c mod 65535 \<and> unat (csum_fold c) < 65536"
proof (induction c rule: csum_fold.induct)
  case (1 c)
  show ?case
  proof (cases "drop_bit 16 c = 0")
    case True
    then show ?thesis using fold_done by (subst (1 2) csum_fold.simps) simp
  next
    case False
    have "(unat c div 65536 + unat c mod 65536) mod 65535 = unat c mod 65535"
    proof -
      let ?q = "unat c div 65536" and ?r = "unat c mod 65536"
      have "unat c = (?q + ?r) + 65535 * ?q" using div_mult_mod_eq [of "unat c" 65536] by linarith
      then have "unat c mod 65535 = ((?q + ?r) + 65535 * ?q) mod 65535" by simp
      then show ?thesis by (simp only: mod_mult_self2)
    qed
    with 1 False show ?thesis by (subst (1 2) csum_fold.simps) (simp only: fold_step if_True not_False_eq_True)
  qed
qed

lemma unat_not_u16: "unat (NOT (x :: u16)) = 65535 - unat x"
proof -
  have "NOT x = - 1 - x" by (simp add: not_eq_complement)
  moreover have "unat (- 1 - x) = unat (- 1 :: u16) - unat x" by (rule unat_sub) simp
  moreover have "unat (- 1 :: u16) = 65535" by (simp add: unsigned_minus_1_eq_mask mask_eq_exp_minus_1)
  ultimately show ?thesis by simp
qed

lemma raw_checksum_complement:
  assumes "unat init + word_sum d i n < 2 ^ 64"
  shows "(unat init + word_sum d i n + unat (raw_checksum d i n init)) mod 65535 = 0"
proof -
  let ?s = "unat init + word_sum d i n"
  let ?f = "csum_fold (csum_words d i n init)"
  have f: "unat ?f mod 65535 = ?s mod 65535" "unat ?f < 65536"
    using csum_fold_mod [of "csum_words d i n init"] csum_words_unat [OF assms] by simp_all
  have "unat (ucast ?f :: u16) = unat ?f" using f(2) by (simp add: unsigned_ucast_eq take_bit_nat_eq_self)
  then have c: "unat (raw_checksum d i n init) = 65535 - unat ?f"
    by (simp add: raw_checksum_def unat_not_u16)
  have "(?s + (65535 - unat ?f)) mod 65535 = (?s mod 65535 + (65535 - unat ?f)) mod 65535"
    by (simp add: mod_add_left_eq)
  also have "\<dots> = (unat ?f mod 65535 + (65535 - unat ?f)) mod 65535" by (simp only: f(1))
  also have "\<dots> = (unat ?f + (65535 - unat ?f)) mod 65535" by (rule mod_add_left_eq)
  also have "\<dots> = 0" using f(2) by simp
  finally show ?thesis by (simp only: c)
qed

section \<open>What the receiver finds\<close>

text \<open>
  The receiver adds the words of the covered bytes, checksum included (and the pseudo header for
  TCP and UDP); the packet is intact when the sum is zero modulo \<open>2 ^ 16 - 1\<close>.
\<close>

lemma checksum_ipv4_data:
  "p_data (checksum_ipv4 pkt) = st16 (st16 (p_data pkt) 24 0) 24 (checksum (st16 (p_data pkt) 24 0) 14 20 0)"
  by (simp add: checksum_ipv4_def ETH_HDR_def IP_HDR_def Let_def)

lemma store_check_sum:
  assumes d: "d0 = st16 d (i + 2 * k) 0" and n: "2 * k + 1 < n" and s: "unat init + word_sum d0 i n < 2 ^ 64"
  shows "(unat init + word_sum (st16 d0 (i + 2 * k) (raw_checksum d0 i n init)) i n) mod 65535 = 0"
proof -
  have "ld16 d0 (i + 2 * k) = 0" by (simp add: d)
  then have "word_sum (st16 d0 (i + 2 * k) (raw_checksum d0 i n init)) i n
      = word_sum d0 i n + unat (raw_checksum d0 i n init)"
    using word_sum_st16 [OF n, of d0 i "raw_checksum d0 i n init"] by simp
  with raw_checksum_complement [OF s] show ?thesis by (simp add: add.assoc)
qed

text \<open>
  the header with its checksum sums to zero.
\<close>

lemma checksum_ipv4_valid: "word_sum (p_data (checksum_ipv4 pkt)) 14 20 mod 65535 = 0"
proof -
  let ?d0 = "st16 (p_data pkt) (14 + 2 * 5) 0"
  have "unat (0 :: u64) + word_sum ?d0 14 20 < 2 ^ 64" using word_sum_bound [of ?d0 14 20] by simp
  from store_check_sum [OF refl _ this] show ?thesis
    by (simp add: checksum_ipv4_data checksum_def)
qed

lemma checksum_ipv4_frame:
  "j \<noteq> 24 \<Longrightarrow> j \<noteq> 25 \<Longrightarrow> p_data (checksum_ipv4 pkt) j = p_data pkt j"
  unfolding checksum_ipv4_data by (auto simp: st16_def)

lemma word_sum_snoc: "word_sum d i (2 * k + 2) = word_sum d i (2 * k) + unat (ld16 d (i + 2 * k))"
proof (induction k arbitrary: i)
  case 0
  show ?case by (subst word_sum.simps, subst (1 2) word_sum.simps) simp
next
  case (Suc k)
  have "word_sum d i (2 * Suc k + 2) = unat (ld16 d i) + word_sum d (i + 2) (2 * k + 2)"
    by (subst word_sum.simps) simp
  also have "\<dots> = unat (ld16 d i) + word_sum d (i + 2) (2 * k) + unat (ld16 d (i + 2 * Suc k))"
    using Suc by simp
  also have "unat (ld16 d i) + word_sum d (i + 2) (2 * k) = word_sum d i (2 * Suc k)"
    by (subst (2) word_sum.simps) simp
  finally show ?case .
qed

lemma ld32_halves:
  "drop_bit 16 (ld32 d i) = ucast (ld16 d (i + 2))" "ld32 d i AND 0xffff = ucast (ld16 d i)"
proof -
  show "drop_bit 16 (ld32 d i) = ucast (ld16 d (i + 2))"
    unfolding ld32_def by (rule bit_word_eqI) (auto simp: bit_simps dest: bit_imp_le_length)
  have "ld32 d i AND 0xffff = take_bit 16 (ld32 d i)" by (simp add: take_bit_eq_mask mask_eq_exp_minus_1)
  also have "\<dots> = ucast (ld16 d i)"
    unfolding ld32_def by (rule bit_word_eqI) (auto simp: bit_simps dest: bit_imp_le_length)
  finally show "ld32 d i AND 0xffff = ucast (ld16 d i)" .
qed

lemma add_word_unat:
  assumes "unat c + 131070 < 2 ^ 64"
  shows "unat (add_word d i c) = unat c + unat (ld16 d i) + unat (ld16 d (i + 2))"
proof -
  have w: "unat (ucast (ucast (x :: u16) :: u32) :: u64) = unat x" for x
  proof -
    have "unat (ucast y :: u64) = unat y" for y :: u32
      using u32_less [of y] by (simp add: unsigned_ucast_eq take_bit_nat_eq_self)
    moreover have "unat (ucast x :: u32) = unat x"
      using u16_less [of x] by (simp add: unsigned_ucast_eq take_bit_nat_eq_self)
    ultimately show ?thesis by (simp only:)
  qed
  have b: "unat (ld16 d i) \<le> 65535" "unat (ld16 d (i + 2)) \<le> 65535"
    using u16_less [of "ld16 d i"] u16_less [of "ld16 d (i + 2)"] by simp_all
  have 1: "unat (c + ucast (ucast (ld16 d (i + 2)) :: u32)) = unat c + unat (ld16 d (i + 2))"
    using assms b w unat_add_lem [of c "ucast (ucast (ld16 d (i + 2)) :: u32)"] by simp
  show ?thesis
    unfolding add_word_def ld32_halves
    using assms b w 1 unat_add_lem [of "c + ucast (ucast (ld16 d (i + 2)) :: u32)" "ucast (ucast (ld16 d i) :: u32)"]
    by simp
qed

definition pseudo_sum :: "bytes \<Rightarrow> nat \<Rightarrow> nat \<Rightarrow> nat \<Rightarrow> u8 \<Rightarrow> u16 \<Rightarrow> nat" where
  "pseudo_sum d src dst ip_len proto len =
     word_sum d src (4 * ip_len) + word_sum d dst (4 * ip_len) + unat proto * 256 + unat len"

lemma pseudo_words:
  "n \<le> 4 \<Longrightarrow> unat (fold (\<lambda>i c. add_word d (dst + 4 * i) (add_word d (src + 4 * i) c)) [0..<n] 0)
     = word_sum d src (4 * n) + word_sum d dst (4 * n)"
proof (induction n)
  case 0
  show ?case by (subst (1 2) word_sum.simps) simp
next
  case (Suc n)
  let ?c = "fold (\<lambda>i c. add_word d (dst + 4 * i) (add_word d (src + 4 * i) c)) [0..<n] 0"
  have c: "unat ?c = word_sum d src (4 * n) + word_sum d dst (4 * n)" using Suc by simp
  have b: "unat ?c \<le> 4 * 4 * 131070"
    using Suc.prems word_sum_bound [of d src "4 * n"] word_sum_bound [of d dst "4 * n"] c by simp
  have four: "word_sum d i (4 * Suc n)
      = word_sum d i (4 * n) + unat (ld16 d (i + 4 * n)) + unat (ld16 d (i + 4 * n + 2))" for i
  proof -
    have e: "4 * Suc n = 2 * (2 * n + 1) + 2" "2 * (2 * n + 1) = 2 * (2 * n) + 2" "2 * (2 * n) = 4 * n"
      "i + 2 * (2 * n + 1) = i + 4 * n + 2" by simp_all
    have "word_sum d i (4 * Suc n) = word_sum d i (2 * (2 * n + 1)) + unat (ld16 d (i + 2 * (2 * n + 1)))"
      unfolding e(1) by (rule word_sum_snoc)
    moreover have "word_sum d i (2 * (2 * n + 1)) = word_sum d i (2 * (2 * n)) + unat (ld16 d (i + 2 * (2 * n)))"
      unfolding e(2) by (rule word_sum_snoc)
    ultimately show ?thesis by (simp only: e(3,4))
  qed
  have 1: "unat (add_word d (src + 4 * n) ?c)
      = unat ?c + unat (ld16 d (src + 4 * n)) + unat (ld16 d (src + 4 * n + 2))"
    by (rule add_word_unat) (use b in simp)
  have "unat (add_word d (dst + 4 * n) (add_word d (src + 4 * n) ?c))
      = unat (add_word d (src + 4 * n) ?c) + unat (ld16 d (dst + 4 * n)) + unat (ld16 d (dst + 4 * n + 2))"
    using 1 b u16_less [of "ld16 d (src + 4 * n)"] u16_less [of "ld16 d (src + 4 * n + 2)"]
    by (intro add_word_unat) simp
  then show ?case using 1 c four by simp
qed

lemma proto_word: "unat (push_bit 8 (ucast (p :: u8)) :: u16) = unat p * 256"
proof -
  have "push_bit 8 (ucast p) = (of_nat (unat p * 256) :: u16)" by (simp add: push_bit_eq_mult)
  moreover have "unat p * 256 < 65536" using u8_less [of p] by simp
  ultimately show ?thesis by (simp only: u16_unat_of_nat)
qed

lemma checksum_tcpudp_eq:
  assumes "ip_len \<le> 4"
  shows "\<exists>init. checksum_tcpudp d buf n src dst ip_len proto len = raw_checksum d buf n init \<and>
    unat init = pseudo_sum d src dst ip_len proto len"
proof -
  let ?c = "fold (\<lambda>i c. add_word d (dst + 4 * i) (add_word d (src + 4 * i) c)) [0..<ip_len] 0"
  let ?p = "push_bit 8 (ucast proto) :: u16"
  note c = pseudo_words [OF assms, of d dst src]
  have b: "unat ?c \<le> 2097120"
    using assms word_sum_bound [of d src "4 * ip_len"] word_sum_bound [of d dst "4 * ip_len"] c by simp
  have w: "unat (ucast (x :: u16) :: u64) = unat x" for x
    using u16_less [of x] by (simp add: unsigned_ucast_eq take_bit_nat_eq_self)
  have 1: "unat (?c + ucast ?p) = unat ?c + unat ?p"
    using unat_add_lem [of ?c "ucast ?p"] w [of ?p] b u16_less [of ?p] by simp
  have "unat (?c + ucast ?p + ucast len) = unat ?c + unat ?p + unat len"
    using unat_add_lem [of "?c + ucast ?p" "ucast len"] w [of len] 1 b u16_less [of ?p] u16_less [of len] by simp
  then show ?thesis
    by (intro exI [of _ "?c + ucast ?p + ucast len"]) (simp add: checksum_tcpudp_def Let_def pseudo_sum_def c proto_word)
qed

text \<open>
  Segments: \<open>cover\<close> is the number of bytes the code sums, the IPv4 total length less 20 (modulo
  \<open>2 ^ 16\<close>) or the IPv6 payload length. The pseudo header is the packet's own, except that for
  IPv6 the protocol is the byte at offset 9 of the header, which belongs to the source address;
  the next-header byte is at offset 6.
\<close>

definition cover :: "packet \<Rightarrow> nat" where
  "cover pkt = (if PACKET_IS_IPV4 pkt then unat (ntohs (ip_tot_len (p_data pkt) (network_header pkt)) - 20)
     else unat (ntohs (ip6_payload_len (p_data pkt) (network_header pkt))))"

definition pseudo_of :: "packet \<Rightarrow> nat" where
  "pseudo_of pkt =
     (let d = p_data pkt; nh = network_header pkt
      in if PACKET_IS_IPV4 pkt then
           pseudo_sum d (nh + 12) (nh + 16) 1 (ip_protocol d nh) (htons (ntohs (ip_tot_len d nh) - 20))
         else pseudo_sum d (nh + 8) (nh + 24) 4 (ip_protocol d nh) (ip6_payload_len d nh))"

definition header_len :: "packet \<Rightarrow> nat" where
  "header_len pkt = (if PACKET_IS_IPV4 pkt then 20 else 40)"

lemma pseudo_sum_bound: "ip_len \<le> 4 \<Longrightarrow> pseudo_sum d src dst ip_len proto len < 2300000"
  using word_sum_bound [of d src "4 * ip_len"] word_sum_bound [of d dst "4 * ip_len"]
    u8_less [of proto] u16_less [of len] by (simp add: pseudo_sum_def)

lemma header_stable:
  assumes "\<And>j. j < network_header pkt + header_len pkt \<Longrightarrow> d j = p_data pkt j"
  shows "cover (pkt\<lparr>p_data := d\<rparr>) = cover pkt" "pseudo_of (pkt\<lparr>p_data := d\<rparr>) = pseudo_of pkt"
proof -
  have v: "PACKET_IS_IPV4 (pkt\<lparr>p_data := d\<rparr>) = PACKET_IS_IPV4 pkt" by (simp add: PACKET_IS_IPV4_def)
  have l: "ld16 d j = ld16 (p_data pkt) j" if "j + 1 < network_header pkt + header_len pkt" for j
    using assms that by (simp add: ld16_def)
  have w: "word_sum d i n = word_sum (p_data pkt) i n" if "i + n \<le> network_header pkt + header_len pkt" for i n
    using that by (intro word_sum_cong assms) simp
  show "cover (pkt\<lparr>p_data := d\<rparr>) = cover pkt"
    by (simp add: cover_def v ip_tot_len_def ip6_payload_len_def l header_len_def)
  show "pseudo_of (pkt\<lparr>p_data := d\<rparr>) = pseudo_of pkt"
    using assms
    by (simp add: pseudo_of_def v pseudo_sum_def Let_def ip_tot_len_def ip6_payload_len_def ip_protocol_def l w header_len_def)
qed

lemma checksum_segment_valid:
  assumes th: "network_header pkt + header_len pkt \<le> transport_header pkt" and k: "2 * k + 1 < cover pkt"
  shows "(pseudo_of (checksum_segment pkt (2 * k))
     + word_sum (p_data (checksum_segment pkt (2 * k))) (transport_header pkt) (cover pkt)) mod 65535 = 0"
    and "cover (checksum_segment pkt (2 * k)) = cover pkt"
proof -
  let ?t = "transport_header pkt" and ?n = "cover pkt"
  let ?d0 = "st16 (p_data pkt) (?t + 2 * k) 0"
  let ?p0 = "pkt\<lparr>p_data := ?d0\<rparr>"
  have low0: "?d0 j = p_data pkt j" if "j < network_header pkt + header_len pkt" for j
    using that th by (simp add: st16_other)
  note h0 = header_stable [of pkt ?d0, OF low0]
  have v0: "PACKET_IS_IPV4 ?p0 = PACKET_IS_IPV4 pkt" by (simp add: PACKET_IS_IPV4_def)
  have "\<exists>init. checksum_segment pkt (2 * k) = pkt\<lparr>p_data := st16 ?d0 (?t + 2 * k) (raw_checksum ?d0 ?t ?n init)\<rparr>
      \<and> unat init = pseudo_of ?p0"
  proof (cases "PACKET_IS_IPV4 pkt")
    case True
    from checksum_tcpudp_eq [of 1 ?d0 ?t ?n "network_header pkt + 12" "network_header pkt + 16"]
    show ?thesis using True h0(1) v0
      by (simp add: checksum_segment_def Let_def pseudo_of_def cover_def) metis
  next
    case False
    from checksum_tcpudp_eq [of 4 ?d0 ?t ?n "network_header pkt + 8" "network_header pkt + 24"]
    show ?thesis using False h0(1) v0
      by (simp add: checksum_segment_def Let_def pseudo_of_def cover_def) metis
  qed
  then obtain init where eq: "checksum_segment pkt (2 * k)
      = pkt\<lparr>p_data := st16 ?d0 (?t + 2 * k) (raw_checksum ?d0 ?t ?n init)\<rparr>" "unat init = pseudo_of pkt"
    using h0(2) by auto
  let ?d1 = "st16 ?d0 (?t + 2 * k) (raw_checksum ?d0 ?t ?n init)"
  have low1: "?d1 j = p_data pkt j" if "j < network_header pkt + header_len pkt" for j
    using that th by (simp add: st16_other)
  note h1 = header_stable [of pkt ?d1, OF low1]
  show "cover (checksum_segment pkt (2 * k)) = cover pkt" using h1(1) by (simp add: eq(1))
  have "?n < 65536" using u16_less by (simp add: cover_def)
  then have "word_sum ?d0 ?t ?n \<le> 65536 * 65535"
    using word_sum_bound [of ?d0 ?t ?n] by (meson le_trans less_imp_le mult_le_mono1)
  moreover have "unat init < 2300000"
    using eq(2) pseudo_sum_bound by (simp add: pseudo_of_def Let_def)
  ultimately have "unat init + word_sum ?d0 ?t ?n < 2 ^ 64" by simp
  from store_check_sum [OF refl k this]
  show "(pseudo_of (checksum_segment pkt (2 * k))
     + word_sum (p_data (checksum_segment pkt (2 * k))) ?t ?n) mod 65535 = 0"
    using h1(2) by (simp add: eq)
qed

lemma checksum_tcp_valid:
  assumes "network_header pkt + header_len pkt \<le> transport_header pkt" "18 \<le> cover pkt"
  shows "(pseudo_of (checksum_tcp pkt)
     + word_sum (p_data (checksum_tcp pkt)) (transport_header pkt) (cover pkt)) mod 65535 = 0"
  using checksum_segment_valid(1) [of pkt 8] assms by (simp add: checksum_tcp_def)

lemma checksum_udp_valid:
  assumes "network_header pkt + header_len pkt \<le> transport_header pkt" "8 \<le> cover pkt"
  shows "(pseudo_of (checksum_udp pkt)
     + word_sum (p_data (checksum_udp pkt)) (transport_header pkt) (cover pkt)) mod 65535 = 0"
  using checksum_segment_valid(1) [of pkt 3] assms by (simp add: checksum_udp_def)

text \<open>A total length below the header's own makes the code sum over 65516 bytes or more.\<close>

lemma cover_underflow:
  assumes "PACKET_IS_IPV4 pkt" "unat (ntohs (ip_tot_len (p_data pkt) (network_header pkt))) < 20"
  shows "65516 \<le> cover pkt"
proof -
  let ?l = "ntohs (ip_tot_len (p_data pkt) (network_header pkt))"
  have "?l - 20 = of_nat (65516 + unat ?l)" by simp
  moreover have "65516 + unat ?l < 65536" using assms(2) by simp
  ultimately have "unat (?l - 20) = 65516 + unat ?l" by (simp only: u16_unat_of_nat)
  then show ?thesis using assms(1) by (simp add: cover_def)
qed



end
