(* ===== verification/ServerPool.thy ===== *)
theory ServerPool
  imports NetAddr RoundRobin
begin

text \<open>
  \<open>uspace/src/server_pool.c\<close> with \<open>server_pool.h\<close>: pools of back-end servers, used in turn. The
  servers of a pool are an array of 64 inside the structure; a server is named by its pool and
  its index.
\<close>

section \<open>The operations\<close>

definition MAX_SERVER :: nat where "MAX_SERVER = 64"

type_synonym srv_ref = "ptr \<times> nat"

type_synonym mac = "nat \<Rightarrow> u8"

record server =
  srv_addr :: net_address
  srv_mac :: mac

record server_pool =
  sp_servers :: "server list"
  sp_num :: nat
  sp_next :: nat
  sp_ref :: int

record pools_state =
  sp_store :: "server_pool store"
  server_pool_list :: "ptr list"
  server_list :: "srv_ref list"

definition server_pool_get_server_list :: "pools_state \<Rightarrow> srv_ref list" where
  "server_pool_get_server_list s = server_list s"

definition server_pool_get_server_pool_list :: "pools_state \<Rightarrow> ptr list" where
  "server_pool_get_server_pool_list s = server_pool_list s"

text \<open>\<open>junk\<close> is the uninitialised array of servers.\<close>

definition server_pool_create :: "(nat \<Rightarrow> server) \<Rightarrow> pools_state \<Rightarrow> heap \<Rightarrow> ptr option \<times> pools_state \<times> heap" where
  "server_pool_create junk s h =
     (case malloc h of
        (None, h) \<Rightarrow> (None, s, h)
      | (Some p, h) \<Rightarrow>
          (Some p, s\<lparr>sp_store := (sp_store s)(p \<mapsto> \<lparr>sp_servers = map junk [0..<MAX_SERVER],
                                                    sp_num = 0, sp_next = 0, sp_ref = 0\<rparr>),
                     server_pool_list := p # server_pool_list s\<rparr>, h))"

text \<open>Unlinking a server that was never linked goes through uninitialised pointers.\<close>

definition unlink_server :: "srv_ref \<Rightarrow> pools_state \<Rightarrow> pools_state res" where
  "unlink_server r s =
     (if r \<in> set (server_list s) then Inr (s\<lparr>server_list := remove1 r (server_list s)\<rparr>)
      else Inl Bad_deref)"

definition server_pool_free :: "pools_state \<Rightarrow> ptr \<Rightarrow> heap \<Rightarrow> (pools_state \<times> heap) res" where
  "server_pool_free s p h =
     bindE (deref (sp_store s) p) (\<lambda>sp.
     bindE (foldE (\<lambda>i s. bindE (arr_get (sp_servers sp) i) (\<lambda>_. unlink_server (p, i) s))
              [0..<sp_num sp] s) (\<lambda>s.
       Inr (s\<lparr>server_pool_list := remove1 p (server_pool_list s),
              sp_store := (sp_store s)(p := None)\<rparr>, mfree h)))"

text \<open>
  The test \<open>p->num < MAX_SERVER\<close> is the condition of an empty statement (a semicolon follows it),
  so the block after it always runs.
\<close>

definition server_pool_add_server :: "pools_state \<Rightarrow> ptr \<Rightarrow> net_address \<Rightarrow> (srv_ref option \<times> pools_state) res" where
  "server_pool_add_server s p addr =
     bindE (deref (sp_store s) p) (\<lambda>sp.
     let i = sp_num sp in
     bindE (arr_get (sp_servers sp) i) (\<lambda>srv.
     bindE (arr_set (sp_servers sp) i (srv\<lparr>srv_addr := addr\<rparr>)) (\<lambda>srvs.
       Inr (Some (p, i),
            s\<lparr>sp_store := (sp_store s)(p \<mapsto> sp\<lparr>sp_num := sp_num sp + 1, sp_servers := srvs\<rparr>),
              server_list := (p, i) # server_list s\<rparr>))))"

definition server_pool_add_server_TEST ::
  "pools_state \<Rightarrow> ptr \<Rightarrow> mac \<Rightarrow> net_address \<Rightarrow> (int \<times> pools_state) res" where
  "server_pool_add_server_TEST s p mac addr =
     bindE (deref (sp_store s) p) (\<lambda>sp.
     let i = sp_num sp in
     bindE (arr_get (sp_servers sp) i) (\<lambda>srv.
     bindE (arr_set (sp_servers sp) i (srv\<lparr>srv_mac := mac, srv_addr := addr\<rparr>)) (\<lambda>srvs.
       Inr (1, s\<lparr>sp_store := (sp_store s)(p \<mapsto> sp\<lparr>sp_num := sp_num sp + 1, sp_servers := srvs\<rparr>)\<rparr>))))"

definition server_pool_get_server :: "pools_state \<Rightarrow> ptr \<Rightarrow> (srv_ref option \<times> pools_state) res" where
  "server_pool_get_server s p =
     bindE (deref (sp_store s) p) (\<lambda>sp.
       if 0 < sp_num sp then
         bindE (arr_get (sp_servers sp) (sp_next sp)) (\<lambda>_.
           Inr (Some (p, sp_next sp),
                s\<lparr>sp_store := (sp_store s)(p \<mapsto> sp\<lparr>sp_next := (sp_next sp + 1) mod sp_num sp\<rparr>)\<rparr>))
       else Inr (None, s))"

text \<open>Reading and writing a server through its reference.\<close>

definition get_server :: "pools_state \<Rightarrow> srv_ref \<Rightarrow> server res" where
  "get_server s = (\<lambda>(p, i). bindE (deref (sp_store s) p) (\<lambda>sp. arr_get (sp_servers sp) i))"

definition put_server :: "pools_state \<Rightarrow> srv_ref \<Rightarrow> server \<Rightarrow> pools_state res" where
  "put_server s = (\<lambda>(p, i) srv.
     bindE (deref (sp_store s) p) (\<lambda>sp.
     bindE (arr_set (sp_servers sp) i srv) (\<lambda>srvs.
       Inr (s\<lparr>sp_store := (sp_store s)(p \<mapsto> sp\<lparr>sp_servers := srvs\<rparr>)\<rparr>))))"

definition server_set_mac :: "pools_state \<Rightarrow> srv_ref \<Rightarrow> mac \<Rightarrow> pools_state res" where
  "server_set_mac s r mac = bindE (get_server s r) (\<lambda>srv. put_server s r (srv\<lparr>srv_mac := mac\<rparr>))"

definition server_get_ip_address :: "server \<Rightarrow> ip_address" where
  "server_get_ip_address srv = na_ip (srv_addr srv)"

definition server_get_port :: "server \<Rightarrow> u16" where
  "server_get_port srv = na_port (srv_addr srv)"

section \<open>Well-formed pools\<close>

definition sp_ok :: "server_pool \<Rightarrow> bool" where
  "sp_ok sp \<longleftrightarrow> length (sp_servers sp) = MAX_SERVER \<and> sp_num sp \<le> MAX_SERVER \<and>
     (if sp_num sp = 0 then sp_next sp = 0 else sp_next sp < sp_num sp)"

definition pool_at :: "ptr \<Rightarrow> pools_state \<Rightarrow> bool" where
  "pool_at p s \<longleftrightarrow> (\<exists>sp. sp_store s p = Some sp \<and> sp_ok sp)"

definition srv_turn :: "ptr \<Rightarrow> pools_state \<Rightarrow> srv_ref list" where
  "srv_turn p s = (case sp_store s p of None \<Rightarrow> []
     | Some sp \<Rightarrow> map (Pair p) (rotate (sp_next sp) [0..<sp_num sp]))"

lemma rotate_upt_step:
  assumes "k < n"
  shows "rotate k [0..<n] = k # tl (rotate k [0..<n])"
    and "rotate (Suc k mod n) [0..<n] = tl (rotate k [0..<n]) @ [k]"
proof -
  have "rotate k [0..<n] = drop k [0..<n] @ take k [0..<n]" using assms by (simp add: rotate_drop_take)
  also have "drop k [0..<n] = [k..<n]" by (simp add: drop_upt)
  also have "[k..<n] = k # [Suc k..<n]" using assms by (rule upt_conv_Cons)
  also have "take k [0..<n] = [0..<k]" using assms by (simp add: take_upt)
  finally have r: "rotate k [0..<n] = k # [Suc k..<n] @ [0..<k]" by simp
  then show "rotate k [0..<n] = k # tl (rotate k [0..<n])" by simp
  have "rotate (Suc k mod n) [0..<n] = rotate (Suc k) [0..<n]" by (metis length_upt minus_nat.diff_0 rotate_conv_mod)
  also have "\<dots> = rotate1 (rotate k [0..<n])" by simp
  finally show "rotate (Suc k mod n) [0..<n] = tl (rotate k [0..<n]) @ [k]" by (simp add: r)
qed

lemma get_server_turn:
  assumes p: "sp_store s p = Some sp" and ok: "sp_ok sp" and n: "0 < sp_num sp"
  shows "\<exists>s'. server_pool_get_server s p = Inr (Some (p, sp_next sp), s') \<and>
    s' = s\<lparr>sp_store := (sp_store s)(p \<mapsto> sp\<lparr>sp_next := Suc (sp_next sp) mod sp_num sp\<rparr>)\<rparr> \<and>
    pool_at p s' \<and> srv_turn p s = (p, sp_next sp) # tl (srv_turn p s) \<and>
    srv_turn p s' = tl (srv_turn p s) @ [(p, sp_next sp)]"
proof -
  let ?k = "sp_next sp" and ?n = "sp_num sp"
  have k: "?k < ?n" "?k < length (sp_servers sp)" using ok n by (auto simp: sp_ok_def)
  let ?s = "s\<lparr>sp_store := (sp_store s)(p \<mapsto> sp\<lparr>sp_next := Suc ?k mod ?n\<rparr>)\<rparr>"
  have "server_pool_get_server s p = Inr (Some (p, ?k), ?s)"
    using p n k by (simp add: server_pool_get_server_def)
  moreover have "pool_at p ?s" using ok n by (auto simp: pool_at_def sp_ok_def)
  moreover have t: "srv_turn p s = map (Pair p) (rotate ?k [0..<?n])" using p by (simp add: srv_turn_def)
  moreover have "srv_turn p s = (p, ?k) # tl (srv_turn p s)"
    unfolding t by (subst (1 2) rotate_upt_step(1) [OF k(1)]) simp
  moreover have "srv_turn p ?s = tl (srv_turn p s) @ [(p, ?k)]"
    unfolding t using rotate_upt_step(2) [OF k(1)] by (simp add: srv_turn_def map_tl)
  ultimately show ?thesis by blast
qed

text \<open>The servers of a pool are used in turn.\<close>

interpretation servers_rr: round_robin "pool_at p" "srv_turn p" "\<lambda>s. server_pool_get_server s p" for p
proof
  fix s assume ok: "pool_at p s" and e: "srv_turn p s = []"
  then obtain sp where sp: "sp_store s p = Some sp" "sp_ok sp" by (auto simp: pool_at_def)
  with e have "sp_num sp = 0" by (simp add: srv_turn_def)
  with sp ok e show "\<exists>s'. server_pool_get_server s p = Inr (None, s') \<and> pool_at p s' \<and> srv_turn p s' = []"
    by (simp add: server_pool_get_server_def)
next
  fix s x xs assume ok: "pool_at p s" and e: "srv_turn p s = x # xs"
  then obtain sp where sp: "sp_store s p = Some sp" "sp_ok sp" by (auto simp: pool_at_def)
  have "sp_num sp \<noteq> 0" using e sp(1) by (intro notI) (simp add: srv_turn_def)
  then have "0 < sp_num sp" by simp
  from get_server_turn [OF sp this] e
  show "\<exists>s'. server_pool_get_server s p = Inr (Some x, s') \<and> pool_at p s' \<and> srv_turn p s' = xs @ [x]"
    by auto
qed

text \<open>
  C35: the servers of a pool are used in turn: as many requests as the pool has servers are answered by
  every server exactly once, in order, and the order is then as before.
\<close>

theorem servers_in_turn:
  assumes "pool_at p s" "srv_turn p s \<noteq> []"
  shows "\<exists>s'. serve_n (\<lambda>s. server_pool_get_server s p) (length (srv_turn p s)) s = Inr (map Some (srv_turn p s), s') \<and>
    pool_at p s' \<and> srv_turn p s' = srv_turn p s"
  using assms by (rule servers_rr.full_round)

lemma servers_in_turn_witness:
  "\<exists>s'. serve_n (\<lambda>s. server_pool_get_server s 7) 2
      \<lparr>sp_store = [7 \<mapsto> \<lparr>sp_servers = replicate 64 \<lparr>srv_addr = \<lparr>na_ip = \<lparr>family = 2, ip_w0 = 1, ip_w1 = 0, ip_w2 = 0, ip_w3 = 0\<rparr>,
          na_port = 0\<rparr>, srv_mac = (\<lambda>_. 0)\<rparr>, sp_num = 2, sp_next = 1, sp_ref = 0\<rparr>], server_pool_list = [7], server_list = [(7, 1), (7, 0)]\<rparr>
    = Inr ([Some (7, 1), Some (7, 0)], s') \<and> pool_at 7 s'"
proof -
  let ?s = "\<lparr>sp_store = [7 \<mapsto> \<lparr>sp_servers = replicate 64 \<lparr>srv_addr = \<lparr>na_ip = \<lparr>family = 2, ip_w0 = 1, ip_w1 = 0, ip_w2 = 0, ip_w3 = 0\<rparr>,
      na_port = 0\<rparr>, srv_mac = (\<lambda>_. 0)\<rparr>, sp_num = 2, sp_next = 1, sp_ref = 0\<rparr>], server_pool_list = [7], server_list = [(7, 1), (7, 0)]\<rparr>"
  have t: "srv_turn 7 ?s = [(7, 1), (7, 0)]" by (simp add: srv_turn_def upt_rec)
  have "pool_at 7 ?s" by (simp add: pool_at_def sp_ok_def MAX_SERVER_def)
  moreover have "srv_turn 7 ?s \<noteq> []" unfolding t by simp
  ultimately have "\<exists>s'. serve_n (\<lambda>s. server_pool_get_server s 7) (length (srv_turn 7 ?s)) ?s = Inr (map Some (srv_turn 7 ?s), s') \<and>
      pool_at 7 s'" using servers_in_turn by blast
  moreover have "length [(7 :: nat, 1 :: nat), (7, 0)] = 2" by simp
  ultimately show ?thesis unfolding t list.map by (simp only:)
qed

lemma server_pool_create_ok:
  assumes "server_pool_create junk s h = (Some p, s', h')"
  shows "pool_at p s'" "srv_turn p s' = []" "p = brk h"
  using assms
  by (auto simp: server_pool_create_def malloc_def pool_at_def sp_ok_def srv_turn_def split: if_splits)

text \<open>
  C36: a server is added behind the others and at the front of the list of all servers, the other servers
  staying as they are; the 65th is written behind the array.
\<close>

theorem add_server_spec:
  assumes p: "sp_store s p = Some sp" and ok: "sp_ok sp"
  shows "if sp_num sp < MAX_SERVER then
       \<exists>s' sp'. server_pool_add_server s p addr = Inr (Some (p, sp_num sp), s') \<and>
         sp_store s' = (sp_store s)(p \<mapsto> sp') \<and> sp_ok sp' \<and> sp_num sp' = Suc (sp_num sp) \<and>
         sp_next sp' = sp_next sp \<and> srv_addr (sp_servers sp' ! sp_num sp) = addr \<and>
         (\<forall>i < sp_num sp. sp_servers sp' ! i = sp_servers sp ! i) \<and>
         server_list s' = (p, sp_num sp) # server_list s
     else server_pool_add_server s p addr = Inl Bad_index"
proof (cases "sp_num sp < MAX_SERVER")
  case True
  let ?n = "sp_num sp"
  let ?sp = "sp\<lparr>sp_num := Suc ?n, sp_servers := (sp_servers sp)[?n := (sp_servers sp ! ?n)\<lparr>srv_addr := addr\<rparr>]\<rparr>"
  have "server_pool_add_server s p addr = Inr (Some (p, ?n),
      s\<lparr>sp_store := (sp_store s)(p \<mapsto> ?sp), server_list := (p, ?n) # server_list s\<rparr>)"
    using True p ok by (simp add: server_pool_add_server_def sp_ok_def Let_def)
  moreover have "sp_ok ?sp" using True ok by (auto simp: sp_ok_def split: if_splits)
  moreover have "srv_addr (sp_servers ?sp ! ?n) = addr" using True ok by (simp add: sp_ok_def)
  ultimately show ?thesis using True
    by (simp, intro exI [of _ ?sp]) simp
next
  case False
  then show ?thesis using p ok by (simp add: server_pool_add_server_def sp_ok_def Let_def arr_get_def)
qed

lemma add_server_spec_witness:
  "server_pool_add_server \<lparr>sp_store = [7 \<mapsto> \<lparr>sp_servers = replicate 64 \<lparr>srv_addr = \<lparr>na_ip = \<lparr>family = 2, ip_w0 = 1, ip_w1 = 0, ip_w2 = 0, ip_w3 = 0\<rparr>,
      na_port = 0\<rparr>, srv_mac = (\<lambda>_. 0)\<rparr>, sp_num = 64, sp_next = 1, sp_ref = 0\<rparr>], server_pool_list = [7], server_list = []\<rparr> 7
      \<lparr>na_ip = \<lparr>family = 2, ip_w0 = 3, ip_w1 = 0, ip_w2 = 0, ip_w3 = 0\<rparr>, na_port = 0\<rparr> = Inl Bad_index"
  using add_server_spec [where p = 7 and s = "\<lparr>sp_store = [7 \<mapsto> \<lparr>sp_servers = replicate 64 \<lparr>srv_addr = \<lparr>na_ip = \<lparr>family = 2, ip_w0 = 1, ip_w1 = 0, ip_w2 = 0, ip_w3 = 0\<rparr>,
      na_port = 0\<rparr>, srv_mac = (\<lambda>_. 0)\<rparr>, sp_num = 64, sp_next = 1, sp_ref = 0\<rparr>], server_pool_list = [7], server_list = []\<rparr>" and
      addr = "\<lparr>na_ip = \<lparr>family = 2, ip_w0 = 3, ip_w1 = 0, ip_w2 = 0, ip_w3 = 0\<rparr>, na_port = 0\<rparr>"]
  by (simp add: sp_ok_def MAX_SERVER_def)

lemma set_mac_spec:
  assumes p: "sp_store s p = Some sp" and i: "i < length (sp_servers sp)"
  shows "\<exists>s'. server_set_mac s (p, i) mac = Inr s' \<and>
    (\<exists>srv. get_server s' (p, i) = Inr srv \<and> srv_mac srv = mac \<and> srv_addr srv = srv_addr (sp_servers sp ! i)) \<and>
    (\<forall>r. r \<noteq> (p, i) \<longrightarrow> get_server s' r = get_server s r)"
  using assms
  by (auto simp: server_set_mac_def get_server_def put_server_def arr_get_def deref_def
      split: prod.splits option.splits)

text \<open>Freeing a pool whose servers were all linked unlinks exactly these.\<close>

lemma unlink_servers:
  "distinct (map (Pair p) is) \<Longrightarrow> (\<And>i. i \<in> set is \<Longrightarrow> i < length srvs \<and> (p, i) \<in> set (server_list s)) \<Longrightarrow>
     distinct (server_list s) \<Longrightarrow>
     \<exists>s'. foldE (\<lambda>i s. bindE (arr_get srvs i) (\<lambda>_. unlink_server (p, i) s)) is s = Inr s' \<and>
       s' = s\<lparr>server_list := filter (\<lambda>r. r \<notin> Pair p ` set is) (server_list s)\<rparr>"
proof (induction "is" arbitrary: s)
  case (Cons i "is")
  let ?l = "filter (\<lambda>r. r \<noteq> (p, i)) (server_list s)"
  have l: "remove1 (p, i) (server_list s) = ?l"
    using Cons.prems(3) by (simp add: distinct_remove1_removeAll removeAll_filter_not_eq eq_commute)
  have i: "i < length srvs" "(p, i) \<in> set (server_list s)" using Cons.prems(2) by auto
  have "foldE (\<lambda>i s. bindE (arr_get srvs i) (\<lambda>_. unlink_server (p, i) s)) is (s\<lparr>server_list := ?l\<rparr>)
      = Inr (s\<lparr>server_list := filter (\<lambda>r. r \<notin> Pair p ` set is) ?l\<rparr>)"
    using Cons.IH [of "s\<lparr>server_list := ?l\<rparr>"] Cons.prems by fastforce
  moreover have "filter (\<lambda>r. r \<notin> Pair p ` set is) ?l = filter (\<lambda>r. r \<notin> Pair p ` set (i # is)) (server_list s)"
    by (auto intro!: filter_cong)
  ultimately show ?case using i l by (simp add: unlink_server_def)
qed simp

lemma server_pool_free_spec:
  assumes p: "sp_store s p = Some sp" and ok: "sp_ok sp"
    and linked: "\<forall>i < sp_num sp. (p, i) \<in> set (server_list s)" and d: "distinct (server_list s)"
  shows "\<exists>s' h'. server_pool_free s p h = Inr (s', h') \<and> sp_store s' p = None \<and>
    server_list s' = filter (\<lambda>r. fst r \<noteq> p \<or> sp_num sp \<le> snd r) (server_list s)"
proof -
  have "foldE (\<lambda>i s. bindE (arr_get (sp_servers sp) i) (\<lambda>_. unlink_server (p, i) s)) [0..<sp_num sp] s
      = Inr (s\<lparr>server_list := filter (\<lambda>r. r \<notin> Pair p ` set [0..<sp_num sp]) (server_list s)\<rparr>)"
    using unlink_servers [of p "[0..<sp_num sp]" "sp_servers sp" s] ok linked d
    by (auto simp: sp_ok_def distinct_map inj_on_def)
  moreover have "filter (\<lambda>r. r \<notin> Pair p ` set [0..<sp_num sp]) (server_list s)
      = filter (\<lambda>r. fst r \<noteq> p \<or> sp_num sp \<le> snd r) (server_list s)"
    by (rule filter_cong) force+
  ultimately show ?thesis using p by (simp add: server_pool_free_def)
qed

end
