(* ===== verification/VServer.thy ===== *)
theory VServer
  imports LocalIp ServerPool Packet
begin

text \<open>
  \<open>uspace/src/vserver.c\<close>: virtual servers. A virtual server listens on up to 16 local IPs at one
  port and protocol and owns a pool of servers; one node per IP links it in a hash table keyed
  by address, port and protocol, and in a list of the virtual server.
\<close>

section \<open>The operations\<close>

definition VS_IP_NUM_MAX :: nat where "VS_IP_NUM_MAX = 16"

definition VS_HT_BITS :: nat where "VS_HT_BITS = 7"

definition VS_HT_SIZE :: nat where "VS_HT_SIZE = 2 ^ VS_HT_BITS"

definition VS_HT_MASK :: u32 where "VS_HT_MASK = of_nat VS_HT_SIZE - 1"

record vserver =
  vs_pool :: ptr
  vs_addr :: "ptr list"
  vs_ip_num :: u8
  vs_port :: u16
  vs_protocol :: u8
  vs_is_fullnat :: u8
  vs_node_list :: "ptr list"

record vs_lip_node =
  node_vs :: ptr
  node_lip :: ptr

record vs_state =
  vs_store :: "vserver store"
  node_store :: "vs_lip_node store"
  vs_list :: "ptr list"
  vs_hashtable :: buckets

definition VS_IS_TCP :: "vserver \<Rightarrow> bool" where
  "VS_IS_TCP vs \<longleftrightarrow> vs_protocol vs = PROTO_TCP"

definition vserver_module_init :: "vs_state \<Rightarrow> heap \<Rightarrow> buckets \<Rightarrow> int \<times> vs_state \<times> heap" where
  "vserver_module_init s h junk =
     (let s = s\<lparr>vs_list := []\<rparr>
      in case hashtable_alloc h junk of
           (None, h) \<Rightarrow> (0, s, h)
         | (Some t, h) \<Rightarrow> (1, s\<lparr>vs_hashtable := hashtable_init t VS_HT_SIZE\<rparr>, h))"

definition vs_hashkey :: "u32 \<Rightarrow> ip_address \<Rightarrow> u16 \<Rightarrow> u8 \<Rightarrow> nat" where
  "vs_hashkey hash_rand ip port protocol =
     unat (ip_port_proto_hash hash_rand ip (ucast port) (ucast protocol) AND VS_HT_MASK)"

text \<open>The memory the walk reads, and its test.\<close>

type_synonym vs_mem = "vs_lip_node store \<times> vserver store \<times> local_ip store"

type_synonym vs_key = "ip_address \<times> u16 \<times> u8"

definition node_key :: "vs_mem \<Rightarrow> ptr \<Rightarrow> vs_key res" where
  "node_key = (\<lambda>(nodes, vss, lips) p.
     bindE (deref nodes p) (\<lambda>node.
     bindE (deref vss (node_vs node)) (\<lambda>vs.
     bindE (deref lips (node_lip node)) (\<lambda>lip.
       Inr (lip_addr lip, vs_port vs, vs_protocol vs)))))"

definition node_match :: "vs_mem \<Rightarrow> ptr \<Rightarrow> vs_key \<Rightarrow> bool res" where
  "node_match m p = (\<lambda>(ip, port, protocol).
     bindE (node_key m p) (\<lambda>(a, pt, pr). Inr (ip_address_eq a ip \<and> pt = port \<and> pr = protocol)))"

definition vserver_lookup ::
  "u32 \<Rightarrow> local_ip store \<Rightarrow> vs_state \<Rightarrow> ip_address \<Rightarrow> u16 \<Rightarrow> u8 \<Rightarrow> (ptr \<times> ptr) option res" where
  "vserver_lookup hash_rand lips s ip port protocol =
     (let idx = vs_hashkey hash_rand ip port protocol in
      bindE (list_find (\<lambda>p. node_match (node_store s, vs_store s, lips) p (ip, port, protocol)) (vs_hashtable s idx))
        (\<lambda>found. case found of
           None \<Rightarrow> Inr None
         | Some p \<Rightarrow> bindE (deref (node_store s) p) (\<lambda>node. Inr (Some (node_vs node, node_lip node)))))"

text \<open>The node's fields are written after it is linked; nothing reads them in between.\<close>

definition vs_lip_add ::
  "u32 \<Rightarrow> local_ip store \<Rightarrow> vs_state \<Rightarrow> ptr \<Rightarrow> ptr \<Rightarrow> heap \<Rightarrow> (int \<times> vs_state \<times> heap) res" where
  "vs_lip_add hash_rand lips s v l h =
     bindE (deref lips l) (\<lambda>lip.
     bindE (deref (vs_store s) v) (\<lambda>vs.
       let idx = vs_hashkey hash_rand (lip_addr lip) (vs_port vs) (vs_protocol vs)
       in case malloc h of
            (None, h) \<Rightarrow> Inr (0, s, h)
          | (Some node, h) \<Rightarrow>
              Inr (1, s\<lparr>vs_hashtable := ht_add (vs_hashtable s) idx node,
                        vs_store := (vs_store s)(v \<mapsto> vs\<lparr>vs_node_list := node # vs_node_list vs\<rparr>),
                        node_store := (node_store s)(node \<mapsto> \<lparr>node_vs = v, node_lip = l\<rparr>)\<rparr>, h)))"

text \<open>Unlinking a node from both its lists; \<open>v\<close> is the virtual server whose list links it.\<close>

definition vs_lip_del :: "ptr \<Rightarrow> ptr \<Rightarrow> vs_state \<times> heap \<Rightarrow> (vs_state \<times> heap) res" where
  "vs_lip_del v node = (\<lambda>(s, h).
     bindE (deref (vs_store s) v) (\<lambda>vs.
       Inr (s\<lparr>vs_hashtable := ht_del (vs_hashtable s) node,
              vs_store := (vs_store s)(v \<mapsto> vs\<lparr>vs_node_list := remove1 node (vs_node_list vs)\<rparr>),
              node_store := (node_store s)(node := None)\<rparr>, mfree h)))"

definition vs_add :: "u32 \<Rightarrow> local_ip store \<Rightarrow> vs_state \<Rightarrow> ptr \<Rightarrow> heap \<Rightarrow> (vs_state \<times> heap) res" where
  "vs_add hash_rand lips s v h =
     bindE (deref (vs_store s) v) (\<lambda>vs.
     bindE (foldE (\<lambda>i (s, h). bindE (arr_get (vs_addr vs) i) (\<lambda>l.
              bindE (vs_lip_add hash_rand lips s v l h) (\<lambda>(_, s, h). Inr (s, h))))
            [0..<unat (vs_ip_num vs)] (s, h))
       (\<lambda>(s, h). Inr (s\<lparr>vs_list := v # vs_list s\<rparr>, h)))"

definition vs_del :: "vs_state \<Rightarrow> ptr \<Rightarrow> heap \<Rightarrow> (vs_state \<times> heap) res" where
  "vs_del s v h =
     bindE (deref (vs_store s) v) (\<lambda>vs.
     bindE (foldE (vs_lip_del v) (vs_node_list vs) (s, h)) (\<lambda>(s, h).
       Inr (s\<lparr>vs_list := remove1 v (vs_list s)\<rparr>, h)))"

text \<open>\<open>junk\<close> is the uninitialised array of addresses.\<close>

definition vserver_create ::
  "u32 \<Rightarrow> local_ip store \<Rightarrow> (nat \<Rightarrow> ptr) \<Rightarrow> vs_state \<Rightarrow> ptr \<Rightarrow> u16 \<Rightarrow> u8 \<Rightarrow> u8 \<Rightarrow> heap
     \<Rightarrow> (ptr option \<times> vs_state \<times> heap) res" where
  "vserver_create hash_rand lips junk s pool port protocol is_fullnat h =
     (case malloc h of
        (None, h) \<Rightarrow> Inr (None, s, h)
      | (Some v, h) \<Rightarrow>
          let vs = \<lparr>vs_pool = pool, vs_addr = map junk [0..<VS_IP_NUM_MAX], vs_ip_num = 0, vs_port = port,
                    vs_protocol = protocol, vs_is_fullnat = is_fullnat, vs_node_list = []\<rparr>;
              s = s\<lparr>vs_store := (vs_store s)(v \<mapsto> vs)\<rparr>
          in bindE (vs_add hash_rand lips s v h) (\<lambda>(s, h). Inr (Some v, s, h)))"

definition vserver_free :: "vs_state \<Rightarrow> ptr option \<Rightarrow> heap \<Rightarrow> (vs_state \<times> heap) res" where
  "vserver_free s vs h =
     (case vs of
        None \<Rightarrow> Inr (s, h)
      | Some v \<Rightarrow>
          bindE (vs_del s v h) (\<lambda>(s, h). Inr (s\<lparr>vs_store := (vs_store s)(v := None)\<rparr>, mfree h)))"

definition vserver_add_ip ::
  "u32 \<Rightarrow> local_ip store \<Rightarrow> vs_state \<Rightarrow> ptr \<Rightarrow> ptr \<Rightarrow> heap \<Rightarrow> (int \<times> vs_state \<times> heap) res" where
  "vserver_add_ip hash_rand lips s v l h =
     bindE (deref (vs_store s) v) (\<lambda>vs.
       if unat (vs_ip_num vs) < VS_IP_NUM_MAX then
         bindE (arr_set (vs_addr vs) (unat (vs_ip_num vs)) l) (\<lambda>a.
           let s = s\<lparr>vs_store := (vs_store s)(v \<mapsto> vs\<lparr>vs_addr := a, vs_ip_num := vs_ip_num vs + 1\<rparr>)\<rparr>
           in vs_lip_add hash_rand lips s v l h)
       else Inr (0, s, h))"

definition vserver_get_server :: "vs_state \<Rightarrow> pools_state \<Rightarrow> ptr \<Rightarrow> (srv_ref option \<times> pools_state) res" where
  "vserver_get_server s pools v =
     bindE (deref (vs_store s) v) (\<lambda>vs. server_pool_get_server pools (vs_pool vs))"

section \<open>The table of nodes\<close>

fun vs_slot :: "u32 \<Rightarrow> vs_key \<Rightarrow> nat" where
  "vs_slot r (ip, port, protocol) = vs_hashkey r ip port protocol"

lemma node_match_iff:
  "node_match m p (ip, port, proto) = Inr b \<longleftrightarrow>
     (\<exists>a pt pr. node_key m p = Inr (a, pt, pr) \<and> b = (ip_address_eq a ip \<and> pt = port \<and> pr = proto))"
  by (auto simp: node_match_def fault_simps)

lemma vs_hashkey_eq: "ip_address_eq a b \<Longrightarrow> vs_hashkey r a pt pr = vs_hashkey r b pt pr"
  by (simp add: vs_hashkey_def ip_port_proto_hash_eq)

interpretation vsnodes: keyed_table "vs_slot r" node_match node_key for r
proof
  fix m p k0 k assume "node_key m p = Inr k0"
  then show "\<exists>b. node_match m p k = Inr b" by (cases k0; cases k) (auto simp: node_match_iff)
next
  fix m p k0 k assume "node_key m p = Inr k0" "node_match m p k = Inr True"
  then show "vs_slot r k0 = vs_slot r k"
    by (cases k0; cases k) (auto simp: node_match_iff intro: vs_hashkey_eq)
next
  fix m p k assume "node_key m p = Inr k"
  then show "node_match m p k = Inr True" by (cases k) (auto simp: node_match_iff)
qed

abbreviation vs_mem_of :: "local_ip store \<Rightarrow> vs_state \<Rightarrow> vs_mem" where
  "vs_mem_of lips s \<equiv> (node_store s, vs_store s, lips)"

text \<open>
  \<open>vs_ok\<close>: the hash table is keyed, a node is linked in it exactly when its virtual server links
  it, and the virtual servers are those of \<open>vs_list\<close>.
\<close>

definition vs_ok :: "u32 \<Rightarrow> local_ip store \<Rightarrow> vs_state \<Rightarrow> bool" where
  "vs_ok r lips s \<longleftrightarrow>
     vsnodes.keyed r (vs_mem_of lips s) (vs_hashtable s) \<and>
     distinct (vs_list s) \<and> set (vs_list s) = dom (vs_store s) \<and>
     (\<forall>v vs. vs_store s v = Some vs \<longrightarrow> distinct (vs_node_list vs) \<and> length (vs_addr vs) = VS_IP_NUM_MAX \<and>
        (\<forall>n. n \<in> set (vs_node_list vs) \<longleftrightarrow>
           ht_mem (vs_hashtable s) n \<and> (\<exists>node. node_store s n = Some node \<and> node_vs node = v)))"

text \<open>One virtual server without IPs, for instances.\<close>

definition sample_vs_state :: vs_state where
  "sample_vs_state = \<lparr>vs_store = [1 \<mapsto> \<lparr>vs_pool = 7, vs_addr = replicate 16 0, vs_ip_num = 0, vs_port = htons 80,
      vs_protocol = PROTO_TCP, vs_is_fullnat = 1, vs_node_list = []\<rparr>], node_store = Map.empty, vs_list = [1],
    vs_hashtable = (\<lambda>_. [])\<rparr>"

lemma sample_vs_ok: "vs_ok r lips sample_vs_state"
  by (simp add: vs_ok_def sample_vs_state_def table_ok_empty VS_IP_NUM_MAX_def)

text \<open>A virtual server listens at a local IP when one of its nodes says so.\<close>

definition listens :: "vs_state \<Rightarrow> ptr \<Rightarrow> ptr \<Rightarrow> bool" where
  "listens s v l \<longleftrightarrow> (\<exists>n. ht_mem (vs_hashtable s) n \<and> node_store s n = Some \<lparr>node_vs = v, node_lip = l\<rparr>)"

lemma vs_node_key:
  assumes "vs_ok r lips s" "ht_mem (vs_hashtable s) n"
  shows "\<exists>node vs lip. node_store s n = Some node \<and> vs_store s (node_vs node) = Some vs \<and>
    lips (node_lip node) = Some lip \<and>
    node_key (vs_mem_of lips s) n = Inr (lip_addr lip, vs_port vs, vs_protocol vs)"
proof -
  have k: "vsnodes.keyed r (vs_mem_of lips s) (vs_hashtable s)" using assms(1) by (simp add: vs_ok_def)
  obtain i where "n \<in> set (vs_hashtable s i)" using assms(2) by (auto simp: ht_mem_def)
  from vsnodes.keyedD [OF k this] show ?thesis by (auto simp: node_key_def fault_simps)
qed

text \<open>Looking up a virtual server: total, sound and complete.\<close>

lemma vserver_lookup_ok:
  assumes ok: "vs_ok r lips s"
  shows "\<exists>res. vserver_lookup r lips s ip port proto = Inr res \<and>
    (case res of
       Some (v, l) \<Rightarrow> listens s v l \<and> (\<exists>vs lip. vs_store s v = Some vs \<and> lips l = Some lip \<and>
          ip_address_eq (lip_addr lip) ip \<and> vs_port vs = port \<and> vs_protocol vs = proto)
     | None \<Rightarrow> \<forall>v l vs lip. listens s v l \<longrightarrow> vs_store s v = Some vs \<longrightarrow> lips l = Some lip \<longrightarrow>
          vs_port vs = port \<longrightarrow> vs_protocol vs = proto \<longrightarrow> \<not> ip_address_eq (lip_addr lip) ip)"
proof -
  let ?m = "vs_mem_of lips s" and ?k = "(ip, port, proto)"
  have k: "vsnodes.keyed r ?m (vs_hashtable s)" using ok by (simp add: vs_ok_def)
  obtain res where res: "list_find (\<lambda>p. node_match ?m p ?k) (vs_hashtable s (vs_slot r ?k)) = Inr res"
    using vsnodes.search_total [OF k] by blast
  show ?thesis
  proof (cases res)
    case None
    have "\<not> ip_address_eq (lip_addr lip) ip"
      if l: "listens s v l" "vs_store s v = Some vs" "lips l = Some lip" "vs_port vs = port" "vs_protocol vs = proto"
      for v l vs lip
    proof -
      obtain n where n: "ht_mem (vs_hashtable s) n" "node_store s n = Some \<lparr>node_vs = v, node_lip = l\<rparr>"
        using l(1) by (auto simp: listens_def)
      have "node_match ?m n ?k = Inr False"
        using vsnodes.search_complete [OF k _ n(1), where k = ?k] res None by simp
      then show ?thesis using n(2) l by (auto simp: node_match_iff node_key_def)
    qed
    then show ?thesis using res None by (simp add: vserver_lookup_def Let_def)
  next
    case (Some n)
    have c: "node_match ?m n ?k = Inr True" "n \<in> set (vs_hashtable s (vs_slot r ?k))"
      using vsnodes.search_sound [where s = ?m and k = ?k and t = "vs_hashtable s" and r = r and p = n] res Some by auto
    have m: "ht_mem (vs_hashtable s) n" using c(2) by (auto simp: ht_mem_def)
    from vs_node_key [OF ok m] obtain node vs lip where
      nd: "node_store s n = Some node" "vs_store s (node_vs node) = Some vs" "lips (node_lip node) = Some lip"
        "node_key ?m n = Inr (lip_addr lip, vs_port vs, vs_protocol vs)" by blast
    have "listens s (node_vs node) (node_lip node)"
      unfolding listens_def using m nd(1) by (intro exI [of _ n]) simp
    moreover have "ip_address_eq (lip_addr lip) ip" "vs_port vs = port" "vs_protocol vs = proto"
      using c(1) nd(4) by (auto simp: node_match_iff)
    ultimately show ?thesis using res Some nd by (simp add: vserver_lookup_def Let_def)
  qed
qed

text \<open>
  C19: the lookup never fails on consistent tables; it answers a virtual server and a local IP it listens
  at with the address, port and protocol asked for, and answers none only when none listens there.
\<close>

theorem vserver_lookup_spec:
  assumes ok: "vs_ok r lips s"
  shows "\<exists>res. vserver_lookup r lips s ip port proto = Inr res \<and>
    (case res of
       Some (v, l) \<Rightarrow> listens s v l \<and> (\<exists>vs lip. vs_store s v = Some vs \<and> lips l = Some lip \<and>
          ip_address_eq (lip_addr lip) ip \<and> vs_port vs = port \<and> vs_protocol vs = proto)
     | None \<Rightarrow> \<forall>v l vs lip. listens s v l \<longrightarrow> vs_store s v = Some vs \<longrightarrow> lips l = Some lip \<longrightarrow>
          vs_port vs = port \<longrightarrow> vs_protocol vs = proto \<longrightarrow> \<not> ip_address_eq (lip_addr lip) ip)"
  by (rule vserver_lookup_ok [OF ok])

lemma vserver_lookup_spec_witness:
  "vserver_lookup 0 Map.empty sample_vs_state (sample_ip 5) 80 6 = Inr None"
proof -
  obtain res where r: "vserver_lookup 0 Map.empty sample_vs_state (sample_ip 5) 80 6 = Inr res"
      "res = Some (v, l) \<Longrightarrow> listens sample_vs_state v l" for v l
    using vserver_lookup_spec [OF sample_vs_ok, of 0 Map.empty "sample_ip 5" 80 6] by (fastforce split: option.splits)
  have "\<not> listens sample_vs_state v l" for v l by (simp add: listens_def sample_vs_state_def)
  then have "res = None" using r(2) by (cases res) auto
  then show ?thesis using r(1) by simp
qed

section \<open>Adding an address\<close>

lemma vs_lip_add_ok:
  assumes ok: "vs_ok r lips s" and v: "vs_store s v = Some vs" and l: "lips l = Some lip"
    and fresh: "node_store s (brk h) = None" and q: "0 < quota h"
  shows "\<exists>s' h'. vs_lip_add r lips s v l h = Inr (1, s', h') \<and> vs_ok r lips s' \<and> listens s' v l \<and>
    (\<forall>v' l'. listens s v' l' \<longrightarrow> listens s' v' l') \<and>
    vserver_lookup r lips s' (lip_addr lip) (vs_port vs) (vs_protocol vs) = Inr (Some (v, l))"
proof -
  let ?n = "brk h" and ?i = "vs_hashkey r (lip_addr lip) (vs_port vs) (vs_protocol vs)"
  let ?vs = "vs\<lparr>vs_node_list := ?n # vs_node_list vs\<rparr>"
  let ?s = "s\<lparr>vs_hashtable := ht_add (vs_hashtable s) ?i ?n, vs_store := (vs_store s)(v \<mapsto> ?vs),
      node_store := (node_store s)(?n \<mapsto> \<lparr>node_vs = v, node_lip = l\<rparr>)\<rparr>"
  have res: "vs_lip_add r lips s v l h = Inr (1, ?s, h\<lparr>brk := Suc ?n, quota := quota h - 1\<rparr>)"
    using v l q by (simp add: vs_lip_add_def malloc_def Let_def)
  have new: "\<not> ht_mem (vs_hashtable s) ?n"
    using vs_node_key [OF ok, of ?n] fresh by auto
  have same: "node_key (vs_mem_of lips ?s) n = node_key (vs_mem_of lips s) n" if "ht_mem (vs_hashtable s) n" for n
  proof -
    have "n \<noteq> ?n" using that new by auto
    then show ?thesis using vs_node_key [OF ok that] v by (auto simp: node_key_def deref_def)
  qed
  have key: "node_key (vs_mem_of lips ?s) ?n = Inr (lip_addr lip, vs_port vs, vs_protocol vs)"
    using l by (simp add: node_key_def)
  have "vsnodes.keyed r (vs_mem_of lips s) (vs_hashtable s)" using ok by (simp add: vs_ok_def)
  then have "vsnodes.keyed r (vs_mem_of lips ?s) (vs_hashtable s)"
    by (rule table_ok_cong) (simp only: same)
  from vsnodes.keyed_add [OF this key new]
  have keyed: "vsnodes.keyed r (vs_mem_of lips ?s) (vs_hashtable ?s)" by simp
  have nodes: "distinct (vs_node_list w) \<and> length (vs_addr w) = VS_IP_NUM_MAX \<and> (\<forall>n. n \<in> set (vs_node_list w) \<longleftrightarrow>
      ht_mem (vs_hashtable s) n \<and> (\<exists>node. node_store s n = Some node \<and> node_vs node = u))"
    if "vs_store s u = Some w" for u w
    using ok that by (simp add: vs_ok_def)
  have "vs_ok r lips ?s"
    unfolding vs_ok_def
  proof (intro conjI allI impI)
    fix u w assume u: "vs_store ?s u = Some w"
    show "distinct (vs_node_list w)" using u nodes [OF v] nodes [of u w] new by (auto split: if_splits)
    show "length (vs_addr w) = VS_IP_NUM_MAX" using u nodes [OF v] nodes [of u w] by (auto split: if_splits)
    fix n
    show "n \<in> set (vs_node_list w) \<longleftrightarrow>
      ht_mem (vs_hashtable ?s) n \<and> (\<exists>node. node_store ?s n = Some node \<and> node_vs node = u)"
      using u nodes [OF v] nodes [of u w] new by (cases "u = v"; cases "n = ?n") auto
  qed (use keyed ok v in \<open>auto simp: vs_ok_def\<close>)
  moreover have "listens ?s v l" by (auto simp: listens_def)
  moreover have "listens ?s v' l'" if l': "listens s v' l'" for v' l'
  proof -
    obtain n where "ht_mem (vs_hashtable s) n" "node_store s n = Some \<lparr>node_vs = v', node_lip = l'\<rparr>"
      using l' by (auto simp: listens_def)
    moreover from this have "n \<noteq> ?n" using new by auto
    ultimately show ?thesis unfolding listens_def by (intro exI [of _ n]) simp
  qed
  moreover have "vserver_lookup r lips ?s (lip_addr lip) (vs_port vs) (vs_protocol vs) = Inr (Some (v, l))"
    using vsnodes.search_after_add [OF key, where r = r and t = "vs_hashtable s"]
    by (simp add: vserver_lookup_def Let_def)
  ultimately show ?thesis using res by blast
qed

lemma vs_ok_addr:
  assumes ok: "vs_ok r lips s" and v: "vs_store s v = Some vs" and a: "length a = VS_IP_NUM_MAX"
  shows "vs_ok r lips (s\<lparr>vs_store := (vs_store s)(v \<mapsto> vs\<lparr>vs_addr := a, vs_ip_num := n\<rparr>)\<rparr>)"
proof -
  let ?s = "s\<lparr>vs_store := (vs_store s)(v \<mapsto> vs\<lparr>vs_addr := a, vs_ip_num := n\<rparr>)\<rparr>"
  have "vsnodes.keyed r (vs_mem_of lips ?s) (vs_hashtable s)"
  proof (rule table_ok_cong)
    show "vsnodes.keyed r (vs_mem_of lips s) (vs_hashtable s)" using ok by (simp add: vs_ok_def)
    fix p assume "ht_mem (vs_hashtable s) p"
    from vs_node_key [OF ok this] v have "node_key (vs_mem_of lips ?s) p = node_key (vs_mem_of lips s) p"
      by (auto simp: node_key_def deref_def)
    then show "bindE (node_key (vs_mem_of lips ?s) p) (\<lambda>k. Inr (vs_slot r k))
        = bindE (node_key (vs_mem_of lips s) p) (\<lambda>k. Inr (vs_slot r k))" by simp
  qed
  then show ?thesis using ok v a unfolding vs_ok_def by auto
qed



section \<open>Creating and freeing\<close>

lemma vserver_create_spec:
  assumes ok: "vs_ok r lips s" and fresh: "vs_store s (brk h) = None" and q: "0 < quota h"
  shows "\<exists>s' h' vs. vserver_create r lips junk s pool port proto fn h = Inr (Some (brk h), s', h') \<and>
    vs_ok r lips s' \<and> vs_store s' = (vs_store s)(brk h \<mapsto> vs) \<and> vs_port vs = port \<and> vs_protocol vs = proto \<and>
    vs_pool vs = pool \<and> vs_ip_num vs = 0 \<and> (\<forall>v l. listens s' v l = listens s v l)"
proof -
  let ?v = "brk h"
  let ?vs = "\<lparr>vs_pool = pool, vs_addr = map junk [0..<VS_IP_NUM_MAX], vs_ip_num = 0, vs_port = port,
     vs_protocol = proto, vs_is_fullnat = fn, vs_node_list = []\<rparr>"
  let ?s = "s\<lparr>vs_store := (vs_store s)(?v \<mapsto> ?vs), vs_list := ?v # vs_list s\<rparr>"
  have res: "vserver_create r lips junk s pool port proto fn h
      = Inr (Some ?v, ?s, h\<lparr>brk := Suc ?v, quota := quota h - 1\<rparr>)"
    using q by (simp add: vserver_create_def malloc_def vs_add_def Let_def)
  have none: "node_vs node \<noteq> ?v" if "ht_mem (vs_hashtable s) n" "node_store s n = Some node" for n node
    using vs_node_key [OF ok that(1)] that(2) fresh by auto
  have "vsnodes.keyed r (vs_mem_of lips ?s) (vs_hashtable s)"
  proof (rule table_ok_cong)
    show "vsnodes.keyed r (vs_mem_of lips s) (vs_hashtable s)" using ok by (simp add: vs_ok_def)
    fix p assume m: "ht_mem (vs_hashtable s) p"
    from vs_node_key [OF ok m] none [OF m]
    have "node_key (vs_mem_of lips ?s) p = node_key (vs_mem_of lips s) p" by (auto simp: node_key_def deref_def)
    then show "bindE (node_key (vs_mem_of lips ?s) p) (\<lambda>k. Inr (vs_slot r k))
        = bindE (node_key (vs_mem_of lips s) p) (\<lambda>k. Inr (vs_slot r k))" by simp
  qed
  then have "vs_ok r lips ?s" using ok fresh none unfolding vs_ok_def by (auto simp: dom_def)
  with res show ?thesis by (intro exI [of _ ?s] exI [of _ "h\<lparr>brk := Suc ?v, quota := quota h - 1\<rparr>"] exI [of _ ?vs])
    (simp add: listens_def)
qed

lemma vs_lip_del_all:
  "vs_store s v = Some vs \<Longrightarrow> distinct ns \<Longrightarrow> set ns \<subseteq> set (vs_node_list vs) \<Longrightarrow> distinct (vs_node_list vs) \<Longrightarrow>
     \<exists>s' h'. foldE (vs_lip_del v) ns (s, h) = Inr (s', h') \<and>
       s' = s\<lparr>vs_hashtable := fold (\<lambda>n t. ht_del t n) ns (vs_hashtable s),
              vs_store := (vs_store s)(v \<mapsto> vs\<lparr>vs_node_list := filter (\<lambda>n. n \<notin> set ns) (vs_node_list vs)\<rparr>),
              node_store := (\<lambda>n. if n \<in> set ns then None else node_store s n)\<rparr>"
proof (induction ns arbitrary: s vs h)
  case Nil
  then have "(vs_store s)(v \<mapsto> vs\<lparr>vs_node_list := filter (\<lambda>n. True) (vs_node_list vs)\<rparr>) = vs_store s"
    by (auto simp: fun_upd_idem)
  then show ?case by (simp add: fun_upd_idem)
next
  case (Cons n ns)
  let ?l = "remove1 n (vs_node_list vs)"
  let ?vs = "vs\<lparr>vs_node_list := ?l\<rparr>"
  let ?s = "s\<lparr>vs_hashtable := ht_del (vs_hashtable s) n, vs_store := (vs_store s)(v \<mapsto> ?vs),
      node_store := (node_store s)(n := None)\<rparr>"
  have step: "vs_lip_del v n (s, h) = Inr (?s, mfree h)" using Cons.prems(1) by (simp add: vs_lip_del_def)
  have l: "?l = filter (\<lambda>m. m \<noteq> n) (vs_node_list vs)"
    using Cons.prems(4) by (simp add: distinct_remove1_removeAll removeAll_filter_not_eq eq_commute)
  have f: "filter (\<lambda>m. m \<notin> set ns) ?l = filter (\<lambda>m. m \<notin> set (n # ns)) (vs_node_list vs)"
    unfolding l by (auto intro!: filter_cong)
  have g: "(\<lambda>m. if m \<in> set ns then None else ((node_store s)(n := None)) m)
      = (\<lambda>m. if m \<in> set (n # ns) then None else node_store s m)" by auto
  let ?r = "?s\<lparr>vs_hashtable := fold (\<lambda>n t. ht_del t n) ns (vs_hashtable ?s),
      vs_store := (vs_store ?s)(v \<mapsto> ?vs\<lparr>vs_node_list := filter (\<lambda>n. n \<notin> set ns) (vs_node_list ?vs)\<rparr>),
      node_store := (\<lambda>n. if n \<in> set ns then None else node_store ?s n)\<rparr>"
  have "vs_store ?s v = Some ?vs" "distinct ns" "set ns \<subseteq> set (vs_node_list ?vs)" "distinct (vs_node_list ?vs)"
    using Cons.prems l by auto
  from Cons.IH [OF this, of "mfree h"] obtain h' where "foldE (vs_lip_del v) ns (?s, mfree h) = Inr (?r, h')"
    by blast
  moreover have "?r = s\<lparr>vs_hashtable := fold (\<lambda>n t. ht_del t n) (n # ns) (vs_hashtable s),
      vs_store := (vs_store s)(v \<mapsto> vs\<lparr>vs_node_list := filter (\<lambda>m. m \<notin> set (n # ns)) (vs_node_list vs)\<rparr>),
      node_store := (\<lambda>m. if m \<in> set (n # ns) then None else node_store s m)\<rparr>"
    unfolding f [symmetric] g [symmetric] by (simp cong: if_cong)
  ultimately show ?case using step by (simp only: foldE.simps bindE.simps) blast
qed

lemma ht_mem_del_all:
  "table_ok slot_of t \<Longrightarrow> table_ok slot_of (fold (\<lambda>n t. ht_del t n) ns t) \<and>
     (ht_mem (fold (\<lambda>n t. ht_del t n) ns t) q \<longleftrightarrow> q \<notin> set ns \<and> ht_mem t q)"
  by (induction ns arbitrary: t) (auto simp: table_ok_del ht_mem_del)

text \<open>
  C21: freeing a virtual server unlinks all its nodes, so that it listens nowhere, and nothing of the
  others; the tables stay consistent.
\<close>

theorem vserver_free_spec:
  assumes ok: "vs_ok r lips s" and v: "vs_store s v = Some vs"
  shows "\<exists>s' h'. vserver_free s (Some v) h = Inr (s', h') \<and> vs_ok r lips s' \<and> vs_store s' v = None \<and>
    (\<forall>u l. listens s' u l \<longleftrightarrow> u \<noteq> v \<and> listens s u l)"
proof -
  let ?ns = "vs_node_list vs"
  have nl: "distinct ?ns" "\<And>n. n \<in> set ?ns \<longleftrightarrow> ht_mem (vs_hashtable s) n \<and>
      (\<exists>node. node_store s n = Some node \<and> node_vs node = v)"
    using ok v by (auto simp: vs_ok_def)
  obtain h1 where del: "foldE (vs_lip_del v) ?ns (s, h) = Inr
      (s\<lparr>vs_hashtable := fold (\<lambda>n t. ht_del t n) ?ns (vs_hashtable s),
         vs_store := (vs_store s)(v \<mapsto> vs\<lparr>vs_node_list := filter (\<lambda>n. n \<notin> set ?ns) ?ns\<rparr>),
         node_store := (\<lambda>n. if n \<in> set ?ns then None else node_store s n)\<rparr>, h1)"
    using vs_lip_del_all [OF v nl(1) subset_refl nl(1), of h] by auto
  let ?t = "fold (\<lambda>n t. ht_del t n) ?ns (vs_hashtable s)"
  let ?s = "s\<lparr>vs_hashtable := ?t, vs_store := (vs_store s)(v := None),
     node_store := (\<lambda>n. if n \<in> set ?ns then None else node_store s n), vs_list := remove1 v (vs_list s)\<rparr>"
  have res: "vserver_free s (Some v) h = Inr (?s, mfree h1)"
    using del v by (simp add: vserver_free_def vs_del_def)
  have keyed: "vsnodes.keyed r (vs_mem_of lips s) (vs_hashtable s)" using ok by (simp add: vs_ok_def)
  note T = ht_mem_del_all [OF keyed, of ?ns]
  have other: "node_vs node \<noteq> v" if "ht_mem ?t n" "node_store s n = Some node" for n node
    using that T nl(2) by auto
  have "vsnodes.keyed r (vs_mem_of lips ?s) ?t"
  proof (rule table_ok_cong [OF conjunct1 [OF T]])
    fix p assume p: "ht_mem ?t p"
    then have "ht_mem (vs_hashtable s) p" "p \<notin> set ?ns" using T by auto
    from vs_node_key [OF ok this(1)] this(2) other [OF p]
    have "node_key (vs_mem_of lips ?s) p = node_key (vs_mem_of lips s) p" by (auto simp: node_key_def deref_def)
    then show "bindE (node_key (vs_mem_of lips ?s) p) (\<lambda>k. Inr (vs_slot r k))
        = bindE (node_key (vs_mem_of lips s) p) (\<lambda>k. Inr (vs_slot r k))" by simp
  qed
  moreover have "distinct (remove1 v (vs_list s))" "set (remove1 v (vs_list s)) = dom ((vs_store s)(v := None))"
    using ok by (auto simp: vs_ok_def)
  moreover have "n \<in> set (vs_node_list w) \<longleftrightarrow>
      ht_mem ?t n \<and> (\<exists>node. (if n \<in> set ?ns then None else node_store s n) = Some node \<and> node_vs node = u)"
    if "u \<noteq> v" "vs_store s u = Some w" for u w n
  proof -
    have "n \<in> set (vs_node_list w) \<longleftrightarrow> ht_mem (vs_hashtable s) n \<and>
      (\<exists>node. node_store s n = Some node \<and> node_vs node = u)" using ok that by (auto simp: vs_ok_def)
    then show ?thesis using T [of n] nl(2) [of n] that(1) by auto
  qed
  ultimately have "vs_ok r lips ?s" using ok unfolding vs_ok_def by (auto split: if_splits)
  moreover have "listens ?s u l \<longleftrightarrow> u \<noteq> v \<and> listens s u l" for u l
  proof
    assume "listens ?s u l"
    then obtain n where n: "ht_mem ?t n" "n \<notin> set ?ns" "node_store s n = Some \<lparr>node_vs = u, node_lip = l\<rparr>"
      by (auto simp: listens_def split: if_splits)
    then have "u \<noteq> v" using other [OF n(1,3)] by simp
    with n T [of n] show "u \<noteq> v \<and> listens s u l" by (auto simp: listens_def)
  next
    assume a: "u \<noteq> v \<and> listens s u l"
    then obtain n where n: "ht_mem (vs_hashtable s) n" "node_store s n = Some \<lparr>node_vs = u, node_lip = l\<rparr>"
      by (auto simp: listens_def)
    then have "n \<notin> set ?ns" using nl(2) a by auto
    with n T [of n] show "listens ?s u l" unfolding listens_def by (intro exI [of _ n]) simp
  qed
  ultimately show ?thesis using res by (intro exI [of _ ?s] exI [of _ "mfree h1"]) simp
qed

lemma vserver_free_spec_witness:
  "\<exists>s' h'. vserver_free sample_vs_state (Some 1) \<lparr>brk = 20, quota = 5\<rparr> = Inr (s', h') \<and> vs_store s' 1 = None"
proof -
  obtain vs where "vs_store sample_vs_state 1 = Some vs" by (simp add: sample_vs_state_def)
  from vserver_free_spec [OF sample_vs_ok [of 0 Map.empty] this, of "\<lparr>brk = 20, quota = 5\<rparr>"] show ?thesis by blast
qed

end
