(* ===== verification/Driver.thy ===== *)
theory Driver
  imports RingBuffer Packet
begin

text \<open>
  \<open>uspace/src/driver.c\<close> with \<open>driver.h\<close>: the network cards. A process owns one receive and one
  transmit queue of every card; each queue is a ring of descriptors in memory shared with the
  card, and an array of the packets attached to them. \<open>mmio\<close> is the card's register space, one
  32-bit register per address. What the card itself writes (completed descriptors) is part of
  the state the functions read.
\<close>

section \<open>Descriptors and registers\<close>

text \<open>
  A descriptor is two 64-bit words. Receive: the card overwrites the second with the status (low
  half) and the length (next 16 bits). Transmit: the second is the command (low half) and, in
  the high half, the length for the card and then the status from the card.
\<close>

record desc =
  d_lo :: u64
  d_hi :: u64

definition set_low32 :: "u64 \<Rightarrow> u32 \<Rightarrow> u64" where
  "set_low32 w v = push_bit 32 (drop_bit 32 w) OR ucast v"

definition set_high32 :: "u64 \<Rightarrow> u32 \<Rightarrow> u64" where
  "set_high32 w v = push_bit 32 (ucast v) OR take_bit 32 w"

definition rx_status :: "desc \<Rightarrow> u32" where "rx_status d = ucast (d_hi d)"

definition rx_length :: "desc \<Rightarrow> u16" where "rx_length d = ucast (drop_bit 32 (d_hi d))"

definition tx_status :: "desc \<Rightarrow> u32" where "tx_status d = ucast (drop_bit 32 (d_hi d))"

definition E1000_RXD_STAT_DD :: u32 where "E1000_RXD_STAT_DD = 0x01"

definition E1000_TXD_STAT_DD :: u32 where "E1000_TXD_STAT_DD = 0x00000001"

definition E1000_RDT :: "nat \<Rightarrow> nat" where
  "E1000_RDT n = (if n < 4 then 0x02818 + n * 0x100 else 0x0C018 + n * 0x40)"

definition E1000_TDT :: "nat \<Rightarrow> nat" where
  "E1000_TDT n = (if n < 4 then 0x03818 + n * 0x100 else 0x0E018 + n * 0x40)"

definition TX_CMD :: u32 where
  "TX_CMD = 0x00300000 OR 0x02000000 OR 0x20000000 OR 0x01000000 OR 0x08000000"

definition E1000_ADVTXD_PAYLEN_SHIFT :: nat where "E1000_ADVTXD_PAYLEN_SHIFT = 14"

type_synonym mmio = "nat \<Rightarrow> u32"

text \<open>The store goes through a pointer to \<open>unsigned long\<close>: eight bytes, two registers.\<close>

definition writel :: "u32 \<Rightarrow> nat \<Rightarrow> mmio \<Rightarrow> mmio" where
  "writel data a m = m(a := data, a + 4 := 0)"

section \<open>Rings, adapters, the driver\<close>

text \<open>\<open>r_a\<close> is the number of the adapter the back pointer leads to, the one field read through it.\<close>

record ring =
  r_a :: u32
  r_desc :: "desc list"
  r_desc_num :: nat
  r_head :: nat
  r_tail :: nat
  r_tail_reg :: nat
  r_queue_idx :: u8
  r_pool :: packet_pool
  r_buffer :: "ptr option list"

record adapter =
  a_id :: u32
  a_mac :: "nat \<Rightarrow> u8"
  tx_ring :: "ring option"
  rx_ring :: "ring option"
  a_queue_num :: u8
  a_desc_num :: u32
  a_queue_idx :: u8
  a_regs_addr :: nat
  a_desc_addr :: nat

record driver =
  d_id :: u8
  adapters :: "adapter option list"
  adapter_num :: u8
  ring_num :: u8
  d_desc_num :: u16
  desc_total_size :: u64
  regs_total_size :: u64
  buffer_total_size :: u64
  d_desc_size :: u32
  d_regs_size :: u32
  d_regs_addr :: nat
  d_desc_addr :: nat
  buffer_addr :: u64
  buffer_addr_phys :: u64

definition DESC_BLOCK_SIZE :: u32 where "DESC_BLOCK_SIZE = 4096"

definition REG_BLOCK_SIZE :: u32 where "REG_BLOCK_SIZE = 524288"

definition DESC_NUM :: u16 where "DESC_NUM = 256"

definition ring_rx_desc :: "ring \<Rightarrow> nat \<Rightarrow> desc res" where
  "ring_rx_desc r i = arr_get (r_desc r) i"

definition ring_tx_desc :: "ring \<Rightarrow> nat \<Rightarrow> desc res" where
  "ring_tx_desc r i = arr_get (r_desc r) i"

definition put_desc :: "ring \<Rightarrow> nat \<Rightarrow> desc \<Rightarrow> ring res" where
  "put_desc r i d = bindE (arr_set (r_desc r) i d) (\<lambda>ds. Inr (r\<lparr>r_desc := ds\<rparr>))"

definition put_buffer :: "ring \<Rightarrow> nat \<Rightarrow> ptr option \<Rightarrow> ring res" where
  "put_buffer r i p = bindE (arr_set (r_buffer r) i p) (\<lambda>b. Inr (r\<lparr>r_buffer := b\<rparr>))"

text \<open>
  \<open>memory\<close> is the descriptor memory at an address; address 0 is NULL. \<open>MALLOC\<close>'s result is
  written to without a check.
\<close>

definition ring_create ::
  "(nat \<Rightarrow> nat \<Rightarrow> desc) \<Rightarrow> u32 \<Rightarrow> nat \<Rightarrow> nat \<Rightarrow> u32 \<Rightarrow> u8 \<Rightarrow> heap \<Rightarrow> (ring option \<times> heap) res" where
  "ring_create memory a tail_reg dsc desc_num i h =
     (if desc_num \<le> 0 \<or> tail_reg = 0 \<or> dsc = 0 then Inr (None, h)
      else case malloc h of
        (None, h) \<Rightarrow> Inl Bad_deref
      | (Some _, h) \<Rightarrow>
          Inr (Some \<lparr>r_a = a, r_desc = map (memory dsc) [0..<unat desc_num], r_desc_num = unat desc_num,
                     r_head = 0, r_tail = 0, r_tail_reg = tail_reg, r_queue_idx = i,
                     r_pool = packet_pool_init, r_buffer = replicate (unat desc_num) None\<rparr>, h))"

text \<open>Tail register and descriptor memory of a queue: transmit rings first, then receive rings.\<close>

definition adapter_queue_regs_desc_addr :: "adapter \<Rightarrow> bool \<Rightarrow> nat \<times> nat" where
  "adapter_queue_regs_desc_addr a is_rx =
     (let desc_sz = 16 * a_desc_num a;
          q = unat (a_queue_idx a)
      in if is_rx then
           (a_regs_addr a + E1000_RDT q,
            a_desc_addr a + unat ((ucast (a_queue_num a) + ucast (a_queue_idx a)) * desc_sz))
         else
           (a_regs_addr a + E1000_TDT q,
            a_desc_addr a + unat (ucast (a_queue_idx a) * desc_sz)))"

definition adapter_create ::
  "(nat \<Rightarrow> nat \<Rightarrow> desc) \<Rightarrow> u32 \<Rightarrow> u8 \<Rightarrow> u8 \<Rightarrow> nat \<Rightarrow> nat \<Rightarrow> u32 \<Rightarrow> (nat \<Rightarrow> u8) \<Rightarrow> heap \<Rightarrow> (adapter \<times> heap) res" where
  "adapter_create memory i queue_idx queue_num regs_addr desc_addr desc_num mac h =
     (case malloc h of
        (None, h) \<Rightarrow> Inl Bad_deref
      | (Some _, h) \<Rightarrow>
          let a = \<lparr>a_id = i, a_mac = mac, tx_ring = None, rx_ring = None, a_queue_num = queue_num,
                   a_desc_num = desc_num, a_queue_idx = queue_idx, a_regs_addr = regs_addr,
                   a_desc_addr = desc_addr\<rparr>
          in case adapter_queue_regs_desc_addr a True of (reg_rx, desc_rx) \<Rightarrow>
             case adapter_queue_regs_desc_addr a False of (reg_tx, desc_tx) \<Rightarrow>
               bindE (ring_create memory i reg_rx desc_rx desc_num queue_idx h) (\<lambda>(rx, h).
               bindE (ring_create memory i reg_tx desc_tx desc_num queue_idx h) (\<lambda>(tx, h).
                 Inr (a\<lparr>rx_ring := rx, tx_ring := tx\<rparr>, h))))"

definition driver_init :: "u8 \<Rightarrow> driver" where
  "driver_init process_id =
     \<lparr>d_id = process_id, adapters = replicate 32 None, adapter_num = 0, ring_num = 0, d_desc_num = DESC_NUM,
      desc_total_size = 0, regs_total_size = 0, buffer_total_size = 0,
      d_desc_size = DESC_BLOCK_SIZE, d_regs_size = REG_BLOCK_SIZE,
      d_regs_addr = 0, d_desc_addr = 0, buffer_addr = 0, buffer_addr_phys = 0\<rparr>"

text \<open>
  \<open>driver_open\<close> reads 20 words from the device (\<open>t\<close>) and maps its memory: \<open>maps\<close> are the three
  addresses \<open>mmap64\<close> answers. The MAC address of adapter \<open>i\<close> is in word \<open>4 + i\<close>.
\<close>

definition bytes_of_u64 :: "u64 \<Rightarrow> nat \<Rightarrow> u8" where
  "bytes_of_u64 w k = ucast (drop_bit (8 * k) w)"

definition open_adapter ::
  "(nat \<Rightarrow> nat \<Rightarrow> desc) \<Rightarrow> u64 list \<Rightarrow> nat \<Rightarrow> driver \<times> nat \<times> nat \<times> heap \<Rightarrow> (driver \<times> nat \<times> nat \<times> heap) res" where
  "open_adapter memory t i = (\<lambda>(d, regs, dsc, h).
     bindE (arr_get t (4 + i)) (\<lambda>w.
     bindE (adapter_create memory (of_nat i) (d_id d) (ring_num d) regs dsc (ucast (d_desc_num d)) (bytes_of_u64 w) h)
       (\<lambda>(a, h).
     bindE (arr_set (adapters d) i (Some a)) (\<lambda>as.
       Inr (d\<lparr>adapters := as\<rparr>, regs + unat (d_regs_size d),
            dsc + unat (d_desc_size d * ucast (ring_num d) * 2), h)))))"

definition driver_open ::
  "(nat \<Rightarrow> nat \<Rightarrow> desc) \<Rightarrow> u64 list \<Rightarrow> nat \<times> nat \<times> u64 \<Rightarrow> driver \<Rightarrow> heap \<Rightarrow> (driver \<times> heap) res" where
  "driver_open memory t maps d h =
     bindE (arr_get t 0) (\<lambda>t0. bindE (arr_get t 1) (\<lambda>t1. bindE (arr_get t 2) (\<lambda>t2. bindE (arr_get t 3) (\<lambda>t3.
       let d = d\<lparr>buffer_addr_phys := t0, buffer_total_size := t1, adapter_num := ucast t2, ring_num := ucast t3\<rparr>;
           d = d\<lparr>desc_total_size := ucast (d_desc_size d * ucast (adapter_num d) * ucast (ring_num d) * 2),
                 regs_total_size := ucast (d_regs_size d * ucast (adapter_num d))\<rparr>
       in case maps of (regs, dsc, buf) \<Rightarrow>
            let d = d\<lparr>d_regs_addr := regs, d_desc_addr := dsc, buffer_addr := buf\<rparr>
            in bindE (foldE (open_adapter memory t) [0..<unat (adapter_num d)] (d, regs, dsc, h))
                 (\<lambda>(d, _, _, h). Inr (d, h))))))"

definition driver_create where
  "driver_create memory t maps (process_id :: int) h =
     (case malloc h of
        (None, h) \<Rightarrow> Inr (None, h)
      | (Some _, h) \<Rightarrow>
          bindE (driver_open memory t maps (driver_init (of_int process_id)) h) (\<lambda>(d, h). Inr (Some d, h)))"

definition driver_module_init where
  "driver_module_init memory t maps (i :: int) h = driver_create memory t maps i h"

definition driver_get_adapter :: "driver \<Rightarrow> nat \<Rightarrow> adapter res" where
  "driver_get_adapter d i =
     bindE (arr_get (adapters d) i) (\<lambda>a. case a of None \<Rightarrow> Inl Bad_deref | Some a \<Rightarrow> Inr a)"

definition driver_get_mac :: "driver \<Rightarrow> nat \<Rightarrow> (nat \<Rightarrow> u8) res" where
  "driver_get_mac d i = bindE (driver_get_adapter d i) (\<lambda>a. Inr (a_mac a))"

definition driver_get_adapter_num :: "driver \<Rightarrow> nat" where
  "driver_get_adapter_num d = unat (adapter_num d)"

section \<open>The loop of the four ring functions\<close>

text \<open>
  \<open>while(again(i)) { ret = body(i); if(ret == 0) break; i = (i + 1) % size; count++; }\<close> occurs four
  times; the answer is the final index, the count and the state.
\<close>

fun ring_loop ::
  "nat \<Rightarrow> (nat \<Rightarrow> bool res) \<Rightarrow> (nat \<Rightarrow> 's \<Rightarrow> (int \<times> 's) res) \<Rightarrow> nat \<Rightarrow> nat \<Rightarrow> nat \<Rightarrow> 's \<Rightarrow> (nat \<times> nat \<times> 's) res" where
  "ring_loop 0 again body sz i count s = Inl Diverges"
| "ring_loop (Suc fuel) again body sz i count s =
     bindE (again i) (\<lambda>go.
       if go then
         bindE (body i s) (\<lambda>(ret, s).
           if ret = 0 then Inr (i, count, s)
           else if sz = 0 then Inl Bad_arith
           else ring_loop fuel again body sz ((i + 1) mod sz) (count + 1) s)
       else Inr (i, count, s))"

text \<open>The two loop conditions: \<open>(i + 1) % size != end\<close> and \<open>i != end\<close>.\<close>

definition next_ne :: "nat \<Rightarrow> nat \<Rightarrow> nat \<Rightarrow> bool res" where
  "next_ne sz end_i i = (if sz = 0 then Inl Bad_arith else Inr ((i + 1) mod sz \<noteq> end_i))"

definition ne :: "nat \<Rightarrow> nat \<Rightarrow> bool res" where
  "ne end_i i = Inr (i \<noteq> end_i)"

section \<open>Receive buffers\<close>

definition ring_alloc_rx_buffer ::
  "packet store \<Rightarrow> nat \<Rightarrow> ring \<times> packet_pool \<Rightarrow> (int \<times> ring \<times> packet_pool) res" where
  "ring_alloc_rx_buffer pkts i = (\<lambda>(r, pp).
     bindE (packet_pool_get pp) (\<lambda>(p, pp).
       case p of
         None \<Rightarrow> Inr (0, r, pp)
       | Some p \<Rightarrow>
           bindE (deref pkts p) (\<lambda>pkt.
           bindE (put_desc r i \<lparr>d_lo = p_phys pkt, d_hi = 0\<rparr>) (\<lambda>r.
           bindE (put_buffer r i (Some p)) (\<lambda>r. Inr (1, r, pp))))))"

definition ring_alloc_rx_buffers ::
  "packet store \<Rightarrow> ring \<Rightarrow> packet_pool \<Rightarrow> mmio \<Rightarrow> (nat \<times> ring \<times> packet_pool \<times> mmio) res" where
  "ring_alloc_rx_buffers pkts r pp m =
     bindE (ring_loop (Suc (r_desc_num r)) (next_ne (r_desc_num r) (r_head r)) (ring_alloc_rx_buffer pkts)
              (r_desc_num r) (r_tail r) 0 (r, pp))
       (\<lambda>(i, count, r, pp).
          if 0 < count then Inr (count, r\<lparr>r_tail := i\<rparr>, pp, writel (of_nat i) (r_tail_reg r) m)
          else Inr (count, r, pp, m))"

definition with_rx :: "adapter \<Rightarrow> ring res" where
  "with_rx a = (case rx_ring a of None \<Rightarrow> Inl Bad_deref | Some r \<Rightarrow> Inr r)"

definition with_tx :: "adapter \<Rightarrow> ring res" where
  "with_tx a = (case tx_ring a of None \<Rightarrow> Inl Bad_deref | Some r \<Rightarrow> Inr r)"

definition adapter_alloc_rx_buffers ::
  "packet store \<Rightarrow> adapter \<Rightarrow> packet_pool \<Rightarrow> mmio \<Rightarrow> (int \<times> adapter \<times> packet_pool \<times> mmio) res" where
  "adapter_alloc_rx_buffers pkts a pp m =
     bindE (with_rx a) (\<lambda>r.
     bindE (ring_alloc_rx_buffers pkts r pp m) (\<lambda>(_, r, pp, m).
       Inr (1, a\<lparr>rx_ring := Some r\<rparr>, pp, m)))"

definition put_adapter :: "driver \<Rightarrow> nat \<Rightarrow> adapter \<Rightarrow> driver" where
  "put_adapter d i a = d\<lparr>adapters := (adapters d)[i := Some a]\<rparr>"

definition driver_alloc_rx_buffer ::
  "packet store \<Rightarrow> driver \<Rightarrow> packet_pool \<Rightarrow> mmio \<Rightarrow> (int \<times> driver \<times> packet_pool \<times> mmio) res" where
  "driver_alloc_rx_buffer pkts d pp m =
     bindE (foldE (\<lambda>i (d, pp, m).
              bindE (driver_get_adapter d i) (\<lambda>a.
              bindE (adapter_alloc_rx_buffers pkts a pp m) (\<lambda>(_, a, pp, m).
                Inr (put_adapter d i a, pp, m))))
            [0..<unat (adapter_num d)] (d, pp, m))
       (\<lambda>(d, pp, m). Inr (1, d, pp, m))"

section \<open>Receiving\<close>

definition ring_recv_rx_buffer :: "nat \<Rightarrow> ring \<times> packet store \<Rightarrow> (int \<times> ring \<times> packet store) res" where
  "ring_recv_rx_buffer i = (\<lambda>(r, pkts).
     bindE (arr_get (r_buffer r) i) (\<lambda>p.
     bindE (ring_rx_desc r i) (\<lambda>rx_desc.
       if rx_status rx_desc AND E1000_RXD_STAT_DD \<noteq> 0 then
         (case p of
            None \<Rightarrow> Inl Bad_deref
          | Some p \<Rightarrow>
              bindE (deref pkts p) (\<lambda>pkt.
              bindE (put_desc r i (rx_desc\<lparr>d_hi := set_low32 (d_hi rx_desc) 0\<rparr>)) (\<lambda>r.
              bindE (put_buffer r i None) (\<lambda>r.
                Inr (1, r\<lparr>r_pool := packet_pool_put (r_pool r) p\<rparr>,
                     pkts(p \<mapsto> pkt\<lparr>p_len := rx_length rx_desc, adapter_idx := ucast (r_a r)\<rparr>))))))
       else Inr (0, r, pkts))))"

definition ring_recv :: "ring \<Rightarrow> packet store \<Rightarrow> (nat \<times> ring \<times> packet store) res" where
  "ring_recv r pkts =
     bindE (ring_loop (Suc (r_desc_num r)) (ne (r_tail r)) ring_recv_rx_buffer (r_desc_num r) (r_head r) 0 (r, pkts))
       (\<lambda>(i, count, r, pkts).
          if 0 < count then Inr (count, r\<lparr>r_head := i\<rparr>, pkts) else Inr (count, r, pkts))"

definition adapter_recv :: "adapter \<Rightarrow> packet store \<Rightarrow> (nat \<times> adapter \<times> packet store) res" where
  "adapter_recv a pkts =
     bindE (with_rx a) (\<lambda>r.
     bindE (ring_recv r pkts) (\<lambda>(n, r, pkts). Inr (n, a\<lparr>rx_ring := Some r\<rparr>, pkts)))"

definition driver_get_received_packets :: "driver \<Rightarrow> ptr list \<Rightarrow> (driver \<times> ptr list) res" where
  "driver_get_received_packets d head =
     foldE (\<lambda>i (d, head).
       bindE (driver_get_adapter d i) (\<lambda>a.
       bindE (with_rx a) (\<lambda>r.
         case packet_pool_get_all (r_pool r) head of (pp, head) \<Rightarrow>
           Inr (put_adapter d i (a\<lparr>rx_ring := Some (r\<lparr>r_pool := pp\<rparr>)\<rparr>), head))))
     [0..<unat (adapter_num d)] (d, head)"

definition driver_recv ::
  "driver \<Rightarrow> packet store \<Rightarrow> ptr list \<Rightarrow> (nat \<times> driver \<times> packet store \<times> ptr list) res" where
  "driver_recv d pkts head =
     bindE (foldE (\<lambda>i (count, d, pkts).
              bindE (driver_get_adapter d i) (\<lambda>a.
              bindE (adapter_recv a pkts) (\<lambda>(n, a, pkts). Inr (count + n, put_adapter d i a, pkts))))
            [0..<unat (adapter_num d)] (0, d, pkts)) (\<lambda>(count, d, pkts).
     bindE (driver_get_received_packets d head) (\<lambda>(d, head). Inr (count, d, pkts, head)))"

section \<open>Sending\<close>

definition tx_desc_of :: "packet \<Rightarrow> desc" where
  "tx_desc_of pkt =
     (let len = (ucast (p_len pkt) :: u32);
          len = (if len < 60 then 60 else len);
          olinfo_status = push_bit E1000_ADVTXD_PAYLEN_SHIFT len
      in \<lparr>d_lo = p_phys pkt, d_hi = set_high32 (ucast (TX_CMD OR len)) olinfo_status\<rparr>)"

definition ring_send_tx_buffer :: "packet store \<Rightarrow> nat \<Rightarrow> ring \<Rightarrow> (int \<times> ring) res" where
  "ring_send_tx_buffer pkts idx r =
     bindE (packet_pool_get (r_pool r)) (\<lambda>(p, pp).
       let r = r\<lparr>r_pool := pp\<rparr>
       in case p of
            None \<Rightarrow> Inr (0, r)
          | Some p \<Rightarrow>
              bindE (put_buffer r idx (Some p)) (\<lambda>r.
              bindE (deref pkts p) (\<lambda>pkt.
              bindE (put_desc r idx (tx_desc_of pkt)) (\<lambda>r. Inr (1, r)))))"

definition ring_send :: "packet store \<Rightarrow> ring \<Rightarrow> mmio \<Rightarrow> (nat \<times> ring \<times> mmio) res" where
  "ring_send pkts r m =
     bindE (ring_loop (Suc (r_desc_num r)) (next_ne (r_desc_num r) (r_head r)) (ring_send_tx_buffer pkts)
              (r_desc_num r) (r_tail r) 0 r)
       (\<lambda>(i, count, r).
          if 0 < count then Inr (count, r\<lparr>r_tail := i\<rparr>, writel (of_nat i) (r_tail_reg r) m)
          else Inr (count, r, m))"

definition adapter_send :: "packet store \<Rightarrow> adapter \<Rightarrow> mmio \<Rightarrow> (nat \<times> adapter \<times> mmio) res" where
  "adapter_send pkts a m =
     bindE (with_tx a) (\<lambda>r.
     bindE (ring_send pkts r m) (\<lambda>(n, r, m). Inr (n, a\<lparr>tx_ring := Some r\<rparr>, m)))"

definition driver_send :: "packet store \<Rightarrow> driver \<Rightarrow> mmio \<Rightarrow> (nat \<times> driver \<times> mmio) res" where
  "driver_send pkts d m =
     foldE (\<lambda>i (count, d, m).
       bindE (driver_get_adapter d i) (\<lambda>a.
       bindE (adapter_send pkts a m) (\<lambda>(n, a, m). Inr (count + n, put_adapter d i a, m))))
     [0..<unat (adapter_num d)] (0, d, m)"

definition driver_put_packet_to_send_buffer :: "packet store \<Rightarrow> driver \<Rightarrow> ptr \<Rightarrow> (int \<times> driver) res" where
  "driver_put_packet_to_send_buffer pkts d p =
     bindE (deref pkts p) (\<lambda>pkt.
     let i = unat (adapter_idx pkt) in
     bindE (driver_get_adapter d i) (\<lambda>a.
     bindE (with_tx a) (\<lambda>r.
       Inr (1, put_adapter d i (a\<lparr>tx_ring := Some (r\<lparr>r_pool := packet_pool_put (r_pool r) p\<rparr>)\<rparr>)))))"

section \<open>Reclaiming sent packets\<close>

definition ring_reclaim_tx_buffer :: "nat \<Rightarrow> ring \<times> ptr list \<Rightarrow> (int \<times> ring \<times> ptr list) res" where
  "ring_reclaim_tx_buffer i = (\<lambda>(r, head).
     bindE (ring_tx_desc r i) (\<lambda>tx_desc.
       if tx_status tx_desc AND E1000_TXD_STAT_DD \<noteq> 0 then
         bindE (arr_get (r_buffer r) i) (\<lambda>p.
         bindE (put_buffer r i None) (\<lambda>r.
         bindE (put_desc r i (tx_desc\<lparr>d_hi := set_high32 (d_hi tx_desc) 0\<rparr>)) (\<lambda>r.
           case p of None \<Rightarrow> Inl Exit_call | Some p \<Rightarrow> Inr (1, r, head @ [p]))))
       else Inr (0, r, head)))"

definition ring_reclaim_tx_buffers :: "ring \<Rightarrow> ptr list \<Rightarrow> (nat \<times> ring \<times> ptr list) res" where
  "ring_reclaim_tx_buffers r head =
     bindE (ring_loop (Suc (r_desc_num r)) (next_ne (r_desc_num r) (r_tail r)) ring_reclaim_tx_buffer
              (r_desc_num r) (r_head r) 0 (r, head))
       (\<lambda>(i, count, r, head).
          if 0 < count then Inr (count, r\<lparr>r_head := i\<rparr>, head) else Inr (count, r, head))"

definition adapter_reclaim_tx_buffers :: "adapter \<Rightarrow> ptr list \<Rightarrow> (nat \<times> adapter \<times> ptr list) res" where
  "adapter_reclaim_tx_buffers a head =
     bindE (with_tx a) (\<lambda>r.
     bindE (ring_reclaim_tx_buffers r head) (\<lambda>(n, r, head). Inr (n, a\<lparr>tx_ring := Some r\<rparr>, head)))"

definition driver_reclaim_tx_buffer :: "driver \<Rightarrow> ptr list \<Rightarrow> (nat \<times> driver \<times> ptr list) res" where
  "driver_reclaim_tx_buffer d head =
     foldE (\<lambda>i (count, d, head).
       bindE (driver_get_adapter d i) (\<lambda>a.
       bindE (adapter_reclaim_tx_buffers a head) (\<lambda>(n, a, head). Inr (count + n, put_adapter d i a, head))))
     [0..<unat (adapter_num d)] (0, d, head)"

section \<open>The loop rule\<close>

text \<open>
  Total correctness of the shared loop: an invariant over the count, the index and the state, a
  bound on the count, and a postcondition for the two ways out.
\<close>

lemma ring_loop_rule:
  assumes sz: "0 < sz"
    and step: "\<And>c i s. I c i s \<Longrightarrow> (again i = Inr False \<and> Q c i s) \<or>
       (again i = Inr True \<and> (\<exists>s'. body i s = Inr (0, s') \<and> Q c i s')) \<or>
       (again i = Inr True \<and> (\<exists>s'. body i s = Inr (1, s') \<and> I (Suc c) (Suc i mod sz) s'))"
    and bound: "\<And>c i s. I c i s \<Longrightarrow> c \<le> B"
  shows "I c i s \<Longrightarrow> B - c < fuel \<Longrightarrow>
    \<exists>c' i' s'. ring_loop fuel again body sz i c s = Inr (i', c', s') \<and> Q c' i' s'"
proof (induction fuel arbitrary: c i s)
  case (Suc fuel)
  from step [OF Suc.prems(1)] show ?case
  proof (elim disjE conjE exE)
    fix s' assume a: "again i = Inr True" "body i s = Inr (1, s')" "I (Suc c) (Suc i mod sz) s'"
    have "Suc c \<le> B" using bound [OF a(3)] .
    then have "B - Suc c < fuel" using Suc.prems(2) by simp
    from Suc.IH [OF a(3) this] show ?thesis using a sz by simp
  qed auto
qed simp

text \<open>Filling a ring at the tail: the first \<open>c\<close> packets of \<open>fl\<close> have been attached.\<close>

definition fill_inv ::
  "nat \<Rightarrow> nat \<Rightarrow> ptr list \<Rightarrow> desc list \<Rightarrow> (ptr \<Rightarrow> desc) \<Rightarrow> ptr list \<Rightarrow> nat \<Rightarrow> nat \<Rightarrow> desc list \<Rightarrow> ptr option list \<Rightarrow> bool" where
  "fill_inv n h ps ds f fl c i D B \<longleftrightarrow>
     length D = n \<and> length B = n \<and> h < n \<and> i < n \<and> c \<le> length fl \<and> length ps + c \<le> n - 1 \<and>
     between B h i = map Some (ps @ take c fl) \<and> between D h i = ds @ map f (take c fl)"

lemma fill_full:
  assumes "fill_inv n h ps ds f fl c i D B"
  shows "Suc i mod n = h \<longleftrightarrow> length ps + c = n - 1"
proof -
  have "length (between B h i) = length ps + c" using assms by (simp add: fill_inv_def min_def)
  then have "used n h i = length ps + c" using length_between [of B h i] assms by (simp add: fill_inv_def)
  then show ?thesis using used_full [of h n i] assms by (auto simp: fill_inv_def)
qed

lemma fill_step:
  assumes inv: "fill_inv n h ps ds f fl c i D B" and room: "Suc i mod n \<noteq> h" and c: "c < length fl"
  shows "fill_inv n h ps ds f fl (Suc c) (Suc i mod n) (D[i := f (fl ! c)]) (B[i := Some (fl ! c)])"
proof -
  have "length ps + c \<noteq> n - 1" using fill_full [OF inv] room by simp
  then show ?thesis
    using inv c room between_write [of h B i "Some (fl ! c)"] between_write [of h D i "f (fl ! c)"]
    by (auto simp: fill_inv_def take_Suc_conv_app_nth)
qed

text \<open>Draining it at the head: the first \<open>c\<close> packets of \<open>ps\<close> have been taken off.\<close>

definition drain_inv ::
  "nat \<Rightarrow> nat \<Rightarrow> ptr list \<Rightarrow> desc list \<Rightarrow> nat \<Rightarrow> nat \<Rightarrow> desc list \<Rightarrow> ptr option list \<Rightarrow> bool" where
  "drain_inv n t ps ds c i D B \<longleftrightarrow>
     length D = n \<and> length B = n \<and> t < n \<and> i < n \<and> c \<le> length ps \<and> length ds = length ps \<and>
     between B i t = map Some (drop c ps) \<and> between D i t = drop c ds"

lemma between_advance:
  assumes "h < length xs" "t < length xs" "h \<noteq> t"
  shows "between (xs[h := v]) (Suc h mod length xs) t = tl (between xs h t)"
proof -
  let ?n = "length xs"
  have h': "Suc h mod ?n < ?n" by (rule mod_less_divisor) (use assms in linarith)
  have "used ?n (Suc h mod ?n) h = ?n - 1" using used_full [OF h' assms(1)] by simp
  moreover have "used ?n (Suc h mod ?n) t < ?n" by (rule used_less) (use assms in linarith)
  ultimately have "between (xs[h := v]) (Suc h mod ?n) t = between xs (Suc h mod ?n) t"
    using between_upd_outside [OF h' assms(2,1)] by simp
  then show ?thesis using between_read [OF assms] by simp
qed

lemma drain_used:
  "drain_inv n t ps ds c i D B \<Longrightarrow> used n i t = length ps - c"
  using length_between [of B i t] by (simp add: drain_inv_def)

lemma drain_empty:
  assumes "drain_inv n t ps ds c i D B"
  shows "i = t \<longleftrightarrow> c = length ps"
  using drain_used [OF assms] used_eq_0 [of i n t] assms by (auto simp: drain_inv_def)

lemma drain_last:
  assumes inv: "drain_inv n t ps ds c i D B" and ne: "c < length ps"
  shows "Suc i mod n = t \<longleftrightarrow> Suc c = length ps"
proof -
  have it: "i \<noteq> t" using drain_empty [OF inv] ne by simp
  have b: "i < n" "t < n" "Suc i mod n < n" using inv by (auto simp: drain_inv_def)
  have "used n i t = Suc (used n (Suc i mod n) t)" using used_Suc_head [OF b(1,2) it] .
  then have "used n (Suc i mod n) t = length ps - Suc c" using drain_used [OF inv] by simp
  then show ?thesis using used_eq_0 [OF b(3,2)] ne by auto
qed

lemma drain_step:
  assumes inv: "drain_inv n t ps ds c i D B" and c: "c < length ps"
  shows "B ! i = Some (ps ! c)" "D ! i = ds ! c"
    "drain_inv n t ps ds (Suc c) (Suc i mod n) (D[i := d]) (B[i := None])"
proof -
  have it: "i \<noteq> t" using drain_empty [OF inv] c by simp
  have l: "length D = n" "length B = n" "i < n" "t < n" "c < length ds" using inv c by (auto simp: drain_inv_def)
  have bB: "between B i t = map Some (drop c ps)" and bD: "between D i t = drop c ds"
    using inv by (auto simp: drain_inv_def)
  have rB: "between B i t = B ! i # between B (Suc i mod n) t"
    and rD: "between D i t = D ! i # between D (Suc i mod n) t"
    using between_read [of i B t] between_read [of i D t] l it by auto
  show "B ! i = Some (ps ! c)" using rB bB c by (metis Cons_nth_drop_Suc list.inject list.simps(9))
  show "D ! i = ds ! c" using rD bD l(5) by (metis Cons_nth_drop_Suc list.inject)
  show "drain_inv n t ps ds (Suc c) (Suc i mod n) (D[i := d]) (B[i := None])"
    using inv c l it between_advance [of i B t None] between_advance [of i D t d] bB bD
    by (simp add: drain_inv_def tl_drop drop_Suc map_tl [symmetric])
qed

section \<open>Rings\<close>

definition ring_ok :: "ring \<Rightarrow> bool" where
  "ring_ok r \<longleftrightarrow> 0 < r_desc_num r \<and> length (r_desc r) = r_desc_num r \<and> length (r_buffer r) = r_desc_num r \<and>
     r_head r < r_desc_num r \<and> r_tail r < r_desc_num r \<and> pool_count_ok (r_pool r)"

text \<open>The packets attached to the descriptors the card owns, and those descriptors.\<close>

definition on_ring :: "ring \<Rightarrow> ptr option list" where
  "on_ring r = between (r_buffer r) (r_head r) (r_tail r)"

definition ring_descs :: "ring \<Rightarrow> desc list" where
  "ring_descs r = between (r_desc r) (r_head r) (r_tail r)"

text \<open>A ring with two packets of four places, the first received, for instances.\<close>

definition sample_ring :: ring where
  "sample_ring = \<lparr>r_a = 0, r_desc = [\<lparr>d_lo = 0, d_hi = 0x3C00000001\<rparr>, \<lparr>d_lo = 0, d_hi = 0\<rparr>, \<lparr>d_lo = 0, d_hi = 0\<rparr>, \<lparr>d_lo = 0, d_hi = 0\<rparr>],
     r_desc_num = 4, r_head = 0, r_tail = 2, r_tail_reg = 0, r_queue_idx = 0, r_pool = packet_pool_init,
     r_buffer = [Some 5, Some 6, None, None]\<rparr>"

lemma ring_create_ok:
  assumes "ring_create memory a reg dsc n i h = Inr (Some r, h')"
  shows "ring_ok r" "on_ring r = []" "pp_list (r_pool r) = []"
proof -
  have n: "n \<noteq> 0" using assms by (auto simp: ring_create_def)
  then have "0 < unat n" by (simp add: unat_gt_0)
  moreover have "r = \<lparr>r_a = a, r_desc = map (memory dsc) [0..<unat n], r_desc_num = unat n,
     r_head = 0, r_tail = 0, r_tail_reg = reg, r_queue_idx = i,
     r_pool = packet_pool_init, r_buffer = replicate (unat n) None\<rparr>"
    using assms by (auto simp: ring_create_def split: prod.splits option.splits if_splits)
  ultimately show "ring_ok r" "on_ring r = []" "pp_list (r_pool r) = []"
    by (simp_all add: ring_ok_def on_ring_def packet_pool_init_def pool_count_ok_def)
qed

definition rx_desc_of :: "packet store \<Rightarrow> ptr \<Rightarrow> desc" where
  "rx_desc_of pkts p = \<lparr>d_lo = p_phys (the (pkts p)), d_hi = 0\<rparr>"

lemma alloc_rx_ok:
  assumes ok: "ring_ok r" and ps: "on_ring r = map Some ps" and pool: "pool_count_ok pp"
    and known: "set (pp_list pp) \<subseteq> dom pkts"
  defines "k \<equiv> min (length (pp_list pp)) (r_desc_num r - 1 - length ps)"
  shows "\<exists>r' pp' m'. ring_alloc_rx_buffers pkts r pp m = Inr (k, r', pp', m') \<and> ring_ok r' \<and>
    on_ring r' = map Some (ps @ take k (pp_list pp)) \<and>
    ring_descs r' = ring_descs r @ map (rx_desc_of pkts) (take k (pp_list pp)) \<and>
    pp_list pp' = drop k (pp_list pp) \<and> pool_count_ok pp' \<and> r_pool r' = r_pool r \<and> r_a r' = r_a r \<and> r_desc_num r' = r_desc_num r \<and>
    m' = (if k = 0 then m else writel (of_nat (r_tail r')) (r_tail_reg r) m)"
proof -
  let ?n = "r_desc_num r" and ?h = "r_head r" and ?fl = "pp_list pp" and ?f = "rx_desc_of pkts"
  have n: "0 < ?n" "length (r_desc r) = ?n" "length (r_buffer r) = ?n" "?h < ?n" "r_tail r < ?n"
    using ok by (auto simp: ring_ok_def)
  have lp: "length ps \<le> ?n - 1"
  proof -
    have "length ps = used ?n ?h (r_tail r)" using ps length_between [of "r_buffer r" ?h "r_tail r"] n
      by (simp add: on_ring_def)
    then show ?thesis using used_less [OF n(1), of ?h "r_tail r"] by linarith
  qed
  let ?I = "\<lambda>c i (s :: ring \<times> packet_pool). \<exists>D B q. s = (r\<lparr>r_desc := D, r_buffer := B\<rparr>, q) \<and>
      fill_inv ?n ?h ps (ring_descs r) ?f ?fl c i D B \<and> pp_list q = drop c ?fl \<and> pool_count_ok q"
  let ?Q = "\<lambda>c i s. ?I c i s \<and> c = k"
  have start: "?I 0 (r_tail r) (r, pp)"
    using n ps pool lp
    by (intro exI [of _ "r_desc r"] exI [of _ "r_buffer r"] exI [of _ pp])
      (simp add: fill_inv_def on_ring_def ring_descs_def)
  have step: "(next_ne ?n ?h i = Inr False \<and> ?Q c i s) \<or>
      (next_ne ?n ?h i = Inr True \<and> (\<exists>s'. ring_alloc_rx_buffer pkts i s = Inr (0, s') \<and> ?Q c i s')) \<or>
      (next_ne ?n ?h i = Inr True \<and> (\<exists>s'. ring_alloc_rx_buffer pkts i s = Inr (1, s') \<and> ?I (Suc c) (Suc i mod ?n) s'))"
    if I: "?I c i s" for c i s
  proof -
    obtain D B q where s: "s = (r\<lparr>r_desc := D, r_buffer := B\<rparr>, q)"
      and inv: "fill_inv ?n ?h ps (ring_descs r) ?f ?fl c i D B" and q: "pp_list q = drop c ?fl" "pool_count_ok q"
      using I by blast
    have again: "next_ne ?n ?h i = Inr (Suc i mod ?n \<noteq> ?h)" using n by (simp add: next_ne_def)
    have b: "c \<le> length ?fl" "length ps + c \<le> ?n - 1" "length D = ?n" "length B = ?n" "i < ?n"
      using inv by (auto simp: fill_inv_def)
    show ?thesis
    proof (cases "Suc i mod ?n = ?h")
      case True
      then have "c = k" using fill_full [OF inv] b by (auto simp: k_def)
      then show ?thesis using again True I by simp
    next
      case False
      then have room: "length ps + c \<noteq> ?n - 1" using fill_full [OF inv] by simp
      obtain q' where q': "packet_pool_get q = Inr (case drop c ?fl of [] \<Rightarrow> None | p # _ \<Rightarrow> Some p, q')"
        "pp_list q' = tl (drop c ?fl)" "pool_count_ok q'"
        using pool_get_spec [OF q(2)] q(1) by auto
      show ?thesis
      proof (cases "drop c ?fl")
        case Nil
        then have "c = k" using b room by (auto simp: k_def)
        moreover have "ring_alloc_rx_buffer pkts i s = Inr (0, r\<lparr>r_desc := D, r_buffer := B\<rparr>, q')"
          using q' Nil s by (simp add: ring_alloc_rx_buffer_def)
        ultimately show ?thesis using again False inv q' Nil by auto
      next
        case (Cons p fl')
        then have c: "c < length ?fl" "?fl ! c = p" "fl' = drop (Suc c) ?fl"
          by (auto simp: drop_Suc nth_via_drop) (metis drop_eq_Nil2 list.distinct(1) not_le, metis drop_Suc drop_tl list.sel(3))
        then have "p \<in> set ?fl" by auto
        then obtain pkt where pkt: "pkts p = Some pkt" using known by blast
        have "ring_alloc_rx_buffer pkts i s
            = Inr (1, r\<lparr>r_desc := D[i := ?f p], r_buffer := B[i := Some p]\<rparr>, q')"
          using q' Cons s pkt b by (simp add: ring_alloc_rx_buffer_def put_desc_def put_buffer_def rx_desc_of_def)
        moreover have "fill_inv ?n ?h ps (ring_descs r) ?f ?fl (Suc c) (Suc i mod ?n) (D[i := ?f p]) (B[i := Some p])"
          using fill_step [OF inv False c(1)] c(2) by simp
        ultimately show ?thesis using again False q' Cons c(3) by auto
      qed
    qed
  qed
  have bound: "c \<le> ?n" if "?I c i s" for c i s using that by (auto simp: fill_inv_def)
  have "\<exists>c i' s'. ring_loop (Suc ?n) (next_ne ?n ?h) (ring_alloc_rx_buffer pkts) ?n (r_tail r) 0 (r, pp)
      = Inr (i', c, s') \<and> ?Q c i' s'"
    by (rule ring_loop_rule [where I = ?I and B = ?n], rule n(1), erule step, erule bound, rule start, simp)
  then obtain i' s' where loop: "ring_loop (Suc ?n) (next_ne ?n ?h) (ring_alloc_rx_buffer pkts) ?n (r_tail r) 0 (r, pp)
      = Inr (i', k, s')" and I': "?I k i' s'" by blast
  obtain D B q where s': "s' = (r\<lparr>r_desc := D, r_buffer := B\<rparr>, q)"
      and inv: "fill_inv ?n ?h ps (ring_descs r) ?f ?fl k i' D B" and q: "pp_list q = drop k ?fl" "pool_count_ok q"
    using I' by blast
  let ?r = "r\<lparr>r_desc := D, r_buffer := B, r_tail := i'\<rparr>"
  have r': "(if 0 < k then r\<lparr>r_desc := D, r_buffer := B\<rparr>\<lparr>r_tail := i'\<rparr> else r\<lparr>r_desc := D, r_buffer := B\<rparr>) = ?r"
  proof (cases "k = 0")
    case True
    then have "used ?n ?h i' = used ?n ?h (r_tail r)"
      using inv ps n length_between [of B ?h i'] length_between [of "r_buffer r" ?h "r_tail r"]
      by (simp add: fill_inv_def on_ring_def)
    then have "i' = r_tail r"
      using used_tail [of ?h ?n i'] used_tail [of ?h ?n "r_tail r"] inv n by (simp add: fill_inv_def)
    then show ?thesis using True by simp
  qed simp
  have "ring_alloc_rx_buffers pkts r pp m
      = Inr (k, ?r, q, if k = 0 then m else writel (of_nat i') (r_tail_reg r) m)"
    using loop r' s' by (simp add: ring_alloc_rx_buffers_def split: if_splits)
  moreover have "ring_ok ?r" using inv ok by (simp add: ring_ok_def fill_inv_def)
  ultimately show ?thesis using inv q
    by (intro exI [of _ ?r] exI [of _ q] exI [of _ "if k = 0 then m else writel (of_nat i') (r_tail_reg r) m"])
      (simp add: on_ring_def ring_descs_def fill_inv_def)
qed

text \<open>
  C26: posting receive buffers takes as many packets from the front of the free pool as fit on the ring,
  one place always staying free, attaches them in order and tells the card the new tail.
\<close>

theorem alloc_rx_spec:
  assumes ok: "ring_ok r" and ps: "on_ring r = map Some ps" and pool: "pool_count_ok pp"
    and known: "set (pp_list pp) \<subseteq> dom pkts"
  defines "k \<equiv> min (length (pp_list pp)) (r_desc_num r - 1 - length ps)"
  shows "\<exists>r' pp' m'. ring_alloc_rx_buffers pkts r pp m = Inr (k, r', pp', m') \<and> ring_ok r' \<and>
    on_ring r' = map Some (ps @ take k (pp_list pp)) \<and>
    ring_descs r' = ring_descs r @ map (rx_desc_of pkts) (take k (pp_list pp)) \<and>
    pp_list pp' = drop k (pp_list pp) \<and> pool_count_ok pp' \<and> r_pool r' = r_pool r \<and> r_a r' = r_a r \<and> r_desc_num r' = r_desc_num r \<and>
    m' = (if k = 0 then m else writel (of_nat (r_tail r')) (r_tail_reg r) m)"
  unfolding k_def by (rule alloc_rx_ok [OF ok ps pool known])

lemma alloc_rx_spec_witness:
  "\<exists>r' pp' m'. ring_alloc_rx_buffers [5 \<mapsto> sample_packet, 6 \<mapsto> sample_packet, 7 \<mapsto> sample_packet, 8 \<mapsto> sample_packet] sample_ring
      \<lparr>pp_num = 2, pp_list = [7, 8]\<rparr> (\<lambda>_. 0) = Inr (1, r', pp', m') \<and> pp_list pp' = [8] \<and> on_ring r' = [Some 5, Some 6, Some 7]"
proof -
  let ?p = "[5 \<mapsto> sample_packet, 6 \<mapsto> sample_packet, 7 \<mapsto> sample_packet, 8 \<mapsto> sample_packet]"
  have on: "on_ring sample_ring = map Some [5, 6]" by code_simp
  have ok: "ring_ok sample_ring" by (simp add: sample_ring_def ring_ok_def pool_count_ok_def packet_pool_init_def)
  have "pool_count_ok \<lparr>pp_num = 2, pp_list = [7, 8]\<rparr>" "set (pp_list \<lparr>pp_num = 2, pp_list = [7, 8]\<rparr>) \<subseteq> dom ?p"
    by (auto simp: pool_count_ok_def)
  from alloc_rx_spec [OF ok on this, of "\<lambda>_. 0"] show ?thesis by (auto simp: sample_ring_def)
qed

text \<open>
  Receiving takes the completed descriptors from the head on: their packets move to the pool of
  the ring, in order, with the length the card reported.
\<close>

definition rx_done :: "desc \<Rightarrow> bool" where
  "rx_done d \<longleftrightarrow> rx_status d AND E1000_RXD_STAT_DD \<noteq> 0"

definition received :: "ring \<Rightarrow> ptr list \<Rightarrow> desc list \<Rightarrow> nat \<Rightarrow> packet store \<Rightarrow> packet store" where
  "received r ps ds c pkts = fold (\<lambda>(p, d) m. m(p := map_option
     (\<lambda>pkt. pkt\<lparr>p_len := rx_length d, adapter_idx := ucast (r_a r)\<rparr>) (m p))) (take c (zip ps ds)) pkts"

lemma received_Suc:
  "c < length ps \<Longrightarrow> c < length ds \<Longrightarrow> received r ps ds (Suc c) pkts
     = (received r ps ds c pkts)(ps ! c := map_option (\<lambda>pkt. pkt\<lparr>p_len := rx_length (ds ! c),
          adapter_idx := ucast (r_a r)\<rparr>) (received r ps ds c pkts (ps ! c)))"
  by (simp add: received_def take_Suc_conv_app_nth)

lemma received_dom [simp]: "dom (received r ps ds c pkts) = dom pkts"
proof -
  have "dom (fold (\<lambda>(p, d) m. m(p := map_option (f d) (m p))) xs pkts) = dom pkts" for f and xs :: "(ptr \<times> desc) list"
    by (induction xs arbitrary: pkts) (auto simp: dom_def split: if_splits)
  then show ?thesis by (simp add: received_def)
qed

lemma received_other: "p \<notin> set (take c ps) \<Longrightarrow> received r ps ds c pkts p = pkts p"
proof -
  have "p \<notin> fst ` set xs \<Longrightarrow> fold (\<lambda>(p, d) m. m(p := map_option (f d) (m p))) xs pkts p = pkts p"
    for f and xs :: "(ptr \<times> desc) list"
    by (induction xs arbitrary: pkts) auto
  moreover assume "p \<notin> set (take c ps)"
  then have "p \<notin> fst ` set (take c (zip ps ds))"
    by (auto simp: take_zip dest: set_zip_leftD)
  ultimately show ?thesis by (simp add: received_def)
qed

lemma received_nth:
  "distinct ps \<Longrightarrow> length ds = length ps \<Longrightarrow> c \<le> length ps \<Longrightarrow> j < c \<Longrightarrow> received r ps ds c pkts (ps ! j)
     = map_option (\<lambda>pkt. pkt\<lparr>p_len := rx_length (ds ! j), adapter_idx := ucast (r_a r)\<rparr>) (pkts (ps ! j))"
proof (induction c)
  case (Suc c)
  have "ps ! c \<notin> set (take c ps)"
    using Suc.prems by (auto simp: in_set_conv_nth nth_eq_iff_index_eq)
  then have o: "received r ps ds c pkts (ps ! c) = pkts (ps ! c)" by (rule received_other)
  show ?case
  proof (cases "j = c")
    case True
    then show ?thesis using Suc.prems o by (simp add: received_Suc)
  next
    case False
    then have "ps ! j \<noteq> ps ! c" using Suc.prems by (simp add: nth_eq_iff_index_eq)
    then show ?thesis using Suc False by (simp add: received_Suc)
  qed
qed simp

lemma takeWhile_length_stop:
  assumes "\<forall>j < c. P (xs ! j)" "c \<le> length xs" "c < length xs \<longrightarrow> \<not> P (xs ! c)"
  shows "length (takeWhile P xs) = c"
proof -
  have "takeWhile P xs = take c xs"
    using assms by (intro takeWhile_eq_take_P_nth) auto
  then show ?thesis using assms(2) by simp
qed

lemma drained_ring:
  assumes ok: "ring_ok r" and inv: "drain_inv (r_desc_num r) (r_tail r) ps ds c i D B"
    and ps: "on_ring r = map Some ps" and pool: "pool_count_ok q"
  defines "r' \<equiv> (if 0 < c then r\<lparr>r_desc := D, r_buffer := B, r_pool := q, r_head := i\<rparr>
      else r\<lparr>r_desc := D, r_buffer := B, r_pool := q\<rparr>)"
  shows "ring_ok r'" "on_ring r' = map Some (drop c ps)" "ring_descs r' = drop c ds"
    and "r' = r\<lparr>r_desc := D, r_buffer := B, r_pool := q, r_head := i\<rparr>"
proof -
  let ?n = "r_desc_num r"
  have n: "length (r_buffer r) = ?n" "r_head r < ?n" "r_tail r < ?n" using ok by (auto simp: ring_ok_def)
  show eq: "r' = r\<lparr>r_desc := D, r_buffer := B, r_pool := q, r_head := i\<rparr>"
  proof (cases "c = 0")
    case True
    have "used ?n (r_head r) (r_tail r) = length ps"
      using ps length_between [of "r_buffer r" "r_head r" "r_tail r"] n by (simp add: on_ring_def)
    then have u: "used ?n i (r_tail r) = used ?n (r_head r) (r_tail r)" using drain_used [OF inv] True by simp
    have i: "i < ?n" using inv by (simp add: drain_inv_def)
    have "(i + used ?n i (r_tail r)) mod ?n = (r_head r + used ?n i (r_tail r)) mod ?n"
      using used_tail [OF i n(3)] used_tail [OF n(2,3)] u by simp
    then have "(used ?n i (r_tail r) + i) mod ?n = (used ?n i (r_tail r) + r_head r) mod ?n"
      by (simp add: add.commute)
    then have "i = r_head r" using ring_index_inj i n(2) by blast
    then show ?thesis using True by (simp add: r'_def)
  qed (simp add: r'_def)
  show "ring_ok r'" using ok inv pool by (simp add: eq ring_ok_def drain_inv_def)
  show "on_ring r' = map Some (drop c ps)" "ring_descs r' = drop c ds"
    using inv by (simp_all add: eq on_ring_def ring_descs_def drain_inv_def)
qed

lemma drain_start:
  assumes ok: "ring_ok r" and ps: "on_ring r = map Some ps"
  shows "drain_inv (r_desc_num r) (r_tail r) ps (ring_descs r) 0 (r_head r) (r_desc r) (r_buffer r)"
    and "length ps < r_desc_num r"
proof -
  let ?n = "r_desc_num r"
  have n: "0 < ?n" "length (r_buffer r) = ?n" "length (r_desc r) = ?n" using ok by (auto simp: ring_ok_def)
  have u: "length ps = used ?n (r_head r) (r_tail r)"
    using ps length_between [of "r_buffer r" "r_head r" "r_tail r"] n by (simp add: on_ring_def)
  then show "length ps < ?n" using used_less [OF n(1)] by simp
  have "length (ring_descs r) = length ps" using n u by (simp add: ring_descs_def length_between)
  then show "drain_inv ?n (r_tail r) ps (ring_descs r) 0 (r_head r) (r_desc r) (r_buffer r)"
    using ok ps by (simp add: drain_inv_def ring_ok_def on_ring_def ring_descs_def)
qed

lemma pool_put_count:
  assumes "pool_count_ok pp" "length (pp_list pp) < 2 ^ 32"
  shows "pool_count_ok (packet_pool_put pp p)"
  using pool_put_all_count [of pp "[p]"] assms by simp

lemma ring_recv_ok:
  assumes ok: "ring_ok r" and ps: "on_ring r = map Some ps" and d: "distinct ps" "set ps \<subseteq> dom pkts"
    and small: "length (pp_list (r_pool r)) + r_desc_num r < 2 ^ 32"
  defines "k \<equiv> length (takeWhile rx_done (ring_descs r))"
  shows "\<exists>r'. ring_recv r pkts = Inr (k, r', received r ps (ring_descs r) k pkts) \<and> ring_ok r' \<and>
    on_ring r' = map Some (drop k ps) \<and> ring_descs r' = drop k (ring_descs r) \<and>
    pp_list (r_pool r') = pp_list (r_pool r) @ take k ps \<and> r_a r' = r_a r \<and> r_desc_num r' = r_desc_num r"
proof -
  let ?n = "r_desc_num r" and ?t = "r_tail r" and ?ds = "ring_descs r"
  have n: "0 < ?n" using ok by (simp add: ring_ok_def)
  let ?I = "\<lambda>c i (s :: ring \<times> packet store). \<exists>D B q. s = (r\<lparr>r_desc := D, r_buffer := B, r_pool := q\<rparr>, received r ps ?ds c pkts) \<and>
      drain_inv ?n ?t ps ?ds c i D B \<and> pp_list q = pp_list (r_pool r) @ take c ps \<and> pool_count_ok q \<and>
      (\<forall>j < c. rx_done (?ds ! j))"
  let ?Q = "\<lambda>c i s. ?I c i s \<and> c = k"
  note st = drain_start [OF ok ps]
  have start: "?I 0 (r_head r) (r, pkts)"
    using st(1) ok
    by (intro exI [of _ "r_desc r"] exI [of _ "r_buffer r"] exI [of _ "r_pool r"])
      (simp add: received_def ring_ok_def)
  have step: "(ne ?t i = Inr False \<and> ?Q c i s) \<or>
      (ne ?t i = Inr True \<and> (\<exists>s'. ring_recv_rx_buffer i s = Inr (0, s') \<and> ?Q c i s')) \<or>
      (ne ?t i = Inr True \<and> (\<exists>s'. ring_recv_rx_buffer i s = Inr (1, s') \<and> ?I (Suc c) (Suc i mod ?n) s'))"
    if I: "?I c i s" for c i s
  proof -
    obtain D B q where s: "s = (r\<lparr>r_desc := D, r_buffer := B, r_pool := q\<rparr>, received r ps ?ds c pkts)"
      and inv: "drain_inv ?n ?t ps ?ds c i D B" and q: "pp_list q = pp_list (r_pool r) @ take c ps" "pool_count_ok q"
      and dn: "\<forall>j < c. rx_done (?ds ! j)" using I by blast
    have b: "c \<le> length ps" "length ?ds = length ps" "length D = ?n" "length B = ?n" "i < ?n"
      using inv by (auto simp: drain_inv_def)
    show ?thesis
    proof (cases "i = ?t")
      case True
      then have "c = length ps" using drain_empty [OF inv] by simp
      then have "c = k" using takeWhile_length_stop [of c rx_done ?ds] dn b by (simp add: k_def)
      then show ?thesis using True I by (simp add: ne_def)
    next
      case False
      then have c: "c < length ps" using drain_empty [OF inv] b by simp
      note dr = drain_step [OF inv c]
      show ?thesis
      proof (cases "rx_done (?ds ! c)")
        case notdone: False
        then have "c = k" using takeWhile_length_stop [of c rx_done ?ds] dn b by (simp add: k_def)
        moreover have "ring_recv_rx_buffer i s = Inr (0, s)"
          using s b dr notdone by (simp add: ring_recv_rx_buffer_def ring_rx_desc_def rx_done_def)
        ultimately show ?thesis using False I by (auto simp: ne_def)
      next
        case True
        obtain pkt where pkt: "received r ps ?ds c pkts (ps ! c) = Some pkt"
          using d(2) c received_dom [of r ps ?ds c pkts] nth_mem [OF c] by blast
        let ?d = "(?ds ! c)\<lparr>d_hi := set_low32 (d_hi (?ds ! c)) 0\<rparr>"
        have "ring_recv_rx_buffer i s = Inr (1, r\<lparr>r_desc := D[i := ?d], r_buffer := B[i := None],
            r_pool := packet_pool_put q (ps ! c)\<rparr>, received r ps ?ds (Suc c) pkts)"
          using s b dr True pkt c received_Suc [of c ps ?ds r pkts]
          by (simp add: ring_recv_rx_buffer_def ring_rx_desc_def rx_done_def put_desc_def put_buffer_def)
        moreover have "pool_count_ok (packet_pool_put q (ps ! c))"
          using q small st(2) c by (intro pool_put_count) simp_all
        moreover have "pp_list (packet_pool_put q (ps ! c)) = pp_list (r_pool r) @ take (Suc c) ps"
          using q(1) c by (simp add: packet_pool_put_def take_Suc_conv_app_nth)
        moreover have "\<forall>j < Suc c. rx_done (?ds ! j)" using dn True by (simp add: less_Suc_eq)
        ultimately have "\<exists>s'. ring_recv_rx_buffer i s = Inr (1, s') \<and> ?I (Suc c) (Suc i mod ?n) s'"
          using dr(3) by blast
        then show ?thesis using False by (simp add: ne_def)
      qed
    qed
  qed
  have bound: "c \<le> ?n" if "?I c i s" for c i s using that st(2) by (auto simp: drain_inv_def)
  have "\<exists>c i' s'. ring_loop (Suc ?n) (ne ?t) ring_recv_rx_buffer ?n (r_head r) 0 (r, pkts)
      = Inr (i', c, s') \<and> ?Q c i' s'"
    by (rule ring_loop_rule [where I = ?I and B = ?n], rule n, erule step, erule bound, rule start, simp)
  then obtain i' s' where loop: "ring_loop (Suc ?n) (ne ?t) ring_recv_rx_buffer ?n (r_head r) 0 (r, pkts)
      = Inr (i', k, s')" and I': "?I k i' s'" by blast
  then obtain D B q where s': "s' = (r\<lparr>r_desc := D, r_buffer := B, r_pool := q\<rparr>, received r ps ?ds k pkts)"
      and inv: "drain_inv ?n ?t ps ?ds k i' D B" and q: "pp_list q = pp_list (r_pool r) @ take k ps" "pool_count_ok q"
    by blast
  note fin = drained_ring [OF ok inv ps q(2)]
  let ?r = "r\<lparr>r_desc := D, r_buffer := B, r_pool := q, r_head := i'\<rparr>"
  have "ring_recv r pkts = Inr (k, ?r, received r ps ?ds k pkts)"
    using loop s' fin(4) by (simp add: ring_recv_def split: if_splits)
  moreover have "ring_ok ?r" "on_ring ?r = map Some (drop k ps)" "ring_descs ?r = drop k ?ds"
    using fin(1-3) by (simp_all only: fin(4))
  ultimately show ?thesis using q(1) by (intro exI [of _ ?r]) simp
qed

text \<open>
  C23: receiving takes the packets of the descriptors the card has finished, up to the first unfinished
  one, off the receive ring in order, sets their lengths and card from the descriptors and appends
  them to the ring's pool; the other packets and descriptors stay.
\<close>

theorem ring_recv_spec:
  assumes ok: "ring_ok r" and ps: "on_ring r = map Some ps" and d: "distinct ps" "set ps \<subseteq> dom pkts"
    and small: "length (pp_list (r_pool r)) + r_desc_num r < 2 ^ 32"
  defines "k \<equiv> length (takeWhile rx_done (ring_descs r))"
  shows "\<exists>r'. ring_recv r pkts = Inr (k, r', received r ps (ring_descs r) k pkts) \<and> ring_ok r' \<and>
    on_ring r' = map Some (drop k ps) \<and> ring_descs r' = drop k (ring_descs r) \<and>
    pp_list (r_pool r') = pp_list (r_pool r) @ take k ps \<and> r_a r' = r_a r \<and> r_desc_num r' = r_desc_num r"
  unfolding k_def by (rule ring_recv_ok [OF ok ps d small])

lemma ring_recv_spec_witness:
  "\<exists>r'. ring_recv sample_ring [5 \<mapsto> sample_packet, 6 \<mapsto> sample_packet]
      = Inr (1, r', received sample_ring [5, 6] (ring_descs sample_ring) 1 [5 \<mapsto> sample_packet, 6 \<mapsto> sample_packet]) \<and>
    pp_list (r_pool r') = [5] \<and> on_ring r' = [Some 6]"
proof -
  have on: "on_ring sample_ring = map Some [5, 6]" by code_simp
  have ok: "ring_ok sample_ring" by (simp add: sample_ring_def ring_ok_def pool_count_ok_def packet_pool_init_def)
  have k: "length (takeWhile rx_done (ring_descs sample_ring)) = 1" by code_simp
  have "set [5, 6] \<subseteq> dom [5 \<mapsto> sample_packet, 6 \<mapsto> sample_packet]" "distinct [5 :: nat, 6]" by auto
  moreover have "length (pp_list (r_pool sample_ring)) + r_desc_num sample_ring < 2 ^ 32" "pp_list (r_pool sample_ring) = []"
    by (simp_all add: sample_ring_def packet_pool_init_def)
  ultimately show ?thesis
    using ring_recv_spec [OF ok on, of "[5 \<mapsto> sample_packet, 6 \<mapsto> sample_packet]"] by (auto simp: k)
qed

text \<open>The index a filling loop stops at is the old tail when nothing was attached.\<close>

lemma fill_tail:
  assumes ok: "ring_ok r" and ps: "on_ring r = map Some ps"
    and inv: "fill_inv (r_desc_num r) (r_head r) ps (ring_descs r) f fl 0 i D B"
  shows "i = r_tail r"
proof -
  let ?n = "r_desc_num r" and ?h = "r_head r"
  have n: "length (r_buffer r) = ?n" "?h < ?n" "r_tail r < ?n" using ok by (auto simp: ring_ok_def)
  have "used ?n ?h i = used ?n ?h (r_tail r)"
    using inv ps n length_between [of B ?h i] length_between [of "r_buffer r" ?h "r_tail r"]
    by (simp add: fill_inv_def on_ring_def)
  then show ?thesis
    using used_tail [of ?h ?n i] used_tail [of ?h ?n "r_tail r"] inv n by (simp add: fill_inv_def)
qed

lemma fill_start:
  assumes ok: "ring_ok r" and ps: "on_ring r = map Some ps"
  shows "fill_inv (r_desc_num r) (r_head r) ps (ring_descs r) f fl 0 (r_tail r) (r_desc r) (r_buffer r)"
  using ok ps drain_start(2) [OF ok ps] by (simp add: fill_inv_def ring_ok_def on_ring_def ring_descs_def)

lemma ring_send_ok:
  assumes ok: "ring_ok r" and ps: "on_ring r = map Some ps"
    and known: "set (pp_list (r_pool r)) \<subseteq> dom pkts"
  defines "k \<equiv> min (length (pp_list (r_pool r))) (r_desc_num r - 1 - length ps)"
  shows "\<exists>r' m'. ring_send pkts r m = Inr (k, r', m') \<and> ring_ok r' \<and>
    on_ring r' = map Some (ps @ take k (pp_list (r_pool r))) \<and>
    ring_descs r' = ring_descs r @ map (\<lambda>p. tx_desc_of (the (pkts p))) (take k (pp_list (r_pool r))) \<and>
    pp_list (r_pool r') = drop k (pp_list (r_pool r)) \<and> r_desc_num r' = r_desc_num r \<and>
    m' = (if k = 0 then m else writel (of_nat (r_tail r')) (r_tail_reg r) m)"
proof -
  let ?n = "r_desc_num r" and ?h = "r_head r" and ?fl = "pp_list (r_pool r)"
  let ?f = "\<lambda>p. tx_desc_of (the (pkts p))"
  have n: "0 < ?n" using ok by (simp add: ring_ok_def)
  let ?I = "\<lambda>c i (s :: ring). \<exists>D B q. s = r\<lparr>r_desc := D, r_buffer := B, r_pool := q\<rparr> \<and>
      fill_inv ?n ?h ps (ring_descs r) ?f ?fl c i D B \<and> pp_list q = drop c ?fl \<and> pool_count_ok q"
  let ?Q = "\<lambda>c i s. ?I c i s \<and> c = k"
  have start: "?I 0 (r_tail r) r"
    using fill_start [OF ok ps] ok
    by (intro exI [of _ "r_desc r"] exI [of _ "r_buffer r"] exI [of _ "r_pool r"]) (simp add: ring_ok_def)
  have step: "(next_ne ?n ?h i = Inr False \<and> ?Q c i s) \<or>
      (next_ne ?n ?h i = Inr True \<and> (\<exists>s'. ring_send_tx_buffer pkts i s = Inr (0, s') \<and> ?Q c i s')) \<or>
      (next_ne ?n ?h i = Inr True \<and> (\<exists>s'. ring_send_tx_buffer pkts i s = Inr (1, s') \<and> ?I (Suc c) (Suc i mod ?n) s'))"
    if I: "?I c i s" for c i s
  proof -
    obtain D B q where s: "s = r\<lparr>r_desc := D, r_buffer := B, r_pool := q\<rparr>"
      and inv: "fill_inv ?n ?h ps (ring_descs r) ?f ?fl c i D B" and q: "pp_list q = drop c ?fl" "pool_count_ok q"
      using I by blast
    have again: "next_ne ?n ?h i = Inr (Suc i mod ?n \<noteq> ?h)" using n by (simp add: next_ne_def)
    have b: "c \<le> length ?fl" "length ps + c \<le> ?n - 1" "length D = ?n" "length B = ?n" "i < ?n"
      using inv by (auto simp: fill_inv_def)
    obtain q' where q': "packet_pool_get q = Inr (case drop c ?fl of [] \<Rightarrow> None | p # _ \<Rightarrow> Some p, q')"
      "pp_list q' = tl (drop c ?fl)" "pool_count_ok q'"
      using pool_get_spec [OF q(2)] q(1) by auto
    consider (full) "Suc i mod ?n = ?h" | (dry) "Suc i mod ?n \<noteq> ?h" "length ?fl \<le> c"
      | (go) "Suc i mod ?n \<noteq> ?h" "c < length ?fl" by linarith
    then show ?thesis
    proof cases
      case full
      then have "c = k" using fill_full [OF inv] b by (auto simp: k_def)
      then show ?thesis using again full I by simp
    next
      case dry
      then have "c = k" using b fill_full [OF inv] by (auto simp: k_def)
      moreover have "ring_send_tx_buffer pkts i s = Inr (0, r\<lparr>r_desc := D, r_buffer := B, r_pool := q'\<rparr>)"
        using q' s dry by (simp add: ring_send_tx_buffer_def)
      ultimately show ?thesis using again dry inv q' by auto
    next
      case go
      let ?p = "?fl ! c"
      have Cons: "drop c ?fl = ?p # drop (Suc c) ?fl" using go by (simp add: Cons_nth_drop_Suc)
      obtain pkt where pkt: "pkts ?p = Some pkt" using known nth_mem [OF go(2)] by blast
      have "ring_send_tx_buffer pkts i s
          = Inr (1, r\<lparr>r_desc := D[i := ?f ?p], r_buffer := B[i := Some ?p], r_pool := q'\<rparr>)"
        using q' Cons s pkt b by (simp add: ring_send_tx_buffer_def put_desc_def put_buffer_def)
      then have "\<exists>s'. ring_send_tx_buffer pkts i s = Inr (1, s') \<and> ?I (Suc c) (Suc i mod ?n) s'"
        using fill_step [OF inv go] q' Cons by auto
      then show ?thesis using again go by simp
    qed
  qed
  have bound: "c \<le> ?n" if "?I c i s" for c i s using that by (auto simp: fill_inv_def)
  have "\<exists>c i' s'. ring_loop (Suc ?n) (next_ne ?n ?h) (ring_send_tx_buffer pkts) ?n (r_tail r) 0 r
      = Inr (i', c, s') \<and> ?Q c i' s'"
    by (rule ring_loop_rule [where I = ?I and B = ?n], rule n, erule step, erule bound, rule start, simp)
  then obtain i' D B q where loop: "ring_loop (Suc ?n) (next_ne ?n ?h) (ring_send_tx_buffer pkts) ?n (r_tail r) 0 r
      = Inr (i', k, r\<lparr>r_desc := D, r_buffer := B, r_pool := q\<rparr>)"
    and inv: "fill_inv ?n ?h ps (ring_descs r) ?f ?fl k i' D B" and q: "pp_list q = drop k ?fl" "pool_count_ok q"
    by blast
  let ?r = "r\<lparr>r_desc := D, r_buffer := B, r_pool := q, r_tail := i'\<rparr>"
  have "ring_send pkts r m = Inr (k, ?r, if k = 0 then m else writel (of_nat i') (r_tail_reg r) m)"
    using loop fill_tail [OF ok ps] inv by (cases "k = 0") (auto simp: ring_send_def simp del: ring_loop.simps)
  moreover have "ring_ok ?r" using inv ok q by (simp add: ring_ok_def fill_inv_def)
  ultimately show ?thesis using inv q
    by (intro exI [of _ ?r] exI [of _ "if k = 0 then m else writel (of_nat i') (r_tail_reg r) m"])
      (simp add: on_ring_def ring_descs_def fill_inv_def)
qed

text \<open>
  C24: sending attaches as many queued packets as the transmit ring has room for, one place always staying
  free, in order, each with a descriptor for its bytes padded to 60, and tells the card the new tail.
\<close>

theorem ring_send_spec:
  assumes ok: "ring_ok r" and ps: "on_ring r = map Some ps"
    and known: "set (pp_list (r_pool r)) \<subseteq> dom pkts"
  defines "k \<equiv> min (length (pp_list (r_pool r))) (r_desc_num r - 1 - length ps)"
  shows "\<exists>r' m'. ring_send pkts r m = Inr (k, r', m') \<and> ring_ok r' \<and>
    on_ring r' = map Some (ps @ take k (pp_list (r_pool r))) \<and>
    ring_descs r' = ring_descs r @ map (\<lambda>p. tx_desc_of (the (pkts p))) (take k (pp_list (r_pool r))) \<and>
    pp_list (r_pool r') = drop k (pp_list (r_pool r)) \<and> r_desc_num r' = r_desc_num r \<and>
    m' = (if k = 0 then m else writel (of_nat (r_tail r')) (r_tail_reg r) m)"
  unfolding k_def by (rule ring_send_ok [OF ok ps known])

lemma ring_send_spec_witness:
  "\<exists>r' m'. ring_send [5 \<mapsto> sample_packet, 6 \<mapsto> sample_packet, 7 \<mapsto> sample_packet]
      (sample_ring\<lparr>r_pool := \<lparr>pp_num = 1, pp_list = [7]\<rparr>\<rparr>) (\<lambda>_. 0) = Inr (1, r', m') \<and>
    pp_list (r_pool r') = [] \<and> on_ring r' = [Some 5, Some 6, Some 7]"
proof -
  let ?r = "sample_ring\<lparr>r_pool := \<lparr>pp_num = 1, pp_list = [7]\<rparr>\<rparr>"
  have on: "on_ring ?r = map Some [5, 6]" by code_simp
  have ok: "ring_ok ?r" by (simp add: sample_ring_def ring_ok_def pool_count_ok_def)
  show ?thesis
    using ring_send_spec [OF ok on, of "[5 \<mapsto> sample_packet, 6 \<mapsto> sample_packet, 7 \<mapsto> sample_packet]" "\<lambda>_. 0"]
    by (auto simp: sample_ring_def)
qed

text \<open>
  Reclaiming returns the sent packets from the head on, in order, but never the last packet on
  the ring, even when the card has sent it.
\<close>

definition tx_done :: "desc \<Rightarrow> bool" where
  "tx_done d \<longleftrightarrow> tx_status d AND E1000_TXD_STAT_DD \<noteq> 0"

lemma ring_reclaim_ok:
  assumes ok: "ring_ok r" and ps: "on_ring r = map Some ps" and some: "ps \<noteq> []"
  defines "k \<equiv> length (takeWhile tx_done (butlast (ring_descs r)))"
  shows "\<exists>r'. ring_reclaim_tx_buffers r head = Inr (k, r', head @ take k ps) \<and> ring_ok r' \<and>
    on_ring r' = map Some (drop k ps) \<and> ring_descs r' = drop k (ring_descs r) \<and> r_pool r' = r_pool r \<and> r_desc_num r' = r_desc_num r"
proof -
  let ?n = "r_desc_num r" and ?t = "r_tail r" and ?ds = "ring_descs r"
  have n: "0 < ?n" using ok by (simp add: ring_ok_def)
  let ?I = "\<lambda>c i (s :: ring \<times> ptr list). \<exists>D B. s = (r\<lparr>r_desc := D, r_buffer := B, r_pool := r_pool r\<rparr>, head @ take c ps) \<and>
      drain_inv ?n ?t ps ?ds c i D B \<and> c < length ps \<and> (\<forall>j < c. tx_done (?ds ! j))"
  let ?Q = "\<lambda>c i s. ?I c i s \<and> c = k"
  note st = drain_start [OF ok ps]
  have start: "?I 0 (r_head r) (r, head)"
    using st(1) some by (intro exI [of _ "r_desc r"] exI [of _ "r_buffer r"]) simp
  have lds: "length ?ds = length ps" using st(1) by (simp add: drain_inv_def)
  have stop: "c = k" if "\<forall>j < c. tx_done (?ds ! j)" "c < length ps"
      "Suc c = length ps \<or> \<not> tx_done (?ds ! c)" for c
    using takeWhile_length_stop [of c tx_done "butlast ?ds"] that lds
    by (auto simp: k_def nth_butlast)
  have step: "(next_ne ?n ?t i = Inr False \<and> ?Q c i s) \<or>
      (next_ne ?n ?t i = Inr True \<and> (\<exists>s'. ring_reclaim_tx_buffer i s = Inr (0, s') \<and> ?Q c i s')) \<or>
      (next_ne ?n ?t i = Inr True \<and> (\<exists>s'. ring_reclaim_tx_buffer i s = Inr (1, s') \<and> ?I (Suc c) (Suc i mod ?n) s'))"
    if I: "?I c i s" for c i s
  proof -
    obtain D B where s: "s = (r\<lparr>r_desc := D, r_buffer := B, r_pool := r_pool r\<rparr>, head @ take c ps)"
      and inv: "drain_inv ?n ?t ps ?ds c i D B" and c: "c < length ps" and dn: "\<forall>j < c. tx_done (?ds ! j)"
      using I by blast
    have again: "next_ne ?n ?t i = Inr (Suc c \<noteq> length ps)"
      using n drain_last [OF inv c] by (simp add: next_ne_def)
    have b: "length D = ?n" "length B = ?n" "i < ?n" using inv by (auto simp: drain_inv_def)
    note dr = drain_step [OF inv c]
    consider (last) "Suc c = length ps" | (wait) "Suc c < length ps" "\<not> tx_done (?ds ! c)"
      | (go) "Suc c < length ps" "tx_done (?ds ! c)" using c by linarith
    then show ?thesis
    proof cases
      case last
      then show ?thesis using again I stop [OF dn c] by simp
    next
      case wait
      have "ring_reclaim_tx_buffer i s = Inr (0, s)"
        using s b dr wait by (simp add: ring_reclaim_tx_buffer_def ring_tx_desc_def tx_done_def)
      then show ?thesis using again I stop [OF dn c] wait by auto
    next
      case go
      let ?d = "(?ds ! c)\<lparr>d_hi := set_high32 (d_hi (?ds ! c)) 0\<rparr>"
      have "ring_reclaim_tx_buffer i s = Inr (1, r\<lparr>r_desc := D[i := ?d], r_buffer := B[i := None],
          r_pool := r_pool r\<rparr>, head @ take (Suc c) ps)"
        using s b dr go c
        by (simp add: ring_reclaim_tx_buffer_def ring_tx_desc_def tx_done_def put_desc_def put_buffer_def
            take_Suc_conv_app_nth)
      moreover have "\<forall>j < Suc c. tx_done (?ds ! j)" using dn go by (simp add: less_Suc_eq)
      ultimately have "\<exists>s'. ring_reclaim_tx_buffer i s = Inr (1, s') \<and> ?I (Suc c) (Suc i mod ?n) s'"
        using dr(3) go by blast
      then show ?thesis using again go by simp
    qed
  qed
  have bound: "c \<le> ?n" if "?I c i s" for c i s using that st(2) by (auto simp: drain_inv_def)
  have "\<exists>c i' s'. ring_loop (Suc ?n) (next_ne ?n ?t) ring_reclaim_tx_buffer ?n (r_head r) 0 (r, head)
      = Inr (i', c, s') \<and> ?Q c i' s'"
    by (rule ring_loop_rule [where I = ?I and B = ?n], rule n, erule step, erule bound, rule start, simp)
  then obtain i' D B where loop: "ring_loop (Suc ?n) (next_ne ?n ?t) ring_reclaim_tx_buffer ?n (r_head r) 0 (r, head)
      = Inr (i', k, r\<lparr>r_desc := D, r_buffer := B, r_pool := r_pool r\<rparr>, head @ take k ps)"
    and inv: "drain_inv ?n ?t ps ?ds k i' D B" by blast
  have pool: "pool_count_ok (r_pool r)" using ok by (simp add: ring_ok_def)
  note fin = drained_ring [OF ok inv ps pool]
  let ?r = "r\<lparr>r_desc := D, r_buffer := B, r_pool := r_pool r, r_head := i'\<rparr>"
  have "ring_reclaim_tx_buffers r head = Inr (k, ?r, head @ take k ps)"
    using loop fin(4) by (simp add: ring_reclaim_tx_buffers_def split: if_splits)
  moreover have "ring_ok ?r" "on_ring ?r = map Some (drop k ps)" "ring_descs ?r = drop k ?ds"
    using fin(1-3) by (simp_all only: fin(4))
  ultimately show ?thesis by (intro exI [of _ ?r]) simp
qed

text \<open>
  C25: reclaiming takes the packets of the finished descriptors, up to the first unfinished one, off the
  transmit ring in order and appends them to the list; the last attached packet is never reclaimed.
\<close>

theorem ring_reclaim_spec:
  assumes ok: "ring_ok r" and ps: "on_ring r = map Some ps" and some: "ps \<noteq> []"
  defines "k \<equiv> length (takeWhile tx_done (butlast (ring_descs r)))"
  shows "\<exists>r'. ring_reclaim_tx_buffers r head = Inr (k, r', head @ take k ps) \<and> ring_ok r' \<and>
    on_ring r' = map Some (drop k ps) \<and> ring_descs r' = drop k (ring_descs r) \<and> r_pool r' = r_pool r \<and> r_desc_num r' = r_desc_num r"
  unfolding k_def by (rule ring_reclaim_ok [OF ok ps some])

lemma ring_reclaim_spec_witness:
  "\<exists>r'. ring_reclaim_tx_buffers sample_ring [] = Inr (0, r', []) \<and> on_ring r' = [Some 5, Some 6]"
proof -
  have on: "on_ring sample_ring = map Some [5, 6]" by code_simp
  have ok: "ring_ok sample_ring" by (simp add: sample_ring_def ring_ok_def pool_count_ok_def packet_pool_init_def)
  have k: "length (takeWhile tx_done (butlast (ring_descs sample_ring))) = 0" by code_simp
  show ?thesis using ring_reclaim_spec [OF ok on, of "[]"] by (auto simp: k)
qed

end
