(* ===== verification/NetGlobal.thy ===== *)
theory NetGlobal
  imports Interface Route Checksum VServer LfQueue Driver
begin

text \<open>
  \<open>uspace/src/net_global.c\<close> with \<open>net_global.h\<close>: the modules of one process, reached by every other
  file through the global \<open>net_global\<close>. The record holds what the pointers of the structure
  lead to, and the memory those modules live in: the local IPs, route entries, packets and shared
  queues by address, the heap, the hash seed, the server pools, the virtual servers and the
  registers of the cards. The wrappers of \<open>net_global.h\<close> pass the right part on.
\<close>

section \<open>The state\<close>

record net =
  ng_id :: int
  ng_d :: driver
  ng_itf :: interface_t
  ng_z :: packet_zone
  ng_q :: lfq
  ng_rt :: route_table
  ng_heap :: heap
  ng_rand :: u32
  ng_lips :: "local_ip store"
  ng_ents :: "route_entry store"
  ng_pools :: pools_state
  ng_vs :: vs_state
  ng_pkts :: "packet store"
  ng_queues :: "lf_queue store"
  ng_mmio :: mmio

definition ng_init ::
  "int \<Rightarrow> driver \<Rightarrow> packet_zone \<Rightarrow> lfq \<Rightarrow> interface_t \<Rightarrow> route_table \<Rightarrow> 'a net_scheme \<Rightarrow> int \<times> 'a net_scheme" where
  "ng_init i d z q itf rt n =
     (1, n\<lparr>ng_id := i, ng_d := d, ng_z := z, ng_q := q, ng_itf := itf, ng_rt := rt\<rparr>)"

section \<open>Local IPs\<close>

definition ng_interface_create_local_ip ::
  "ip_address \<Rightarrow> int \<Rightarrow> int \<Rightarrow> 'a net_scheme \<Rightarrow> (ptr \<times> 'a net_scheme) res" where
  "ng_interface_create_local_ip ip type nic_id n =
     bindE (interface_create_local_ip (ng_rand n) (ng_itf n) ip type nic_id (ng_lips n) (ng_heap n))
       (\<lambda>(p, itf, lips, h). Inr (p, n\<lparr>ng_itf := itf, ng_lips := lips, ng_heap := h\<rparr>))"

definition ng_interface_create_vsip where
  "ng_interface_create_vsip ip nic_id n = ng_interface_create_local_ip ip VS_IP_T nic_id n"

definition ng_interface_create_selfip where
  "ng_interface_create_selfip ip nic_id n = ng_interface_create_local_ip ip SELF_IP_T nic_id n"

definition ng_interface_lookup_vsip :: "'a net_scheme \<Rightarrow> ip_address \<Rightarrow> ptr option res" where
  "ng_interface_lookup_vsip n ip = interface_lookup (ng_rand n) (ng_lips n) (ng_itf n) ip True"

definition ng_interface_lookup_selfip :: "'a net_scheme \<Rightarrow> ip_address \<Rightarrow> ptr option res" where
  "ng_interface_lookup_selfip n ip = interface_lookup (ng_rand n) (ng_lips n) (ng_itf n) ip False"

definition ng_interface_lookup_ip :: "'a net_scheme \<Rightarrow> ip_address \<Rightarrow> ptr option res" where
  "ng_interface_lookup_ip n ip =
     bindE (interface_lookup (ng_rand n) (ng_lips n) (ng_itf n) ip False) (\<lambda>lip.
       if lip = None then interface_lookup (ng_rand n) (ng_lips n) (ng_itf n) ip True else Inr lip)"

definition ng_interface_get_lip_rr ::
  "int \<Rightarrow> bool \<Rightarrow> bool \<Rightarrow> 'a net_scheme \<Rightarrow> (ptr option \<times> 'a net_scheme) res" where
  "ng_interface_get_lip_rr nic_id is_vsip is_ipv4 n =
     bindE (interface_get_lip_rr (ng_itf n) nic_id is_vsip is_ipv4) (\<lambda>(p, itf). Inr (p, n\<lparr>ng_itf := itf\<rparr>))"

definition ng_interface_get_selfipv4_rr where
  "ng_interface_get_selfipv4_rr nic_id n = ng_interface_get_lip_rr nic_id False True n"

definition ng_interface_get_vsipv4_rr where
  "ng_interface_get_vsipv4_rr nic_id n = ng_interface_get_lip_rr nic_id True True n"

definition ng_interface_get_selfipv6_rr where
  "ng_interface_get_selfipv6_rr nic_id n = ng_interface_get_lip_rr nic_id False False n"

section \<open>Routes\<close>

definition ng_rt_lookup_rr :: "ip_address \<Rightarrow> 'a net_scheme \<Rightarrow> (ptr option \<times> 'a net_scheme) res" where
  "ng_rt_lookup_rr ip n =
     bindE (rt_lookup_rr (ng_rand n) (ng_ents n) (ng_rt n) ip) (\<lambda>(p, rt). Inr (p, n\<lparr>ng_rt := rt\<rparr>))"

definition ng_rt_lookup :: "ip_address \<Rightarrow> 'a net_scheme \<Rightarrow> ptr option res" where
  "ng_rt_lookup ip n = rt_lookup (ng_rand n) (ng_ents n) (ng_rt n) ip"

definition ng_rt_lookup_with_nic_id :: "ip_address \<Rightarrow> int \<Rightarrow> 'a net_scheme \<Rightarrow> ptr option res" where
  "ng_rt_lookup_with_nic_id ip nic_id n = rt_lookup_with_nic_id (ng_rand n) (ng_ents n) (ng_rt n) ip nic_id"

definition ng_rt_add_entry :: "ptr \<Rightarrow> 'a net_scheme \<Rightarrow> (int \<times> 'a net_scheme) res" where
  "ng_rt_add_entry p n =
     bindE (rt_add_entry (ng_rand n) (ng_ents n) (ng_rt n) p) (\<lambda>(ret, rt). Inr (ret, n\<lparr>ng_rt := rt\<rparr>))"

section \<open>Cards and packets\<close>

definition ng_driver_get_mac :: "'a net_scheme \<Rightarrow> nat \<Rightarrow> mac res" where
  "ng_driver_get_mac n i = driver_get_mac (ng_d n) i"

definition ng_driver_put_packet_to_send_buffer :: "ptr \<Rightarrow> 'a net_scheme \<Rightarrow> (int \<times> 'a net_scheme) res" where
  "ng_driver_put_packet_to_send_buffer p n =
     bindE (driver_put_packet_to_send_buffer (ng_pkts n) (ng_d n) p) (\<lambda>(ret, d). Inr (ret, n\<lparr>ng_d := d\<rparr>))"

definition ng_packet_of_phys :: "'a net_scheme \<Rightarrow> u64 \<Rightarrow> u64" where
  "ng_packet_of_phys n phys = packet_of_phys (ng_z n) phys"

definition ng_get_free_packet :: "'a net_scheme \<Rightarrow> (ptr option \<times> 'a net_scheme) res" where
  "ng_get_free_packet n =
     bindE (packet_pool_get (packet_zone_get_free_packet_pool (ng_z n))) (\<lambda>(p, pp).
       Inr (p, n\<lparr>ng_z := (ng_z n)\<lparr>free_packet_pool := pp\<rparr>\<rparr>))"

definition ng_driver_get_adapter_num :: "'a net_scheme \<Rightarrow> nat" where
  "ng_driver_get_adapter_num n = driver_get_adapter_num (ng_d n)"

section \<open>Adding an IP\<close>

text \<open>
  \<open>inet_addr\<close> and \<open>inet_pton\<close> parse the string; \<open>junk\<close> is the uninitialised local address. A
  failing \<open>rt_add_entry\<close> makes the function answer NULL although the IP is bound.
\<close>

definition rt_entry_new :: "ip_address \<Rightarrow> u32 \<Rightarrow> ptr \<Rightarrow> 'a net_scheme \<Rightarrow> 'a net_scheme" where
  "rt_entry_new ip nic_id p n = n\<lparr>ng_ents := (ng_ents n)(p \<mapsto> rt_entry_init ip nic_id)\<rparr>"

definition ng_add_ip ::
  "(string \<Rightarrow> u32) \<Rightarrow> (string \<Rightarrow> in6) \<Rightarrow> ip_address \<Rightarrow> string \<Rightarrow> int \<Rightarrow> bool \<Rightarrow> int \<Rightarrow> 'a net_scheme
     \<Rightarrow> (ptr option \<times> 'a net_scheme) res" where
  "ng_add_ip inet_addr inet_pton junk ip_string af isvsip nic_id n =
     (case rt_entry_create (ng_heap n) of
        (None, h) \<Rightarrow> Inr (None, n\<lparr>ng_heap := h\<rparr>)
      | (Some re, h) \<Rightarrow>
          let n = n\<lparr>ng_heap := h\<rparr>;
              ip = (if af = AF_INET then ip_address_init_v4 junk (inet_addr ip_string)
                    else ip_address_init_v6 junk (inet_pton ip_string))
          in bindE (if isvsip then ng_interface_create_vsip ip nic_id n
                    else ng_interface_create_selfip ip nic_id n) (\<lambda>(lip, n).
             bindE (ng_rt_add_entry re (rt_entry_new ip (of_int nic_id) re n)) (\<lambda>(ret, n).
               if ret = 0 then Inr (None, n) else Inr (Some lip, n))))"

section \<open>Well-formed networks\<close>

text \<open>
  Addresses are bound consistently, the routes are keyed and lead to cards that exist, and all
  memory the process has linked was handed out by its heap.
\<close>

definition rt_nics_ok :: "int \<Rightarrow> route_entry store \<Rightarrow> route_table \<Rightarrow> bool" where
  "rt_nics_ok num ents rt \<longleftrightarrow> (\<forall>p re. ht_mem (rt_hashtable rt) p \<longrightarrow> ents p = Some re \<longrightarrow>
     unat (re_nic_id re) < 256 \<and> int (unat (re_nic_id re)) < num)"

definition below :: "ptr \<Rightarrow> 'a store \<Rightarrow> bool" where
  "below b m \<longleftrightarrow> (\<forall>p. m p \<noteq> None \<longrightarrow> p < b)"

definition net_ok :: "'a net_scheme \<Rightarrow> bool" where
  "net_ok n \<longleftrightarrow> itf_ok (ng_rand n) (ng_lips n) (ng_itf n) \<and>
     rt_ok (ng_rand n) (ng_ents n) (ng_rt n) \<and> rt_unique (ng_ents n) (ng_rt n) \<and>
     rt_nics_ok (itf_num (ng_itf n)) (ng_ents n) (ng_rt n) \<and>
     below (brk (ng_heap n)) (ng_lips n) \<and> below (brk (ng_heap n)) (ng_ents n)"

lemma belowD: "below b m \<Longrightarrow> m p = Some x \<Longrightarrow> p < b"
  by (auto simp: below_def)

lemma below_new: "below b m \<Longrightarrow> b \<le> p \<Longrightarrow> m p = None"
  by (auto simp: below_def leD)

lemma below_mono: "below b m \<Longrightarrow> b \<le> b' \<Longrightarrow> below b' m"
  by (auto simp: below_def intro: less_le_trans)

lemma below_upd: "below b m \<Longrightarrow> p < b \<Longrightarrow> below b (m(p \<mapsto> x))"
  by (auto simp: below_def)

text \<open>The invariant does not look at the port ranges of the local IPs.\<close>

definition lip_ident :: "local_ip \<Rightarrow> int \<times> ip_address \<times> int" where
  "lip_ident lip = (lip_type lip, lip_addr lip, lip_nic_id lip)"

lemma itf_ok_ident:
  assumes ok: "itf_ok r lips itf" and same: "\<And>p. map_option lip_ident (lips' p) = map_option lip_ident (lips p)"
  shows "itf_ok r lips' itf"
proof -
  have key: "lip_key lips' p = lip_key lips p" for p
    using same [of p] by (cases "lips p"; cases "lips' p") (simp_all add: lip_key_def deref_def lip_ident_def)
  have some: "\<exists>lip. lips p = Some lip \<and> lip_is_vsip lip' = lip_is_vsip lip \<and> lip_is_ipv4 lip' = lip_is_ipv4 lip
      \<and> lip_nic_id lip' = lip_nic_id lip" if "lips' p = Some lip'" for p lip'
  proof -
    have "map_option lip_ident (lips p) = Some (lip_ident lip')" using same [of p] that by simp
    then obtain lip where "lips p = Some lip" "lip_ident lip = lip_ident lip'" by auto
    then show ?thesis by (auto simp: lip_ident_def lip_is_vsip_def lip_is_ipv4_def)
  qed
  have some': "\<exists>lip'. lips' p = Some lip' \<and> lip_nic_id lip' = lip_nic_id lip" if "lips p = Some lip" for p lip
    using same [of p] that by (auto simp: lip_ident_def)
  have nic: "(\<exists>lip. lips' p = Some lip \<and> lip_nic_id lip = i) = (\<exists>lip. lips p = Some lip \<and> lip_nic_id lip = i)" for p i
    using some [of p] some' [of p] by metis
  have kind: "(\<forall>p lip. ht_mem t p \<longrightarrow> lips' p = Some lip \<longrightarrow> lip_is_vsip lip = vs \<and> lip_is_ipv4 lip = v4)"
    if "\<forall>p lip. ht_mem t p \<longrightarrow> lips p = Some lip \<longrightarrow> lip_is_vsip lip = vs \<and> lip_is_ipv4 lip = v4" for t vs v4
    using that some by metis
  have sets: "\<exists>t. get_ip_set (itf_space itf) vs v4 = Some t \<and> ipset.keyed r lips' t \<and>
      (\<forall>p lip. ht_mem t p \<longrightarrow> lips' p = Some lip \<longrightarrow> lip_is_vsip lip = vs \<and> lip_is_ipv4 lip = v4)" for vs v4
    by (rule itf_ok_set [OF ok, of vs v4]) (intro exI conjI kind; simp add: key)
  show ?thesis
    using ok sets unfolding itf_ok_def nic by blast
qed

text \<open>Serving the local IPs of a card in turn.\<close>

lemma get_lip_rr_ok:
  assumes ok: "itf_ok r lips itf" and i: "nic_ok itf i"
  shows "\<exists>itf'. interface_get_lip_rr itf i vs v4 = Inr
      (case nic_list itf (nat i) vs v4 of [] \<Rightarrow> None | p # _ \<Rightarrow> Some p, itf') \<and> itf_ok r lips itf' \<and>
      itf_num itf' = itf_num itf \<and> itf_space itf' = itf_space itf"
proof (cases "nic_list itf (nat i) vs v4")
  case Nil
  then show ?thesis using ok i by (simp add: interface_get_lip_rr_def get_list_head3_ok)
next
  case (Cons p ps)
  let ?itf = "set_nic_list itf (nat i) vs v4 (ps @ [p])"
  have res: "interface_get_lip_rr itf i vs v4 = Inr (Some p, ?itf)"
    using Cons i by (simp add: interface_get_lip_rr_def get_list_head3_ok)
  have l: "nat i < length (itf_nics itf)" using i by (rule nic_ok_nat)
  have "distinct (nic_list ?itf j vs' v4') = distinct (nic_list itf j vs' v4')"
    "set (nic_list ?itf j vs' v4') = set (nic_list itf j vs' v4')" for j vs' v4'
    using Cons l by auto
  moreover have "set_mem ?itf = set_mem itf" by (intro ext) (simp add: set_mem_def)
  ultimately have "itf_ok r lips ?itf" using ok unfolding itf_ok_def by (simp del: nic_list_set)
  with res Cons show ?thesis by auto
qed

lemma nic_list_lip:
  assumes ok: "itf_ok r lips itf" and i: "nic_ok itf i" and p: "p \<in> set (nic_list itf (nat i) vs v4)"
  shows "\<exists>lip. lips p = Some lip \<and> lip_is_vsip lip = vs \<and> lip_is_ipv4 lip = v4 \<and> lip_nic_id lip = i"
proof -
  have "set_mem itf vs v4 p \<and> (\<exists>lip. lips p = Some lip \<and> lip_nic_id lip = int (nat i))"
    using ok p nic_ok_nat [OF i] unfolding itf_ok_def by blast
  then show ?thesis using set_mem_known [OF ok, of vs v4 p] i by (auto simp: nic_ok_def)
qed

lemma ht_mem_readd: "p \<in> set (t i) \<Longrightarrow> ht_mem (ht_add_tail (ht_del t p) i p) q = ht_mem t q"
  by (cases "q = p") (auto simp: ht_mem_def ht_add_tail_def ht_del_def in_set_remove1)

lemma rt_lookup_rr_ok:
  assumes ok: "rt_ok r ents rt"
  shows "\<exists>rt'. rt_lookup_rr r ents rt ip
      = Inr (case routes_to r ents ip rt of [] \<Rightarrow> None | p # _ \<Rightarrow> Some p, rt') \<and> rt_ok r ents rt' \<and>
      (\<forall>q. ht_mem (rt_hashtable rt') q = ht_mem (rt_hashtable rt) q)"
proof (cases "routes_to r ents ip rt")
  case Nil
  then show ?thesis using rt_find [OF ok, of ip] ok by (simp add: rt_lookup_rr_def rt_lookup_impl_def Let_def)
next
  case (Cons p ps)
  have "p \<in> set (filter (\<lambda>p. rt_match (-1) ents p ip = Inr True) (rt_hashtable rt (rt_hashkey r ip)))"
    using Cons unfolding routes_to_def by simp
  then have m: "p \<in> set (rt_hashtable rt (rt_hashkey r ip))" by simp
  show ?thesis
    using rt_find [OF ok, of ip] Cons rt_rr_moves [OF ok m]
      ht_mem_readd [where t = "rt_hashtable rt" and p = p and i = "rt_hashkey r ip", OF m]
    by (simp add: rt_lookup_rr_def rt_lookup_impl_def Let_def)
qed

lemma rt_unique_mem:
  "rt_unique ents rt \<Longrightarrow> (\<forall>q. ht_mem (rt_hashtable rt') q = ht_mem (rt_hashtable rt) q) \<Longrightarrow> rt_unique ents rt'"
  unfolding rt_unique_def by simp

section \<open>The wrappers keep the network well-formed\<close>

lemma net_lookup_vsip:
  "net_ok n \<Longrightarrow> \<exists>res. ng_interface_lookup_vsip n ip = Inr res \<and> (\<forall>p. res = Some p \<longrightarrow>
     (\<exists>lip. ng_lips n p = Some lip \<and> ip_address_eq ip (lip_addr lip)))"
  using interface_lookup_spec [of "ng_rand n" "ng_lips n" "ng_itf n" ip True]
  by (auto simp: net_ok_def ng_interface_lookup_vsip_def split: option.splits)

lemma net_rt_lookup_rr:
  assumes ok: "net_ok n"
  shows "\<exists>rt. ng_rt_lookup_rr ip n = Inr (case routes_to (ng_rand n) (ng_ents n) ip (ng_rt n) of
       [] \<Rightarrow> None | p # _ \<Rightarrow> Some p, n\<lparr>ng_rt := rt\<rparr>) \<and> net_ok (n\<lparr>ng_rt := rt\<rparr>)"
proof -
  obtain rt where rt: "rt_lookup_rr (ng_rand n) (ng_ents n) (ng_rt n) ip
      = Inr (case routes_to (ng_rand n) (ng_ents n) ip (ng_rt n) of [] \<Rightarrow> None | p # _ \<Rightarrow> Some p, rt)"
      "rt_ok (ng_rand n) (ng_ents n) rt" "\<forall>q. ht_mem (rt_hashtable rt) q = ht_mem (rt_hashtable (ng_rt n)) q"
    using rt_lookup_rr_ok [where r = "ng_rand n" and ents = "ng_ents n" and rt = "ng_rt n" and ip = ip] ok by (auto simp: net_ok_def)
  have "net_ok (n\<lparr>ng_rt := rt\<rparr>)"
    using ok rt(2,3) rt_unique_mem [OF _ rt(3)] by (simp add: net_ok_def rt_nics_ok_def)
  then show ?thesis using rt(1) by (auto simp: ng_rt_lookup_rr_def)
qed

lemma route_nic:
  assumes ok: "net_ok n" and p: "routes_to (ng_rand n) (ng_ents n) ip (ng_rt n) = p # ps"
  shows "\<exists>re. ng_ents n p = Some re \<and> ip_address_eq (re_addr re) ip \<and> unat (re_nic_id re) < 256 \<and>
    nic_ok (ng_itf n) (int (unat (re_nic_id re)))"
proof -
  have "p \<in> set (routes_to (ng_rand n) (ng_ents n) ip (ng_rt n))" using p by simp
  then have "ht_mem (rt_hashtable (ng_rt n)) p" "\<exists>re. ng_ents n p = Some re \<and> ip_address_eq (re_addr re) ip"
    using routes_to_mem [where r = "ng_rand n" and ents = "ng_ents n" and rt = "ng_rt n"] ok by (auto simp: net_ok_def)
  then show ?thesis using ok by (fastforce simp: net_ok_def rt_nics_ok_def nic_ok_def itf_ok_def)
qed

lemma net_get_lip_rr:
  assumes ok: "net_ok n" and i: "nic_ok (ng_itf n) i"
  shows "\<exists>itf. ng_interface_get_lip_rr i vs v4 n = Inr
      (case nic_list (ng_itf n) (nat i) vs v4 of [] \<Rightarrow> None | p # _ \<Rightarrow> Some p, n\<lparr>ng_itf := itf\<rparr>) \<and>
      net_ok (n\<lparr>ng_itf := itf\<rparr>) \<and> itf_num itf = itf_num (ng_itf n)"
proof -
  obtain itf where itf: "interface_get_lip_rr (ng_itf n) i vs v4 = Inr
      (case nic_list (ng_itf n) (nat i) vs v4 of [] \<Rightarrow> None | p # _ \<Rightarrow> Some p, itf)"
      "itf_ok (ng_rand n) (ng_lips n) itf" "itf_num itf = itf_num (ng_itf n)"
    using get_lip_rr_ok [of "ng_rand n" "ng_lips n" "ng_itf n" i vs v4] ok i by (auto simp: net_ok_def)
  have "net_ok (n\<lparr>ng_itf := itf\<rparr>)" using ok itf by (simp add: net_ok_def)
  with itf(1,3) show ?thesis by (auto simp: ng_interface_get_lip_rr_def)
qed

lemma net_ok_lip:
  assumes "net_ok n" "ng_lips n l = Some lip" "lip_ident lip' = lip_ident lip"
  shows "net_ok (n\<lparr>ng_lips := (ng_lips n)(l \<mapsto> lip')\<rparr>)"
  using assms itf_ok_ident [of "ng_rand n" "ng_lips n" "ng_itf n" "(ng_lips n)(l \<mapsto> lip')"]
  by (auto simp: net_ok_def intro: below_upd belowD)

lemma net_ok_heap: "net_ok n \<Longrightarrow> brk (ng_heap n) \<le> brk h \<Longrightarrow> net_ok (n\<lparr>ng_heap := h\<rparr>)"
  by (auto simp: net_ok_def intro: below_mono)

end
