(* ===== verification/MemPool.thy ===== *)
theory MemPool
  imports Prelude
begin

text \<open>
  \<open>uspace/src/mem_pool.c\<close>: pools of equal-sized blocks, carved out of chunks of one megabyte and
  chained in a free list. The free list is an \<open>slist\<close>; \<open>schain_add\<close> and \<open>schain_del_first\<close> of
  \<open>ListHead\<close> justify the list of block addresses used here.
\<close>

section \<open>The operations\<close>

definition CHUNKSIZE :: u32 where "CHUNKSIZE = 1024 * 1024"

record mem_pool =
  mp_free_list :: "ptr list"
  mp_size :: u32
  mp_chunksize :: u32
  mp_num :: int
  mp_name :: string

text \<open>\<open>MALLOC\<close> of \<open>n\<close> bytes whose addresses matter: the block is \<open>[brk, brk + n)\<close>.\<close>

definition malloc_bytes :: "nat \<Rightarrow> heap \<Rightarrow> ptr option \<times> heap" where
  "malloc_bytes n h =
     (if quota h = 0 then (None, h)
      else (Some (brk h), h\<lparr>brk := brk h + n, quota := quota h - 1\<rparr>))"

text \<open>
  \<open>CALLOC\<close>'s result is written to without a check. A \<open>name\<close> longer than the field loses its end
  (\<open>strncpy\<close>).
\<close>

definition mem_pool_create :: "string option \<Rightarrow> u32 \<Rightarrow> heap \<Rightarrow> (mem_pool \<times> heap) res" where
  "mem_pool_create name sz h =
     (let align = 8;
          sz = (sz + align - 1) AND (- align)
      in case malloc h of
           (None, h) \<Rightarrow> Inl Bad_deref
         | (Some _, h) \<Rightarrow>
             Inr (\<lparr>mp_free_list = [], mp_size = sz, mp_chunksize = CHUNKSIZE, mp_num = 0,
                   mp_name = (case name of None \<Rightarrow> [] | Some s \<Rightarrow> take 32 s)\<rparr>, h))"

text \<open>The loop that links block \<open>i\<close> to \<open>num - 1\<close> of a chunk.\<close>

definition link_chunk :: "ptr \<Rightarrow> nat \<Rightarrow> nat \<Rightarrow> ptr list \<Rightarrow> ptr list" where
  "link_chunk start num sz fl = fold (\<lambda>i fl. (start + i * sz) # fl) [0..<num] fl"

definition mem_pool_alloc_chunk :: "mem_pool \<Rightarrow> heap \<Rightarrow> (int \<times> mem_pool \<times> heap) res" where
  "mem_pool_alloc_chunk pool h =
     (case malloc_bytes (unat (mp_chunksize pool)) h of
        (None, h) \<Rightarrow> Inr (0, pool, h)
      | (Some start, h) \<Rightarrow>
          if mp_size pool = 0 then Inl Bad_arith
          else
            let num = unat (mp_chunksize pool) div unat (mp_size pool);
                pool = pool\<lparr>mp_free_list := link_chunk start num (unat (mp_size pool)) (mp_free_list pool)\<rparr>;
                pool = pool\<lparr>mp_num := mp_num pool + int num\<rparr>
            in Inr (int num, pool, h))"

definition del_first :: "mem_pool \<Rightarrow> ptr option \<times> mem_pool" where
  "del_first p = (case mp_free_list p of [] \<Rightarrow> (None, p) | q # qs \<Rightarrow> (Some q, p\<lparr>mp_free_list := qs\<rparr>))"

definition mem_pool_alloc :: "mem_pool \<Rightarrow> heap \<Rightarrow> (ptr option \<times> mem_pool \<times> heap) res" where
  "mem_pool_alloc p h =
     (let finish = (\<lambda>node p h.
        Inr (node, if node \<noteq> None then p\<lparr>mp_num := mp_num p - 1\<rparr> else p, h))
      in case del_first p of
           (Some node, p) \<Rightarrow> finish (Some node) p h
         | (None, p) \<Rightarrow>
             bindE (mem_pool_alloc_chunk p h) (\<lambda>(ret, p, h).
               if ret = 0 then Inr (None, p, h)
               else case del_first p of (node, p) \<Rightarrow> finish node p h))"

definition mem_pool_free :: "mem_pool \<Rightarrow> ptr \<Rightarrow> mem_pool" where
  "mem_pool_free p node = p\<lparr>mp_free_list := node # mp_free_list p, mp_num := mp_num p + 1\<rparr>"

section \<open>Blocks never overlap\<close>

text \<open>
  \<open>live\<close> are the blocks handed out and not yet given back. All blocks of the pool lie in memory
  the heap has handed out, no two of them overlap, and \<open>num\<close> counts the free ones.
\<close>

definition apart :: "nat \<Rightarrow> ptr \<Rightarrow> ptr \<Rightarrow> bool" where
  "apart sz a b \<longleftrightarrow> a + sz \<le> b \<or> b + sz \<le> a"

definition pool_ok :: "ptr list \<Rightarrow> mem_pool \<Rightarrow> heap \<Rightarrow> bool" where
  "pool_ok live p h \<longleftrightarrow>
     0 < unat (mp_size p) \<and> mp_num p = int (length (mp_free_list p)) \<and>
     distinct (live @ mp_free_list p) \<and>
     (\<forall>a\<in>set (live @ mp_free_list p). a + unat (mp_size p) \<le> brk h) \<and>
     (\<forall>a\<in>set (live @ mp_free_list p). \<forall>b\<in>set (live @ mp_free_list p). a \<noteq> b \<longrightarrow> apart (unat (mp_size p)) a b)"

lemma link_chunk_eq: "link_chunk start num sz fl = rev (map (\<lambda>i. start + i * sz) [0..<num]) @ fl"
  by (induction num) (auto simp: link_chunk_def)

lemma chunk_blocks:
  assumes "0 < sz"
  shows "distinct (map (\<lambda>i. start + i * sz) [0..<num])"
    and "i < j \<Longrightarrow> start + i * sz + sz \<le> start + j * (sz :: nat)"
proof -
  show "distinct (map (\<lambda>i. start + i * sz) [0..<num])"
    using assms by (auto simp: distinct_map inj_on_def)
  assume "i < j"
  then have "Suc i * sz \<le> j * sz" by (intro mult_le_mono1) simp
  then show "start + i * sz + sz \<le> start + j * sz" by simp
qed

lemma alloc_chunk_ok:
  assumes ok: "pool_ok live p h"
  shows "\<exists>n p' h'. mem_pool_alloc_chunk p h = Inr (n, p', h') \<and> pool_ok live p' h' \<and>
    mp_size p' = mp_size p \<and> mp_chunksize p' = mp_chunksize p \<and>
    (n = 0 \<longrightarrow> mp_free_list p' = mp_free_list p) \<and>
    (n \<noteq> 0 \<longrightarrow> mp_free_list p' \<noteq> []) \<and> (0 < quota h \<and> mp_size p \<le> mp_chunksize p \<longrightarrow> n \<noteq> 0)"
proof (cases "quota h = 0")
  case True
  with ok show ?thesis by (simp add: mem_pool_alloc_chunk_def malloc_bytes_def)
next
  case False
  let ?sz = "unat (mp_size p)" and ?cs = "unat (mp_chunksize p)"
  let ?num = "?cs div ?sz" and ?s = "brk h"
  let ?new = "map (\<lambda>i. ?s + i * ?sz) [0..<?num]"
  let ?p = "p\<lparr>mp_free_list := rev ?new @ mp_free_list p, mp_num := mp_num p + int ?num\<rparr>"
  let ?h = "h\<lparr>brk := ?s + ?cs, quota := quota h - 1\<rparr>"
  have sz: "0 < ?sz" "mp_size p \<noteq> 0" using ok by (auto simp: pool_ok_def)
  have res: "mem_pool_alloc_chunk p h = Inr (int ?num, ?p, ?h)"
    using False sz by (simp add: mem_pool_alloc_chunk_def malloc_bytes_def link_chunk_eq Let_def)
  have old: "a + ?sz \<le> ?s" if "a \<in> set (live @ mp_free_list p)" for a
    using ok that unfolding pool_ok_def by blast
  have new: "?s \<le> a \<and> a + ?sz \<le> ?s + ?cs" if a: "a \<in> set ?new" for a
  proof -
    obtain i where i: "i < ?num" "a = ?s + i * ?sz" using a by auto
    have "Suc i * ?sz \<le> ?num * ?sz" using i(1) by (intro mult_le_mono1) simp
    also have "\<dots> \<le> ?cs" by simp
    finally show ?thesis using i(2) by simp
  qed
  have newapart: "apart ?sz a b" if "a \<in> set ?new" "b \<in> set ?new" "a \<noteq> b" for a b
    using that chunk_blocks(2) [OF sz(1), of _ _ ?s]
    by (auto simp: apart_def) (metis linorder_neqE_nat)
  have all: "set (live @ rev ?new @ mp_free_list p) = set ?new \<union> set (live @ mp_free_list p)" by auto
  have cross: "apart ?sz a b" "apart ?sz b a" if "a \<in> set ?new" "b \<in> set (live @ mp_free_list p)" for a b
    using new [OF that(1)] old [OF that(2)] by (auto simp: apart_def)
  have oldapart: "apart ?sz a b" if "a \<in> set (live @ mp_free_list p)" "b \<in> set (live @ mp_free_list p)" "a \<noteq> b" for a b
    using ok that unfolding pool_ok_def by blast
  have dist: "distinct (live @ rev ?new @ mp_free_list p)"
  proof -
    have "set ?new \<inter> set (live @ mp_free_list p) = {}"
      using new old sz by fastforce
    moreover have "distinct (live @ mp_free_list p)" using ok by (simp add: pool_ok_def)
    moreover have "distinct ?new" by (rule chunk_blocks(1) [OF sz(1)])
    ultimately show ?thesis by auto
  qed
  have "pool_ok live ?p ?h"
    unfolding pool_ok_def
  proof (intro conjI ballI impI)
    fix a assume "a \<in> set (live @ mp_free_list ?p)"
    then have "a \<in> set ?new \<or> a \<in> set (live @ mp_free_list p)" by auto
    then show "a + unat (mp_size ?p) \<le> brk ?h" using new old by fastforce
  next
    fix a b assume "a \<in> set (live @ mp_free_list ?p)" "b \<in> set (live @ mp_free_list ?p)" "a \<noteq> b"
    then have "(a \<in> set ?new \<or> a \<in> set (live @ mp_free_list p)) \<and> (b \<in> set ?new \<or> b \<in> set (live @ mp_free_list p))"
      by auto
    moreover have "mp_size ?p = mp_size p" by simp
    ultimately show "apart (unat (mp_size ?p)) a b" using newapart cross oldapart \<open>a \<noteq> b\<close> by metis
  next
    show "mp_num ?p = int (length (mp_free_list ?p))" using ok by (simp add: pool_ok_def)
  qed (use sz dist in simp_all)
  moreover have "0 < ?num" if "mp_size p \<le> mp_chunksize p"
    using that sz by (simp add: div_greater_zero_iff word_le_nat_alt)
  ultimately show ?thesis using res False
    by (intro exI [of _ "int ?num"] exI [of _ ?p] exI [of _ ?h]) auto
qed

lemma take_block_ok:
  "pool_ok live (p\<lparr>mp_free_list := q # qs\<rparr>) h \<Longrightarrow>
     pool_ok (q # live) (p\<lparr>mp_free_list := qs, mp_num := mp_num p - 1\<rparr>) h"
  unfolding pool_ok_def by auto

lemma give_block_ok:
  "pool_ok live p h \<Longrightarrow> q \<in> set live \<Longrightarrow> pool_ok (remove1 q live) (mem_pool_free p q) h"
  unfolding pool_ok_def mem_pool_free_def by (auto dest: set_remove1_subset [THEN subsetD])

text \<open>Allocation answers a block apart from every live one, and fails only for lack of memory.\<close>

lemma mem_pool_alloc_spec:
  assumes ok: "pool_ok live p h"
  shows "\<exists>r p' h'. mem_pool_alloc p h = Inr (r, p', h') \<and> mp_size p' = mp_size p \<and>
    mp_chunksize p' = mp_chunksize p \<and>
    (case r of None \<Rightarrow> pool_ok live p' h' \<and> (quota h = 0 \<or> mp_chunksize p < mp_size p)
     | Some q \<Rightarrow> pool_ok (q # live) p' h' \<and> (\<forall>a\<in>set live. apart (unat (mp_size p)) q a))"
proof -
  have use: "pool_ok (q # live) p' h' \<Longrightarrow> mp_size p' = mp_size p \<Longrightarrow> \<forall>a\<in>set live. apart (unat (mp_size p)) q a"
    for q p' h' unfolding pool_ok_def by auto
  show ?thesis
  proof (cases "mp_free_list p")
    case (Cons q qs)
    have "p\<lparr>mp_free_list := q # qs\<rparr> = p" using Cons by simp
    then have "pool_ok (q # live) (p\<lparr>mp_free_list := qs, mp_num := mp_num p - 1\<rparr>) h"
      using take_block_ok [where live = live and p = p and q = q and qs = qs and h = h] ok by simp
    with use [OF this] Cons show ?thesis by (simp add: mem_pool_alloc_def del_first_def)
  next
    case Nil
    obtain n p1 h1 where c: "mem_pool_alloc_chunk p h = Inr (n, p1, h1)" "pool_ok live p1 h1"
      "mp_size p1 = mp_size p" "mp_chunksize p1 = mp_chunksize p" "n \<noteq> 0 \<longrightarrow> mp_free_list p1 \<noteq> []"
      "0 < quota h \<and> mp_size p \<le> mp_chunksize p \<longrightarrow> n \<noteq> 0"
      using alloc_chunk_ok [OF ok] by blast
    show ?thesis
    proof (cases "n = 0")
      case True
      with c Nil show ?thesis by (auto simp: mem_pool_alloc_def del_first_def not_le)
    next
      case False
      then obtain q qs where q: "mp_free_list p1 = q # qs" using c(5) by (cases "mp_free_list p1") auto
      have "p1\<lparr>mp_free_list := q # qs\<rparr> = p1" using q by simp
      then have "pool_ok (q # live) (p1\<lparr>mp_free_list := qs, mp_num := mp_num p1 - 1\<rparr>) h1"
        using take_block_ok [where live = live and p = p1 and q = q and qs = qs and h = h1] c(2) by simp
      with use [OF this] q c Nil False show ?thesis by (simp add: mem_pool_alloc_def del_first_def)
    qed
  qed
qed

section \<open>Runs of a pool\<close>

text \<open>
  A pool in use: created, then any sequence of allocations and of frees of live blocks, while the
  rest of the program takes memory from the same heap.
\<close>

inductive pool_reach :: "ptr list \<Rightarrow> mem_pool \<Rightarrow> heap \<Rightarrow> bool" where
  create: "mem_pool_create name sz h = Inr (p, h') \<Longrightarrow> mp_size p \<noteq> 0 \<Longrightarrow> pool_reach [] p h'"
| alloc: "pool_reach live p h \<Longrightarrow> mem_pool_alloc p h = Inr (Some q, p', h') \<Longrightarrow> pool_reach (q # live) p' h'"
| fail: "pool_reach live p h \<Longrightarrow> mem_pool_alloc p h = Inr (None, p', h') \<Longrightarrow> pool_reach live p' h'"
| give: "pool_reach live p h \<Longrightarrow> q \<in> set live \<Longrightarrow> pool_reach (remove1 q live) (mem_pool_free p q) h"
| other: "pool_reach live p h \<Longrightarrow> brk h \<le> brk h' \<Longrightarrow> pool_reach live p h'"

lemma pool_ok_other: "pool_ok live p h \<Longrightarrow> brk h \<le> brk h' \<Longrightarrow> pool_ok live p h'"
  unfolding pool_ok_def by fastforce

lemma pool_reach_ok: "pool_reach live p h \<Longrightarrow> pool_ok live p h"
proof (induction rule: pool_reach.induct)
  case (create name sz h p h')
  then show ?case
    by (auto simp: mem_pool_create_def pool_ok_def Let_def unat_gt_0 split: prod.splits option.splits)
next
  case (alloc live p h q p' h')
  then show ?case using mem_pool_alloc_spec by fastforce
next
  case (fail live p h p' h')
  then show ?case using mem_pool_alloc_spec by fastforce
next
  case (give live p h q)
  then show ?case by (rule_tac give_block_ok)
next
  case (other live p h h')
  then show ?case by (rule_tac pool_ok_other)
qed



section \<open>The block size\<close>

lemma u32_align8: "((x :: u32) AND (- 8)) = of_nat (unat x div 8 * 8)"
proof -
  have "(- 8 :: u32) = NOT (mask 3)" by (simp add: mask_eq_exp_minus_1 not_eq_complement)
  then have "x AND (- 8) = push_bit 3 (drop_bit 3 x)"
    by (simp add: bit_eq_iff bit_simps) auto
  also have "\<dots> = (x div 8) * 8" by (simp add: push_bit_eq_mult drop_bit_eq_div)
  also have "x div 8 = of_nat (unat (x div 8))" by simp
  also have "unat (x div 8) = unat x div 8" by (simp add: unat_div)
  finally show ?thesis by simp
qed

text \<open>The size is rounded up to a multiple of eight, unless the sum wraps around.\<close>

lemma mem_pool_create_size:
  assumes "unat sz \<le> 2 ^ 32 - 8" "mem_pool_create name sz h = Inr (p, h')"
  shows "unat sz \<le> unat (mp_size p) \<and> unat (mp_size p) < unat sz + 8 \<and> unat (mp_size p) mod 8 = 0"
proof -
  let ?n = "(unat sz + 7) div 8 * 8"
  have 1: "unat (sz + 7) = unat sz + 7" using assms(1) by (subst unat_add_lem [THEN iffD1]) simp_all
  have 2: "?n \<le> unat sz + 7" "unat sz + 7 < ?n + 8" by linarith+
  have "mp_size p = (sz + 7) AND (- 8)"
    using assms(2) by (auto simp: mem_pool_create_def Let_def add.commute split: prod.splits option.splits)
  then have "mp_size p = of_nat ?n" by (simp only: u32_align8 1)
  moreover have "?n < 4294967296"
    using assms(1) 2(1) div_mult_mod_eq [of "unat sz + 7" 8] by simp
  ultimately have "unat (mp_size p) = ?n" by (simp only: u32_unat_of_nat)
  then show ?thesis using 2 by presburger
qed

end
