(* ===== verification/Timer.thy ===== *)
theory Timer
  imports HashTable
begin

text \<open>
  \<open>uspace/src/timer.c\<close>: a timing wheel with one list of timers per second. Time is the time stamp
  counter divided by \<open>2 ^ 20\<close>, a parameter here. The handlers of the timers are a parameter too:
  a handler may change the clock and the rest of the state, \<open>'w\<close>; every handler of the program
  unlinks its own timer and no other (\<open>connection_timeout\<close>), so that the safe iteration visits
  the timers linked when it starts (\<open>for_each_entry_safe_ring\<close> of \<open>ListHead\<close>).
\<close>

section \<open>The operations\<close>

record clock =
  cpu_frequency :: u64
  clk_now :: u64
  clk_fill :: u64
  last_expire :: u64
  total_clock_seconds :: int
  next_clock_second :: int
  timer_table :: buckets

definition DEFAULT_CPU_FREQUENCY_MHZ :: u64 where "DEFAULT_CPU_FREQUENCY_MHZ = 2600"

definition DEFAULT_SECONDS :: int where "DEFAULT_SECONDS = 60 * 5"

definition CLOCK :: "u64 \<Rightarrow> u64" where
  "CLOCK tsc = drop_bit 20 tsc"

definition timer_module_init :: "int \<Rightarrow> u64 \<Rightarrow> heap \<Rightarrow> buckets \<Rightarrow> int \<times> clock option \<times> heap" where
  "timer_module_init seconds t h junk =
     (let sz = (if seconds < 0 then DEFAULT_SECONDS else seconds)
      in case malloc h of
           (None, h) \<Rightarrow> (0, None, h)
         | (Some _, h) \<Rightarrow>
             (1, Some \<lparr>cpu_frequency = DEFAULT_CPU_FREQUENCY_MHZ, clk_now = t, clk_fill = 0,
                       last_expire = t, total_clock_seconds = sz, next_clock_second = 0,
                       timer_table = hashtable_init junk (nat sz)\<rparr>, h))"

text \<open>\<open>!list_empty(&t->list)\<close>: an unlinked timer is linked to itself (\<open>timer_init\<close>, \<open>timer_del\<close>).\<close>

definition timer_linked :: "clock \<Rightarrow> ptr \<Rightarrow> bool" where
  "timer_linked c t \<longleftrightarrow> list_ex (\<lambda>i. t \<in> set (timer_table c i)) [0..<nat (total_clock_seconds c)]"

definition timer_add :: "clock \<Rightarrow> ptr \<Rightarrow> int \<Rightarrow> (int \<times> clock) res" where
  "timer_add c t seconds =
     (let seconds = (if total_clock_seconds c < seconds then total_clock_seconds c else seconds);
          seconds = (if seconds < 0 then 1 else seconds)
      in if total_clock_seconds c = 0 then Inl Bad_arith
         else
           let i = nat ((next_clock_second c + seconds) mod total_clock_seconds c)
           in Inr (seconds, c\<lparr>timer_table := ht_add (timer_table c) i t\<rparr>))"

definition timer_del :: "clock \<Rightarrow> ptr \<Rightarrow> clock" where
  "timer_del c t =
     (if timer_linked c t then c\<lparr>timer_table := ht_del (timer_table c) t\<rparr> else c)"

text \<open>One turn of the \<open>while\<close> loop of \<open>timer_expire\<close>, and the loop.\<close>

definition tick :: "(ptr \<Rightarrow> clock \<times> 'w \<Rightarrow> (clock \<times> 'w) res) \<Rightarrow> clock \<times> 'w \<Rightarrow> (clock \<times> 'w) res" where
  "tick handler = (\<lambda>(c, w).
     let c = c\<lparr>next_clock_second := next_clock_second c + 1\<rparr>;
         c = (if total_clock_seconds c \<le> next_clock_second c then c\<lparr>next_clock_second := 0\<rparr> else c)
     in foldE handler (timer_table c (nat (next_clock_second c))) (c, w))"

fun expire_loop ::
  "nat \<Rightarrow> (ptr \<Rightarrow> clock \<times> 'w \<Rightarrow> (clock \<times> 'w) res) \<Rightarrow> u64 \<Rightarrow> clock \<times> 'w \<Rightarrow> (u64 \<times> clock \<times> 'w) res" where
  "expire_loop 0 handler elapse s =
     (if cpu_frequency (fst s) < elapse then Inl Diverges else Inr (elapse, s))"
| "expire_loop (Suc fuel) handler elapse s =
     (if cpu_frequency (fst s) < elapse then
        bindE (tick handler s) (\<lambda>s.
          expire_loop fuel handler (elapse - cpu_frequency (fst s)) s)
      else Inr (elapse, s))"

definition timer_expire ::
  "(ptr \<Rightarrow> clock \<times> 'w \<Rightarrow> (clock \<times> 'w) res) \<Rightarrow> u64 \<Rightarrow> clock \<times> 'w \<Rightarrow> (clock \<times> 'w) res" where
  "timer_expire handler tsc = (\<lambda>(c, w).
     let now = CLOCK tsc;
         elapse = now - last_expire c + clk_fill c;
         flag = cpu_frequency c < elapse
     in bindE (expire_loop (unat elapse div unat (cpu_frequency c)) handler elapse (c, w))
          (\<lambda>(elapse, c, w).
            let c = (if flag then c\<lparr>clk_fill := elapse, last_expire := now\<rparr> else c)
            in Inr (c\<lparr>clk_now := now\<rparr>, w)))"

section \<open>The loop turns the wheel once per elapsed second\<close>

text \<open>\<open>n\<close> turns of the wheel in a row.\<close>

definition ticks :: "(ptr \<Rightarrow> clock \<times> 'w \<Rightarrow> (clock \<times> 'w) res) \<Rightarrow> nat \<Rightarrow> clock \<times> 'w \<Rightarrow> (clock \<times> 'w) res" where
  "ticks handler n s = foldE (\<lambda>_. tick handler) [0..<n] s"

text \<open>The whole seconds of \<open>e\<close> time units; the rest is kept in \<open>(0, freq]\<close>, not \<open>[0, freq)\<close>.\<close>

definition whole_seconds :: "u64 \<Rightarrow> u64 \<Rightarrow> nat" where
  "whole_seconds freq e = (unat e - 1) div unat freq"

definition same_times :: "clock \<Rightarrow> clock \<Rightarrow> bool" where
  "same_times c c' \<longleftrightarrow> cpu_frequency c' = cpu_frequency c \<and>
     total_clock_seconds c' = total_clock_seconds c \<and>
     last_expire c' = last_expire c \<and> clk_fill c' = clk_fill c"

text \<open>A handler that leaves the position of the wheel and its times alone.\<close>

definition keeps_times :: "(ptr \<Rightarrow> clock \<times> 'w \<Rightarrow> (clock \<times> 'w) res) \<Rightarrow> bool" where
  "keeps_times handler \<longleftrightarrow>
     (\<forall>t s s'. handler t s = Inr s' \<longrightarrow>
        same_times (fst s) (fst s') \<and> next_clock_second (fst s') = next_clock_second (fst s))"

lemma keeps_timesD:
  "keeps_times handler \<Longrightarrow> handler t s = Inr s' \<Longrightarrow>
     same_times (fst s) (fst s') \<and> next_clock_second (fst s') = next_clock_second (fst s)"
  unfolding keeps_times_def by metis

lemma same_times_refl [simp]: "same_times c c"
  by (simp add: same_times_def)

lemma same_times_trans: "same_times a b \<Longrightarrow> same_times b c \<Longrightarrow> same_times a c"
  by (simp add: same_times_def)

lemma foldE_const_shift: "foldE (\<lambda>_. f) [0..<Suc n] s = bindE (f s) (foldE (\<lambda>_. f) [0..<n])"
proof -
  have len: "length xs = length ys \<Longrightarrow> foldE (\<lambda>_. f) xs s = foldE (\<lambda>_. f) ys s" for xs ys :: "nat list" and s
    by (induction xs ys arbitrary: s rule: list_induct2) (auto intro!: bindE_cong)
  have "foldE (\<lambda>_. f) [0..<Suc n] s = foldE (\<lambda>_. f) (0 # [0..<n]) s"
    by (rule len) simp
  then show ?thesis by simp
qed

lemma ticks_0 [simp]: "ticks handler 0 s = Inr s"
  by (simp add: ticks_def)

lemma ticks_Suc: "ticks handler (Suc n) s = bindE (tick handler s) (ticks handler n)"
proof -
  have "ticks handler n = foldE (\<lambda>_. tick handler) [0..<n]" by (rule ext) (simp add: ticks_def)
  then show ?thesis by (simp only: ticks_def foldE_const_shift)
qed

lemma ticks_snoc: "ticks handler (Suc n) s = bindE (ticks handler n s) (tick handler)"
proof -
  have "foldE (\<lambda>_. tick handler) [n] s = tick handler s" for s
    by (cases "tick handler s") simp_all
  then show ?thesis by (auto simp: ticks_def foldE_append intro: bindE_cong)
qed

lemma foldE_keeps:
  assumes k: "keeps_times handler"
  shows "foldE handler ts s = Inr s' \<Longrightarrow>
    same_times (fst s) (fst s') \<and> next_clock_second (fst s') = next_clock_second (fst s)"
proof (induction ts arbitrary: s)
  case (Cons t ts)
  then obtain s1 where s1: "handler t s = Inr s1" "foldE handler ts s1 = Inr s'"
    by (auto simp: fault_simps)
  show ?case
    using keeps_timesD [OF k s1(1)] Cons.IH [OF s1(2)] same_times_trans by simp blast
qed simp

definition next_slot :: "clock \<Rightarrow> int" where
  "next_slot c = (if total_clock_seconds c \<le> next_clock_second c + 1 then 0 else next_clock_second c + 1)"

lemma tick_eq:
  "tick handler (c, w) = foldE handler (timer_table c (nat (next_slot c)))
     (c\<lparr>next_clock_second := next_slot c\<rparr>, w)"
  by (simp add: tick_def next_slot_def)

lemma tick_keeps:
  assumes k: "keeps_times handler" and t: "tick handler s = Inr s'"
  shows "same_times (fst s) (fst s') \<and> next_clock_second (fst s') = next_slot (fst s)"
proof -
  obtain c w where s: "s = (c, w)" by (cases s)
  have "same_times (c\<lparr>next_clock_second := next_slot c\<rparr>) (fst s') \<and> next_clock_second (fst s') = next_slot c"
    using foldE_keeps [OF k t [unfolded s tick_eq]] by simp
  then show ?thesis by (simp add: s same_times_def)
qed

lemma ticks_keep:
  assumes k: "keeps_times handler"
  shows "ticks handler n s = Inr s' \<Longrightarrow> same_times (fst s) (fst s')"
proof (induction n arbitrary: s)
  case (Suc n)
  then obtain s1 where "tick handler s = Inr s1" "ticks handler n s1 = Inr s'"
    by (auto simp: ticks_Suc fault_simps)
  with Suc.IH tick_keeps [OF k] show ?case using same_times_trans by blast
qed simp

lemma whole_seconds_step:
  assumes "0 < f" "f < e"
  shows "whole_seconds f e = Suc (whole_seconds f (e - f))"
proof -
  have u: "unat (e - f) = unat e - unat f" "0 < unat f" "unat f < unat e"
    using assms by (auto simp: unat_sub word_less_nat_alt word_le_nat_alt)
  then have "unat e - 1 = (unat e - unat f - 1) + unat f" by simp
  then have "(unat e - 1) div unat f = Suc ((unat e - unat f - 1) div unat f)"
    using u(2) by (simp only: div_add_self2)
  then show ?thesis by (simp add: whole_seconds_def u(1))
qed

lemma whole_seconds_small: "e \<le> f \<Longrightarrow> whole_seconds f e = 0"
  by (cases "unat e") (simp_all add: whole_seconds_def word_le_nat_alt)

text \<open>The fuel is enough, and the loop is as many turns of the wheel as whole seconds passed.\<close>

lemma expire_loop_ticks:
  assumes k: "keeps_times handler"
  shows "0 < cpu_frequency (fst s) \<Longrightarrow> whole_seconds (cpu_frequency (fst s)) elapse \<le> fuel \<Longrightarrow>
    expire_loop fuel handler elapse s
      = bindE (ticks handler (whole_seconds (cpu_frequency (fst s)) elapse) s)
          (\<lambda>s'. Inr (elapse - of_nat (whole_seconds (cpu_frequency (fst s)) elapse) * cpu_frequency (fst s), s'))"
proof (induction fuel arbitrary: s elapse)
  case 0
  then have "\<not> cpu_frequency (fst s) < elapse" using whole_seconds_step by fastforce
  then show ?case by (simp add: whole_seconds_small not_less)
next
  case (Suc fuel)
  let ?f = "cpu_frequency (fst s)"
  show ?case
  proof (cases "?f < elapse")
    case False
    then have "elapse \<le> ?f" by (simp add: not_less)
    then show ?thesis using False by (simp add: whole_seconds_small)
  next
    case True
    let ?n = "whole_seconds ?f (elapse - ?f)"
    have n: "whole_seconds ?f elapse = Suc ?n" using whole_seconds_step Suc.prems(1) True by blast
    have "expire_loop fuel handler (elapse - cpu_frequency (fst s1)) s1
        = bindE (ticks handler ?n s1) (\<lambda>s'. Inr (elapse - of_nat (Suc ?n) * ?f, s'))"
      if "tick handler s = Inr s1" for s1
    proof -
      have f: "cpu_frequency (fst s1) = ?f" using tick_keeps [OF k that] by (simp add: same_times_def)
      show ?thesis using Suc.IH [of s1 "elapse - ?f"] Suc.prems n f by (simp add: algebra_simps)
    qed
    then have "bindE (tick handler s) (\<lambda>s1. expire_loop fuel handler (elapse - cpu_frequency (fst s1)) s1)
        = bindE (tick handler s) (\<lambda>s1. bindE (ticks handler ?n s1) (\<lambda>s'. Inr (elapse - of_nat (Suc ?n) * ?f, s')))"
      by (intro bindE_cong refl)
    moreover have "ticks handler (Suc ?n) s = bindE (tick handler s) (ticks handler ?n)" by (rule ticks_Suc)
    ultimately show ?thesis
      unfolding n using True by (simp only: expire_loop.simps if_True bindE_assoc)
  qed
qed

lemma whole_seconds_fuel: "whole_seconds f e \<le> unat e div unat f"
  by (simp add: whole_seconds_def div_le_mono)

text \<open>
  \<open>timer_expire\<close> as a whole: the wheel turns once for every whole second since the last call, and
  the time not yet used is kept in \<open>fill\<close>: \<open>last_expire - fill\<close> moves by whole seconds only, so
  the wheel does not drift however often the function is called.
\<close>

definition phase :: "clock \<Rightarrow> u64" where
  "phase c = last_expire c - clk_fill c"

lemma timer_expire_spec:
  assumes k: "keeps_times handler" and f: "0 < cpu_frequency c"
    and e_def: "e = CLOCK tsc - phase c" and n_def: "n = whole_seconds (cpu_frequency c) e"
    and t: "ticks handler n (c, w) = Inr (c1, w1)"
  shows "\<exists>c'. timer_expire handler tsc (c, w) = Inr (c', w1) \<and> timer_table c' = timer_table c1 \<and>
    next_clock_second c' = next_clock_second c1 \<and> total_clock_seconds c' = total_clock_seconds c \<and>
    cpu_frequency c' = cpu_frequency c \<and> clk_now c' = CLOCK tsc \<and>
    phase c' = phase c + of_nat n * cpu_frequency c"
proof -
  have e: "CLOCK tsc - last_expire c + clk_fill c = e" by (simp add: e_def phase_def)
  have loop: "expire_loop (unat e div unat (cpu_frequency c)) handler e (c, w)
      = Inr (e - of_nat n * cpu_frequency c, c1, w1)"
    using expire_loop_ticks [OF k, of "(c, w)" e "unat e div unat (cpu_frequency c)"] f t
      whole_seconds_fuel [of "cpu_frequency c" e] by (simp add: n_def)
  have c1: "cpu_frequency c1 = cpu_frequency c" "total_clock_seconds c1 = total_clock_seconds c"
      "phase c1 = phase c"
    using ticks_keep [OF k t] by (simp_all add: phase_def same_times_def)
  let ?flag = "cpu_frequency c < e"
  let ?c' = "(if ?flag then c1\<lparr>clk_fill := e - of_nat n * cpu_frequency c, last_expire := CLOCK tsc\<rparr>
      else c1)\<lparr>clk_now := CLOCK tsc\<rparr>"
  have res: "timer_expire handler tsc (c, w) = Inr (?c', w1)"
    by (simp add: timer_expire_def e loop Let_def)
  have "phase ?c' = phase c + of_nat n * cpu_frequency c"
  proof (cases ?flag)
    case True
    then show ?thesis by (simp add: phase_def e_def)
  next
    case False
    then have "n = 0" by (simp add: n_def whole_seconds_small not_less)
    then show ?thesis using False c1 by (simp add: phase_def)
  qed
  with res c1 show ?thesis by (intro exI [of _ ?c']) auto
qed

section \<open>When a timer fires\<close>

text \<open>
  The handler used to observe the wheel: it unlinks the timer, as the program's handlers do, and
  records it. On a wheel whose lists are disjoint, the first turns visit one slot each.
\<close>

definition fire :: "ptr \<Rightarrow> clock \<times> ptr list \<Rightarrow> (clock \<times> ptr list) res" where
  "fire t = (\<lambda>(c, log). Inr (timer_del c t, log @ [t]))"

definition wheel_ok :: "clock \<Rightarrow> bool" where
  "wheel_ok c \<longleftrightarrow> 0 < total_clock_seconds c \<and>
     0 \<le> next_clock_second c \<and> next_clock_second c < total_clock_seconds c \<and>
     (\<forall>i < nat (total_clock_seconds c). distinct (timer_table c i)) \<and>
     (\<forall>i < nat (total_clock_seconds c). \<forall>j < nat (total_clock_seconds c). \<forall>t.
        t \<in> set (timer_table c i) \<longrightarrow> t \<in> set (timer_table c j) \<longrightarrow> i = j)"

definition slot :: "clock \<Rightarrow> nat \<Rightarrow> nat" where
  "slot c k = nat ((next_clock_second c + int k) mod total_clock_seconds c)"

lemma timer_linked_iff:
  "timer_linked c t \<longleftrightarrow> (\<exists>i < nat (total_clock_seconds c). t \<in> set (timer_table c i))"
  by (auto simp: timer_linked_def list_ex_iff)

lemma timer_del_frame [simp]:
  "total_clock_seconds (timer_del c t) = total_clock_seconds c"
  "next_clock_second (timer_del c t) = next_clock_second c"
  "cpu_frequency (timer_del c t) = cpu_frequency c"
  "last_expire (timer_del c t) = last_expire c" "clk_fill (timer_del c t) = clk_fill c"
  by (simp_all add: timer_del_def)

lemma timer_del_table:
  "wheel_ok c \<Longrightarrow> i < nat (total_clock_seconds c) \<Longrightarrow>
     timer_table (timer_del c t) i = filter (\<lambda>u. u \<noteq> t) (timer_table c i)"
  by (auto simp: timer_del_def ht_del_def timer_linked_iff wheel_ok_def distinct_remove1_removeAll
      removeAll_filter_not_eq intro!: filter_cong filter_True [symmetric])

lemma timer_del_ok: "wheel_ok c \<Longrightarrow> wheel_ok (timer_del c t)"
  using timer_del_table [of c _ t] unfolding wheel_ok_def by simp blast

lemma timer_del_unlinked: "wheel_ok c \<Longrightarrow> \<not> timer_linked (timer_del c t) t"
  by (simp add: timer_linked_iff timer_del_table)

lemma fire_all:
  "wheel_ok c \<Longrightarrow> \<exists>c'. foldE fire ts (c, log) = Inr (c', log @ ts) \<and> wheel_ok c' \<and>
     total_clock_seconds c' = total_clock_seconds c \<and> next_clock_second c' = next_clock_second c \<and>
     (\<forall>i < nat (total_clock_seconds c). timer_table c' i = filter (\<lambda>t. t \<notin> set ts) (timer_table c i))"
proof (induction ts arbitrary: c log)
  case (Cons t ts)
  note ok = timer_del_ok [OF Cons.prems, of t]
  obtain c' where c': "foldE fire ts (timer_del c t, log @ [t]) = Inr (c', (log @ [t]) @ ts)" "wheel_ok c'"
     "total_clock_seconds c' = total_clock_seconds c" "next_clock_second c' = next_clock_second c"
     "\<forall>i < nat (total_clock_seconds c).
        timer_table c' i = filter (\<lambda>t. t \<notin> set ts) (timer_table (timer_del c t) i)"
    using Cons.IH [OF ok, of "log @ [t]"] by auto
  have "foldE fire (t # ts) (c, log) = Inr (c', log @ t # ts)"
    using c'(1) by (simp add: fire_def)
  moreover have "timer_table c' i = filter (\<lambda>u. u \<notin> set (t # ts)) (timer_table c i)"
    if "i < nat (total_clock_seconds c)" for i
    using c'(5) that timer_del_table [OF Cons.prems that, of t] by (auto intro: filter_cong)
  ultimately show ?case using c'(2-4) by blast
qed simp

lemma next_slot_eq:
  "wheel_ok c \<Longrightarrow> next_slot c = (next_clock_second c + 1) mod total_clock_seconds c"
proof -
  assume ok: "wheel_ok c"
  show ?thesis
  proof (cases "total_clock_seconds c \<le> next_clock_second c + 1")
    case True
    then have "next_clock_second c + 1 = total_clock_seconds c" using ok by (simp add: wheel_ok_def)
    with True show ?thesis by (simp add: next_slot_def)
  qed (use ok in \<open>simp add: next_slot_def wheel_ok_def\<close>)
qed

lemma slot_less: "wheel_ok c \<Longrightarrow> slot c k < nat (total_clock_seconds c)"
  by (simp add: slot_def wheel_ok_def)

lemma slot_inj:
  assumes ok: "wheel_ok c" and e: "slot c j = slot c k" and l: "j \<le> k" "k - j < nat (total_clock_seconds c)"
  shows "j = k"
proof -
  let ?n = "total_clock_seconds c"
  have n: "0 < ?n" using ok by (simp add: wheel_ok_def)
  have "(next_clock_second c + int j) mod ?n = (next_clock_second c + int k) mod ?n"
    using e n by (simp add: slot_def nat_eq_iff)
  then have "?n dvd (next_clock_second c + int k) - (next_clock_second c + int j)"
    by (metis mod_eq_dvd_iff)
  then have "?n dvd int (k - j)" using l(1) by (simp add: of_nat_diff)
  moreover have "int (k - j) < ?n" using l(2) n by linarith
  ultimately have "int (k - j) = 0" using zdvd_imp_le by fastforce
  then show ?thesis using l(1) by simp
qed

text \<open>In less than a full turn every slot on the way is emptied once, in order.\<close>

lemma ticks_fire:
  assumes ok: "wheel_ok c"
  shows "k \<le> nat (total_clock_seconds c) \<Longrightarrow>
    \<exists>c'. ticks fire k (c, []) = Inr (c', concat (map (\<lambda>j. timer_table c (slot c j)) [1..<Suc k])) \<and>
      wheel_ok c' \<and> total_clock_seconds c' = total_clock_seconds c \<and>
      next_clock_second c' = (next_clock_second c + int k) mod total_clock_seconds c \<and>
      (\<forall>i < nat (total_clock_seconds c). timer_table c' i
         = (if \<exists>j. 1 \<le> j \<and> j \<le> k \<and> i = slot c j then [] else timer_table c i))"
proof (induction k)
  case 0
  then show ?case using ok by (auto simp: wheel_ok_def)
next
  case (Suc k)
  let ?n = "total_clock_seconds c" and ?log = "\<lambda>k. concat (map (\<lambda>j. timer_table c (slot c j)) [1..<Suc k])"
  let ?s = "slot c (Suc k)"
  obtain c1 where c1: "ticks fire k (c, []) = Inr (c1, ?log k)" "wheel_ok c1"
      "total_clock_seconds c1 = ?n" "next_clock_second c1 = (next_clock_second c + int k) mod ?n"
      "\<And>i. i < nat ?n \<Longrightarrow> timer_table c1 i
         = (if \<exists>j. 1 \<le> j \<and> j \<le> k \<and> i = slot c j then [] else timer_table c i)"
    using Suc by auto
  have nx: "next_slot c1 = (next_clock_second c + int (Suc k)) mod ?n"
    using next_slot_eq [OF c1(2)] c1(3,4) mod_add_left_eq [of "next_clock_second c + int k" ?n 1]
    by (simp add: ac_simps)
  then have s: "nat (next_slot c1) = ?s" by (simp add: slot_def)
  let ?c2 = "c1\<lparr>next_clock_second := next_slot c1\<rparr>"
  have n: "0 < ?n" using ok by (simp add: wheel_ok_def)
  have ok2: "wheel_ok ?c2" using c1(2,3) nx n by (simp add: wheel_ok_def)
  have "timer_table c1 ?s = timer_table c ?s"
    using c1(5) [of ?s] slot_less [OF ok, of "Suc k"] slot_inj [OF ok, of _ "Suc k"] Suc.prems by fastforce
  then have t: "tick fire (c1, ?log k) = foldE fire (timer_table c ?s) (?c2, ?log k)"
    by (simp add: tick_eq s)
  obtain c' where c': "foldE fire (timer_table c ?s) (?c2, ?log k) = Inr (c', ?log k @ timer_table c ?s)"
     "wheel_ok c'" "total_clock_seconds c' = ?n" "next_clock_second c' = next_slot c1"
     "\<And>i. i < nat ?n \<Longrightarrow> timer_table c' i = filter (\<lambda>t. t \<notin> set (timer_table c ?s)) (timer_table c1 i)"
    using fire_all [OF ok2, of "timer_table c ?s" "?log k"] c1(3) by auto
  have "timer_table c' i = (if \<exists>j. 1 \<le> j \<and> j \<le> Suc k \<and> i = slot c j then [] else timer_table c i)"
    if i: "i < nat ?n" for i
  proof (cases "i = ?s")
    case True
    then show ?thesis using c'(5) [OF i] c1(5) [OF i] by (auto simp: filter_empty_conv)
  next
    case False
    have "\<forall>t\<in>set (timer_table c i). t \<notin> set (timer_table c ?s)"
      using ok i slot_less [OF ok, of "Suc k"] False unfolding wheel_ok_def by blast
    then have "filter (\<lambda>t. t \<notin> set (timer_table c ?s)) (timer_table c i) = timer_table c i"
      by (simp add: filter_id_conv)
    moreover have "(\<exists>j. 1 \<le> j \<and> j \<le> Suc k \<and> i = slot c j) \<longleftrightarrow> (\<exists>j. 1 \<le> j \<and> j \<le> k \<and> i = slot c j)"
      using False by (auto simp: le_Suc_eq)
    ultimately show ?thesis using c'(5) [OF i] c1(5) [OF i] by auto
  qed
  moreover have "ticks fire (Suc k) (c, []) = Inr (c', ?log (Suc k))"
  proof -
    have "[1..<Suc (Suc k)] = [1..<Suc k] @ [Suc k]" by (rule upt_Suc_append) simp
    then have "?log (Suc k) = ?log k @ timer_table c ?s" by (simp only: map_append concat_append) simp
    then show ?thesis by (simp only: ticks_snoc c1(1) bindE.simps t c'(1))
  qed
  ultimately show ?case using c'(2,3,4) nx by metis
qed

lemma ht_add_other: "u \<noteq> t \<Longrightarrow> u \<in> set (ht_add tb i t j) \<longleftrightarrow> u \<in> set (tb j)"
  by (simp add: ht_add_def)

lemma timer_linked_add:
  "u \<noteq> t \<Longrightarrow> timer_linked (c\<lparr>timer_table := ht_add (timer_table c) i t\<rparr>) u = timer_linked c u"
  by (simp add: timer_linked_iff ht_add_other)

lemma timer_add_ok:
  assumes ok: "wheel_ok c" and t: "\<not> timer_linked c t"
  shows "\<exists>c'. timer_add c t seconds = Inr (if seconds < 0 then 1 else min seconds (total_clock_seconds c), c')
    \<and> wheel_ok c' \<and> timer_linked c' t \<and> next_clock_second c' = next_clock_second c \<and>
    total_clock_seconds c' = total_clock_seconds c \<and>
    (\<forall>i. t \<in> set (timer_table c' i) \<and> i < nat (total_clock_seconds c) \<longleftrightarrow>
       i = slot c (nat (if seconds < 0 then 1 else min seconds (total_clock_seconds c)))) \<and>
    (\<forall>u. u \<noteq> t \<longrightarrow> timer_linked c' u = timer_linked c u)"
proof -
  let ?n = "total_clock_seconds c"
  let ?s = "if seconds < 0 then 1 else min seconds ?n"
  let ?i = "slot c (nat ?s)"
  let ?c = "c\<lparr>timer_table := ht_add (timer_table c) ?i t\<rparr>"
  have n: "0 < ?n" using ok by (simp add: wheel_ok_def)
  have i: "?i < nat ?n" by (rule slot_less [OF ok])
  have res: "timer_add c t seconds = Inr (?s, ?c)"
    using n by (auto simp: timer_add_def slot_def Let_def min_def)
  have not_in: "\<forall>i < nat ?n. t \<notin> set (timer_table c i)" using t by (auto simp: timer_linked_iff)
  have "wheel_ok ?c" using ok not_in i unfolding wheel_ok_def by (auto simp: ht_add_def)
  moreover have "\<forall>j. t \<in> set (timer_table ?c j) \<and> j < nat ?n \<longleftrightarrow> j = ?i"
    using not_in i by (auto simp: ht_add_def)
  moreover have "\<forall>u. u \<noteq> t \<longrightarrow> timer_linked ?c u = timer_linked c u"
    by (intro allI impI timer_linked_add)
  moreover have "timer_linked ?c t" using i by (auto simp: timer_linked_iff ht_add_def)
  ultimately show ?thesis using res by (intro exI [of _ ?c]) simp
qed



end
