(* ===== verification/Connection.thy ===== *)
theory Connection
  imports NetGlobal MemPool Timer
begin

text \<open>
  \<open>uspace/src/connection.c\<close>: the connections the load balancer tracks. A connection is linked in
  a table by the client's address and port and, in full-NAT mode, in a second one by the local
  address and port the balancer uses towards the server; it holds a timer of 60 seconds. The
  structures are blocks of a memory pool. A connection, its timer and its two list nodes are named
  by the address of the structure (\<open>container_of\<close> only adds a constant).
\<close>

section \<open>The state\<close>

record connection =
  c_vs_addr :: "ptr option"
  c_self_addr :: ptr
  c_server :: "srv_ref option"
  c_vs :: ptr
  client_addr :: ip_address
  client_port :: u16
  c_self_port :: u16
  client_adapter_idx :: u8
  client_queue_idx :: u8
  server_adapter_idx :: u8
  server_queue_idx :: u8
  client_mac :: mac
  c_state :: u8
  c_flags :: u8
  c_protocol :: u8

record cnet = net +
  conns :: "connection store"
  conn_mem_pool :: mem_pool
  client_hashtable :: buckets
  self_hashtable :: buckets
  net_clock :: clock

definition TCP_INIT :: u8 where "TCP_INIT = 0"

definition TCP_FIN1 :: u8 where "TCP_FIN1 = 1"

definition TCP_FIN1_ACK :: u8 where "TCP_FIN1_ACK = 2"

definition TCP_FIN2 :: u8 where "TCP_FIN2 = 3"

definition TCP_FIN2_ACK :: u8 where "TCP_FIN2_ACK = 4"

definition TCP_CLOSED :: u8 where "TCP_CLOSED = 5"

text \<open>A connection of all zero bytes, for instances.\<close>

definition sample_connection :: connection where
  "sample_connection = \<lparr>c_vs_addr = None, c_self_addr = 0, c_server = None, c_vs = 0,
     client_addr = \<lparr>family = 0, ip_w0 = 0, ip_w1 = 0, ip_w2 = 0, ip_w3 = 0\<rparr>, client_port = 0, c_self_port = 0,
     client_adapter_idx = 0, client_queue_idx = 0, server_adapter_idx = 0, server_queue_idx = 0,
     client_mac = (\<lambda>_. 0), c_state = 0, c_flags = 0, c_protocol = 0\<rparr>"

definition CONNECTION_IS_FULLNAT :: "connection \<Rightarrow> bool" where
  "CONNECTION_IS_FULLNAT cp \<longleftrightarrow> c_flags cp AND 1 \<noteq> 0"

definition CONNECTION_SET_FULLNAT :: "connection \<Rightarrow> connection" where
  "CONNECTION_SET_FULLNAT cp = cp\<lparr>c_flags := c_flags cp OR 1\<rparr>"

definition CONNECTION_SET_TRANSPARANT :: "connection \<Rightarrow> connection" where
  "CONNECTION_SET_TRANSPARANT cp = cp\<lparr>c_flags := c_flags cp AND 0xfe\<rparr>"

definition CONNECTION_IS_TCP :: "connection \<Rightarrow> bool" where
  "CONNECTION_IS_TCP cp \<longleftrightarrow> c_protocol cp = PROTO_TCP"

definition CONNECTION_TIMEOUT_SECONDS :: int where "CONNECTION_TIMEOUT_SECONDS = 60"

definition CONFIG_CON_TAB_BITS :: nat where "CONFIG_CON_TAB_BITS = 10"

definition CONN_HT_BITS :: nat where "CONN_HT_BITS = CONFIG_CON_TAB_BITS"

definition CONN_HT_SIZE :: nat where "CONN_HT_SIZE = 2 ^ CONN_HT_BITS"

definition CONN_HT_MASK :: u32 where "CONN_HT_MASK = of_nat CONN_HT_SIZE - 1"

definition connection_get_client_ip :: "connection \<Rightarrow> ip_address" where
  "connection_get_client_ip cp = client_addr cp"

definition connection_get_client_port :: "connection \<Rightarrow> u16" where
  "connection_get_client_port cp = client_port cp"

section \<open>The pool\<close>

text \<open>\<open>sizeof(struct connection)\<close> with the alignment of its pointers.\<close>

definition SIZEOF_CONNECTION :: u32 where "SIZEOF_CONNECTION = 128"

definition connection_mem_pool_create :: "'a cnet_scheme \<Rightarrow> (int \<times> 'a cnet_scheme) res" where
  "connection_mem_pool_create n =
     bindE (mem_pool_create (Some ''connection pool'') SIZEOF_CONNECTION (ng_heap n)) (\<lambda>(pool, h).
       Inr (1, n\<lparr>conn_mem_pool := pool, ng_heap := h\<rparr>))"

definition connectoin_get_free :: "'a cnet_scheme \<Rightarrow> (ptr option \<times> 'a cnet_scheme) res" where
  "connectoin_get_free n =
     bindE (mem_pool_alloc (conn_mem_pool n) (ng_heap n)) (\<lambda>(p, pool, h).
       Inr (p, n\<lparr>conn_mem_pool := pool, ng_heap := h\<rparr>))"

text \<open>A block given back is no longer a connection: every later access through its address is a fault.\<close>

definition connectoin_put_free :: "ptr \<Rightarrow> 'a cnet_scheme \<Rightarrow> 'a cnet_scheme" where
  "connectoin_put_free p n =
     n\<lparr>conn_mem_pool := mem_pool_free (conn_mem_pool n) p, conns := (conns n)(p := None)\<rparr>"

section \<open>The tables\<close>

definition connection_hashkey :: "u32 \<Rightarrow> ip_address \<Rightarrow> u32 \<Rightarrow> u32 \<Rightarrow> nat" where
  "connection_hashkey hash_rand ip port proto =
     (let h = ip_port_proto_hash hash_rand ip port proto in unat (h AND CONN_HT_MASK))"

definition connection_hashkey_client :: "u32 \<Rightarrow> connection \<Rightarrow> nat" where
  "connection_hashkey_client hash_rand cp =
     connection_hashkey hash_rand (client_addr cp) (ucast (client_port cp)) (ucast (c_protocol cp))"

definition connection_hashkey_self :: "u32 \<Rightarrow> local_ip store \<Rightarrow> connection \<Rightarrow> nat res" where
  "connection_hashkey_self hash_rand lips cp =
     bindE (deref lips (c_self_addr cp)) (\<lambda>lip.
       Inr (connection_hashkey hash_rand (lip_addr lip) (ucast (c_self_port cp)) (ucast (c_protocol cp))))"

text \<open>
  The last conjunct of both comparisons is an assignment, \<open>cp->protocol = proto\<close>: it overwrites
  the protocol of the connection and is true when \<open>proto\<close> is not zero.
\<close>

definition connection_client_eq ::
  "ip_address \<Rightarrow> u16 \<Rightarrow> u8 \<Rightarrow> ptr \<Rightarrow> connection store \<Rightarrow> (bool \<times> connection store) res" where
  "connection_client_eq ip port proto p cs =
     bindE (deref cs p) (\<lambda>cp.
       if ip_address_eq (client_addr cp) ip \<and> client_port cp = port
       then Inr (proto \<noteq> 0, cs(p \<mapsto> cp\<lparr>c_protocol := proto\<rparr>))
       else Inr (False, cs))"

definition connection_self_eq ::
  "local_ip store \<Rightarrow> ip_address \<Rightarrow> u16 \<Rightarrow> u8 \<Rightarrow> ptr \<Rightarrow> connection store \<Rightarrow> (bool \<times> connection store) res" where
  "connection_self_eq lips ip port proto p cs =
     bindE (deref cs p) (\<lambda>cp.
     bindE (deref lips (c_self_addr cp)) (\<lambda>lip.
       if ip_address_eq (lip_addr lip) ip \<and> c_self_port cp = port
       then Inr (proto \<noteq> 0, cs(p \<mapsto> cp\<lparr>c_protocol := proto\<rparr>))
       else Inr (False, cs)))"

definition connection_add :: "ptr \<Rightarrow> 'a cnet_scheme \<Rightarrow> 'a cnet_scheme res" where
  "connection_add p n =
     bindE (deref (conns n) p) (\<lambda>cp.
     let idx = connection_hashkey_client (ng_rand n) cp;
         n = n\<lparr>client_hashtable := ht_add (client_hashtable n) idx p\<rparr>
     in if CONNECTION_IS_FULLNAT cp then
          bindE (connection_hashkey_self (ng_rand n) (ng_lips n) cp) (\<lambda>idx.
            Inr (n\<lparr>self_hashtable := ht_add (self_hashtable n) idx p\<rparr>))
        else Inr n)"

definition connection_del :: "ptr \<Rightarrow> 'a cnet_scheme \<Rightarrow> 'a cnet_scheme res" where
  "connection_del p n =
     bindE (deref (conns n) p) (\<lambda>cp.
     let n = n\<lparr>client_hashtable := ht_del (client_hashtable n) p\<rparr>
     in if CONNECTION_IS_FULLNAT cp then Inr (n\<lparr>self_hashtable := ht_del (self_hashtable n) p\<rparr>)
        else Inr n)"

text \<open>The walk of a bucket with a comparison that writes.\<close>

fun conn_walk ::
  "(ptr \<Rightarrow> connection store \<Rightarrow> (bool \<times> connection store) res) \<Rightarrow> ptr list \<Rightarrow> connection store
     \<Rightarrow> (ptr option \<times> connection store) res" where
  "conn_walk eq [] cs = Inr (None, cs)"
| "conn_walk eq (p # ps) cs =
     bindE (eq p cs) (\<lambda>(b, cs). if b then Inr (Some p, cs) else conn_walk eq ps cs)"

definition connection_lookup ::
  "ip_address \<Rightarrow> u16 \<Rightarrow> u8 \<Rightarrow> bool \<Rightarrow> 'a cnet_scheme \<Rightarrow> (ptr option \<times> 'a cnet_scheme) res" where
  "connection_lookup ip port proto is_client n =
     (let idx = connection_hashkey (ng_rand n) ip (ucast port) (ucast proto)
      in bindE (if is_client
                then conn_walk (connection_client_eq ip port proto) (client_hashtable n idx) (conns n)
                else conn_walk (connection_self_eq (ng_lips n) ip port proto) (self_hashtable n idx) (conns n))
           (\<lambda>(found, cs). Inr (found, n\<lparr>conns := cs\<rparr>)))"

section \<open>Freeing\<close>

definition connection_free :: "ptr \<Rightarrow> 'a cnet_scheme \<Rightarrow> 'a cnet_scheme res" where
  "connection_free p n =
     bindE (deref (conns n) p) (\<lambda>cp.
     bindE (if CONNECTION_IS_FULLNAT cp then
              bindE (deref (ng_lips n) (c_self_addr cp)) (\<lambda>lip.
              bindE (if CONNECTION_IS_TCP cp then lip_put_tcp_port lip (c_self_port cp)
                     else lip_put_udp_port lip (c_self_port cp)) (\<lambda>lip.
                Inr (n\<lparr>ng_lips := (ng_lips n)(c_self_addr cp \<mapsto> lip)\<rparr>)))
            else Inr n) (\<lambda>n.
     let n = n\<lparr>net_clock := timer_del (net_clock n) p\<rparr>
     in bindE (connection_del p n) (\<lambda>n. Inr (connectoin_put_free p n))))"

text \<open>The handler of the timers, on the wheel and the rest of the state.\<close>

definition connection_timeout :: "ptr \<Rightarrow> 'a cnet_scheme \<Rightarrow> (int \<times> 'a cnet_scheme) res" where
  "connection_timeout t n = bindE (connection_free t n) (\<lambda>n. Inr (1, n))"

definition timeout_handler :: "ptr \<Rightarrow> clock \<times> 'a cnet_scheme \<Rightarrow> (clock \<times> 'a cnet_scheme) res" where
  "timeout_handler t = (\<lambda>(c, n).
     bindE (connection_timeout t (n\<lparr>net_clock := c\<rparr>)) (\<lambda>(_, n). Inr (net_clock n, n)))"

definition net_timer_expire :: "u64 \<Rightarrow> 'a cnet_scheme \<Rightarrow> 'a cnet_scheme res" where
  "net_timer_expire tsc n =
     bindE (timer_expire timeout_handler tsc (net_clock n, n)) (\<lambda>(c, n). Inr (n\<lparr>net_clock := c\<rparr>))"

section \<open>Creating\<close>

definition get_mac :: "bytes \<Rightarrow> nat \<Rightarrow> mac" where
  "get_mac d i = (\<lambda>k. d (i + k))"

definition connection_set_route ::
  "packet \<Rightarrow> ptr \<Rightarrow> srv_ref \<Rightarrow> 'a cnet_scheme \<Rightarrow> (int \<times> 'a cnet_scheme) res" where
  "connection_set_route pkt p srv n =
     bindE (deref (conns n) p) (\<lambda>cp.
     let cp = cp\<lparr>client_mac := get_mac (p_data pkt) (mac_header pkt + 6),
                 client_adapter_idx := adapter_idx pkt, client_queue_idx := 0\<rparr>;
         n = n\<lparr>conns := (conns n)(p \<mapsto> cp)\<rparr>
     in bindE (get_server (ng_pools n) srv) (\<lambda>s.
        bindE (ng_rt_lookup_rr (na_ip (srv_addr s)) n) (\<lambda>(re, n).
          case re of
            None \<Rightarrow> Inr (0, n)
          | Some re \<Rightarrow>
              bindE (deref (ng_ents n) re) (\<lambda>e.
                Inr (1, n\<lparr>conns := (conns n)(p \<mapsto> cp\<lparr>server_adapter_idx := ucast (re_nic_id e),
                                                   server_queue_idx := 0\<rparr>)\<rparr>)))))"

definition connection_set_self_ip_port ::
  "ptr \<Rightarrow> int \<Rightarrow> bool \<Rightarrow> bool \<Rightarrow> 'a cnet_scheme \<Rightarrow> (int \<times> 'a cnet_scheme) res" where
  "connection_set_self_ip_port p nic_id is_ipv4 is_tcp n =
     bindE (if is_ipv4 then ng_interface_get_selfipv4_rr nic_id n
            else ng_interface_get_selfipv6_rr nic_id n) (\<lambda>(l, n).
       case l of
         None \<Rightarrow> Inr (0, n)
       | Some l \<Rightarrow>
           bindE (deref (conns n) p) (\<lambda>cp.
           let cp = cp\<lparr>c_self_addr := l\<rparr>;
               n = n\<lparr>conns := (conns n)(p \<mapsto> cp)\<rparr>
           in bindE (deref (ng_lips n) l) (\<lambda>lip.
              bindE (if is_tcp then lip_get_tcp_port lip 0 else lip_get_udp_port lip 0) (\<lambda>(port, lip).
              let n = n\<lparr>ng_lips := (ng_lips n)(l \<mapsto> lip)\<rparr>
              in if port = 0 then Inr (0, n)
                 else Inr (1, n\<lparr>conns := (conns n)(p \<mapsto> cp\<lparr>c_self_port := port\<rparr>)\<rparr>)))))"

text \<open>
  The stages of \<open>connection_create\<close> up to the tables; \<open>False\<close> is a jump to \<open>err\<close>. \<open>mem\<close> is what the
  block holds, a structure never initialised as a whole. The timer is unlinked (\<open>timer_init\<close>).
\<close>

definition connection_fill ::
  "ptr \<Rightarrow> packet \<Rightarrow> ptr \<Rightarrow> connection \<Rightarrow> 'a cnet_scheme \<Rightarrow> (bool \<times> 'a cnet_scheme) res" where
  "connection_fill p pkt v mem n =
     bindE (ng_interface_lookup_vsip n (packet_get_dip pkt)) (\<lambda>vs_addr.
     bindE (deref (vs_store (ng_vs n)) v) (\<lambda>vs.
     let cp = mem\<lparr>c_vs_addr := vs_addr, c_protocol := vs_protocol vs, c_vs := v\<rparr>;
         cp = (if vs_is_fullnat vs \<noteq> 0 then CONNECTION_SET_FULLNAT cp else CONNECTION_SET_TRANSPARANT cp)
     in bindE (vserver_get_server (ng_vs n) (ng_pools n) v) (\<lambda>(srv, pools).
        let cp = cp\<lparr>c_server := srv\<rparr>;
            n = n\<lparr>ng_pools := pools, conns := (conns n)(p \<mapsto> cp)\<rparr>
        in case srv of
             None \<Rightarrow> Inr (False, n)
           | Some srv \<Rightarrow>
               bindE (connection_set_route pkt p srv n) (\<lambda>(ret, n).
                 if ret = 0 then Inr (False, n)
                 else bindE (deref (conns n) p) (\<lambda>cp.
                   if CONNECTION_IS_FULLNAT cp then
                     bindE (connection_set_self_ip_port p (uint (server_adapter_idx cp))
                              (PACKET_IS_IPV4 pkt) (VS_IS_TCP vs) n) (\<lambda>(ret, n). Inr (ret \<noteq> 0, n))
                   else Inr (True, n))))))"

definition connection_create ::
  "(ptr \<Rightarrow> connection) \<Rightarrow> packet \<Rightarrow> ptr \<Rightarrow> 'a cnet_scheme \<Rightarrow> (ptr option \<times> 'a cnet_scheme) res" where
  "connection_create mem pkt v n =
     bindE (connectoin_get_free n) (\<lambda>(p, n).
       case p of
         None \<Rightarrow> Inr (None, n)
       | Some p \<Rightarrow>
           bindE (connection_fill p pkt v (mem p) n) (\<lambda>(done, n).
             if \<not> done then Inr (None, connectoin_put_free p n)
             else bindE (deref (conns n) p) (\<lambda>cp.
               let cp = cp\<lparr>client_addr := packet_get_sip pkt, client_port := packet_get_sport pkt\<rparr>
               in bindE (deref (vs_store (ng_vs n)) v) (\<lambda>vs.
                  let cp = (if VS_IS_TCP vs then cp\<lparr>c_state := TCP_INIT\<rparr> else cp)
                  in bindE (connection_add p (n\<lparr>conns := (conns n)(p \<mapsto> cp)\<rparr>)) (\<lambda>n.
                     bindE (timer_add (net_clock n) p CONNECTION_TIMEOUT_SECONDS) (\<lambda>(_, c).
                       Inr (Some p, n\<lparr>net_clock := c\<rparr>)))))))"

text \<open>\<open>junk\<close> are the two uninitialised tables.\<close>

definition connection_module_init :: "buckets \<Rightarrow> buckets \<Rightarrow> 'a cnet_scheme \<Rightarrow> (int \<times> 'a cnet_scheme) res" where
  "connection_module_init junk junk' n =
     bindE (connection_mem_pool_create n) (\<lambda>(ret, n).
       if ret = 0 then Inr (0, n)
       else case hashtable_alloc (ng_heap n) junk of
         (None, h) \<Rightarrow> Inr (0, n\<lparr>ng_heap := h\<rparr>)
       | (Some t, h) \<Rightarrow>
           let n = n\<lparr>client_hashtable := hashtable_init t CONN_HT_SIZE\<rparr>
           in case hashtable_alloc h junk' of
                (None, h) \<Rightarrow> Inr (0, n\<lparr>ng_heap := h\<rparr>)
              | (Some t, h) \<Rightarrow>
                  Inr (1, n\<lparr>self_hashtable := hashtable_init t CONN_HT_SIZE, ng_heap := h\<rparr>))"

end
