(* ===== verification/ConnInv.thy ===== *)
theory ConnInv
  imports Connection
begin

text \<open>
  What the connections of \<open>connection.c\<close> keep: the pool, the timer wheel and the two tables agree on
  which connections live (\<open>conn_ok\<close>), and every port a local IP has handed out is held by exactly
  one connection (\<open>ports_ok\<close>). Freeing and the time-out are treated here, creation in \<open>ConnCreate\<close>.
\<close>

section \<open>Port ranges of a local IP\<close>

definition lip_range :: "local_ip \<Rightarrow> bool \<Rightarrow> port_range option" where
  "lip_range lip tcp = (if tcp then tcp_port lip else udp_port lip)"

definition set_lip_range :: "local_ip \<Rightarrow> bool \<Rightarrow> port_range option \<Rightarrow> local_ip" where
  "set_lip_range lip tcp r = (if tcp then lip\<lparr>tcp_port := r\<rparr> else lip\<lparr>udp_port := r\<rparr>)"

lemma lip_range_set [simp]:
  "lip_range (set_lip_range lip t r) t' = (if t' = t then r else lip_range lip t')"
  by (simp add: lip_range_def set_lip_range_def)

lemma set_lip_range_frame [simp]:
  "lip_ident (set_lip_range lip t r) = lip_ident lip" "lip_addr (set_lip_range lip t r) = lip_addr lip"
  "lip_type (set_lip_range lip t r) = lip_type lip" "lip_nic_id (set_lip_range lip t r) = lip_nic_id lip"
  by (simp_all add: set_lip_range_def lip_ident_def)

lemma set_lip_range_same [simp]: "set_lip_range lip t (lip_range lip t) = lip"
  by (simp add: set_lip_range_def lip_range_def)

lemma lip_get_port:
  "(if t then lip_get_tcp_port lip p else lip_get_udp_port lip p)
     = bindE (get_from_range (lip_range lip t) p) (\<lambda>(p, r). Inr (p, set_lip_range lip t r))"
  by (simp add: lip_get_tcp_port_def lip_get_udp_port_def lip_range_def set_lip_range_def)

lemma lip_put_port:
  "(if t then lip_put_tcp_port lip p else lip_put_udp_port lip p)
     = bindE (port_range_put_port (lip_range lip t) p) (\<lambda>r. Inr (set_lip_range lip t r))"
  by (simp add: lip_put_tcp_port_def lip_put_udp_port_def lip_range_def set_lip_range_def)

text \<open>The shape of a ring that keeps every access inside its array, whatever it holds.\<close>

definition pr_shape :: "port_range \<Rightarrow> bool" where
  "pr_shape r \<longleftrightarrow> length (pr_ports r) = pr_size r \<and> pr_get r < pr_size r \<and> pr_put r < pr_size r"

lemma pr_ok_shape: "pr_ok r \<Longrightarrow> pr_shape r"
  by (simp add: pr_ok_def pr_shape_def)

lemma get_port_shape:
  assumes "pr_shape r"
  shows "\<exists>p r'. get_from_range (Some r) 0 = Inr (p, Some r') \<and> pr_shape r'"
  using assms
  by (auto simp: get_from_range_def port_range_get_port_def port_range_get_port1_def pr_shape_def Let_def)

lemma put_port_shape:
  assumes "pr_shape r"
  shows "\<exists>r'. port_range_put_port (Some r) p = Inr (Some r') \<and> pr_shape r'"
  using assms by (auto simp: port_range_put_port_def pr_shape_def Let_def)

definition lips_ok :: "local_ip store \<Rightarrow> bool" where
  "lips_ok lips \<longleftrightarrow> (\<forall>l lip t. lips l = Some lip \<longrightarrow> (\<exists>r. lip_range lip t = Some r \<and> pr_shape r))"

lemma lips_ok_upd:
  "lips_ok lips \<Longrightarrow> lips l = Some lip \<Longrightarrow> pr_shape r \<Longrightarrow> lips_ok (lips(l \<mapsto> set_lip_range lip t (Some r)))"
  by (auto simp: lips_ok_def)

section \<open>Tables that link every connection once\<close>

definition linked_once :: "buckets \<Rightarrow> bool" where
  "linked_once t \<longleftrightarrow> (\<exists>slot. table_ok (\<lambda>p. Inr (slot p)) t)"

lemma linked_once_add:
  assumes "linked_once t" "\<not> ht_mem t p"
  shows "linked_once (ht_add t i p)"
proof -
  obtain slot where s: "table_ok (\<lambda>p. Inr (slot p)) t" using assms(1) by (auto simp: linked_once_def)
  have "table_ok (\<lambda>q. Inr ((slot(p := i)) q)) t"
    using assms(2) by (intro table_ok_cong [OF s]) auto
  from table_ok_add [OF this, of p i] assms(2) show ?thesis by (auto simp: linked_once_def)
qed

lemma linked_once_del:
  assumes "linked_once t"
  shows "linked_once (ht_del t p)" "ht_mem (ht_del t p) q \<longleftrightarrow> q \<noteq> p \<and> ht_mem t q"
  using assms ht_mem_del table_ok_del unfolding linked_once_def by blast+

section \<open>The invariants\<close>

text \<open>What a live connection refers to exists.\<close>

definition conn_wf :: "'a cnet_scheme \<Rightarrow> connection \<Rightarrow> bool" where
  "conn_wf n cp \<longleftrightarrow> CONNECTION_IS_FULLNAT cp \<longrightarrow> ng_lips n (c_self_addr cp) \<noteq> None"

definition conn_ok :: "'a cnet_scheme \<Rightarrow> bool" where
  "conn_ok n \<longleftrightarrow> net_ok n \<and> lips_ok (ng_lips n) \<and> wheel_ok (net_clock n) \<and>
     (\<exists>live. pool_ok live (conn_mem_pool n) (ng_heap n) \<and> set live = dom (conns n)) \<and>
     (\<forall>p. timer_linked (net_clock n) p \<longleftrightarrow> p \<in> dom (conns n)) \<and>
     linked_once (client_hashtable n) \<and> linked_once (self_hashtable n) \<and>
     (\<forall>p. ht_mem (client_hashtable n) p \<longleftrightarrow> p \<in> dom (conns n)) \<and>
     (\<forall>p. ht_mem (self_hashtable n) p \<longleftrightarrow> (\<exists>cp. conns n p = Some cp \<and> CONNECTION_IS_FULLNAT cp)) \<and>
     (\<forall>p cp. conns n p = Some cp \<longrightarrow> conn_wf n cp)"

text \<open>The full-NAT connections that use a port of the local IP \<open>l\<close>, TCP or UDP.\<close>

definition holders :: "'a cnet_scheme \<Rightarrow> ptr \<Rightarrow> bool \<Rightarrow> ptr set" where
  "holders n l t = {p. \<exists>cp. conns n p = Some cp \<and> CONNECTION_IS_FULLNAT cp \<and> c_self_addr cp = l \<and>
     CONNECTION_IS_TCP cp = t}"

definition port_held :: "'a cnet_scheme \<Rightarrow> ptr \<Rightarrow> u16" where
  "port_held n p = c_self_port (the (conns n p))"

definition ports_ok :: "'a cnet_scheme \<Rightarrow> bool" where
  "ports_ok n \<longleftrightarrow> (\<forall>l lip t. ng_lips n l = Some lip \<longrightarrow> (\<exists>r. lip_range lip t = Some r \<and> pr_ok r \<and>
     distinct (pr_content r) \<and> finite (holders n l t) \<and> inj_on (port_held n) (holders n l t) \<and>
     (\<forall>p \<in> holders n l t. port_held n p \<noteq> 0 \<and> port_held n p \<notin> set (pr_content r)) \<and>
     card (holders n l t) = pr_room r))"

lemma conn_okD:
  assumes "conn_ok n"
  shows "net_ok n" "lips_ok (ng_lips n)" "wheel_ok (net_clock n)"
    "timer_linked (net_clock n) p \<longleftrightarrow> p \<in> dom (conns n)"
    "linked_once (client_hashtable n)" "linked_once (self_hashtable n)"
    "ht_mem (client_hashtable n) p \<longleftrightarrow> p \<in> dom (conns n)"
    "ht_mem (self_hashtable n) p \<longleftrightarrow> (\<exists>cp. conns n p = Some cp \<and> CONNECTION_IS_FULLNAT cp)"
  using assms unfolding conn_ok_def by metis+

lemma conn_okE:
  assumes "conn_ok n"
  obtains live where "pool_ok live (conn_mem_pool n) (ng_heap n)" "set live = dom (conns n)"
  using assms unfolding conn_ok_def by blast

lemma conn_ok_wf: "conn_ok n \<Longrightarrow> conns n p = Some cp \<Longrightarrow> conn_wf n cp"
  unfolding conn_ok_def by blast

text \<open>Neither invariant looks at the rest of the network.\<close>

lemma ports_ok_cong:
  assumes "ng_lips n' = ng_lips n" "conns n' = conns n"
  shows "ports_ok n' = ports_ok n"
proof -
  have "holders n' = holders n" "port_held n' = port_held n"
    using assms by (simp_all add: fun_eq_iff holders_def port_held_def)
  then show ?thesis using assms by (simp add: ports_ok_def)
qed

text \<open>Rewriting fields that no table, range or wheel depends on.\<close>

lemma conn_upd_ok:
  assumes ok: "conn_ok n" and p: "conns n p = Some cp"
    and same: "c_flags cp' = c_flags cp" "c_self_addr cp' = c_self_addr cp"
  shows "conn_ok (n\<lparr>conns := (conns n)(p \<mapsto> cp')\<rparr>)"
proof -
  let ?n = "n\<lparr>conns := (conns n)(p \<mapsto> cp')\<rparr>"
  have "dom (conns ?n) = dom (conns n)" using p by auto
  moreover have nat: "(\<exists>cp. conns ?n q = Some cp \<and> CONNECTION_IS_FULLNAT cp)
      = (\<exists>cp. conns n q = Some cp \<and> CONNECTION_IS_FULLNAT cp)" for q
    using p same(1) by (simp add: CONNECTION_IS_FULLNAT_def)
  moreover have "conn_wf ?n cq" if "conns ?n q = Some cq" for q cq
    using that conn_ok_wf [OF ok, of q] p same
    by (auto simp: conn_wf_def CONNECTION_IS_FULLNAT_def split: if_splits)
  moreover have "net_ok ?n" using conn_okD(1) [OF ok] by (simp add: net_ok_def)
  ultimately show ?thesis using ok unfolding conn_ok_def by simp
qed

section \<open>Keyed tables\<close>

text \<open>The buckets a connection belongs to in the two tables.\<close>

definition client_slot :: "'a cnet_scheme \<Rightarrow> ptr \<Rightarrow> nat res" where
  "client_slot n p = bindE (deref (conns n) p) (\<lambda>cp. Inr (connection_hashkey_client (ng_rand n) cp))"

definition self_slot :: "'a cnet_scheme \<Rightarrow> ptr \<Rightarrow> nat res" where
  "self_slot n p = bindE (deref (conns n) p) (\<lambda>cp. connection_hashkey_self (ng_rand n) (ng_lips n) cp)"

definition keys_ok :: "'a cnet_scheme \<Rightarrow> bool" where
  "keys_ok n \<longleftrightarrow> table_ok (client_slot n) (client_hashtable n) \<and> table_ok (self_slot n) (self_hashtable n)"

lemma slots_cong:
  assumes "ng_rand n' = ng_rand n" "conns n' p = conns n p"
    and "\<And>l. map_option lip_ident (ng_lips n' l) = map_option lip_ident (ng_lips n l)"
  shows "client_slot n' p = client_slot n p" "self_slot n' p = self_slot n p"
proof -
  show "client_slot n' p = client_slot n p" using assms(1,2) by (simp add: client_slot_def deref_def)
  have "bindE (deref (ng_lips n') l) (\<lambda>lip. Inr (connection_hashkey r (lip_addr lip) a b))
      = bindE (deref (ng_lips n) l) (\<lambda>lip. Inr (connection_hashkey r (lip_addr lip) a b))" for l r a b
    using assms(3) [of l]
    by (cases "ng_lips n l"; cases "ng_lips n' l") (simp_all add: deref_def lip_ident_def)
  then show "self_slot n' p = self_slot n p"
    using assms(1,2) by (simp add: self_slot_def deref_def connection_hashkey_self_def)
qed

section \<open>Freeing a connection\<close>

text \<open>The local IP to which a connection's port goes back.\<close>

definition lip_after_free :: "connection \<Rightarrow> local_ip \<Rightarrow> local_ip \<Rightarrow> bool" where
  "lip_after_free cp lip lip' \<longleftrightarrow> (\<exists>r r'. lip_range lip (CONNECTION_IS_TCP cp) = Some r \<and>
     port_range_put_port (Some r) (c_self_port cp) = Inr (Some r') \<and> pr_shape r' \<and>
     lip' = set_lip_range lip (CONNECTION_IS_TCP cp) (Some r'))"

definition freed :: "ptr \<Rightarrow> local_ip store \<Rightarrow> connection \<Rightarrow> 'a cnet_scheme \<Rightarrow> 'a cnet_scheme" where
  "freed p lips cp n = n\<lparr>ng_lips := lips, net_clock := timer_del (net_clock n) p,
     client_hashtable := ht_del (client_hashtable n) p,
     self_hashtable := (if CONNECTION_IS_FULLNAT cp then ht_del (self_hashtable n) p else self_hashtable n),
     conn_mem_pool := mem_pool_free (conn_mem_pool n) p, conns := (conns n)(p := None)\<rparr>"

lemma connection_free_eq:
  assumes ok: "conn_ok n" and p: "conns n p = Some cp"
  shows "\<exists>lips. connection_free p n = Inr (freed p lips cp n) \<and>
     (if CONNECTION_IS_FULLNAT cp
      then \<exists>lip lip'. ng_lips n (c_self_addr cp) = Some lip \<and> lip_after_free cp lip lip' \<and>
             lips = (ng_lips n)(c_self_addr cp \<mapsto> lip')
      else lips = ng_lips n)"
proof (cases "CONNECTION_IS_FULLNAT cp")
  case False
  then show ?thesis using p
    by (simp add: connection_free_def connection_del_def connectoin_put_free_def freed_def Let_def)
next
  case True
  let ?t = "CONNECTION_IS_TCP cp" and ?l = "c_self_addr cp"
  obtain lip where lip: "ng_lips n ?l = Some lip"
    using conn_ok_wf [OF ok p] True by (auto simp: conn_wf_def)
  obtain r where r: "lip_range lip ?t = Some r" "pr_shape r"
    using conn_okD(2) [OF ok] lip unfolding lips_ok_def by blast
  obtain r' where r': "port_range_put_port (Some r) (c_self_port cp) = Inr (Some r')" "pr_shape r'"
    using put_port_shape [OF r(2)] by blast
  let ?lip' = "set_lip_range lip ?t (Some r')"
  have put: "(if ?t then lip_put_tcp_port lip (c_self_port cp) else lip_put_udp_port lip (c_self_port cp)) = Inr ?lip'"
    unfolding lip_put_port using r r' by simp
  have "connection_free p n = Inr (freed p ((ng_lips n)(?l \<mapsto> ?lip')) cp n)"
    using True p lip put
    by (simp add: connection_free_def connection_del_def connectoin_put_free_def freed_def Let_def)
  then show ?thesis using True lip r r' by (auto simp: lip_after_free_def)
qed

lemma lip_after_free_ident: "lip_after_free cp lip lip' \<Longrightarrow> lip_ident lip' = lip_ident lip"
  by (auto simp: lip_after_free_def)

lemma connection_free_keys:
  assumes ok: "conn_ok n" and keys: "keys_ok n" and p: "conns n p = Some cp"
    and f: "connection_free p n = Inr (freed p lips cp n)" and ok': "conn_ok (freed p lips cp n)"
  shows "keys_ok (freed p lips cp n)"
proof -
  let ?n = "freed p lips cp n"
  obtain lips' where l: "connection_free p n = Inr (freed p lips' cp n)"
     "if CONNECTION_IS_FULLNAT cp
      then \<exists>lip lip'. ng_lips n (c_self_addr cp) = Some lip \<and> lip_after_free cp lip lip' \<and>
             lips' = (ng_lips n)(c_self_addr cp \<mapsto> lip')
      else lips' = ng_lips n"
    using connection_free_eq [OF ok p] by blast
  have "lips = ng_lips ?n" "lips' = ng_lips (freed p lips' cp n)" by (simp_all add: freed_def)
  then have "lips' = lips" using f l(1) by simp
  then have "map_option lip_ident (ng_lips ?n a) = map_option lip_ident (ng_lips n a)" for a
    using l(2) lip_after_free_ident by (fastforce simp: freed_def split: if_splits)
  then have slots: "client_slot ?n q = client_slot n q" "self_slot ?n q = self_slot n q" if "q \<noteq> p" for q
    using that by (intro slots_cong; simp add: freed_def)+
  have "table_ok (client_slot n) (client_hashtable ?n)" "table_ok (self_slot n) (self_hashtable ?n)"
    using keys table_ok_del by (auto simp: keys_ok_def freed_def)
  moreover have "q \<noteq> p" if "ht_mem (client_hashtable ?n) q \<or> ht_mem (self_hashtable ?n) q" for q
    using that conn_okD(7,8) [OF ok', of q] by (auto simp: freed_def)
  ultimately show ?thesis
    unfolding keys_ok_def using slots by (metis table_ok_cong)
qed

lemma linked_other_del:
  assumes "wheel_ok c"
  shows "timer_linked (timer_del c p) q \<longleftrightarrow> q \<noteq> p \<and> timer_linked c q"
  using assms by (auto simp: timer_linked_iff timer_del_table)

text \<open>Freeing never faults and keeps the invariant.\<close>

lemma connection_free_ok:
  assumes ok: "conn_ok n" and p: "conns n p = Some cp"
  shows "\<exists>lips. connection_free p n = Inr (freed p lips cp n) \<and> conn_ok (freed p lips cp n)"
proof -
  obtain lips where f: "connection_free p n = Inr (freed p lips cp n)"
    and l: "if CONNECTION_IS_FULLNAT cp
      then \<exists>lip lip'. ng_lips n (c_self_addr cp) = Some lip \<and> lip_after_free cp lip lip' \<and>
             lips = (ng_lips n)(c_self_addr cp \<mapsto> lip')
      else lips = ng_lips n"
    using connection_free_eq [OF ok p] by blast
  let ?n = "freed p lips cp n"
  have nl: "net_ok (n\<lparr>ng_lips := lips\<rparr>) \<and> lips_ok lips \<and> 
      (\<forall>l. map_option lip_ident (lips l) = map_option lip_ident (ng_lips n l))"
  proof (cases "CONNECTION_IS_FULLNAT cp")
    case True
    then obtain lip r where lr: "ng_lips n (c_self_addr cp) = Some lip" "pr_shape r"
        "lips = (ng_lips n)(c_self_addr cp \<mapsto> set_lip_range lip (CONNECTION_IS_TCP cp) (Some r))"
      using l by (auto simp: lip_after_free_def)
    show ?thesis unfolding lr(3)
      using net_ok_lip [OF conn_okD(1) [OF ok] lr(1)] lips_ok_upd [OF conn_okD(2) [OF ok] lr(1,2)] lr(1) by simp
  next
    case False
    then show ?thesis using l conn_okD(1,2) [OF ok] by simp
  qed
  have net: "net_ok ?n" using nl by (simp add: net_ok_def freed_def)
  obtain live where live: "pool_ok live (conn_mem_pool n) (ng_heap n)" "set live = dom (conns n)"
    by (rule conn_okE [OF ok])
  have pl: "p \<in> set live" using live(2) p by auto
  have pool: "\<exists>live. pool_ok live (conn_mem_pool ?n) (ng_heap ?n) \<and> set live = dom (conns ?n)"
    using give_block_ok [OF live(1) pl] live
    by (intro exI [of _ "remove1 p live"]) (auto simp: freed_def pool_ok_def)
  have tables: "linked_once (client_hashtable ?n)" "linked_once (self_hashtable ?n)"
      "ht_mem (client_hashtable ?n) q \<longleftrightarrow> q \<in> dom (conns ?n)"
      "ht_mem (self_hashtable ?n) q \<longleftrightarrow> (\<exists>cp. conns ?n q = Some cp \<and> CONNECTION_IS_FULLNAT cp)" for q
    using linked_once_del [OF conn_okD(5) [OF ok]] linked_once_del [OF conn_okD(6) [OF ok]]
      conn_okD(5-8) [OF ok] p by (auto simp: freed_def)
  have clock: "wheel_ok (net_clock ?n)" "timer_linked (net_clock ?n) q \<longleftrightarrow> q \<in> dom (conns ?n)" for q
    using timer_del_ok [OF conn_okD(3) [OF ok]] linked_other_del [OF conn_okD(3) [OF ok]] conn_okD(4) [OF ok, of q]
    by (auto simp: freed_def)
  have wf: "conn_wf ?n cq" if "conns ?n q = Some cq" for q cq
  proof -
    have "map_option lip_ident (lips (c_self_addr cq)) = map_option lip_ident (ng_lips n (c_self_addr cq))"
      using nl by blast
    then show ?thesis
      using that conn_ok_wf [OF ok, of q cq] by (auto simp: freed_def conn_wf_def split: if_splits)
  qed
  have "conn_ok ?n"
    unfolding conn_ok_def using net nl pool tables clock wf by (simp add: freed_def)
  with f show ?thesis by blast
qed

section \<open>The ports come back\<close>

text \<open>One range with its holders.\<close>

definition range_held :: "'a cnet_scheme \<Rightarrow> port_range \<Rightarrow> ptr set \<Rightarrow> bool" where
  "range_held n r H \<longleftrightarrow> pr_ok r \<and> distinct (pr_content r) \<and> finite H \<and> inj_on (port_held n) H \<and>
     (\<forall>p \<in> H. port_held n p \<noteq> 0 \<and> port_held n p \<notin> set (pr_content r)) \<and> card H = pr_room r"

lemma ports_ok_iff:
  "ports_ok n \<longleftrightarrow> (\<forall>l lip t. ng_lips n l = Some lip \<longrightarrow>
     (\<exists>r. lip_range lip t = Some r \<and> range_held n r (holders n l t)))"
  unfolding ports_ok_def range_held_def by (rule refl)

lemma ports_okD:
  assumes "ports_ok n" "ng_lips n l = Some lip" "lip_range lip t = Some r"
  shows "range_held n r (holders n l t)"
proof -
  obtain r' where "lip_range lip t = Some r'" "range_held n r' (holders n l t)"
    using assms(1,2) unfolding ports_ok_iff by blast
  then show ?thesis using assms(3) by simp
qed

lemma range_held_put:
  assumes h: "range_held n r H" and p: "p \<in> H"
    and same: "\<And>q. q \<in> H \<Longrightarrow> q \<noteq> p \<Longrightarrow> port_held n' q = port_held n q"
  shows "\<exists>r'. port_range_put_port (Some r) (port_held n p) = Inr (Some r') \<and>
    pr_content r' = pr_content r @ [port_held n p] \<and> range_held n' r' (H - {p})"
proof -
  have f: "finite H" "card H = pr_room r" "inj_on (port_held n) H" using h by (auto simp: range_held_def)
  have room: "0 < pr_room r" using f p card_gt_0_iff [of H] by auto
  have nz: "pr_ok r" "port_held n p \<noteq> 0" using h p by (auto simp: range_held_def)
  from put_port_room [OF nz room] obtain r' where
    r': "port_range_put_port (Some r) (port_held n p) = Inr (Some r')" "pr_ok r'"
      "pr_content r' = pr_content r @ [port_held n p]" "Suc (pr_room r') = pr_room r" by blast
  have c: "card (H - {p}) = pr_room r'" using f p r'(4) by simp
  have inj: "inj_on (port_held n') (H - {p})"
    using f(3) same by (auto simp: inj_on_def)
  have "port_held n' q \<noteq> 0 \<and> port_held n' q \<notin> set (pr_content r')" if q: "q \<in> H - {p}" for q
    using h p q same [of q] f(3) r'(3) by (auto simp: range_held_def inj_on_def)
  moreover have "distinct (pr_content r')" using h p r'(3) by (auto simp: range_held_def)
  ultimately have "range_held n' r' (H - {p})" using r'(2) f(1) c inj by (simp add: range_held_def)
  with r' show ?thesis by blast
qed

lemma holders_freed:
  "conns n p = Some cp \<Longrightarrow> holders (freed p lips cp n) l t = holders n l t - {p}"
  by (auto simp: holders_def freed_def)

lemma port_held_freed: "q \<noteq> p \<Longrightarrow> port_held (freed p lips cp n) q = port_held n q"
  by (simp add: port_held_def freed_def)

lemma range_held_other:
  "range_held n r H \<Longrightarrow> (\<And>q. q \<in> H \<Longrightarrow> port_held n' q = port_held n q) \<Longrightarrow> range_held n' r H"
  by (simp add: range_held_def cong: inj_on_cong)

text \<open>
  With the ports accounted for, the port of a full-NAT connection goes to the end of the range it
  was taken from, and the accounts are right again.
\<close>

lemma connection_free_ports:
  assumes ok: "conn_ok n" and ports: "ports_ok n" and p: "conns n p = Some cp"
  shows "\<exists>lips. connection_free p n = Inr (freed p lips cp n) \<and> conn_ok (freed p lips cp n) \<and>
    ports_ok (freed p lips cp n) \<and>
    (if CONNECTION_IS_FULLNAT cp
     then \<exists>lip r r'. ng_lips n (c_self_addr cp) = Some lip \<and> lip_range lip (CONNECTION_IS_TCP cp) = Some r \<and>
       lips = (ng_lips n)(c_self_addr cp \<mapsto> set_lip_range lip (CONNECTION_IS_TCP cp) (Some r')) \<and>
       pr_content r' = pr_content r @ [c_self_port cp]
     else lips = ng_lips n)"
proof -
  obtain lips where f: "connection_free p n = Inr (freed p lips cp n)"
    and l: "if CONNECTION_IS_FULLNAT cp
      then \<exists>lip lip'. ng_lips n (c_self_addr cp) = Some lip \<and> lip_after_free cp lip lip' \<and>
             lips = (ng_lips n)(c_self_addr cp \<mapsto> lip')
      else lips = ng_lips n"
    using connection_free_eq [OF ok p] by blast
  have cok: "conn_ok (freed p lips cp n)" using connection_free_ok [OF ok p] f by auto
  have keep: "\<exists>r. lip_range lip t = Some r \<and> range_held (freed p lips cp n) r (holders n l' t - {p})"
    if k: "ng_lips n l' = Some lip" "p \<notin> holders n l' t" for l' lip t
  proof -
    obtain r where r: "lip_range lip t = Some r" "range_held n r (holders n l' t)"
      using ports k(1) unfolding ports_ok_iff by blast
    have "range_held (freed p lips cp n) r (holders n l' t)"
      using k(2) by (intro range_held_other [OF r(2)] port_held_freed) blast
    then show ?thesis using r(1) k(2) by (metis Diff_empty Diff_insert0)
  qed
  show ?thesis
  proof (cases "CONNECTION_IS_FULLNAT cp")
    case False
    then have "p \<notin> holders n l' t" for l' t using p by (auto simp: holders_def)
    with keep have "ports_ok (freed p lips cp n)"
      unfolding ports_ok_iff using l False p by (simp add: holders_freed [OF p]) (simp add: freed_def)
    then show ?thesis using f cok l False by auto
  next
    case True
    let ?t = "CONNECTION_IS_TCP cp" and ?a = "c_self_addr cp"
    have ph: "p \<in> holders n ?a ?t" "port_held n p = c_self_port cp"
      using True p by (auto simp: holders_def port_held_def)
    obtain lip r r1 where lr: "ng_lips n ?a = Some lip" "lip_range lip ?t = Some r"
      "port_range_put_port (Some r) (c_self_port cp) = Inr (Some r1)"
      "lips = (ng_lips n)(?a \<mapsto> set_lip_range lip ?t (Some r1))"
      using l True by (auto simp: lip_after_free_def)
    have h: "range_held n r (holders n ?a ?t)" by (rule ports_okD [OF ports lr(1,2)])
    from range_held_put [OF h ph(1), of "freed p lips cp n"] ph(2) lr(3)
    have r1: "pr_content r1 = pr_content r @ [c_self_port cp]"
        "range_held (freed p lips cp n) r1 (holders n ?a ?t - {p})"
      by (auto simp: port_held_freed)
    have other: "p \<notin> holders n l' t" if "l' \<noteq> ?a \<or> t \<noteq> ?t" for l' t
      using that p by (auto simp: holders_def)
    have "\<exists>r. lip_range lip' t = Some r \<and> range_held (freed p lips cp n) r (holders n l' t - {p})"
      if "lips l' = Some lip'" for l' lip' t
    proof (cases "l' = ?a \<and> t = ?t")
      case True
      then show ?thesis using that lr(4) r1(2) by auto
    next
      case False
      then have np: "p \<notin> holders n l' t" by (intro other) blast
      show ?thesis
      proof (cases "l' = ?a")
        case True
        then have "lip' = set_lip_range lip ?t (Some r1)" "t \<noteq> ?t" using that lr(4) False by auto
        then show ?thesis using keep [OF _ np, of lip] lr(1) True by simp
      next
        case False
        then show ?thesis using keep [OF _ np, of lip'] that lr(4) by simp
      qed
    qed
    then have "ports_ok (freed p lips cp n)"
      unfolding ports_ok_iff holders_freed [OF p] by (simp add: freed_def)
    then show ?thesis using f cok lr r1(1) True by auto
  qed
qed

section \<open>Time-outs\<close>

lemma bindE_InrE:
  assumes "bindE r f = Inr y"
  obtains x where "r = Inr x" "f x = Inr y"
  using assms by (cases r) auto

lemma connection_free_clock:
  assumes "connection_free p n = Inr n'"
  shows "net_clock n' = timer_del (net_clock n) p"
proof -
  obtain cp where cp: "conns n p = Some cp"
    using assms by (auto simp: connection_free_def fault_simps)
  have del: "net_clock m' = net_clock m" if "connection_del p m = Inr m'" "conns m p = Some cp" for m m'
    using that by (cases "CONNECTION_IS_FULLNAT cp") (auto simp: connection_del_def Let_def)
  have put: "net_clock (connectoin_put_free p m) = net_clock m" for m
    by (simp add: connectoin_put_free_def)
  show ?thesis
    using assms cp unfolding connection_free_def Let_def
    by (cases "CONNECTION_IS_FULLNAT cp") (simp_all add: bindE_assoc, (elim bindE_InrE; auto simp: put dest: del)+)
qed

lemma timeout_handler_eq:
  "timeout_handler p (c, n) = bindE (connection_free p (n\<lparr>net_clock := c\<rparr>)) (\<lambda>n. Inr (net_clock n, n))"
  by (cases "connection_free p (n\<lparr>net_clock := c\<rparr>)") (simp_all add: timeout_handler_def connection_timeout_def)

lemma timeout_keeps_times: "keeps_times timeout_handler"
  unfolding keeps_times_def
proof (intro allI impI)
  fix p and s s' :: "clock \<times> 'a cnet_scheme" assume h: "timeout_handler p s = Inr s'"
  obtain c n where s: "s = (c, n)" by (cases s)
  obtain n' where n': "connection_free p (n\<lparr>net_clock := c\<rparr>) = Inr n'" "s' = (net_clock n', n')"
    using h unfolding s timeout_handler_eq by (auto simp: fault_simps)
  have "fst s' = timer_del c p" using connection_free_clock [OF n'(1)] n'(2) by simp
  then show "same_times (fst s) (fst s') \<and> next_clock_second (fst s') = next_clock_second (fst s)"
    by (simp add: s same_times_def)
qed

text \<open>The connections of one slot are freed, and no other.\<close>

definition wheel_less :: "clock \<Rightarrow> ptr set \<Rightarrow> clock \<Rightarrow> bool" where
  "wheel_less c D c' \<longleftrightarrow> total_clock_seconds c' = total_clock_seconds c \<and>
     (\<forall>i < nat (total_clock_seconds c). timer_table c' i = filter (\<lambda>t. t \<notin> D) (timer_table c i))"

lemma wheel_less_trans: "wheel_less c D c1 \<Longrightarrow> wheel_less c1 E c2 \<Longrightarrow> wheel_less c (D \<union> E) c2"
  by (auto simp: wheel_less_def intro: filter_cong)

lemma wheel_less_del: "wheel_ok c \<Longrightarrow> wheel_less c {t} (timer_del c t)"
  by (simp add: wheel_less_def timer_del_table)

lemma expire_list:
  "conn_ok (n\<lparr>net_clock := c\<rparr>) \<Longrightarrow> distinct ts \<Longrightarrow> set ts \<subseteq> dom (conns n) \<Longrightarrow>
     \<exists>c' n'. foldE timeout_handler ts (c, n) = Inr (c', n') \<and> conn_ok (n'\<lparr>net_clock := c'\<rparr>) \<and>
       conns n' = conns n |` (- set ts) \<and> wheel_less c (set ts) c' \<and> next_clock_second c' = next_clock_second c"
proof (induction ts arbitrary: c n)
  case Nil
  then show ?case by (simp add: wheel_less_def)
next
  case (Cons t ts)
  obtain cp where cp: "conns (n\<lparr>net_clock := c\<rparr>) t = Some cp" using Cons.prems(3) by auto
  obtain lips where f: "connection_free t (n\<lparr>net_clock := c\<rparr>) = Inr (freed t lips cp (n\<lparr>net_clock := c\<rparr>))"
      "conn_ok (freed t lips cp (n\<lparr>net_clock := c\<rparr>))"
    using connection_free_ok [OF Cons.prems(1) cp] by blast
  let ?n1 = "freed t lips cp (n\<lparr>net_clock := c\<rparr>)"
  have n1: "net_clock ?n1 = timer_del c t" "conns ?n1 = (conns n)(t := None)"
    "?n1\<lparr>net_clock := timer_del c t\<rparr> = ?n1" by (simp_all add: freed_def)
  have w: "wheel_ok c" using conn_okD(3) [OF Cons.prems(1)] by simp
  obtain c' n' where r: "foldE timeout_handler ts (timer_del c t, ?n1) = Inr (c', n')"
      "conn_ok (n'\<lparr>net_clock := c'\<rparr>)" "conns n' = conns ?n1 |` (- set ts)"
      "wheel_less (timer_del c t) (set ts) c'" "next_clock_second c' = next_clock_second c"
  proof -
    have "distinct ts" "set ts \<subseteq> dom (conns ?n1)" using Cons.prems(2,3) unfolding n1(2) by auto
    then show ?thesis using Cons.IH [of "timer_del c t" ?n1] f(2) n1(3) that by auto
  qed
  have "foldE timeout_handler (t # ts) (c, n) = Inr (c', n')"
    using f(1) n1(1) r(1) by (simp add: timeout_handler_eq)
  moreover have "conns n' = conns n |` (- set (t # ts))"
    using r(3) n1(2) by (auto simp: fun_eq_iff restrict_map_def)
  moreover have "wheel_less c (set (t # ts)) c'"
    using wheel_less_trans [OF wheel_less_del [OF w] r(4)] by simp
  ultimately show ?case using r(2,5) by blast
qed

text \<open>The timers that are due within \<open>k\<close> turns of the wheel.\<close>

definition due :: "clock \<Rightarrow> nat \<Rightarrow> ptr set" where
  "due c k = (\<Union>j\<in>{1..k}. set (timer_table c (slot c j)))"

lemma due_Suc: "due c (Suc k) = due c k \<union> set (timer_table c (slot c (Suc k)))"
  by (simp add: due_def atLeastAtMostSuc_conv Un_commute)

lemma expire_ticks:
  assumes ok: "conn_ok n" and c: "net_clock n = c"
  shows "\<exists>c' n'. ticks timeout_handler k (c, n) = Inr (c', n') \<and> conn_ok (n'\<lparr>net_clock := c'\<rparr>) \<and>
    conns n' = conns n |` (- due c k) \<and> wheel_less c (due c k) c' \<and>
    next_clock_second c' = (next_clock_second c + int k) mod total_clock_seconds c"
proof (induction k)
  case 0
  have "wheel_ok c" using conn_okD(3) [OF ok] c by simp
  moreover have "n\<lparr>net_clock := c\<rparr> = n" using c by simp
  ultimately show ?case using ok by (simp add: due_def wheel_less_def wheel_ok_def)
next
  case (Suc k)
  let ?N = "total_clock_seconds c" and ?s = "slot c (Suc k)"
  have w: "wheel_ok c" using conn_okD(3) [OF ok] c by simp
  obtain c1 n1 where 1: "ticks timeout_handler k (c, n) = Inr (c1, n1)" "conn_ok (n1\<lparr>net_clock := c1\<rparr>)"
      "conns n1 = conns n |` (- due c k)" "wheel_less c (due c k) c1"
      "next_clock_second c1 = (next_clock_second c + int k) mod ?N"
    using Suc.IH by blast
  have w1: "wheel_ok c1" using conn_okD(3) [OF 1(2)] by simp
  have N: "total_clock_seconds c1 = ?N" using 1(4) by (simp add: wheel_less_def)
  have nx: "next_slot c1 = (next_clock_second c + int (Suc k)) mod ?N"
    using next_slot_eq [OF w1] 1(5) N mod_add_left_eq [of "next_clock_second c + int k" ?N 1]
    by (simp add: ac_simps)
  then have s: "nat (next_slot c1) = ?s" by (simp add: slot_def)
  let ?c2 = "c1\<lparr>next_clock_second := next_slot c1\<rparr>" and ?ts = "timer_table c1 ?s"
  have i: "?s < nat ?N" by (rule slot_less [OF w])
  have pos: "0 < ?N" using w by (simp add: wheel_ok_def)
  have link: "timer_linked ?c2 p = timer_linked c1 p" for p by (simp add: timer_linked_def)
  have w2: "wheel_ok ?c2" using w1 nx N pos by (simp add: wheel_ok_def)
  have ok2: "conn_ok (n1\<lparr>net_clock := ?c2\<rparr>)"
    using 1(2) w2 link by (simp add: conn_ok_def net_ok_def conn_wf_def)
  have ts: "distinct ?ts" "set ?ts \<subseteq> dom (conns n1)"
    using w1 i N conn_okD(4) [OF 1(2)] by (auto simp: wheel_ok_def timer_linked_iff)
  obtain c' n' where 2: "foldE timeout_handler ?ts (?c2, n1) = Inr (c', n')" "conn_ok (n'\<lparr>net_clock := c'\<rparr>)"
      "conns n' = conns n1 |` (- set ?ts)" "wheel_less ?c2 (set ?ts) c'" "next_clock_second c' = next_slot c1"
    using expire_list [OF ok2 ts] by auto
  have "?ts = filter (\<lambda>t. t \<notin> due c k) (timer_table c ?s)" using 1(4) i by (simp add: wheel_less_def)
  then have due: "due c k \<union> set ?ts = due c (Suc k)" by (auto simp: due_Suc)
  have "ticks timeout_handler (Suc k) (c, n) = Inr (c', n')"
    using 1(1) 2(1) s by (simp add: ticks_snoc tick_eq)
  moreover have "conns n' = conns n |` (- due c (Suc k))"
    using 2(3) 1(3) due by (auto simp: fun_eq_iff restrict_map_def)
  moreover have "wheel_less c1 (set ?ts) c'" using 2(4) by (simp add: wheel_less_def)
  then have "wheel_less c (due c (Suc k)) c'" using wheel_less_trans [OF 1(4)] due by metis
  ultimately show ?case using 2(2,5) nx by auto
qed

text \<open>
  \<open>timer_expire\<close> with the handlers of the connections: it never faults, and after it exactly the
  connections are gone whose timers lie in the slots of the seconds that passed.
\<close>

lemma net_timer_expire_spec:
  assumes ok: "conn_ok n" and f: "0 < cpu_frequency (net_clock n)"
    and k_def: "k = whole_seconds (cpu_frequency (net_clock n)) (CLOCK tsc - phase (net_clock n))"
  shows "\<exists>n'. net_timer_expire tsc n = Inr n' \<and> conn_ok n' \<and>
    conns n' = conns n |` (- due (net_clock n) k) \<and>
    phase (net_clock n') = phase (net_clock n) + of_nat k * cpu_frequency (net_clock n) \<and>
    total_clock_seconds (net_clock n') = total_clock_seconds (net_clock n) \<and> cpu_frequency (net_clock n') = cpu_frequency (net_clock n)"
proof -
  obtain c1 n1 where t: "ticks timeout_handler k (net_clock n, n) = Inr (c1, n1)"
      "conn_ok (n1\<lparr>net_clock := c1\<rparr>)" "conns n1 = conns n |` (- due (net_clock n) k)"
    using expire_ticks [OF ok refl, of k] by blast
  obtain c' where c': "timer_expire timeout_handler tsc (net_clock n, n) = Inr (c', n1)"
      "timer_table c' = timer_table c1" "next_clock_second c' = next_clock_second c1"
      "total_clock_seconds c' = total_clock_seconds (net_clock n)"
      "phase c' = phase (net_clock n) + of_nat k * cpu_frequency (net_clock n)" "cpu_frequency c' = cpu_frequency (net_clock n)"
    using timer_expire_spec [OF timeout_keeps_times f refl refl t(1) [unfolded k_def]] k_def by blast
  have "total_clock_seconds c' = total_clock_seconds c1"
    using c'(4) ticks_keep [OF timeout_keeps_times t(1)] by (simp add: same_times_def)
  then have "wheel_ok c' = wheel_ok c1" "timer_linked c' p = timer_linked c1 p" for p
    using c'(2,3) by (simp_all add: wheel_ok_def timer_linked_def)
  then have "conn_ok (n1\<lparr>net_clock := c'\<rparr>)"
    using t(2) by (simp add: conn_ok_def net_ok_def conn_wf_def)
  then show ?thesis using c'(1,4-6) t(3) by (simp add: net_timer_expire_def)
qed

end
