(* ===== verification/ConnLookup.thy ===== *)
theory ConnLookup
  imports ConnInv
begin

text \<open>
  Looking a connection up. The walk compares address and port only and overwrites the protocol of
  the connection it answers, so a search is a \<open>bucket_search\<close> with a condition that does not see
  the protocol, followed by one write.
\<close>

section \<open>The walk\<close>

definition client_match :: "connection store \<Rightarrow> ptr \<Rightarrow> ip_address \<times> u16 \<times> u8 \<Rightarrow> bool res" where
  "client_match cs p = (\<lambda>(ip, port, proto). bindE (deref cs p) (\<lambda>cp.
     Inr (ip_address_eq (client_addr cp) ip \<and> client_port cp = port)))"

definition self_match :: "local_ip store \<times> connection store \<Rightarrow> ptr \<Rightarrow> ip_address \<times> u16 \<times> u8 \<Rightarrow> bool res" where
  "self_match = (\<lambda>(lips, cs) p (ip, port, proto). bindE (deref cs p) (\<lambda>cp.
     bindE (deref lips (c_self_addr cp)) (\<lambda>lip.
       Inr (ip_address_eq (lip_addr lip) ip \<and> c_self_port cp = port))))"

fun conn_slot :: "u32 \<Rightarrow> ip_address \<times> u16 \<times> u8 \<Rightarrow> nat" where
  "conn_slot r (ip, port, proto) = connection_hashkey r ip (ucast port) (ucast proto)"

text \<open>Both tables are searched by walking the bucket of the key.\<close>

interpretation client_search: bucket_search "conn_slot r" client_match for r .

interpretation self_search: bucket_search "conn_slot r" self_match for r .

definition set_proto :: "ptr \<Rightarrow> u8 \<Rightarrow> connection store \<Rightarrow> connection store" where
  "set_proto p proto cs = cs(p := map_option (\<lambda>cp. cp\<lparr>c_protocol := proto\<rparr>) (cs p))"

lemma client_eq_match:
  "proto \<noteq> 0 \<Longrightarrow> connection_client_eq ip port proto p cs
     = bindE (client_match cs p (ip, port, proto)) (\<lambda>b. Inr (b, if b then set_proto p proto cs else cs))"
  by (cases "cs p") (auto simp: connection_client_eq_def client_match_def set_proto_def deref_def)

lemma self_eq_match:
  "proto \<noteq> 0 \<Longrightarrow> connection_self_eq lips ip port proto p cs
     = bindE (self_match (lips, cs) p (ip, port, proto)) (\<lambda>b. Inr (b, if b then set_proto p proto cs else cs))"
  by (cases "cs p"; cases "lips (c_self_addr (the (cs p)))")
    (auto simp: connection_self_eq_def self_match_def set_proto_def deref_def)

lemma walk_find:
  assumes "\<And>p. eq p cs = bindE (m p) (\<lambda>b. Inr (b, if b then w p cs else cs))"
  shows "conn_walk eq ps cs = bindE (list_find m ps) (\<lambda>r. Inr (r, case r of None \<Rightarrow> cs | Some p \<Rightarrow> w p cs))"
proof (induction ps)
  case (Cons p ps)
  show ?case
  proof (cases "m p")
    case (Inr b)
    then show ?thesis using Cons by (cases b) (simp_all add: assms)
  qed (simp add: assms)
qed simp

definition match_in :: "'a cnet_scheme \<Rightarrow> bool \<Rightarrow> ip_address \<times> u16 \<times> u8 \<Rightarrow> ptr \<Rightarrow> bool res" where
  "match_in n is_client k p =
     (if is_client then client_match (conns n) p k else self_match (ng_lips n, conns n) p k)"

definition bucket_of :: "'a cnet_scheme \<Rightarrow> bool \<Rightarrow> nat \<Rightarrow> ptr list" where
  "bucket_of n is_client i = (if is_client then client_hashtable n i else self_hashtable n i)"

lemma lookup_find:
  assumes "proto \<noteq> 0" and k: "k = (ip, port, proto)"
  shows "connection_lookup ip port proto is_client n
     = bindE (list_find (match_in n is_client k) (bucket_of n is_client (conn_slot (ng_rand n) k)))
         (\<lambda>r. Inr (r, n\<lparr>conns := (case r of None \<Rightarrow> conns n | Some p \<Rightarrow> set_proto p proto (conns n))\<rparr>))"
proof -
  have m: "(\<lambda>p. match_in n is_client k p) = match_in n is_client k" by simp
  show ?thesis
  proof (cases is_client)
    case True
    have "conn_walk (connection_client_eq ip port proto) ps (conns n)
        = bindE (list_find (match_in n is_client k) ps)
            (\<lambda>r. Inr (r, case r of None \<Rightarrow> conns n | Some p \<Rightarrow> set_proto p proto (conns n)))" for ps
      using assms True by (intro walk_find) (simp add: client_eq_match match_in_def)
    then show ?thesis
      using True k by (simp add: connection_lookup_def bucket_of_def Let_def bindE_assoc)
  next
    case False
    have "conn_walk (connection_self_eq (ng_lips n) ip port proto) ps (conns n)
        = bindE (list_find (match_in n is_client k) ps)
            (\<lambda>r. Inr (r, case r of None \<Rightarrow> conns n | Some p \<Rightarrow> set_proto p proto (conns n)))" for ps
      using assms False by (intro walk_find) (simp add: self_eq_match match_in_def)
    then show ?thesis
      using False k by (simp add: connection_lookup_def bucket_of_def Let_def bindE_assoc)
  qed
qed

section \<open>The result\<close>

lemma set_proto_dom [simp]: "dom (set_proto p proto cs) = dom cs"
  by (auto simp: set_proto_def dom_def)

lemma set_proto_eq:
  "set_proto p proto cs q = Some cq \<longleftrightarrow>
     (\<exists>cp. cs q = Some cp \<and> cq = (if q = p then cp\<lparr>c_protocol := proto\<rparr> else cp))"
  by (auto simp: set_proto_def)

text \<open>Overwriting a protocol keeps the tables, the pool and the wheel in agreement.\<close>

lemma set_proto_ok:
  assumes ok: "conn_ok n"
  shows "conn_ok (n\<lparr>conns := set_proto p proto (conns n)\<rparr>)"
proof (cases "conns n p")
  case None
  then have "set_proto p proto (conns n) = conns n" by (auto simp: set_proto_def)
  then show ?thesis using ok by simp
next
  case (Some cp)
  then show ?thesis using conn_upd_ok [OF ok Some, of "cp\<lparr>c_protocol := proto\<rparr>"] by (simp add: set_proto_def)
qed

lemma match_total:
  assumes ok: "conn_ok n" and p: "p \<in> set (bucket_of n is_client i)"
  shows "\<exists>b. match_in n is_client k p = Inr b"
proof -
  obtain ip port proto where k: "k = (ip, port, proto)" by (cases k)
  show ?thesis
  proof (cases is_client)
    case True
    then have "ht_mem (client_hashtable n) p" using p by (auto simp: bucket_of_def ht_mem_def)
    then show ?thesis using conn_okD(7) [OF ok, of p] True by (auto simp: match_in_def client_match_def k)
  next
    case False
    then have "ht_mem (self_hashtable n) p" using p by (auto simp: bucket_of_def ht_mem_def)
    then obtain cp where "conns n p = Some cp" "CONNECTION_IS_FULLNAT cp"
      using conn_okD(8) [OF ok, of p] by blast
    then show ?thesis
      using conn_ok_wf [OF ok, of p cp] False by (auto simp: match_in_def self_match_def conn_wf_def k)
  qed
qed

text \<open>
  The lookup never faults. It answers a live connection with the address and port asked for, whose
  protocol it has set; nothing else changes, and the invariant holds again.
\<close>

lemma connection_lookup_spec:
  assumes ok: "conn_ok n" and proto: "proto \<noteq> 0"
  shows "\<exists>r n'. connection_lookup ip port proto is_client n = Inr (r, n') \<and> conn_ok n' \<and>
    (case r of
       None \<Rightarrow> n' = n
     | Some p \<Rightarrow> n' = n\<lparr>conns := set_proto p proto (conns n)\<rparr> \<and>
         match_in n is_client (ip, port, proto) p = Inr True \<and> conns n p \<noteq> None \<and>
         p \<in> set (bucket_of n is_client (conn_slot (ng_rand n) (ip, port, proto))))"
proof -
  let ?k = "(ip, port, proto)"
  let ?b = "bucket_of n is_client (conn_slot (ng_rand n) ?k)"
  obtain r where r: "list_find (match_in n is_client ?k) ?b = Inr r"
    using list_find_total [of ?b "match_in n is_client ?k"] match_total [OF ok] by blast
  note eq = lookup_find [OF proto refl, of ip port is_client n, unfolded r]
  show ?thesis
  proof (cases r)
    case None
    then show ?thesis using eq ok by simp
  next
    case (Some p)
    have m: "match_in n is_client ?k p = Inr True" "p \<in> set ?b"
      using list_find_mem r unfolding Some by blast+
    have "conns n p \<noteq> None"
      using m(1) by (auto simp: match_in_def client_match_def self_match_def deref_def split: if_splits option.splits)
    then show ?thesis using eq Some m set_proto_ok [OF ok] by simp
  qed
qed

section \<open>With keyed tables\<close>

text \<open>The key under which a connection is filed.\<close>

definition conn_key :: "'a cnet_scheme \<Rightarrow> bool \<Rightarrow> ptr \<Rightarrow> (ip_address \<times> u16 \<times> u8) \<Rightarrow> bool" where
  "conn_key n is_client p = (\<lambda>(ip, port, proto). \<exists>cp. conns n p = Some cp \<and> c_protocol cp = proto \<and>
     (if is_client then ip_address_eq (client_addr cp) ip \<and> client_port cp = port
      else CONNECTION_IS_FULLNAT cp \<and> c_self_port cp = port \<and>
           (\<exists>lip. ng_lips n (c_self_addr cp) = Some lip \<and> ip_address_eq (lip_addr lip) ip)))"

lemma conn_slot_eq:
  "ip_address_eq a b \<Longrightarrow> connection_hashkey r a port proto = connection_hashkey r b port proto"
  by (simp add: connection_hashkey_def ip_port_proto_hash_eq [of a b])

lemma key_in_bucket:
  assumes ok: "conn_ok n" and keys: "keys_ok n" and p: "conn_key n is_client p k"
  shows "p \<in> set (bucket_of n is_client (conn_slot (ng_rand n) k)) \<and> match_in n is_client k p = Inr True"
proof -
  obtain ip port proto where k: "k = (ip, port, proto)" by (cases k)
  obtain cp where cp: "conns n p = Some cp" "c_protocol cp = proto" using p by (auto simp: conn_key_def k)
  show ?thesis
  proof (cases is_client)
    case True
    have m: "ip_address_eq (client_addr cp) ip" "client_port cp = port"
      using p cp True by (auto simp: conn_key_def k)
    have "ht_mem (client_hashtable n) p" using conn_okD(7) [OF ok, of p] cp by auto
    then obtain i where i: "p \<in> set (client_hashtable n i)" by (auto simp: ht_mem_def)
    then have "client_slot n p = Inr i" using keys table_okD by (auto simp: keys_ok_def)
    then have "conn_slot (ng_rand n) k = i"
      using cp m conn_slot_eq [OF m(1)] by (simp add: client_slot_def connection_hashkey_client_def k)
    then show ?thesis using i True m cp by (simp add: bucket_of_def match_in_def client_match_def k)
  next
    case False
    obtain lip where m: "CONNECTION_IS_FULLNAT cp" "c_self_port cp = port" "ng_lips n (c_self_addr cp) = Some lip"
        "ip_address_eq (lip_addr lip) ip"
      using p cp False by (auto simp: conn_key_def k)
    have "ht_mem (self_hashtable n) p" using conn_okD(8) [OF ok, of p] cp m by auto
    then obtain i where i: "p \<in> set (self_hashtable n i)" by (auto simp: ht_mem_def)
    then have "self_slot n p = Inr i" using keys table_okD by (auto simp: keys_ok_def)
    then have "conn_slot (ng_rand n) k = i"
      using cp m conn_slot_eq [OF m(4)] by (simp add: self_slot_def connection_hashkey_self_def k)
    then show ?thesis using i False m cp by (simp add: bucket_of_def match_in_def self_match_def k)
  qed
qed

text \<open>A connection filed under the key is always found, or another one with its address and port is.\<close>

lemma connection_lookup_complete:
  assumes ok: "conn_ok n" and keys: "keys_ok n" and proto: "proto \<noteq> 0"
    and p: "conn_key n is_client p (ip, port, proto)"
  shows "\<exists>q n'. connection_lookup ip port proto is_client n = Inr (Some q, n') \<and>
    match_in n is_client (ip, port, proto) q = Inr True"
proof -
  let ?k = "(ip, port, proto)"
  let ?b = "bucket_of n is_client (conn_slot (ng_rand n) ?k)"
  obtain r where r: "list_find (match_in n is_client ?k) ?b = Inr r"
    using list_find_total [of ?b "match_in n is_client ?k"] match_total [OF ok] by blast
  have b: "p \<in> set ?b" "match_in n is_client ?k p = Inr True" using key_in_bucket [OF ok keys p] by blast+
  have "r \<noteq> None" using list_find_NoneD [of "match_in n is_client ?k" ?b p] b r by auto
  then obtain q where q: "r = Some q" by blast
  then have "match_in n is_client ?k q = Inr True" using list_find_mem r by metis
  then show ?thesis using lookup_find [OF proto refl, of ip port is_client n] r q by simp
qed

text \<open>A lookup that finds a connection of the protocol asked for changes nothing at all.\<close>

lemma lookup_same_proto:
  assumes ok: "conn_ok n" and proto: "proto \<noteq> 0"
    and r: "connection_lookup ip port proto is_client n = Inr (Some p, n')"
    and cp: "conns n p = Some cp" "c_protocol cp = proto"
  shows "n' = n"
proof -
  have "n' = n\<lparr>conns := set_proto p proto (conns n)\<rparr>"
    using connection_lookup_spec [OF ok proto, of ip port is_client] r by auto
  moreover have "set_proto p proto (conns n) = conns n" using cp by (auto simp: set_proto_def)
  ultimately show ?thesis by simp
qed

end
