(* ===== verification/ConnCreate.thy ===== *)
theory ConnCreate
  imports ConnLookup
begin

text \<open>
  Creating a connection: the stages of \<open>connection_create\<close> one by one, then the whole function. It
  never faults, a failure leaves no trace but the turns of the round robins, and a success yields
  a connection whose local port no other connection uses.
\<close>

section \<open>The block\<close>

lemma alloc_heap:
  assumes "mem_pool_alloc p h = Inr (r, p', h')"
  shows "brk h \<le> brk h'" "quota h \<le> Suc (quota h')"
  using assms
  by (auto simp: mem_pool_alloc_def mem_pool_alloc_chunk_def malloc_bytes_def Let_def del_first_def fault_simps
      split: list.splits if_splits prod.splits)

text \<open>The state with a block taken from the pool, linked nowhere yet.\<close>

lemma get_free_spec:
  assumes ok: "conn_ok n"
  shows "\<exists>r pool h. connectoin_get_free n = Inr (r, n\<lparr>conn_mem_pool := pool, ng_heap := h\<rparr>) \<and>
    brk (ng_heap n) \<le> brk h \<and> quota (ng_heap n) \<le> Suc (quota h) \<and>
    (case r of
       None \<Rightarrow> \<exists>live. pool_ok live pool h \<and> set live = dom (conns n)
     | Some p \<Rightarrow> conns n p = None \<and> (\<exists>live. pool_ok (p # live) pool h \<and> set live = dom (conns n)))"
proof -
  obtain live where live: "pool_ok live (conn_mem_pool n) (ng_heap n)" "set live = dom (conns n)"
    by (rule conn_okE [OF ok])
  obtain r pool h where a: "mem_pool_alloc (conn_mem_pool n) (ng_heap n) = Inr (r, pool, h)"
     "case r of None \<Rightarrow> pool_ok live pool h \<and> (quota (ng_heap n) = 0 \<or> mp_chunksize (conn_mem_pool n) < mp_size (conn_mem_pool n))
      | Some q \<Rightarrow> pool_ok (q # live) pool h \<and> (\<forall>a\<in>set live. apart (unat (mp_size (conn_mem_pool n))) q a)"
    using mem_pool_alloc_spec [OF live(1)] by blast
  have new: "conns n p = None" if "pool_ok (p # live) pool h" for p
    using that live(2) by (auto simp: pool_ok_def)
  show ?thesis
    using a alloc_heap [OF a(1)] live(2) new
    by (intro exI [of _ r] exI [of _ pool] exI [of _ h]) (auto simp: connectoin_get_free_def split: option.splits)
qed

section \<open>The server\<close>

lemma pick_server:
  assumes "pool_at p s"
  shows "\<exists>r s'. server_pool_get_server s p = Inr (r, s') \<and> (\<forall>q. pool_at q s \<longrightarrow> pool_at q s') \<and>
    (\<forall>x. get_server s' x = get_server s x) \<and> server_list s' = server_list s \<and>
    r = (case srv_turn p s of [] \<Rightarrow> None | x # _ \<Rightarrow> Some x) \<and>
    (\<forall>x. r = Some x \<longrightarrow> (\<exists>srv. get_server s x = Inr srv))"
proof -
  obtain sp where sp: "sp_store s p = Some sp" "sp_ok sp" using assms by (auto simp: pool_at_def)
  show ?thesis
  proof (cases "sp_num sp = 0")
    case True
    then show ?thesis using sp by (simp add: server_pool_get_server_def srv_turn_def)
  next
    case False
    then have n: "0 < sp_num sp" by simp
    from get_server_turn [OF sp n] obtain s' where s':
      "server_pool_get_server s p = Inr (Some (p, sp_next sp), s')"
      "s' = s\<lparr>sp_store := (sp_store s)(p \<mapsto> sp\<lparr>sp_next := Suc (sp_next sp) mod sp_num sp\<rparr>)\<rparr>"
      "pool_at p s'" "srv_turn p s = (p, sp_next sp) # tl (srv_turn p s)" by blast
    have g: "get_server s' x = get_server s x" for x
      using sp(1) s'(2) by (cases x) (simp add: get_server_def deref_def)
    have k: "sp_next sp < length (sp_servers sp)" using sp(2) n by (auto simp: sp_ok_def split: if_splits)
    have "pool_at q s'" if "pool_at q s" for q
      using that s'(2,3) by (cases "q = p") (auto simp: pool_at_def)
    moreover have "\<exists>srv. get_server s (p, sp_next sp) = Inr srv"
      using sp(1) k by (simp add: get_server_def)
    moreover have "(case srv_turn p s of [] \<Rightarrow> None | x # _ \<Rightarrow> Some x) = Some (p, sp_next sp)"
      by (subst s'(4)) simp
    ultimately show ?thesis using s'(1,2) g by simp
  qed
qed

section \<open>The route\<close>

text \<open>Card \<open>i\<close> exists, and a route to the server leads over it.\<close>

definition server_card :: "'a net_scheme \<Rightarrow> server \<Rightarrow> u8 \<Rightarrow> bool" where
  "server_card n srv i \<longleftrightarrow> nic_ok (ng_itf n) (uint i) \<and>
     (\<exists>re e. re \<in> set (routes_to (ng_rand n) (ng_ents n) (na_ip (srv_addr srv)) (ng_rt n)) \<and>
        ng_ents n re = Some e \<and> uint i = uint (re_nic_id e))"

definition routed :: "packet \<Rightarrow> u8 \<Rightarrow> connection \<Rightarrow> connection" where
  "routed pkt i cp = cp\<lparr>client_mac := get_mac (p_data pkt) (mac_header pkt + 6), client_adapter_idx := adapter_idx pkt,
     client_queue_idx := 0, server_adapter_idx := i, server_queue_idx := 0\<rparr>"

lemma set_route_spec:
  assumes ok: "net_ok n" and p: "conns n p = Some cp" and srv: "get_server (ng_pools n) s = Inr srv"
  shows "\<exists>ret rt cp'. connection_set_route pkt p s n = Inr (ret, n\<lparr>ng_rt := rt, conns := (conns n)(p \<mapsto> cp')\<rparr>) \<and>
    net_ok (n\<lparr>ng_rt := rt\<rparr>) \<and> (ret \<noteq> 0 \<longrightarrow> (\<exists>i. cp' = routed pkt i cp \<and> server_card n srv i))"
proof -
  let ?cp = "cp\<lparr>client_mac := get_mac (p_data pkt) (mac_header pkt + 6), client_adapter_idx := adapter_idx pkt,
     client_queue_idx := 0\<rparr>"
  let ?n = "n\<lparr>conns := (conns n)(p \<mapsto> ?cp)\<rparr>" and ?ip = "na_ip (srv_addr srv)"
  have ok1: "net_ok ?n" using ok by (simp add: net_ok_def)
  obtain rt where rt: "ng_rt_lookup_rr ?ip ?n = Inr (case routes_to (ng_rand n) (ng_ents n) ?ip (ng_rt n) of
       [] \<Rightarrow> None | q # _ \<Rightarrow> Some q, ?n\<lparr>ng_rt := rt\<rparr>)" "net_ok (?n\<lparr>ng_rt := rt\<rparr>)"
    using net_rt_lookup_rr [OF ok1, of ?ip] by auto
  have ok2: "net_ok (n\<lparr>ng_rt := rt\<rparr>)" using rt(2) by (simp add: net_ok_def)
  show ?thesis
  proof (cases "routes_to (ng_rand n) (ng_ents n) ?ip (ng_rt n)")
    case Nil
    then show ?thesis using p srv rt ok2
      by (intro exI [of _ "0 :: int"] exI [of _ rt] exI [of _ ?cp]) (simp add: connection_set_route_def)
  next
    case (Cons re qs)
    from route_nic [OF ok Cons] obtain e where e: "ng_ents n re = Some e" "unat (re_nic_id e) < 256"
      "nic_ok (ng_itf n) (int (unat (re_nic_id e)))" by blast
    let ?i = "ucast (re_nic_id e) :: u8"
    have "unat (of_nat (unat (re_nic_id e)) :: u8) = unat (re_nic_id e)"
      using e(2) by (simp only: unsigned_of_nat) (simp add: take_bit_nat_eq_self)
    then have "unat ?i = unat (re_nic_id e)" by simp
    then have i: "uint ?i = uint (re_nic_id e)" by (simp only: uint_nat)
    have "re \<in> set (routes_to (ng_rand n) (ng_ents n) ?ip (ng_rt n))" using Cons by simp
    moreover have "nic_ok (ng_itf n) (uint ?i)" using e(3) i by simp
    ultimately have "server_card n srv ?i" using e(1) i unfolding server_card_def by blast
    moreover have "connection_set_route pkt p s n
        = Inr (1, n\<lparr>ng_rt := rt, conns := (conns n)(p \<mapsto> routed pkt ?i cp)\<rparr>)"
      using p srv rt ok2 Cons e(1) by (simp add: connection_set_route_def routed_def)
    ultimately show ?thesis using ok2 by blast
  qed
qed

section \<open>The local address and port\<close>

text \<open>\<open>taken lips t l port lips'\<close>: the answer of the range \<open>t\<close> of the local IP \<open>l\<close> was \<open>port\<close>.\<close>

definition taken :: "local_ip store \<Rightarrow> bool \<Rightarrow> ptr \<Rightarrow> u16 \<Rightarrow> local_ip store \<Rightarrow> bool" where
  "taken lips t l port lips' \<longleftrightarrow> (\<exists>lip r r'. lips l = Some lip \<and> lip_range lip t = Some r \<and>
     get_from_range (Some r) 0 = Inr (port, Some r') \<and> pr_shape r' \<and>
     lips' = lips(l \<mapsto> set_lip_range lip t (Some r')))"

lemma taken_ok:
  assumes t: "taken lips t l port lips'" and ok: "lips_ok lips"
  shows "lips_ok lips'" "map_option lip_ident (lips' q) = map_option lip_ident (lips q)" "lips' l \<noteq> None"
  using assms lips_ok_upd [OF ok] by (auto simp: taken_def)

lemma net_ok_taken:
  "net_ok n \<Longrightarrow> taken (ng_lips n) t l port lips \<Longrightarrow> net_ok (n\<lparr>ng_lips := lips\<rparr>)"
  by (auto simp: taken_def intro: net_ok_lip)

lemma set_self_spec:
  assumes ok: "net_ok n" and lips: "lips_ok (ng_lips n)" and p: "conns n p = Some cp"
    and i: "nic_ok (ng_itf n) i"
  shows "\<exists>ret itf lips cp'. connection_set_self_ip_port p i v4 tcp n
      = Inr (ret, n\<lparr>ng_itf := itf, ng_lips := lips, conns := (conns n)(p \<mapsto> cp')\<rparr>) \<and>
    net_ok (n\<lparr>ng_itf := itf, ng_lips := lips\<rparr>) \<and> itf_num itf = itf_num (ng_itf n) \<and>
    (if ret = 0 then lips = ng_lips n \<or> (\<exists>l. taken (ng_lips n) tcp l 0 lips)
     else \<exists>l port. port \<noteq> 0 \<and> taken (ng_lips n) tcp l port lips \<and> cp' = cp\<lparr>c_self_addr := l, c_self_port := port\<rparr> \<and>
       l \<in> set (nic_list (ng_itf n) (nat i) False v4))"
proof -
  let ?ls = "nic_list (ng_itf n) (nat i) False v4"
  have rr: "(if v4 then ng_interface_get_selfipv4_rr i n else ng_interface_get_selfipv6_rr i n)
      = ng_interface_get_lip_rr i False v4 n"
    by (simp add: ng_interface_get_selfipv4_rr_def ng_interface_get_selfipv6_rr_def)
  obtain itf where itf: "ng_interface_get_lip_rr i False v4 n = Inr
      (case ?ls of [] \<Rightarrow> None | p # _ \<Rightarrow> Some p, n\<lparr>ng_itf := itf\<rparr>)" "net_ok (n\<lparr>ng_itf := itf\<rparr>)" "itf_num itf = itf_num (ng_itf n)"
    using net_get_lip_rr [OF ok i] by blast
  show ?thesis
  proof (cases ?ls)
    case Nil
    have "connection_set_self_ip_port p i v4 tcp n
        = Inr (0, n\<lparr>ng_itf := itf, ng_lips := ng_lips n, conns := (conns n)(p \<mapsto> cp)\<rparr>)"
      using itf(1) Nil p by (simp add: connection_set_self_ip_port_def rr fun_upd_idem)
    then show ?thesis using itf(2,3) by (intro exI) (rule conjI, assumption, simp)
  next
    case (Cons l ls)
    have "l \<in> set ?ls" using Cons by simp
    then obtain lip where lip: "ng_lips n l = Some lip"
      using nic_list_lip [of "ng_rand n" "ng_lips n" "ng_itf n" i l False v4] ok i by (auto simp: net_ok_def)
    obtain r where r: "lip_range lip tcp = Some r" "pr_shape r"
      using lips lip unfolding lips_ok_def by blast
    obtain port r' where g: "get_from_range (Some r) 0 = Inr (port, Some r')" "pr_shape r'"
      using get_port_shape [OF r(2)] by blast
    let ?lips = "(ng_lips n)(l \<mapsto> set_lip_range lip tcp (Some r'))"
    let ?cp = "cp\<lparr>c_self_addr := l, c_self_port := (if port = 0 then c_self_port cp else port)\<rparr>"
    have get: "(if tcp then lip_get_tcp_port lip 0 else lip_get_udp_port lip 0) = Inr (port, set_lip_range lip tcp (Some r'))"
      unfolding lip_get_port using r g by simp
    have t: "taken (ng_lips n) tcp l port ?lips" unfolding taken_def using lip r g by blast
    have "connection_set_self_ip_port p i v4 tcp n = Inr (if port = 0 then 0 else 1,
        n\<lparr>ng_itf := itf, ng_lips := ?lips, conns := (conns n)(p \<mapsto> ?cp)\<rparr>)"
      using itf(1) Cons p lip get by (simp add: connection_set_self_ip_port_def rr Let_def del: fun_upd_apply)
    moreover have "net_ok (n\<lparr>ng_itf := itf, ng_lips := ?lips\<rparr>)"
      using net_ok_taken [OF itf(2), of tcp l port ?lips] t by simp
    ultimately show ?thesis
      using t Cons itf(3)
      by (intro exI [of _ "if port = 0 then 0 else 1"] exI [of _ itf] exI [of _ ?lips] exI [of _ ?cp]) auto
  qed
qed

section \<open>All fields\<close>

definition pools_same :: "pools_state \<Rightarrow> pools_state \<Rightarrow> bool" where
  "pools_same s s' \<longleftrightarrow> (\<forall>q. pool_at q s \<longrightarrow> pool_at q s') \<and> (\<forall>x. get_server s' x = get_server s x) \<and>
     server_list s' = server_list s"

text \<open>
  \<open>filled\<close>: what the structure holds before it is linked: the virtual server and its protocol, the
  server whose turn it is with a card that leads to it, and in full-NAT mode a fresh port of a
  local IP of that card.
\<close>

definition filled :: "'a cnet_scheme \<Rightarrow> ptr \<Rightarrow> vserver \<Rightarrow> packet \<Rightarrow> local_ip store \<Rightarrow> connection \<Rightarrow> bool" where
  "filled n v vs pkt lips cp \<longleftrightarrow>
     c_vs cp = v \<and> c_protocol cp = vs_protocol vs \<and> (CONNECTION_IS_FULLNAT cp \<longleftrightarrow> vs_is_fullnat vs \<noteq> 0) \<and>
     ng_interface_lookup_vsip n (packet_get_dip pkt) = Inr (c_vs_addr cp) \<and>
     (\<exists>s srv. c_server cp = Some s \<and> srv_turn (vs_pool vs) (ng_pools n) = s # tl (srv_turn (vs_pool vs) (ng_pools n)) \<and>
        get_server (ng_pools n) s = Inr srv \<and> server_card n srv (server_adapter_idx cp)) \<and>
     client_mac cp = get_mac (p_data pkt) (mac_header pkt + 6) \<and> client_adapter_idx cp = adapter_idx pkt \<and>
     (if CONNECTION_IS_FULLNAT cp
      then c_self_port cp \<noteq> 0 \<and> taken (ng_lips n) (VS_IS_TCP vs) (c_self_addr cp) (c_self_port cp) lips \<and>
        c_self_addr cp \<in> set (nic_list (ng_itf n) (unat (server_adapter_idx cp)) False (PACKET_IS_IPV4 pkt))
      else lips = ng_lips n)"

lemma fullnat_flags [simp]:
  "CONNECTION_IS_FULLNAT (CONNECTION_SET_FULLNAT cp)"
  "\<not> CONNECTION_IS_FULLNAT (CONNECTION_SET_TRANSPARANT cp)"
proof -
  have "bit ((c_flags cp OR 1) AND 1) 0" by (simp add: bit_simps)
  then have "(c_flags cp OR 1) AND 1 \<noteq> 0" by (metis bit_0_eq bot_apply bot_bool_def)
  then show "CONNECTION_IS_FULLNAT (CONNECTION_SET_FULLNAT cp)"
    by (simp add: CONNECTION_IS_FULLNAT_def CONNECTION_SET_FULLNAT_def)
  show "\<not> CONNECTION_IS_FULLNAT (CONNECTION_SET_TRANSPARANT cp)"
    by (simp add: CONNECTION_IS_FULLNAT_def CONNECTION_SET_TRANSPARANT_def and.assoc)
qed

lemma fullnat_upd [simp]:
  "CONNECTION_IS_FULLNAT (cp\<lparr>c_server := a\<rparr>) = CONNECTION_IS_FULLNAT cp"
  "CONNECTION_IS_FULLNAT (routed pkt i cp) = CONNECTION_IS_FULLNAT cp"
  "CONNECTION_IS_FULLNAT (cp\<lparr>c_self_addr := l, c_self_port := q\<rparr>) = CONNECTION_IS_FULLNAT cp"
  "CONNECTION_IS_FULLNAT (cp\<lparr>client_addr := ca, client_port := q\<rparr>) = CONNECTION_IS_FULLNAT cp"
  "CONNECTION_IS_FULLNAT (cp\<lparr>c_state := s\<rparr>) = CONNECTION_IS_FULLNAT cp"
  by (simp_all add: CONNECTION_IS_FULLNAT_def routed_def)

lemma routed_fields [simp]:
  "c_vs (routed pkt i cp) = c_vs cp" "c_protocol (routed pkt i cp) = c_protocol cp"
  "c_vs_addr (routed pkt i cp) = c_vs_addr cp" "c_server (routed pkt i cp) = c_server cp"
  "server_adapter_idx (routed pkt i cp) = i" "client_adapter_idx (routed pkt i cp) = adapter_idx pkt"
  "client_mac (routed pkt i cp) = get_mac (p_data pkt) (mac_header pkt + 6)"
  by (simp_all add: routed_def)

text \<open>The first stage: everything that does not depend on the server.\<close>

definition begun :: "ptr option \<Rightarrow> ptr \<Rightarrow> vserver \<Rightarrow> connection \<Rightarrow> connection" where
  "begun a v vs mem =
     (let cp = mem\<lparr>c_vs_addr := a, c_protocol := vs_protocol vs, c_vs := v\<rparr>
      in if vs_is_fullnat vs \<noteq> 0 then CONNECTION_SET_FULLNAT cp else CONNECTION_SET_TRANSPARANT cp)"

lemma begun_fields:
  "c_vs (begun a v vs mem) = v" "c_protocol (begun a v vs mem) = vs_protocol vs" "c_vs_addr (begun a v vs mem) = a"
  "CONNECTION_IS_FULLNAT (begun a v vs mem) \<longleftrightarrow> vs_is_fullnat vs \<noteq> 0"
  by (simp_all add: begun_def Let_def) (simp_all add: CONNECTION_SET_FULLNAT_def CONNECTION_SET_TRANSPARANT_def)

lemma connection_fill_spec:
  assumes ok: "net_ok n" and lips: "lips_ok (ng_lips n)" and vs: "vs_store (ng_vs n) v = Some vs"
    and pool: "pool_at (vs_pool vs) (ng_pools n)"
  shows "\<exists>fin pools rt itf lips cp. connection_fill p pkt v mem n = Inr (fin, n\<lparr>ng_pools := pools, ng_rt := rt,
      ng_itf := itf, ng_lips := lips, conns := (conns n)(p \<mapsto> cp)\<rparr>) \<and>
    net_ok (n\<lparr>ng_rt := rt, ng_itf := itf, ng_lips := lips\<rparr>) \<and> itf_num itf = itf_num (ng_itf n) \<and>
    pools_same (ng_pools n) pools \<and>
    (if fin then filled n v vs pkt lips cp
     else lips = ng_lips n \<or> (\<exists>l. taken (ng_lips n) (VS_IS_TCP vs) l 0 lips))"
proof -
  obtain a where a: "ng_interface_lookup_vsip n (packet_get_dip pkt) = Inr a"
    using net_lookup_vsip [OF ok] by blast
  let ?cp = "begun a v vs mem"
  obtain srv pools where srv: "server_pool_get_server (ng_pools n) (vs_pool vs) = Inr (srv, pools)"
      "pools_same (ng_pools n) pools"
      "srv = (case srv_turn (vs_pool vs) (ng_pools n) of [] \<Rightarrow> None | x # _ \<Rightarrow> Some x)"
      "\<forall>x. srv = Some x \<longrightarrow> (\<exists>s. get_server (ng_pools n) x = Inr s)"
    using pick_server [OF pool] unfolding pools_same_def by blast
  have fill: "connection_fill p pkt v mem n = (let n = n\<lparr>ng_pools := pools, conns := (conns n)(p \<mapsto> ?cp\<lparr>c_server := srv\<rparr>)\<rparr>
     in case srv of None \<Rightarrow> Inr (False, n)
      | Some srv \<Rightarrow> bindE (connection_set_route pkt p srv n) (\<lambda>(ret, n).
          if ret = 0 then Inr (False, n)
          else bindE (deref (conns n) p) (\<lambda>cp.
            if CONNECTION_IS_FULLNAT cp then
              bindE (connection_set_self_ip_port p (uint (server_adapter_idx cp))
                       (PACKET_IS_IPV4 pkt) (VS_IS_TCP vs) n) (\<lambda>(ret, n). Inr (ret \<noteq> 0, n))
            else Inr (True, n))))"
    by (simp add: connection_fill_def a vs vserver_get_server_def srv(1) begun_def Let_def)
  show ?thesis
  proof (cases srv)
    case None
    then show ?thesis using fill srv(2) ok
      by (intro exI [of _ False] exI [of _ pools] exI [of _ "ng_rt n"] exI [of _ "ng_itf n"]
          exI [of _ "ng_lips n"] exI [of _ "?cp\<lparr>c_server := srv\<rparr>"]) (simp add: Let_def)
  next
    case (Some x)
    then obtain s where s: "get_server (ng_pools n) x = Inr s" using srv(4) by blast
    let ?n1 = "n\<lparr>ng_pools := pools, conns := (conns n)(p \<mapsto> ?cp\<lparr>c_server := srv\<rparr>)\<rparr>"
    have turn: "srv_turn (vs_pool vs) (ng_pools n) = x # tl (srv_turn (vs_pool vs) (ng_pools n))"
      using srv(3) Some by (simp split: list.splits)
    have ok1: "net_ok ?n1" using ok by (simp add: net_ok_def)
    have s1: "get_server (ng_pools ?n1) x = Inr s" using s srv(2) by (cases x) (simp add: pools_same_def)
    have c1: "conns ?n1 p = Some (?cp\<lparr>c_server := srv\<rparr>)" by simp
    obtain ret rt cp2 where r: "connection_set_route pkt p x ?n1 = Inr (ret, ?n1\<lparr>ng_rt := rt, conns := (conns ?n1)(p \<mapsto> cp2)\<rparr>)"
        "net_ok (?n1\<lparr>ng_rt := rt\<rparr>)"
        "ret \<noteq> 0 \<longrightarrow> (\<exists>i. cp2 = routed pkt i (?cp\<lparr>c_server := srv\<rparr>) \<and> server_card ?n1 s i)"
      using set_route_spec [OF ok1 c1 s1, of pkt] by blast
    let ?n2 = "n\<lparr>ng_pools := pools, ng_rt := rt, conns := (conns n)(p \<mapsto> cp2)\<rparr>"
    have card: "server_card ?n1 s i = server_card n s i" for i by (simp add: server_card_def)
    have rt: "net_ok (n\<lparr>ng_rt := rt\<rparr>)" using r(2) by (simp add: net_ok_def)
    show ?thesis
    proof (cases "ret = 0")
      case True
      then show ?thesis using fill Some r(1) srv(2) rt
        by (intro exI [of _ False] exI [of _ pools] exI [of _ rt] exI [of _ "ng_itf n"] exI [of _ "ng_lips n"] exI)
          (simp add: Let_def)
    next
      case ret: False
      obtain i where i: "cp2 = routed pkt i (?cp\<lparr>c_server := srv\<rparr>)" "server_card n s i" using r(3) ret card by auto
      have nic: "nic_ok (ng_itf n) (uint i)" using i(2) by (simp add: server_card_def)
      have nat: "CONNECTION_IS_FULLNAT cp2 \<longleftrightarrow> vs_is_fullnat vs \<noteq> 0" by (simp add: i(1) begun_fields)
      have base: "\<exists>s srv'. srv = Some s \<and> srv_turn (vs_pool vs) (ng_pools n) = s # tl (srv_turn (vs_pool vs) (ng_pools n)) \<and>
          get_server (ng_pools n) s = Inr srv' \<and> server_card n srv' i"
        using Some turn s i(2) by blast
      show ?thesis
      proof (cases "vs_is_fullnat vs = 0")
        case True
        have "filled n v vs pkt (ng_lips n) cp2"
          unfolding filled_def using base a nat True i(1) by (simp add: begun_fields)
        moreover have "connection_fill p pkt v mem n = Inr (True, ?n2)"
          using fill Some r(1) ret nat True by (simp add: Let_def)
        ultimately show ?thesis using srv(2) rt
          by (intro exI [of _ True] exI [of _ pools] exI [of _ rt] exI [of _ "ng_itf n"] exI [of _ "ng_lips n"]
              exI [of _ cp2]) simp
      next
        case False
        have ok2: "net_ok ?n2" "lips_ok (ng_lips ?n2)" "conns ?n2 p = Some cp2" "nic_ok (ng_itf ?n2) (uint i)"
          using rt lips nic by (simp_all add: net_ok_def)
        obtain ret' itf lips' cp' where f: "connection_set_self_ip_port p (uint i) (PACKET_IS_IPV4 pkt) (VS_IS_TCP vs) ?n2
            = Inr (ret', ?n2\<lparr>ng_itf := itf, ng_lips := lips', conns := (conns ?n2)(p \<mapsto> cp')\<rparr>)"
            "net_ok (?n2\<lparr>ng_itf := itf, ng_lips := lips'\<rparr>)" "itf_num itf = itf_num (ng_itf ?n2)"
            "if ret' = 0 then lips' = ng_lips ?n2 \<or> (\<exists>l. taken (ng_lips ?n2) (VS_IS_TCP vs) l 0 lips')
             else \<exists>l port. port \<noteq> 0 \<and> taken (ng_lips ?n2) (VS_IS_TCP vs) l port lips' \<and>
               cp' = cp2\<lparr>c_self_addr := l, c_self_port := port\<rparr> \<and>
               l \<in> set (nic_list (ng_itf ?n2) (nat (uint i)) False (PACKET_IS_IPV4 pkt))"
          using set_self_spec [OF ok2, of "PACKET_IS_IPV4 pkt" "VS_IS_TCP vs"] by blast
        have res: "connection_fill p pkt v mem n = Inr (ret' \<noteq> 0, n\<lparr>ng_pools := pools, ng_rt := rt, ng_itf := itf,
            ng_lips := lips', conns := (conns n)(p \<mapsto> cp')\<rparr>)"
          using fill Some r(1) ret nat False f(1) i(1) by (simp add: Let_def)
        have fin: "filled n v vs pkt lips' cp'" if "ret' \<noteq> 0"
          using f(4) that base a nat False i(1) unfolding filled_def by (auto simp: begun_fields)
        have "net_ok (n\<lparr>ng_rt := rt, ng_itf := itf, ng_lips := lips'\<rparr>)" using f(2) by (simp add: net_ok_def)
        then show ?thesis using res srv(2) f(3,4) fin
          by (intro exI [of _ "ret' \<noteq> 0"] exI [of _ pools] exI [of _ rt] exI [of _ itf] exI [of _ lips'] exI [of _ cp']) auto
      qed
    qed
  qed
qed

section \<open>The whole function\<close>

lemma filled_cong:
  assumes "ng_rand n' = ng_rand n" "ng_lips n' = ng_lips n" "ng_itf n' = ng_itf n" "ng_rt n' = ng_rt n"
    "ng_ents n' = ng_ents n" "ng_pools n' = ng_pools n"
  shows "filled n' v vs pkt lips cp = filled n v vs pkt lips cp"
  using assms by (simp add: filled_def server_card_def ng_interface_lookup_vsip_def)

lemma filled_client [simp]:
  "filled n v vs pkt lips (cp\<lparr>client_addr := a, client_port := q\<rparr>) = filled n v vs pkt lips cp"
  "filled n v vs pkt lips (cp\<lparr>c_state := st\<rparr>) = filled n v vs pkt lips cp"
  by (simp_all add: filled_def)

lemma filled_known:
  assumes "filled n v vs pkt lips cp" "CONNECTION_IS_FULLNAT cp" "lips_ok (ng_lips n)"
  shows "\<exists>lip. lips (c_self_addr cp) = Some lip"
proof -
  have "taken (ng_lips n) (VS_IS_TCP vs) (c_self_addr cp) (c_self_port cp) lips"
    using assms(1,2) by (simp add: filled_def)
  from taken_ok(3) [OF this assms(3)] show ?thesis by blast
qed

text \<open>The last fields, and the state of a fresh TCP connection.\<close>

definition completed :: "packet \<Rightarrow> vserver \<Rightarrow> connection \<Rightarrow> connection" where
  "completed pkt vs cp =
     (let cp = cp\<lparr>client_addr := packet_get_sip pkt, client_port := packet_get_sport pkt\<rparr>
      in if VS_IS_TCP vs then cp\<lparr>c_state := TCP_INIT\<rparr> else cp)"

lemma completed_fields:
  "filled n v vs pkt lips (completed pkt vs cp) = filled n v vs pkt lips cp"
  "client_addr (completed pkt vs cp) = packet_get_sip pkt" "client_port (completed pkt vs cp) = packet_get_sport pkt"
  "VS_IS_TCP vs \<Longrightarrow> c_state (completed pkt vs cp) = TCP_INIT"
  by (simp_all add: completed_def Let_def)

text \<open>What is put into the tables and onto the wheel.\<close>

definition linked :: "ptr \<Rightarrow> connection \<Rightarrow> 'a cnet_scheme \<Rightarrow> 'a cnet_scheme \<Rightarrow> bool" where
  "linked p cp n n' \<longleftrightarrow> (\<exists>i j c. timer_add (net_clock n) p CONNECTION_TIMEOUT_SECONDS = Inr (CONNECTION_TIMEOUT_SECONDS, c) \<and>
     i = connection_hashkey_client (ng_rand n) cp \<and>
     (CONNECTION_IS_FULLNAT cp \<longrightarrow> connection_hashkey_self (ng_rand n) (ng_lips n) cp = Inr j) \<and>
     n' = n\<lparr>conns := (conns n)(p \<mapsto> cp), client_hashtable := ht_add (client_hashtable n) i p,
       self_hashtable := (if CONNECTION_IS_FULLNAT cp then ht_add (self_hashtable n) j p else self_hashtable n),
       net_clock := c\<rparr>)"

text \<open>\<open>used_up\<close>: the state of the modules a creation touches on its way, successful or not.\<close>

definition used_up :: "'a cnet_scheme \<Rightarrow> mem_pool \<Rightarrow> heap \<Rightarrow> pools_state \<Rightarrow> route_table \<Rightarrow> interface_t \<Rightarrow>
    local_ip store \<Rightarrow> 'a cnet_scheme" where
  "used_up n pool h pools rt itf lips = n\<lparr>conn_mem_pool := pool, ng_heap := h, ng_pools := pools, ng_rt := rt,
     ng_itf := itf, ng_lips := lips\<rparr>"

definition created :: "'a cnet_scheme \<Rightarrow> ptr \<Rightarrow> vserver \<Rightarrow> packet \<Rightarrow> local_ip store \<Rightarrow> connection \<Rightarrow> bool" where
  "created n v vs pkt lips cp \<longleftrightarrow> filled n v vs pkt lips cp \<and> client_addr cp = packet_get_sip pkt \<and>
     client_port cp = packet_get_sport pkt \<and> (VS_IS_TCP vs \<longrightarrow> c_state cp = TCP_INIT)"

lemma create_steps:
  assumes ok: "conn_ok n" and vs: "vs_store (ng_vs n) v = Some vs" and pool: "pool_at (vs_pool vs) (ng_pools n)"
    and wheel: "CONNECTION_TIMEOUT_SECONDS \<le> total_clock_seconds (net_clock n)"
  shows "\<exists>r n' pool h pools rt itf lips. connection_create mem pkt v n = Inr (r, n') \<and>
    net_ok (used_up n pool h pools rt itf lips) \<and> pools_same (ng_pools n) pools \<and>
    quota (ng_heap n) \<le> Suc (quota h) \<and> itf_num itf = itf_num (ng_itf n) \<and>
    (case r of
       None \<Rightarrow> n' = used_up n pool h pools rt itf lips \<and> (\<exists>live. pool_ok live pool h \<and> set live = dom (conns n)) \<and>
         (lips = ng_lips n \<or> (\<exists>l. taken (ng_lips n) (VS_IS_TCP vs) l 0 lips))
     | Some p \<Rightarrow> conns n p = None \<and> (\<exists>live. pool_ok (p # live) pool h \<and> set live = dom (conns n)) \<and>
         (\<exists>cp. linked p cp (used_up n pool h pools rt itf lips) n' \<and> created n v vs pkt lips cp))"
proof -
  obtain r pool h where g: "connectoin_get_free n = Inr (r, n\<lparr>conn_mem_pool := pool, ng_heap := h\<rparr>)"
      "brk (ng_heap n) \<le> brk h" "quota (ng_heap n) \<le> Suc (quota h)"
      "case r of None \<Rightarrow> \<exists>live. pool_ok live pool h \<and> set live = dom (conns n)
       | Some p \<Rightarrow> conns n p = None \<and> (\<exists>live. pool_ok (p # live) pool h \<and> set live = dom (conns n))"
    using get_free_spec [OF ok] by blast
  let ?n1 = "n\<lparr>conn_mem_pool := pool, ng_heap := h\<rparr>"
  have net1: "net_ok ?n1"
    using net_ok_heap [OF conn_okD(1) [OF ok] g(2)] by (simp add: net_ok_def)
  have lips1: "lips_ok (ng_lips ?n1)" using conn_okD(2) [OF ok] by simp
  show ?thesis
  proof (cases r)
    case None
    have "used_up n pool h (ng_pools n) (ng_rt n) (ng_itf n) (ng_lips n) = ?n1" by (simp add: used_up_def)
    moreover have "connection_create mem pkt v n = Inr (None, ?n1)"
      using g(1) None by (simp add: connection_create_def)
    ultimately show ?thesis using None g(3,4) net1
      by (intro exI [of _ None] exI [of _ ?n1] exI [of _ pool] exI [of _ h] exI [of _ "ng_pools n"] exI [of _ "ng_rt n"]
          exI [of _ "ng_itf n"] exI [of _ "ng_lips n"]) (simp add: pools_same_def)
  next
    case (Some p)
    then have p: "conns n p = None" "\<exists>live. pool_ok (p # live) pool h \<and> set live = dom (conns n)"
      using g(4) by simp_all
    have vs1: "vs_store (ng_vs ?n1) v = Some vs" "pool_at (vs_pool vs) (ng_pools ?n1)" using vs pool by simp_all
    obtain fin pools rt itf lips cp where f: "connection_fill p pkt v (mem p) ?n1 = Inr (fin, ?n1\<lparr>ng_pools := pools,
          ng_rt := rt, ng_itf := itf, ng_lips := lips, conns := (conns ?n1)(p \<mapsto> cp)\<rparr>)"
        "net_ok (?n1\<lparr>ng_rt := rt, ng_itf := itf, ng_lips := lips\<rparr>)" "itf_num itf = itf_num (ng_itf ?n1)"
        "pools_same (ng_pools ?n1) pools"
        "if fin then filled ?n1 v vs pkt lips cp
         else lips = ng_lips ?n1 \<or> (\<exists>l. taken (ng_lips ?n1) (VS_IS_TCP vs) l 0 lips)"
      using connection_fill_spec [OF net1 lips1 vs1, of p pkt "mem p"] by blast
    let ?n2 = "used_up n pool h pools rt itf lips"
    have fill: "connection_fill p pkt v (mem p) ?n1 = Inr (fin, ?n2\<lparr>conns := (conns n)(p \<mapsto> cp)\<rparr>)"
      using f(1) by (simp add: used_up_def)
    have net2: "net_ok ?n2" using f(2) by (simp add: net_ok_def used_up_def)
    have same: "pools_same (ng_pools n) pools" "itf_num itf = itf_num (ng_itf n)" using f(3,4) by simp_all
    show ?thesis
    proof (cases fin)
      case False
      have "connection_create mem pkt v n = Inr (None, used_up n (mem_pool_free pool p) h pools rt itf lips)"
        using g(1) Some fill False p(1)
        by (simp add: connection_create_def connectoin_put_free_def used_up_def fun_upd_idem)
      moreover obtain live where "pool_ok (p # live) pool h" "set live = dom (conns n)" using p(2) by blast
      then have "pool_ok live (mem_pool_free pool p) h" using give_block_ok [of "p # live" pool h p] by simp
      moreover have "net_ok (used_up n (mem_pool_free pool p) h pools rt itf lips)"
        using net2 by (simp add: net_ok_def used_up_def)
      ultimately show ?thesis using g(3) same f(5) False \<open>set live = dom (conns n)\<close>
        by (intro exI [of _ None] exI [of _ "used_up n (mem_pool_free pool p) h pools rt itf lips"]
            exI [of _ "mem_pool_free pool p"] exI [of _ h] exI [of _ pools] exI [of _ rt] exI [of _ itf] exI [of _ lips])
          auto
    next
      case True
      let ?cp = "completed pkt vs cp"
      have fl: "filled n v vs pkt lips ?cp"
        using f(5) True filled_cong [of ?n1 n v vs pkt lips cp] by (simp add: completed_fields)
      have cr: "created n v vs pkt lips ?cp" using fl by (simp add: created_def completed_fields)
      obtain j where j: "CONNECTION_IS_FULLNAT ?cp \<longrightarrow> connection_hashkey_self (ng_rand n) lips ?cp = Inr j"
        using filled_known [OF fl _ conn_okD(2) [OF ok]]
        by (cases "CONNECTION_IS_FULLNAT ?cp") (auto simp: connection_hashkey_self_def)
      have unlinked: "\<not> timer_linked (net_clock n) p" using conn_okD(4) [OF ok, of p] p(1) by auto
      obtain c where c: "timer_add (net_clock n) p CONNECTION_TIMEOUT_SECONDS = Inr (CONNECTION_TIMEOUT_SECONDS, c)"
        using timer_add_ok [OF conn_okD(3) [OF ok] unlinked, of CONNECTION_TIMEOUT_SECONDS] wheel
        by (auto simp: CONNECTION_TIMEOUT_SECONDS_def)
      let ?n' = "?n2\<lparr>conns := (conns n)(p \<mapsto> ?cp),
        client_hashtable := ht_add (client_hashtable n) (connection_hashkey_client (ng_rand n) ?cp) p,
        self_hashtable := (if CONNECTION_IS_FULLNAT ?cp then ht_add (self_hashtable n) j p else self_hashtable n),
        net_clock := c\<rparr>"
      have "connection_add p (?n2\<lparr>conns := (conns n)(p \<mapsto> ?cp)\<rparr>) = Inr (?n'\<lparr>net_clock := net_clock n\<rparr>)"
        using j by (cases "CONNECTION_IS_FULLNAT ?cp") (simp_all add: connection_add_def used_up_def Let_def)
      moreover have "vs_store (ng_vs ?n2) v = Some vs" using vs by (simp add: used_up_def)
      ultimately have "connection_create mem pkt v n = Inr (Some p, ?n')"
        using g(1) Some fill True c
        by (simp add: connection_create_def completed_def [symmetric, unfolded Let_def] Let_def)
      moreover have "linked p ?cp ?n2 ?n'"
        unfolding linked_def using c j by (intro exI [of _ "connection_hashkey_client (ng_rand n) ?cp"] exI [of _ j] exI [of _ c])
          (simp add: used_up_def)
      ultimately show ?thesis using net2 g(3) same p cr
        by (intro exI [of _ "Some p"] exI [of _ ?n'] exI [of _ pool] exI [of _ h] exI [of _ pools] exI [of _ rt]
            exI [of _ itf] exI [of _ lips]) auto
    qed
  qed
qed

section \<open>The invariant\<close>

lemma used_up_fields [simp]:
  "conns (used_up n pool h pools rt itf lips) = conns n" "ng_lips (used_up n pool h pools rt itf lips) = lips"
  "ng_rand (used_up n pool h pools rt itf lips) = ng_rand n" "net_clock (used_up n pool h pools rt itf lips) = net_clock n"
  "client_hashtable (used_up n pool h pools rt itf lips) = client_hashtable n"
  "self_hashtable (used_up n pool h pools rt itf lips) = self_hashtable n"
  "conn_mem_pool (used_up n pool h pools rt itf lips) = pool" "ng_heap (used_up n pool h pools rt itf lips) = h"
  by (simp_all add: used_up_def)

definition same_idents :: "local_ip store \<Rightarrow> local_ip store \<Rightarrow> bool" where
  "same_idents lips lips' \<longleftrightarrow> (\<forall>l. map_option lip_ident (lips' l) = map_option lip_ident (lips l))"

lemma taken_idents: "taken lips t l port lips' \<Longrightarrow> lips_ok lips \<Longrightarrow> same_idents lips lips'"
  using taken_ok(2) by (auto simp: same_idents_def)

lemma filled_lips:
  assumes "filled n v vs pkt lips cp" "lips_ok (ng_lips n)"
  shows "lips_ok lips" "same_idents (ng_lips n) lips"
  using assms taken_ok(1) taken_idents
  by (cases "CONNECTION_IS_FULLNAT cp"; fastforce simp: filled_def same_idents_def)+

lemma idents_Some: "same_idents lips lips' \<Longrightarrow> lips l = Some lip \<Longrightarrow> \<exists>lip'. lips' l = Some lip'"
  unfolding same_idents_def by (metis map_option_eq_Some option.simps(9))

lemma used_up_ok:
  assumes ok: "conn_ok n" and net: "net_ok (used_up n pool h pools rt itf lips)"
    and lips: "lips_ok lips" "same_idents (ng_lips n) lips"
    and pool: "pool_ok live pool h" "set live = dom (conns n)"
  shows "conn_ok (used_up n pool h pools rt itf lips)"
proof -
  let ?n = "used_up n pool h pools rt itf lips"
  have "conn_wf ?n cp" if "conns n p = Some cp" for p cp
    using conn_ok_wf [OF ok that] idents_Some [OF lips(2)] by (auto simp: conn_wf_def)
  then show ?thesis using ok net lips pool unfolding conn_ok_def by auto
qed

lemma linked_ok:
  assumes ok: "conn_ok n" and net: "net_ok n2" and n2: "n2 = used_up n pool h pools rt itf lips"
    and lips: "lips_ok lips" "same_idents (ng_lips n) lips"
    and p: "conns n p = None" and pool: "pool_ok (p # live) pool h" "set live = dom (conns n)"
    and known: "CONNECTION_IS_FULLNAT cp \<Longrightarrow> \<exists>lip. lips (c_self_addr cp) = Some lip" and l: "linked p cp n2 n'"
  shows "conn_ok n'"
proof -
  obtain i j c where c: "timer_add (net_clock n2) p CONNECTION_TIMEOUT_SECONDS = Inr (CONNECTION_TIMEOUT_SECONDS, c)"
    and n': "n' = n2\<lparr>conns := (conns n2)(p \<mapsto> cp), client_hashtable := ht_add (client_hashtable n2) i p,
       self_hashtable := (if CONNECTION_IS_FULLNAT cp then ht_add (self_hashtable n2) j p else self_hashtable n2),
       net_clock := c\<rparr>"
    using l unfolding linked_def by blast
  have unlinked: "\<not> timer_linked (net_clock n) p" "\<not> ht_mem (client_hashtable n) p" "\<not> ht_mem (self_hashtable n) p"
    using conn_okD(4,7,8) [OF ok, of p] p by auto
  have clock: "wheel_ok c" "timer_linked c q \<longleftrightarrow> q \<in> dom ((conns n)(p \<mapsto> cp))" for q
    using timer_add_ok [OF conn_okD(3) [OF ok] unlinked(1), of CONNECTION_TIMEOUT_SECONDS] c
      conn_okD(4) [OF ok, of q] by (auto simp: n2)
  have tables: "linked_once (client_hashtable n')" "linked_once (self_hashtable n')"
      "ht_mem (client_hashtable n') q \<longleftrightarrow> q \<in> dom (conns n')"
      "ht_mem (self_hashtable n') q \<longleftrightarrow> (\<exists>cp. conns n' q = Some cp \<and> CONNECTION_IS_FULLNAT cp)" for q
    using linked_once_add [OF conn_okD(5) [OF ok] unlinked(2)] linked_once_add [OF conn_okD(6) [OF ok] unlinked(3)]
      conn_okD(5-8) [OF ok] p by (auto simp: n' n2)
  have wf: "conn_wf n' cq" if "conns n' q = Some cq" for q cq
  proof (cases "q = p")
    case True
    then show ?thesis using that known by (auto simp: n' n2 conn_wf_def)
  next
    case False
    then have "conn_wf n cq" using that conn_ok_wf [OF ok] by (simp add: n' n2)
    then show ?thesis using idents_Some [OF lips(2)] by (auto simp: conn_wf_def n' n2)
  qed
  have "\<exists>live. pool_ok live pool h \<and> set live = dom ((conns n)(p \<mapsto> cp))"
    using pool by (intro exI [of _ "p # live"]) auto
  moreover have "net_ok n'" using net by (simp add: n' net_ok_def)
  ultimately show ?thesis
    unfolding conn_ok_def using lips(1) clock tables wf by (simp add: n' n2)
qed

text \<open>What a creation leaves alone.\<close>

definition create_frame :: "'a cnet_scheme \<Rightarrow> 'a cnet_scheme \<Rightarrow> bool" where
  "create_frame n n' \<longleftrightarrow> ng_d n' = ng_d n \<and> ng_z n' = ng_z n \<and> ng_q n' = ng_q n \<and> ng_ents n' = ng_ents n \<and>
     ng_rand n' = ng_rand n \<and> ng_vs n' = ng_vs n \<and> ng_pkts n' = ng_pkts n \<and> ng_queues n' = ng_queues n \<and>
     ng_mmio n' = ng_mmio n \<and> pools_same (ng_pools n) (ng_pools n') \<and> same_idents (ng_lips n) (ng_lips n') \<and>
     total_clock_seconds (net_clock n') = total_clock_seconds (net_clock n) \<and>
     cpu_frequency (net_clock n') = cpu_frequency (net_clock n) \<and> cnet.more n' = cnet.more n \<and>
     itf_num (ng_itf n') = itf_num (ng_itf n) \<and> quota (ng_heap n) \<le> Suc (quota (ng_heap n'))"

lemma create_frame_used_up:
  "itf_num itf = itf_num (ng_itf n) \<Longrightarrow> pools_same (ng_pools n) pools \<Longrightarrow> same_idents (ng_lips n) lips \<Longrightarrow> quota (ng_heap n) \<le> Suc (quota h) \<Longrightarrow>
     create_frame n (used_up n pool h pools rt itf lips)"
  by (simp add: create_frame_def) (simp add: used_up_def)

lemma timer_add_total:
  "timer_add c p s = Inr (x, c') \<Longrightarrow> total_clock_seconds c' = total_clock_seconds c \<and> cpu_frequency c' = cpu_frequency c"
  by (auto simp: timer_add_def Let_def split: if_splits)

lemma linked_frame:
  assumes "linked p cp n n'" "create_frame m n"
  shows "create_frame m n'"
proof -
  obtain i j c where "timer_add (net_clock n) p CONNECTION_TIMEOUT_SECONDS = Inr (CONNECTION_TIMEOUT_SECONDS, c)"
    and n': "n' = n\<lparr>conns := (conns n)(p \<mapsto> cp), client_hashtable := ht_add (client_hashtable n) i p,
       self_hashtable := (if CONNECTION_IS_FULLNAT cp then ht_add (self_hashtable n) j p else self_hashtable n),
       net_clock := c\<rparr>"
    using assms(1) unfolding linked_def by blast
  then have "total_clock_seconds c = total_clock_seconds (net_clock n)" "cpu_frequency c = cpu_frequency (net_clock n)"
    using timer_add_total by blast+
  with assms(2) show ?thesis unfolding create_frame_def n' by simp
qed

text \<open>
  \<open>connection_create\<close> never faults and keeps the invariant. A failure leaves the connections as they
  are; a success adds one connection, at an address no live connection has.
\<close>

lemma connection_create_ok:
  assumes ok: "conn_ok n" and vs: "vs_store (ng_vs n) v = Some vs" and pool: "pool_at (vs_pool vs) (ng_pools n)"
    and wheel: "CONNECTION_TIMEOUT_SECONDS \<le> total_clock_seconds (net_clock n)"
  shows "\<exists>r n'. connection_create mem pkt v n = Inr (r, n') \<and> conn_ok n' \<and> create_frame n n' \<and>
    (case r of
       None \<Rightarrow> conns n' = conns n
     | Some p \<Rightarrow> conns n p = None \<and> (\<exists>cp. conns n' = (conns n)(p \<mapsto> cp) \<and> created n v vs pkt (ng_lips n') cp))"
proof -
  obtain r n' mp h pools rt itf lips where c: "connection_create mem pkt v n = Inr (r, n')"
    "net_ok (used_up n mp h pools rt itf lips)" "pools_same (ng_pools n) pools" "quota (ng_heap n) \<le> Suc (quota h)"
    "itf_num itf = itf_num (ng_itf n)"
    "case r of
       None \<Rightarrow> n' = used_up n mp h pools rt itf lips \<and> (\<exists>live. pool_ok live mp h \<and> set live = dom (conns n)) \<and>
         (lips = ng_lips n \<or> (\<exists>l. taken (ng_lips n) (VS_IS_TCP vs) l 0 lips))
     | Some p \<Rightarrow> conns n p = None \<and> (\<exists>live. pool_ok (p # live) mp h \<and> set live = dom (conns n)) \<and>
         (\<exists>cp. linked p cp (used_up n mp h pools rt itf lips) n' \<and> created n v vs pkt lips cp)"
    using create_steps [OF assms, of mem pkt] by blast
  note lo = conn_okD(2) [OF ok]
  show ?thesis
  proof (cases r)
    case None
    then obtain live where n': "n' = used_up n mp h pools rt itf lips" "pool_ok live mp h" "set live = dom (conns n)"
        "lips = ng_lips n \<or> (\<exists>l. taken (ng_lips n) (VS_IS_TCP vs) l 0 lips)"
      using c(6) by auto
    have l: "lips_ok lips" "same_idents (ng_lips n) lips"
      using n'(4) lo taken_ok(1) taken_idents by (auto simp: same_idents_def)
    from used_up_ok [OF ok c(2) this n'(2,3)] show ?thesis
      using c(1) None n'(1) create_frame_used_up [OF c(5,3) l(2) c(4)] by simp
  next
    case (Some p)
    then obtain live cp where n': "conns n p = None" "pool_ok (p # live) mp h" "set live = dom (conns n)"
        "linked p cp (used_up n mp h pools rt itf lips) n'" "created n v vs pkt lips cp"
      using c(6) by auto
    have fl: "filled n v vs pkt lips cp" using n'(5) by (simp add: created_def)
    have "conn_ok n'"
      using linked_ok [OF ok c(2) refl filled_lips [OF fl lo] n'(1-3) _ n'(4)] filled_known [OF fl _ lo] by blast
    moreover have "conns n' = (conns n)(p \<mapsto> cp)" "ng_lips n' = lips" using n'(4) by (auto simp: linked_def)
    moreover have "create_frame n n'"
      using linked_frame [OF n'(4)] create_frame_used_up [OF c(5,3) filled_lips(2) [OF fl lo] c(4)] by blast
    ultimately show ?thesis using c(1) Some n'(1,5) by auto
  qed
qed

section \<open>The accounts\<close>

lemma get_port_first:
  assumes ok: "pr_ok r" and g: "get_from_range (Some r) 0 = Inr (port, Some r')"
  shows "if port = 0 then r' = r
    else pr_content r = port # pr_content r' \<and> pr_ok r' \<and> pr_room r' = Suc (pr_room r)"
proof (cases "pr_content r")
  case Nil
  then have "pr_avail r = 0" using length_pr_content [of r] by simp
  then show ?thesis
    using g get_port1_empty [of r] by (simp add: get_from_range_def port_range_get_port_def)
next
  case (Cons q qs)
  have "q \<noteq> 0" using ok Cons by (simp add: pr_ok_def)
  moreover obtain r1 where r1: "port_range_get_port1 r = Inr (q, r1)" "pr_ok r1" "pr_content r1 = qs"
    "pr_size r1 = pr_size r" "Suc (pr_avail r1) = pr_avail r"
    using get_port1_first [OF ok Cons] by blast
  moreover have "port = q \<and> r' = r1"
    using g r1(1) by (simp add: get_from_range_def port_range_get_port_def)
  ultimately show ?thesis using Cons pr_avail_less [OF ok] by (simp add: pr_room_def)
qed

lemma taken_accounts:
  assumes ports: "ports_ok n" and t: "taken (ng_lips n) t l port lips"
  shows "if port = 0 then lips = ng_lips n
    else \<exists>lip r r'. ng_lips n l = Some lip \<and> lip_range lip t = Some r \<and> range_held n r (holders n l t) \<and>
      pr_content r = port # pr_content r' \<and> pr_ok r' \<and> pr_room r' = Suc (pr_room r) \<and>
      lips = (ng_lips n)(l \<mapsto> set_lip_range lip t (Some r'))"
proof -
  obtain lip r r' where lr: "ng_lips n l = Some lip" "lip_range lip t = Some r"
      "get_from_range (Some r) 0 = Inr (port, Some r')" "lips = (ng_lips n)(l \<mapsto> set_lip_range lip t (Some r'))"
    using t by (auto simp: taken_def)
  have h: "range_held n r (holders n l t)" by (rule ports_okD [OF ports lr(1,2)])
  then have "pr_ok r" by (simp add: range_held_def)
  note first = get_port_first [OF this lr(3)]
  show ?thesis
  proof (cases "port = 0")
    case True
    then have "Some r' = lip_range lip t" using first lr(2) by simp
    then show ?thesis using True lr(1,4) by (simp add: fun_upd_idem)
  next
    case False
    then show ?thesis using first lr h by auto
  qed
qed

lemma range_held_get:
  assumes h: "range_held n r H" and r': "pr_content r = port_held n' p # pr_content r'" "pr_ok r'"
    "pr_room r' = Suc (pr_room r)" and p: "p \<notin> H"
    and same: "\<And>q. q \<in> H \<Longrightarrow> port_held n' q = port_held n q"
  shows "range_held n' r' (insert p H)"
proof -
  have d: "distinct (port_held n' p # pr_content r')" "port_held n' p \<noteq> 0"
    using h r'(1) by (auto simp: range_held_def pr_ok_def)
  have H: "port_held n q \<noteq> 0" "port_held n q \<noteq> port_held n' p" "port_held n q \<notin> set (pr_content r')"
    if "q \<in> H" for q
    using h that r'(1) by (auto simp: range_held_def)
  have "inj_on (port_held n') H" using h same by (auto simp: range_held_def inj_on_def)
  moreover have "port_held n' p \<notin> port_held n' ` H" using H same by fastforce
  ultimately have "inj_on (port_held n') (insert p H)" using p by simp
  then show ?thesis
    using h r' d H same p by (auto simp: range_held_def)
qed

lemma holders_new:
  assumes "conns n' = (conns n)(p \<mapsto> cp)" "conns n p = None"
  shows "holders n' l t = (if CONNECTION_IS_FULLNAT cp \<and> c_self_addr cp = l \<and> CONNECTION_IS_TCP cp = t
     then insert p (holders n l t) else holders n l t)"
  using assms by (auto simp: holders_def)

lemma holders_live: "p \<in> holders n l t \<Longrightarrow> conns n p \<noteq> None"
  by (auto simp: holders_def)

lemma created_ports:
  assumes ports: "ports_ok n" and p: "conns n p = None" and cs: "conns n' = (conns n)(p \<mapsto> cp)"
    and cr: "created n v vs pkt (ng_lips n') cp"
  shows "ports_ok n'"
proof -
  have held: "port_held n' q = port_held n q" if "q \<noteq> p" for q using that cs by (simp add: port_held_def)
  have old: "range_held n' r (holders n l t)" if "range_held n r (holders n l t)" for r l t
    using that p holders_live by (intro range_held_other [OF that] held) blast
  have tcp: "CONNECTION_IS_TCP cp = VS_IS_TCP vs"
    using cr by (simp add: created_def filled_def CONNECTION_IS_TCP_def VS_IS_TCP_def)
  show ?thesis
  proof (cases "CONNECTION_IS_FULLNAT cp")
    case False
    then have "ng_lips n' = ng_lips n" using cr by (simp add: created_def filled_def)
    then show ?thesis
      using ports old unfolding ports_ok_iff holders_new [OF cs p] using False by simp blast
  next
    case True
    let ?l = "c_self_addr cp" and ?t = "CONNECTION_IS_TCP cp"
    have t: "taken (ng_lips n) ?t ?l (c_self_port cp) (ng_lips n')" "c_self_port cp \<noteq> 0"
      using cr True tcp by (auto simp: created_def filled_def)
    obtain lip r r' where lr: "ng_lips n ?l = Some lip" "lip_range lip ?t = Some r" "range_held n r (holders n ?l ?t)"
      "pr_content r = c_self_port cp # pr_content r'" "pr_ok r'" "pr_room r' = Suc (pr_room r)"
      "ng_lips n' = (ng_lips n)(?l \<mapsto> set_lip_range lip ?t (Some r'))"
      using taken_accounts [OF ports t(1)] t(2) by auto
    have ph: "port_held n' p = c_self_port cp" using cs by (simp add: port_held_def)
    have np: "p \<notin> holders n l t" for l t using holders_live p by blast
    have new: "range_held n' r' (insert p (holders n ?l ?t))"
      using range_held_get [OF lr(3) _ lr(5,6) np, of n'] lr(4) ph held np by metis
    show ?thesis
      unfolding ports_ok_iff
    proof (intro allI impI)
      fix l lip' t assume l: "ng_lips n' l = Some lip'"
      show "\<exists>r. lip_range lip' t = Some r \<and> range_held n' r (holders n' l t)"
      proof (cases "l = ?l \<and> t = ?t")
        case here: True
        then have "lip' = set_lip_range lip ?t (Some r')" using l lr(7) by simp
        then show ?thesis using here new True by (simp add: holders_new [OF cs p])
      next
        case other: False
        then have "\<not> (CONNECTION_IS_FULLNAT cp \<and> ?l = l \<and> ?t = t)" by blast
        then have h: "holders n' l t = holders n l t" by (simp only: holders_new [OF cs p] if_False)
        have "\<exists>lip0. ng_lips n l = Some lip0 \<and> lip_range lip' t = lip_range lip0 t"
          using l lr(1,7) other by (cases "l = ?l") auto
        then obtain lip0 where lip0: "ng_lips n l = Some lip0" "lip_range lip' t = lip_range lip0 t" by blast
        obtain r0 where "lip_range lip0 t = Some r0" "range_held n r0 (holders n l t)"
          using ports lip0(1) unfolding ports_ok_iff by blast
        then show ?thesis using old h lip0(2) by auto
      qed
    qed
  qed
qed

lemma table_ok_new:
  assumes t: "table_ok s t" "\<not> ht_mem t p" and same: "\<And>q. q \<noteq> p \<Longrightarrow> s' q = s q"
  shows "table_ok s' t" "s' p = Inr i \<Longrightarrow> table_ok s' (ht_add t i p)"
proof -
  show ok: "table_ok s' t"
  proof (rule table_ok_cong [OF t(1)])
    fix q assume "ht_mem t q"
    then show "s' q = s q" using t(2) same by metis
  qed
  show "s' p = Inr i \<Longrightarrow> table_ok s' (ht_add t i p)"
    by (rule table_ok_add [OF ok _ t(2)])
qed

lemma linked_keys:
  assumes ok: "conn_ok n" and keys: "keys_ok n" and p: "conns n p = None"
    and idents: "same_idents (ng_lips n) lips" and l: "linked p cp (used_up n mp h pools rt itf lips) n'"
  shows "keys_ok n'"
proof -
  let ?n = "used_up n mp h pools rt itf lips"
  obtain j c where j: "CONNECTION_IS_FULLNAT cp \<longrightarrow> connection_hashkey_self (ng_rand n) lips cp = Inr j"
    and n': "n' = ?n\<lparr>conns := (conns n)(p \<mapsto> cp),
       client_hashtable := ht_add (client_hashtable n) (connection_hashkey_client (ng_rand n) cp) p,
       self_hashtable := (if CONNECTION_IS_FULLNAT cp then ht_add (self_hashtable n) j p else self_hashtable n),
       net_clock := c\<rparr>"
    using l unfolding linked_def used_up_fields by blast
  have new: "\<not> ht_mem (client_hashtable n) p" "\<not> ht_mem (self_hashtable n) p"
    using conn_okD(7,8) [OF ok, of p] p by auto
  have slots: "client_slot n' q = client_slot n q" "self_slot n' q = self_slot n q" if "q \<noteq> p" for q
    using that idents by (intro slots_cong; simp add: n' same_idents_def)+
  have "table_ok (client_slot n) (client_hashtable n)" "table_ok (self_slot n) (self_hashtable n)"
    using keys by (simp_all add: keys_ok_def)
  note cl = table_ok_new [OF this(1) new(1) slots(1)] and sl = table_ok_new [OF this(2) new(2) slots(2)]
  have "client_slot n' p = Inr (connection_hashkey_client (ng_rand n) cp)"
    "CONNECTION_IS_FULLNAT cp \<Longrightarrow> self_slot n' p = Inr j"
    using j by (simp_all add: client_slot_def self_slot_def n')
  moreover have "client_hashtable n' = ht_add (client_hashtable n) (connection_hashkey_client (ng_rand n) cp) p"
    "self_hashtable n' = (if CONNECTION_IS_FULLNAT cp then ht_add (self_hashtable n) j p else self_hashtable n)"
    by (simp_all add: n')
  ultimately show ?thesis using cl sl unfolding keys_ok_def by simp
qed

text \<open>With the accounts right before, they are right afterwards, and a failure has taken no port.\<close>

lemma connection_create_accounts:
  assumes ok: "conn_ok n" and ports: "ports_ok n" and keys: "keys_ok n"
    and vs: "vs_store (ng_vs n) v = Some vs" and pool: "pool_at (vs_pool vs) (ng_pools n)"
    and wheel: "CONNECTION_TIMEOUT_SECONDS \<le> total_clock_seconds (net_clock n)"
    and c: "connection_create mem pkt v n = Inr (r, n')"
  shows "ports_ok n' \<and> keys_ok n' \<and> (r = None \<longrightarrow> ng_lips n' = ng_lips n)"
proof -
  obtain mp h pools rt itf lips where s:
    "case r of
       None \<Rightarrow> n' = used_up n mp h pools rt itf lips \<and> (\<exists>live. pool_ok live mp h \<and> set live = dom (conns n)) \<and>
         (lips = ng_lips n \<or> (\<exists>l. taken (ng_lips n) (VS_IS_TCP vs) l 0 lips))
     | Some p \<Rightarrow> conns n p = None \<and> (\<exists>live. pool_ok (p # live) mp h \<and> set live = dom (conns n)) \<and>
         (\<exists>cp. linked p cp (used_up n mp h pools rt itf lips) n' \<and> created n v vs pkt lips cp)"
    using create_steps [OF ok vs pool wheel, of mem pkt] c by auto
  show ?thesis
  proof (cases r)
    case None
    then have n': "n' = used_up n mp h pools rt itf lips" "lips = ng_lips n"
      using s taken_accounts [OF ports] by auto
    have "client_slot n' = client_slot n" "self_slot n' = self_slot n"
      by (intro ext slots_cong; simp add: n')+
    then have "keys_ok n'" using keys by (simp add: keys_ok_def n')
    moreover have "ports_ok n'" using ports ports_ok_cong [of n' n] n' by simp
    ultimately show ?thesis using n' by simp
  next
    case (Some p)
    then obtain cp where n': "conns n p = None" "linked p cp (used_up n mp h pools rt itf lips) n'"
        "created n v vs pkt lips cp" using s by auto
    have fl: "filled n v vs pkt lips cp" using n'(3) by (simp add: created_def)
    have n2: "conns n' = (conns n)(p \<mapsto> cp)" "ng_lips n' = lips" using n'(2) by (auto simp: linked_def)
    have "ports_ok n'" using created_ports [OF ports n'(1) n2(1)] n'(3) n2(2) by blast
    moreover have "keys_ok n'"
      by (rule linked_keys [OF ok keys n'(1) filled_lips(2) [OF fl conn_okD(2) [OF ok]] n'(2)])
    ultimately show ?thesis using Some by simp
  qed
qed

end
