(* ===== verification/Tcp.thy ===== *)
theory Tcp
  imports Connection "HOL-Library.Sublist"
begin

text \<open>
  \<open>uspace/src/tcp.c\<close>: how the balancer follows the closing of a TCP connection from the flags of
  the segments it forwards. \<open>tcp_states\<close>, which prints a header, is not modelled.
\<close>

section \<open>The operation\<close>

definition tcp_fin :: "packet \<Rightarrow> bool" where
  "tcp_fin pkt \<longleftrightarrow> p_data pkt (transport_header pkt + 13) AND 0x01 \<noteq> 0"

definition tcp_ack :: "packet \<Rightarrow> bool" where
  "tcp_ack pkt \<longleftrightarrow> p_data pkt (transport_header pkt + 13) AND 0x10 \<noteq> 0"

definition tcp_change_state :: "packet \<Rightarrow> connection \<Rightarrow> u8 \<times> connection" where
  "tcp_change_state pkt cp =
     (let cp =
        (if tcp_fin pkt \<and> c_state cp = TCP_INIT then cp\<lparr>c_state := TCP_FIN1\<rparr>
         else if tcp_ack pkt \<and> c_state cp = TCP_FIN1 then cp\<lparr>c_state := TCP_FIN1_ACK\<rparr>
         else if tcp_fin pkt \<and> c_state cp = TCP_FIN1_ACK then cp\<lparr>c_state := TCP_FIN2\<rparr>
         else if tcp_ack pkt \<and> c_state cp = TCP_FIN2 then cp\<lparr>c_state := TCP_CLOSED\<rparr>
         else cp)
      in (c_state cp, cp))"

section \<open>What closes a connection\<close>

text \<open>The flags waited for in the states before \<open>TCP_CLOSED\<close>, and those states in order.\<close>

definition closing :: "(packet \<Rightarrow> bool) list" where
  "closing = [tcp_fin, tcp_ack, tcp_fin, tcp_ack]"

definition tcp_phases :: "u8 list" where
  "tcp_phases = [TCP_INIT, TCP_FIN1, TCP_FIN1_ACK, TCP_FIN2, TCP_CLOSED]"

definition tcp_run :: "packet list \<Rightarrow> connection \<Rightarrow> connection" where
  "tcp_run pkts cp = fold (\<lambda>pkt cp. snd (tcp_change_state pkt cp)) pkts cp"

lemmas tcp_states = TCP_INIT_def TCP_FIN1_def TCP_FIN1_ACK_def TCP_FIN2_def TCP_CLOSED_def tcp_phases_def

lemma phase_inj: "k < 5 \<Longrightarrow> j < 5 \<Longrightarrow> tcp_phases ! k = tcp_phases ! j \<longleftrightarrow> k = j"
  by (rule nth_eq_iff_index_eq) (simp_all add: tcp_states)

text \<open>One segment moves the state by at most one phase, and only when the awaited flag is set.\<close>

lemma tcp_step:
  assumes "k < 5" "c_state cp = tcp_phases ! k"
  shows "c_state (snd (tcp_change_state pkt cp))
      = tcp_phases ! (if k < 4 \<and> (closing ! k) pkt then Suc k else k)"
    "fst (tcp_change_state pkt cp) = c_state (snd (tcp_change_state pkt cp))"
proof -
  consider "k = 0" | "k = 1" | "k = 2" | "k = 3" | "k = 4" using assms(1) by linarith
  then show "c_state (snd (tcp_change_state pkt cp))
      = tcp_phases ! (if k < 4 \<and> (closing ! k) pkt then Suc k else k)"
    by cases (use assms(2) in \<open>simp_all add: tcp_change_state_def tcp_states closing_def\<close>)
  show "fst (tcp_change_state pkt cp) = c_state (snd (tcp_change_state pkt cp))"
    by (simp add: tcp_change_state_def Let_def)
qed

text \<open>\<open>seen Ps pkts\<close>: the segments contain, in order, one for each of the conditions.\<close>

definition seen :: "(packet \<Rightarrow> bool) list \<Rightarrow> packet list \<Rightarrow> bool" where
  "seen Ps pkts \<longleftrightarrow> (\<exists>qs. subseq qs pkts \<and> list_all2 (\<lambda>P q. P q) Ps qs)"

lemma seen_Nil [simp]: "seen [] pkts" "\<not> seen (P # Ps) []"
  by (auto simp: seen_def list_all2_Cons1)

lemma seen_tail: "seen (P # Ps) pkts \<Longrightarrow> seen Ps pkts"
  by (auto simp: seen_def list_all2_Cons1 dest: subseq_Cons')

lemma seen_Cons: "seen (P # Ps) (p # pkts) \<longleftrightarrow> (if P p then seen Ps pkts else seen (P # Ps) pkts)"
proof (cases "P p")
  case True
  have "seen Ps pkts" if s: "seen (P # Ps) (p # pkts)"
  proof -
    obtain q qs where q: "subseq (q # qs) (p # pkts)" "list_all2 (\<lambda>P q. P q) Ps qs" "P q"
      using s by (auto simp: seen_def list_all2_Cons1)
    have "subseq qs pkts" using q(1) by (cases "q = p") (auto dest: subseq_Cons')
    with q(2) show ?thesis by (auto simp: seen_def)
  qed
  moreover have "seen (P # Ps) (p # pkts)" if "seen Ps pkts"
    using that True unfolding seen_def by (metis list_all2_Cons subseq_Cons2)
  ultimately show ?thesis using True by auto
next
  case False
  then show ?thesis by (auto simp: seen_def list_all2_Cons1 split: if_splits)
qed

lemma tcp_run_phase:
  "k < 5 \<Longrightarrow> c_state cp = tcp_phases ! k \<Longrightarrow>
     (c_state (tcp_run pkts cp) = TCP_CLOSED) = seen (drop k closing) pkts"
proof (induction pkts arbitrary: k cp)
  case Nil
  have c: "TCP_CLOSED = tcp_phases ! 4" by (simp add: tcp_states)
  have "drop k closing = [] \<longleftrightarrow> 4 \<le> k" by (simp add: closing_def eval_nat_numeral)
  then have "seen (drop k closing) [] \<longleftrightarrow> k = 4" using Nil.prems(1) by (cases "drop k closing") auto
  then show ?case using Nil phase_inj [of k 4] by (simp add: tcp_run_def c)
next
  case (Cons p pkts)
  let ?k = "if k < 4 \<and> (closing ! k) p then Suc k else k"
  let ?cp = "snd (tcp_change_state p cp)"
  have run: "tcp_run (p # pkts) cp = tcp_run pkts ?cp" by (simp add: tcp_run_def)
  have k: "?k < 5" using Cons.prems(1) by simp
  have "(c_state (tcp_run (p # pkts) cp) = TCP_CLOSED) = seen (drop ?k closing) pkts"
    unfolding run by (rule Cons.IH [OF k tcp_step(1) [OF Cons.prems]])
  also have "\<dots> = seen (drop k closing) (p # pkts)"
  proof (cases "k < 4")
    case True
    then have "drop k closing = closing ! k # drop (Suc k) closing"
      by (intro Cons_nth_drop_Suc [symmetric]) (simp add: closing_def)
    then show ?thesis using True by (simp add: seen_Cons)
  next
    case False
    then show ?thesis by (simp add: closing_def)
  qed
  finally show ?case .
qed

text \<open>
  C9: a fresh TCP connection is closed by a sequence of forwarded segments exactly if the sequence
  contains, in this order, four different segments with FIN, ACK, FIN and ACK set, whatever comes
  between them and from whichever side.
\<close>

theorem closed_iff_fin_ack_fin_ack:
  assumes "c_state cp = TCP_INIT"
  shows "c_state (tcp_run pkts cp) = TCP_CLOSED \<longleftrightarrow>
    (\<exists>a b c d. subseq [a, b, c, d] pkts \<and> tcp_fin a \<and> tcp_ack b \<and> tcp_fin c \<and> tcp_ack d)"
proof -
  have "c_state cp = tcp_phases ! 0" using assms by (simp add: tcp_states)
  from tcp_run_phase [OF _ this, of pkts]
  have "c_state (tcp_run pkts cp) = TCP_CLOSED \<longleftrightarrow> seen closing pkts" by simp
  also have "\<dots> \<longleftrightarrow> (\<exists>a b c d. subseq [a, b, c, d] pkts \<and> tcp_fin a \<and> tcp_ack b \<and> tcp_fin c \<and> tcp_ack d)"
    by (force simp: seen_def closing_def list_all2_Cons1)
  finally show ?thesis .
qed

lemma closed_iff_fin_ack_fin_ack_witness:
  "c_state (tcp_run (replicate 4 (sample_packet\<lparr>p_data := (\<lambda>_. 0x11)\<rparr>)) (sample_connection\<lparr>c_state := TCP_INIT\<rparr>)) = TCP_CLOSED"
proof -
  let ?p = "sample_packet\<lparr>p_data := (\<lambda>_. 0x11)\<rparr>"
  have "tcp_fin ?p" "tcp_ack ?p" by (simp_all add: tcp_fin_def tcp_ack_def)
  moreover have "subseq [?p, ?p, ?p, ?p] (replicate 4 ?p)" by (simp add: numeral_eq_Suc)
  ultimately show ?thesis using closed_iff_fin_ack_fin_ack [of "sample_connection\<lparr>c_state := TCP_INIT\<rparr>" "replicate 4 ?p"]
    by auto
qed

end
