(* ===== verification/Arp.thy ===== *)
theory Arp
  imports NetGlobal
begin

text \<open>
  \<open>uspace/src/arp.c\<close>, and \<open>rt_find_server_route\<close> of \<open>route.c\<close>: answering requests for the own
  addresses, asking for the servers' addresses, and learning a server's card and hardware address
  from the replies. An ARP packet is 28 bytes behind the ethernet header: operation at 6, sender
  hardware and IP address at 8 and 14, target hardware and IP address at 18 and 24.
\<close>

section \<open>The operations\<close>

definition ETH_ALEN :: nat where "ETH_ALEN = 6"

definition ARP_HDR :: nat where "ARP_HDR = 28"

definition ARP_REQUEST_OP :: u16 where "ARP_REQUEST_OP = 0x100"

definition ARP_REPLY_OP :: u16 where "ARP_REPLY_OP = 0x200"

definition ar_op :: "packet \<Rightarrow> u16" where
  "ar_op pkt = ld16 (p_data pkt) (network_header pkt + 6)"

definition is_arp_request :: "packet \<Rightarrow> bool" where
  "is_arp_request pkt \<longleftrightarrow> ar_op pkt = ARP_REQUEST_OP"

definition is_arp_reply :: "packet \<Rightarrow> bool" where
  "is_arp_reply pkt \<longleftrightarrow> ar_op pkt = ARP_REPLY_OP"

definition all_mac :: mac where "all_mac = (\<lambda>_. 0xff)"

definition zero_mac :: mac where "zero_mac = (\<lambda>_. 0)"

text \<open>One server of the walk; the result of \<open>rt_entry_create\<close> is written to without a check.\<close>

definition arp_server_step :: "packet \<Rightarrow> srv_ref \<Rightarrow> 'a net_scheme \<Rightarrow> 'a net_scheme res" where
  "arp_server_step pkt srv n =
     bindE (get_server (ng_pools n) srv) (\<lambda>s.
       let srv_ip = server_get_ip_address s;
           nic_id = uint (adapter_idx pkt)
       in if ip_address_eq srv_ip (packet_get_sip pkt) then
            bindE (ng_rt_lookup_with_nic_id srv_ip nic_id n) (\<lambda>re.
              if re \<noteq> None then Inr n
              else case rt_entry_create (ng_heap n) of
                (None, h) \<Rightarrow> Inl Bad_deref
              | (Some re, h) \<Rightarrow>
                  bindE (ng_rt_add_entry re (rt_entry_new srv_ip (of_int nic_id) re (n\<lparr>ng_heap := h\<rparr>))) (\<lambda>(_, n).
                  bindE (server_set_mac (ng_pools n) srv (\<lambda>k. p_data pkt (network_header pkt + 8 + k))) (\<lambda>pools.
                    Inr (n\<lparr>ng_pools := pools\<rparr>))))
          else Inr n)"

definition arp_server_route :: "packet \<Rightarrow> 'a net_scheme \<Rightarrow> (int \<times> 'a net_scheme) res" where
  "arp_server_route pkt n =
     bindE (foldE (arp_server_step pkt) (server_pool_get_server_list (ng_pools n)) n) (\<lambda>n. Inr (1, n))"

text \<open>The frame of a request, written from the start of the buffer.\<close>

definition arp_request_frame :: "mac \<Rightarrow> u32 \<Rightarrow> u32 \<Rightarrow> bytes \<Rightarrow> bytes" where
  "arp_request_frame src_mac src_ip4 ip4 d =
     (let ap = ETH_HDR;
          d = put_bytes d 0 ETH_ALEN all_mac;
          d = put_bytes d 6 ETH_ALEN src_mac;
          d = st16 d 12 PROTO_ARP;
          d = st16 d ap 0x0100;
          d = st16 d (ap + 2) 0x0008;
          d = d(ap + 4 := 6, ap + 5 := 4);
          d = st16 d (ap + 6) ARP_REQUEST_OP;
          d = put_bytes d (ap + 8) ETH_ALEN src_mac;
          d = st32 d (ap + 14) src_ip4;
          d = put_bytes d (ap + 18) ETH_ALEN zero_mac
      in st32 d (ap + 24) ip4)"

definition arp_send_request :: "ip_address \<Rightarrow> nat \<Rightarrow> 'a net_scheme \<Rightarrow> (int \<times> 'a net_scheme) res" where
  "arp_send_request addr nic_id n =
     bindE (ng_interface_get_vsipv4_rr (int nic_id) n) (\<lambda>(lip, n).
     bindE (if lip = None then ng_interface_get_selfipv4_rr (int nic_id) n else Inr (lip, n)) (\<lambda>(lip, n).
       case lip of
         None \<Rightarrow> Inr (0, n)
       | Some l \<Rightarrow>
           bindE (ng_get_free_packet n) (\<lambda>(p, n).
             case p of
               None \<Rightarrow> Inr (0, n)
             | Some p \<Rightarrow>
                 bindE (deref (ng_pkts n) p) (\<lambda>pkt.
                 bindE (ng_driver_get_mac n nic_id) (\<lambda>src_mac.
                 bindE (deref (ng_lips n) l) (\<lambda>lip.
                 let d = arp_request_frame src_mac (ip_w0 (lip_get_ip_address lip)) (ip_w0 addr) (p_data pkt);
                     pkt = pkt\<lparr>p_data := d, p_len := of_nat (ARP_HDR + ETH_HDR), adapter_idx := of_nat nic_id\<rparr>
                 in bindE (ng_driver_put_packet_to_send_buffer p (n\<lparr>ng_pkts := (ng_pkts n)(p \<mapsto> pkt)\<rparr>))
                      (\<lambda>(_, n). Inr (1, n))))))))"

text \<open>
  The reply is written over the request: the ten bytes of the sender become the target, the asked
  address and the card's hardware address become the sender.
\<close>

definition arp_reply_frame :: "nat \<Rightarrow> nat \<Rightarrow> mac \<Rightarrow> bytes \<Rightarrow> bytes" where
  "arp_reply_frame ep ap hwaddr d0 =
     (let tip = ld32 d0 (ap + 24);
          d = put_bytes d0 (ap + 18) (ETH_ALEN + 4) (\<lambda>k. d0 (ap + 8 + k));
          d = put_bytes d (ap + 8) ETH_ALEN hwaddr;
          d = st32 d (ap + 14) tip;
          d = st16 d (ap + 6) ARP_REPLY_OP;
          d' = put_bytes d ep ETH_ALEN (\<lambda>k. d (ep + 6 + k))
      in put_bytes d' (ep + 6) ETH_ALEN hwaddr)"

definition arp_response :: "ip_address \<Rightarrow> ptr \<Rightarrow> 'a net_scheme \<Rightarrow> (int \<times> 'a net_scheme) res" where
  "arp_response junk p n =
     bindE (deref (ng_pkts n) p) (\<lambda>pkt.
       let ep = mac_header pkt;
           ap = network_header pkt;
           ip = ip_address_init_v4 junk (ld32 (p_data pkt) (ap + 24))
       in bindE (ng_interface_lookup_ip n ip) (\<lambda>lip.
            if lip = None then Inr (0, n)
            else if ar_op pkt \<noteq> ARP_REQUEST_OP then Inr (0, n)
            else bindE (ng_rt_lookup_rr ip n) (\<lambda>(re, n).
              case re of
                None \<Rightarrow> Inr (0, n)
              | Some re \<Rightarrow>
                  bindE (deref (ng_ents n) re) (\<lambda>e.
                  bindE (ng_driver_get_mac n (unat (re_nic_id e))) (\<lambda>hwaddr.
                  let pkt = pkt\<lparr>p_data := arp_reply_frame ep ap hwaddr (p_data pkt),
                                adapter_idx := ucast (re_nic_id e)\<rparr>
                  in Inr (int (ETH_HDR + ARP_HDR), n\<lparr>ng_pkts := (ng_pkts n)(p \<mapsto> pkt)\<rparr>))))))"

definition arp_handler :: "ip_address \<Rightarrow> ptr \<Rightarrow> 'a net_scheme \<Rightarrow> (verdict \<times> 'a net_scheme) res" where
  "arp_handler junk p n =
     bindE (deref (ng_pkts n) p) (\<lambda>pkt.
       if is_arp_request pkt then
         bindE (arp_response junk p n) (\<lambda>(ret, n).
           if ret \<noteq> 0 then
             bindE (ng_driver_put_packet_to_send_buffer p n) (\<lambda>(_, n). Inr (PACKET_STOLEN, n))
           else Inr (PACKET_ACCEPT, n))
       else if is_arp_reply pkt then
         bindE (arp_server_route pkt n) (\<lambda>(_, n). Inr (PACKET_ACCEPT, n))
       else Inr (PACKET_ACCEPT, n))"

text \<open>Every server is asked for on every card.\<close>

definition rt_find_server_route :: "'a net_scheme \<Rightarrow> 'a net_scheme res" where
  "rt_find_server_route n =
     (let num = ng_driver_get_adapter_num n
      in foldE (\<lambda>srv n.
           foldE (\<lambda>i n.
             bindE (get_server (ng_pools n) srv) (\<lambda>s.
             bindE (arp_send_request (server_get_ip_address s) i n) (\<lambda>(_, n). Inr n)))
           [0..<num] n)
         (server_pool_get_server_list (ng_pools n)) n)"

section \<open>The frames\<close>

text \<open>What a receiver reads in an ARP frame.\<close>

definition arp_sender_mac :: "bytes \<Rightarrow> nat \<Rightarrow> u8" where
  "arp_sender_mac d k = d (14 + 8 + k)"

definition arp_target_mac :: "bytes \<Rightarrow> nat \<Rightarrow> u8" where
  "arp_target_mac d k = d (14 + 18 + k)"

lemma request_fields:
  assumes f: "f = arp_request_frame mac sip tip d"
  shows "k < 6 \<Longrightarrow> f k = 0xff" "k < 6 \<Longrightarrow> f (6 + k) = mac k" "ld16 f 12 = PROTO_ARP" "ld16 f 20 = ARP_REQUEST_OP"
    "k < 6 \<Longrightarrow> arp_sender_mac f k = mac k" "ld32 f 28 = sip" "ld32 f 38 = tip"
proof -
  show "k < 6 \<Longrightarrow> f k = 0xff" "k < 6 \<Longrightarrow> f (6 + k) = mac k" "k < 6 \<Longrightarrow> arp_sender_mac f k = mac k"
    by (simp_all add: f arp_request_frame_def arp_sender_mac_def ETH_HDR_def ETH_ALEN_def Let_def all_mac_def
        put_bytes_def st16_def st32_def)
  show "ld16 f 12 = PROTO_ARP" "ld16 f 20 = ARP_REQUEST_OP" "ld32 f 28 = sip" "ld32 f 38 = tip"
    by (simp_all add: f arp_request_frame_def ETH_HDR_def ETH_ALEN_def Let_def mem_simps)
qed

lemma reply_fields:
  assumes f: "f = arp_reply_frame 0 14 hw d"
  shows "k < 6 \<Longrightarrow> f k = d (6 + k)" "k < 6 \<Longrightarrow> f (6 + k) = hw k" "ld16 f 12 = ld16 d 12" "ld16 f 20 = ARP_REPLY_OP"
    "k < 6 \<Longrightarrow> arp_sender_mac f k = hw k" "ld32 f 28 = ld32 d 38"
    "k < 6 \<Longrightarrow> arp_target_mac f k = arp_sender_mac d k" "ld32 f 38 = ld32 d 28"
proof -
  show "k < 6 \<Longrightarrow> f k = d (6 + k)" "k < 6 \<Longrightarrow> f (6 + k) = hw k" "k < 6 \<Longrightarrow> arp_sender_mac f k = hw k"
      "k < 6 \<Longrightarrow> arp_target_mac f k = arp_sender_mac d k"
    by (simp_all add: f arp_reply_frame_def arp_sender_mac_def arp_target_mac_def ETH_ALEN_def Let_def put_bytes_def st16_def st32_def)
  show "ld16 f 12 = ld16 d 12" "ld16 f 20 = ARP_REPLY_OP" "ld32 f 28 = ld32 d 38"
    by (simp_all add: f arp_reply_frame_def ETH_ALEN_def Let_def mem_simps)
  have "ld32 (put_bytes d 32 10 (\<lambda>k. d (22 + k))) 38 = ld32 d 28"
    by (rule ld32_put_inside) simp_all
  then show "ld32 f 38 = ld32 d 28" by (simp add: f arp_reply_frame_def ETH_ALEN_def Let_def mem_simps)
qed

text \<open>
  C31: an ARP request frame that is parsed on arrival is recognised as a request with the addresses it was
  built from; the reply frame built from it is parsed as a reply with the addresses exchanged, sent
  to the asker, carrying the hardware address asked for.
\<close>

theorem arp_exchange:
  fixes pkt pkt' :: packet and junk junk' :: "u16 \<times> u16" and mac hw :: mac and sip tip :: u32 and d :: bytes
  defines "req \<equiv> snd (packet_recv_init junk (pkt\<lparr>p_data := arp_request_frame mac sip tip d\<rparr>))"
  defines "ans \<equiv> snd (packet_recv_init junk' (pkt'\<lparr>p_data := arp_reply_frame (mac_header req) (network_header req) hw (p_data req)\<rparr>))"
  shows "PACKET_IS_ARP req \<and> is_arp_request req \<and> ip_w0 (packet_get_sip req) = sip \<and> ip_w0 (packet_get_dip req) = tip \<and>
    PACKET_IS_ARP ans \<and> is_arp_reply ans \<and> ip_w0 (packet_get_sip ans) = tip \<and> ip_w0 (packet_get_dip ans) = sip \<and>
    map (p_data ans) [0..<6] = map mac [0..<6] \<and>
    map (\<lambda>k. p_data ans (network_header ans + 8 + k)) [0..<6] = map hw [0..<6]"
proof -
  let ?r = "arp_request_frame mac sip tip d"
  note rq = request_fields [OF refl [of ?r]]
  have e: "eth_proto ?r = PROTO_ARP" using rq(3) by (simp add: eth_proto_def)
  have req: "p_data req = ?r" "network_header req = 14" "mac_header req = 0" "PACKET_IS_ARP req"
      "ip_w0 (packet_get_sip req) = sip" "ip_w0 (packet_get_dip req) = tip"
    using recv_init_arp [of "pkt\<lparr>p_data := ?r\<rparr>" req junk] e rq(6,7) recv_init_frame(1)
    by (simp_all add: req_def)
  let ?f = "arp_reply_frame 0 14 hw ?r"
  note rp = reply_fields [OF refl [of ?f]]
  have e': "eth_proto ?f = PROTO_ARP" using rp(3) rq(3) by (simp add: eth_proto_def)
  have ans: "p_data ans = ?f" "network_header ans = 14" "PACKET_IS_ARP ans"
      "ip_w0 (packet_get_sip ans) = tip" "ip_w0 (packet_get_dip ans) = sip"
    using recv_init_arp [of "pkt'\<lparr>p_data := ?f\<rparr>" ans junk'] e' rp(6,8) rq(6,7) recv_init_frame(1)
    by (simp_all add: ans_def req)
  have "map (p_data ans) [0..<6] = map mac [0..<6]" "map (\<lambda>k. p_data ans (network_header ans + 8 + k)) [0..<6] = map hw [0..<6]"
    using rp(1,5) rq(2) ans(1,2) by (auto simp: arp_sender_mac_def)
  moreover have "is_arp_request req" "is_arp_reply ans"
    using rq(4) rp(4) req ans by (simp_all add: is_arp_request_def is_arp_reply_def ar_op_def)
  ultimately show ?thesis using req ans by blast
qed

end
