(* ===== verification/Process.thy ===== *)
theory Process
  imports Tcp Arp
begin

text \<open>
  \<open>uspace/src/process.c\<close>: what the balancer does with a received packet. A packet for a virtual
  server's address comes from a client, any other from a server; it is assigned to a connection,
  rewritten towards the other side and queued for sending.
\<close>

section \<open>Rewriting a packet\<close>

definition conn_server :: "'a cnet_scheme \<Rightarrow> connection \<Rightarrow> server res" where
  "conn_server n cp = (case c_server cp of None \<Rightarrow> Inl Bad_deref | Some srv \<Rightarrow> get_server (ng_pools n) srv)"

definition conn_vs_addr :: "'a cnet_scheme \<Rightarrow> connection \<Rightarrow> ip_address res" where
  "conn_vs_addr n cp = (case c_vs_addr cp of None \<Rightarrow> Inl Bad_deref
     | Some l \<Rightarrow> bindE (deref (ng_lips n) l) (\<lambda>lip. Inr (lip_get_ip_address lip)))"

definition conn_self_addr :: "'a cnet_scheme \<Rightarrow> connection \<Rightarrow> ip_address res" where
  "conn_self_addr n cp = bindE (deref (ng_lips n) (c_self_addr cp)) (\<lambda>lip. Inr (lip_get_ip_address lip))"

text \<open>
  The ports of a TCP and of a UDP header are at the same place: the two functions of the source
  differ in the type of the header only.
\<close>

definition process_set_tcp_port :: "'a cnet_scheme \<Rightarrow> connection \<Rightarrow> packet \<Rightarrow> bool \<Rightarrow> packet res" where
  "process_set_tcp_port n cp pkt is_client =
     (let th = transport_header pkt;
          d = p_data pkt
      in if is_client then
           let d = (if CONNECTION_IS_FULLNAT cp then st16 d th (c_self_port cp) else d)
           in bindE (conn_server n cp) (\<lambda>s. Inr (pkt\<lparr>p_data := st16 d (th + 2) (server_get_port s)\<rparr>))
         else
           let d = (if CONNECTION_IS_FULLNAT cp then st16 d (th + 2) (client_port cp) else d)
           in bindE (deref (vs_store (ng_vs n)) (c_vs cp)) (\<lambda>vs. Inr (pkt\<lparr>p_data := st16 d th (vs_port vs)\<rparr>)))"

definition process_set_udp_port :: "'a cnet_scheme \<Rightarrow> connection \<Rightarrow> packet \<Rightarrow> bool \<Rightarrow> packet res" where
  "process_set_udp_port n cp pkt is_client =
     (let th = transport_header pkt;
          d = p_data pkt
      in if is_client then
           let d = (if CONNECTION_IS_FULLNAT cp then st16 d th (c_self_port cp) else d)
           in bindE (conn_server n cp) (\<lambda>s. Inr (pkt\<lparr>p_data := st16 d (th + 2) (server_get_port s)\<rparr>))
         else
           let d = (if CONNECTION_IS_FULLNAT cp then st16 d (th + 2) (client_port cp) else d)
           in bindE (deref (vs_store (ng_vs n)) (c_vs cp)) (\<lambda>vs. Inr (pkt\<lparr>p_data := st16 d th (vs_port vs)\<rparr>)))"

definition process_set_port :: "'a cnet_scheme \<Rightarrow> connection \<Rightarrow> packet \<Rightarrow> bool \<Rightarrow> packet res" where
  "process_set_port n cp pkt is_client =
     (if CONNECTION_IS_TCP cp then process_set_tcp_port n cp pkt is_client
      else process_set_udp_port n cp pkt is_client)"

definition process_set_ipv4 :: "'a cnet_scheme \<Rightarrow> connection \<Rightarrow> packet \<Rightarrow> bool \<Rightarrow> packet res" where
  "process_set_ipv4 n cp pkt is_client =
     (let nh = network_header pkt
      in if is_client then
           bindE (if CONNECTION_IS_FULLNAT cp
                  then bindE (conn_self_addr n cp) (\<lambda>ip. Inr (st32 (p_data pkt) (nh + 12) (ip_address_get_ipv4 ip)))
                  else Inr (p_data pkt)) (\<lambda>d.
           bindE (conn_server n cp) (\<lambda>s.
             Inr (pkt\<lparr>p_data := st32 d (nh + 16) (ip_address_get_ipv4 (server_get_ip_address s))\<rparr>)))
         else
           let d = (if CONNECTION_IS_FULLNAT cp
                    then st32 (p_data pkt) (nh + 16) (ip_address_get_ipv4 (connection_get_client_ip cp))
                    else p_data pkt)
           in bindE (conn_vs_addr n cp) (\<lambda>ip. Inr (pkt\<lparr>p_data := st32 d (nh + 12) (ip_address_get_ipv4 ip)\<rparr>)))"

fun st_in6 :: "bytes \<Rightarrow> nat \<Rightarrow> in6 \<Rightarrow> bytes" where
  "st_in6 d i (a, b, c, e) = st32 (st32 (st32 (st32 d i a) (i + 4) b) (i + 8) c) (i + 12) e"

definition process_set_ipv6 :: "'a cnet_scheme \<Rightarrow> connection \<Rightarrow> packet \<Rightarrow> bool \<Rightarrow> packet res" where
  "process_set_ipv6 n cp pkt is_client =
     (let nh = network_header pkt
      in if is_client then
           bindE (if CONNECTION_IS_FULLNAT cp
                  then bindE (conn_self_addr n cp) (\<lambda>ip. Inr (st_in6 (p_data pkt) (nh + 8) (ip_address_get_ipv6 ip)))
                  else Inr (p_data pkt)) (\<lambda>d.
           bindE (conn_server n cp) (\<lambda>s.
             Inr (pkt\<lparr>p_data := st_in6 d (nh + 24) (ip_address_get_ipv6 (server_get_ip_address s))\<rparr>)))
         else
           let d = (if CONNECTION_IS_FULLNAT cp
                    then st_in6 (p_data pkt) (nh + 24) (ip_address_get_ipv6 (connection_get_client_ip cp))
                    else p_data pkt)
           in bindE (conn_vs_addr n cp) (\<lambda>ip. Inr (pkt\<lparr>p_data := st_in6 d (nh + 8) (ip_address_get_ipv6 ip)\<rparr>)))"

definition process_set_ip :: "'a cnet_scheme \<Rightarrow> connection \<Rightarrow> packet \<Rightarrow> bool \<Rightarrow> packet res" where
  "process_set_ip n cp pkt is_client =
     (if PACKET_IS_IPV4 pkt then process_set_ipv4 n cp pkt is_client
      else process_set_ipv6 n cp pkt is_client)"

definition process_set_mac :: "'a cnet_scheme \<Rightarrow> connection \<Rightarrow> packet \<Rightarrow> bool \<Rightarrow> packet res" where
  "process_set_mac n cp pkt is_client =
     (let ep = mac_header pkt
      in if is_client then
           bindE (ng_driver_get_mac n (unat (server_adapter_idx cp))) (\<lambda>mac.
           bindE (conn_server n cp) (\<lambda>s.
             Inr (pkt\<lparr>p_data := put_bytes (put_bytes (p_data pkt) (ep + 6) ETH_ALEN mac) ep ETH_ALEN (srv_mac s)\<rparr>)))
         else
           bindE (ng_driver_get_mac n (unat (client_adapter_idx cp))) (\<lambda>mac.
             Inr (pkt\<lparr>p_data := put_bytes (put_bytes (p_data pkt) (ep + 6) ETH_ALEN mac) ep ETH_ALEN (client_mac cp)\<rparr>)))"

definition process_set_checksum :: "packet \<Rightarrow> packet" where
  "process_set_checksum pkt =
     (let pkt = (if PACKET_IS_IPV4 pkt then checksum_ipv4 pkt else pkt)
      in if PACKET_IS_TCP pkt then checksum_tcp pkt else checksum_udp pkt)"

definition process_connection :: "ptr \<Rightarrow> ptr \<Rightarrow> bool \<Rightarrow> 'a cnet_scheme \<Rightarrow> (verdict \<times> 'a cnet_scheme) res" where
  "process_connection c p is_client n =
     bindE (deref (conns n) c) (\<lambda>cp.
     bindE (deref (ng_pkts n) p) (\<lambda>pkt.
     bindE (process_set_port n cp pkt is_client) (\<lambda>pkt.
     bindE (process_set_ip n cp pkt is_client) (\<lambda>pkt.
     bindE (process_set_mac n cp pkt is_client) (\<lambda>pkt.
     let pkt = pkt\<lparr>adapter_idx := (if is_client then server_adapter_idx cp else client_adapter_idx cp)\<rparr>;
         pkt = process_set_checksum pkt
     in bindE (ng_driver_put_packet_to_send_buffer p (n\<lparr>ng_pkts := (ng_pkts n)(p \<mapsto> pkt)\<rparr>))
          (\<lambda>(_, n). Inr (PACKET_STOLEN, n)))))))"

section \<open>Assigning a packet to a connection\<close>

text \<open>The second half of \<open>process_ip_packet\<close>: \<open>process_connection\<close> never answers zero.\<close>

definition process_found :: "ptr \<Rightarrow> ptr option \<Rightarrow> bool \<Rightarrow> 'a cnet_scheme \<Rightarrow> (verdict \<times> 'a cnet_scheme) res" where
  "process_found p cp is_client n =
     (case cp of
        None \<Rightarrow> Inr (PACKET_ACCEPT, n)
      | Some c \<Rightarrow>
          bindE (process_connection c p is_client n) (\<lambda>(v, n).
            if v \<noteq> PACKET_ACCEPT then
              bindE (deref (ng_pkts n) p) (\<lambda>pkt.
                if PACKET_IS_TCP pkt then
                  bindE (deref (conns n) c) (\<lambda>cp.
                    case tcp_change_state pkt cp of (s, cp) \<Rightarrow>
                      let n = n\<lparr>conns := (conns n)(c \<mapsto> cp)\<rparr>
                      in if s = TCP_CLOSED then bindE (connection_free c n) (\<lambda>n. Inr (PACKET_STOLEN, n))
                         else Inr (PACKET_STOLEN, n))
                else Inr (PACKET_STOLEN, n))
            else Inr (PACKET_DROP, n)))"

definition process_ip_packet ::
  "(ptr \<Rightarrow> connection) \<Rightarrow> ptr \<Rightarrow> 'a cnet_scheme \<Rightarrow> (verdict \<times> 'a cnet_scheme) res" where
  "process_ip_packet mem p n =
     bindE (deref (ng_pkts n) p) (\<lambda>pkt.
       let proto = packet_get_transport_protocol pkt;
           sport = packet_get_sport pkt;
           dport = packet_get_dport pkt;
           sip = packet_get_sip pkt;
           dip = packet_get_dip pkt
       in bindE (ng_interface_lookup_vsip n dip) (\<lambda>lip.
            if lip \<noteq> None then
              bindE (vserver_lookup (ng_rand n) (ng_lips n) (ng_vs n) dip dport proto) (\<lambda>vs.
                case vs of
                  None \<Rightarrow> Inr (PACKET_DROP, n)
                | Some (v, vs_lip) \<Rightarrow>
                    bindE (connection_lookup sip sport proto True n) (\<lambda>(cp, n).
                    bindE (if cp = None then connection_create mem pkt v n else Inr (cp, n)) (\<lambda>(cp, n).
                      process_found p cp True n)))
            else
              bindE (ng_interface_lookup_selfip n dip) (\<lambda>lip.
                let is_client = (lip = None)
                in bindE (connection_lookup dip dport proto is_client n) (\<lambda>(cp, n).
                     process_found p cp is_client n))))"

definition main_process_packets ::
  "(ptr \<Rightarrow> connection) \<Rightarrow> ip_address \<Rightarrow> ptr \<Rightarrow> 'a cnet_scheme \<Rightarrow> (verdict \<times> 'a cnet_scheme) res" where
  "main_process_packets mem junk p n =
     bindE (deref (ng_pkts n) p) (\<lambda>pkt.
       if PACKET_IS_IP pkt then process_ip_packet mem p n
       else if PACKET_IS_ARP pkt then arp_handler junk p n
       else Inr (PACKET_DROP, n))"

text \<open>The safe iteration removes every packet: the list is empty afterwards.\<close>

definition process_step ::
  "(ptr \<Rightarrow> connection) \<Rightarrow> ip_address \<Rightarrow> ptr \<Rightarrow> 'a cnet_scheme \<times> ptr list \<times> ptr list
     \<Rightarrow> ('a cnet_scheme \<times> ptr list \<times> ptr list) res" where
  "process_step mem junk pos = (\<lambda>(n, packet_head, free_head).
     let packet_head = remove1 pos packet_head
     in bindE (main_process_packets mem junk pos n) (\<lambda>(ret, n).
          Inr (n, packet_head, if ret \<noteq> PACKET_STOLEN then pos # free_head else free_head)))"

definition process_packets ::
  "(ptr \<Rightarrow> connection) \<Rightarrow> ip_address \<Rightarrow> ptr list \<Rightarrow> ptr list \<Rightarrow> 'a cnet_scheme
     \<Rightarrow> ('a cnet_scheme \<times> ptr list \<times> ptr list) res" where
  "process_packets mem junk packet_head free_head n =
     foldE (process_step mem junk) packet_head (n, packet_head, free_head)"

end
