(* ===== verification/Stack.thy ===== *)
theory Stack
  imports ConnCreate Process
begin

text \<open>
  The invariant of a running process (\<open>stack_ok\<close>) and the handling of received packets:
  \<open>process_packets\<close> never faults, keeps the invariant, and neither loses nor duplicates a packet.
\<close>

section \<open>The cards\<close>

definition dev_ok :: "driver \<Rightarrow> bool" where
  "dev_ok d \<longleftrightarrow> (\<forall>i < unat (adapter_num d). \<exists>a r. i < length (adapters d) \<and> adapters d ! i = Some a \<and> tx_ring a = Some r)"

text \<open>The packets waiting to be sent over a card, and over all cards.\<close>

definition tx_queue :: "driver \<Rightarrow> nat \<Rightarrow> ptr list" where
  "tx_queue d i = (case adapters d ! i of None \<Rightarrow> [] | Some a \<Rightarrow>
     (case tx_ring a of None \<Rightarrow> [] | Some r \<Rightarrow> pp_list (r_pool r)))"

definition tx_queued :: "driver \<Rightarrow> ptr multiset" where
  "tx_queued d = (\<Sum>i<unat (adapter_num d). mset (tx_queue d i))"

lemma dev_mac:
  assumes "dev_ok d" "i < unat (adapter_num d)"
  shows "\<exists>mac. driver_get_mac d i = Inr mac"
proof -
  obtain a where "i < length (adapters d)" "adapters d ! i = Some a" using assms unfolding dev_ok_def by blast
  then show ?thesis by (simp add: driver_get_mac_def driver_get_adapter_def)
qed

text \<open>What handling packets does to the cards: more packets on the send queues, \<open>f i\<close> on that of card \<open>i\<close>.\<close>

definition pool_more :: "packet_pool \<Rightarrow> ptr list \<Rightarrow> packet_pool" where
  "pool_more pp ps = pp\<lparr>pp_list := pp_list pp @ ps, pp_num := pp_num pp + of_nat (length ps)\<rparr>"

definition queue_more :: "(nat \<Rightarrow> ptr list) \<Rightarrow> driver \<Rightarrow> driver" where
  "queue_more f d = d\<lparr>adapters := map (\<lambda>i. map_option (\<lambda>a. a\<lparr>tx_ring :=
     map_option (\<lambda>r. r\<lparr>r_pool := pool_more (r_pool r) (f i)\<rparr>) (tx_ring a)\<rparr>) (adapters d ! i)) [0..<length (adapters d)]\<rparr>"

definition only_queued :: "driver \<Rightarrow> driver \<Rightarrow> bool" where
  "only_queued d d' \<longleftrightarrow> (\<exists>f. d' = queue_more f d)"

lemma pool_more_simps [simp]: "pool_more pp [] = pp" "pool_more (pool_more pp ps) qs = pool_more pp (ps @ qs)"
  by (simp_all add: pool_more_def)

lemma only_queued_refl [simp]: "only_queued d d"
proof -
  have "a\<lparr>tx_ring := map_option (\<lambda>r. r\<lparr>r_pool := r_pool r\<rparr>) (tx_ring a)\<rparr> = a" for a :: adapter
    by (cases "tx_ring a") simp_all
  then have "d = queue_more (\<lambda>_. []) d" by (simp add: queue_more_def map_nth option.map_ident)
  then show ?thesis unfolding only_queued_def by blast
qed

lemma only_queued_trans: "only_queued a b \<Longrightarrow> only_queued b c \<Longrightarrow> only_queued a c"
proof -
  have "queue_more g (queue_more f a) = queue_more (\<lambda>i. f i @ g i) a" for f g
    by (simp add: queue_more_def option.map_comp comp_def cong: map_cong)
  then show "only_queued a b \<Longrightarrow> only_queued b c \<Longrightarrow> only_queued a c" unfolding only_queued_def by metis
qed

lemma only_queued_put:
  assumes "i < length (adapters d)" "adapters d ! i = Some a" "tx_ring a = Some r"
  shows "only_queued d (put_adapter d i (a\<lparr>tx_ring := Some (r\<lparr>r_pool := packet_pool_put (r_pool r) p\<rparr>)\<rparr>))"
proof -
  have "put_adapter d i (a\<lparr>tx_ring := Some (r\<lparr>r_pool := packet_pool_put (r_pool r) p\<rparr>)\<rparr>) = queue_more (\<lambda>j. if j = i then [p] else []) d"
    using assms unfolding put_adapter_def queue_more_def
    by (intro arg_cong [of _ _ "\<lambda>as. d\<lparr>adapters := as\<rparr>"] nth_equalityI)
      (auto simp: nth_list_update option.map_ident pool_more_def packet_pool_put_def)
  then show ?thesis unfolding only_queued_def by blast
qed

lemma put_tx_spec:
  assumes ok: "dev_ok d" and p: "pkts p = Some pkt" and i: "unat (adapter_idx pkt) < unat (adapter_num d)"
  shows "\<exists>d'. driver_put_packet_to_send_buffer pkts d p = Inr (1, d') \<and> dev_ok d' \<and> adapter_num d' = adapter_num d \<and>
    tx_queued d' = tx_queued d + {#p#} \<and> only_queued d d' \<and>
    (\<forall>j. tx_queue d' j = (if j = unat (adapter_idx pkt) then tx_queue d j @ [p] else tx_queue d j))"
proof -
  let ?i = "unat (adapter_idx pkt)"
  obtain a r where a: "?i < length (adapters d)" "adapters d ! ?i = Some a" "tx_ring a = Some r"
    using ok i unfolding dev_ok_def by blast
  let ?a = "a\<lparr>tx_ring := Some (r\<lparr>r_pool := packet_pool_put (r_pool r) p\<rparr>)\<rparr>"
  let ?d = "put_adapter d ?i ?a"
  have res: "driver_put_packet_to_send_buffer pkts d p = Inr (1, ?d)"
    using p a by (simp add: driver_put_packet_to_send_buffer_def driver_get_adapter_def with_tx_def Let_def)
  have num: "adapter_num ?d = adapter_num d" by (simp add: put_adapter_def)
  have q: "tx_queue ?d j = (if j = ?i then tx_queue d j @ [p] else tx_queue d j)" for j
    using a by (simp add: tx_queue_def put_adapter_def packet_pool_put_def)
  have dev: "dev_ok ?d"
    unfolding dev_ok_def num
  proof (intro allI impI)
    fix j assume "j < unat (adapter_num d)"
    then obtain b s where "j < length (adapters d)" "adapters d ! j = Some b" "tx_ring b = Some s"
      using ok unfolding dev_ok_def by blast
    then show "\<exists>a r. j < length (adapters ?d) \<and> adapters ?d ! j = Some a \<and> tx_ring a = Some r"
      by (cases "j = ?i") (auto simp: put_adapter_def)
  qed
  have "tx_queued ?d = (\<Sum>j<unat (adapter_num d). mset (tx_queue d j) + (if j = ?i then {#p#} else {#}))"
    unfolding tx_queued_def num by (rule sum.cong) (simp_all add: q)
  also have "\<dots> = tx_queued d + (\<Sum>j<unat (adapter_num d). if j = ?i then {#p#} else {#})"
    by (simp add: sum.distrib tx_queued_def)
  also have "(\<Sum>j<unat (adapter_num d). if j = ?i then {#p#} else {#}) = {#p#}"
    using i by (simp add: sum.delta)
  finally show ?thesis using res dev num q only_queued_put [OF a] by blast
qed

section \<open>The invariant\<close>

definition pools_kept :: "pools_state \<Rightarrow> pools_state \<Rightarrow> bool" where
  "pools_kept s s' \<longleftrightarrow> (\<forall>q. pool_at q s \<longrightarrow> pool_at q s') \<and> server_list s' = server_list s \<and>
     (\<forall>x srv. get_server s x = Inr srv \<longrightarrow> (\<exists>srv'. get_server s' x = Inr srv' \<and> srv_addr srv' = srv_addr srv))"

text \<open>Everything a connection refers to exists, so that its packets can be rewritten and sent.\<close>

definition serves :: "'a cnet_scheme \<Rightarrow> connection \<Rightarrow> bool" where
  "serves n cp \<longleftrightarrow> (\<exists>vs. vs_store (ng_vs n) (c_vs cp) = Some vs) \<and>
     (\<exists>l lip. c_vs_addr cp = Some l \<and> ng_lips n l = Some lip) \<and>
     (\<exists>s srv. c_server cp = Some s \<and> get_server (ng_pools n) s = Inr srv) \<and>
     unat (client_adapter_idx cp) < unat (adapter_num (ng_d n)) \<and>
     unat (server_adapter_idx cp) < unat (adapter_num (ng_d n))"

definition env_ok :: "'a cnet_scheme \<Rightarrow> bool" where
  "env_ok n \<longleftrightarrow> dev_ok (ng_d n) \<and> itf_num (ng_itf n) = int (unat (adapter_num (ng_d n))) \<and>
     vs_ok (ng_rand n) (ng_lips n) (ng_vs n) \<and>
     (\<forall>v vs. vs_store (ng_vs n) v = Some vs \<longrightarrow> pool_at (vs_pool vs) (ng_pools n)) \<and>
     (\<forall>x \<in> set (server_list (ng_pools n)). \<exists>srv. get_server (ng_pools n) x = Inr srv) \<and>
     CONNECTION_TIMEOUT_SECONDS \<le> total_clock_seconds (net_clock n)"

definition stack_ok :: "'a cnet_scheme \<Rightarrow> bool" where
  "stack_ok n \<longleftrightarrow> conn_ok n \<and> env_ok n \<and> (\<forall>p cp. conns n p = Some cp \<longrightarrow> serves n cp)"

text \<open>What handling a packet does not change of the environment.\<close>

definition loop_same :: "'a cnet_scheme \<Rightarrow> 'a cnet_scheme \<Rightarrow> bool" where
  "loop_same n n' \<longleftrightarrow> ng_q n' = ng_q n \<and> ng_queues n' = ng_queues n \<and> cnet.more n' = cnet.more n \<and>
     cpu_frequency (net_clock n') = cpu_frequency (net_clock n)"

definition env_same :: "'a cnet_scheme \<Rightarrow> 'a cnet_scheme \<Rightarrow> bool" where
  "env_same n n' \<longleftrightarrow> ng_vs n' = ng_vs n \<and> ng_rand n' = ng_rand n \<and> same_idents (ng_lips n) (ng_lips n') \<and>
     pools_kept (ng_pools n) (ng_pools n') \<and> itf_num (ng_itf n') = itf_num (ng_itf n) \<and>
     adapter_num (ng_d n') = adapter_num (ng_d n) \<and> (dev_ok (ng_d n) \<longrightarrow> dev_ok (ng_d n')) \<and>
     total_clock_seconds (net_clock n') = total_clock_seconds (net_clock n) \<and>
     only_queued (ng_d n) (ng_d n') \<and> loop_same n n'"

lemma same_idents_refl [simp]: "same_idents lips lips"
  by (simp add: same_idents_def)

lemma pools_kept_refl [simp]: "pools_kept s s"
  by (simp add: pools_kept_def)

lemma pools_kept_same: "pools_same s s' \<Longrightarrow> pools_kept s s'"
  by (simp add: pools_same_def pools_kept_def)

lemma env_same_refl [simp]: "env_same n n"
  by (simp add: env_same_def loop_same_def)

lemma env_same_trans: "env_same a b \<Longrightarrow> env_same b c \<Longrightarrow> env_same a c"
  unfolding env_same_def pools_kept_def same_idents_def loop_same_def using only_queued_trans by metis

lemma vs_ok_idents:
  assumes ok: "vs_ok r lips s" and i: "same_idents lips lips'"
  shows "vs_ok r lips' s"
proof -
  have "bindE (node_key (vs_mem_of lips' s) p) (\<lambda>k. Inr (vs_slot r k))
      = bindE (node_key (vs_mem_of lips s) p) (\<lambda>k. Inr (vs_slot r k))" if m: "ht_mem (vs_hashtable s) p" for p
  proof -
    obtain node vs lip where n: "node_store s p = Some node" "vs_store s (node_vs node) = Some vs"
        "lips (node_lip node) = Some lip" using vs_node_key [OF ok m] by blast
    have "map_option lip_ident (lips' (node_lip node)) = Some (lip_ident lip)"
      using i n(3) unfolding same_idents_def by simp
    then obtain lip' where "lips' (node_lip node) = Some lip'" "lip_addr lip' = lip_addr lip"
      by (auto simp: lip_ident_def)
    then show ?thesis using n by (simp add: node_key_def)
  qed
  then have "vsnodes.keyed r (vs_mem_of lips' s) (vs_hashtable s)"
    using ok unfolding vs_ok_def by (blast intro: table_ok_cong)
  then show ?thesis using ok by (simp add: vs_ok_def)
qed

lemma env_same_ok: "env_ok n \<Longrightarrow> env_same n n' \<Longrightarrow> env_ok n'"
  unfolding env_ok_def env_same_def pools_kept_def using vs_ok_idents by metis

lemma env_same_serves: "serves n cp \<Longrightarrow> env_same n n' \<Longrightarrow> serves n' cp"
  unfolding serves_def env_same_def pools_kept_def using idents_Some by metis

lemma stack_okI:
  assumes "stack_ok n" "conn_ok n'" "env_same n n'"
    and "\<And>p cp. conns n' p = Some cp \<Longrightarrow> serves n' cp \<or> (\<exists>p cq. conns n p = Some cq \<and> (serves n cq \<longrightarrow> serves n cp))"
  shows "stack_ok n'"
  using assms env_same_ok env_same_serves unfolding stack_ok_def by metis

section \<open>Forwarding a packet\<close>

text \<open>Packets that differ in their bytes only.\<close>

definition same_header :: "packet \<Rightarrow> packet \<Rightarrow> bool" where
  "same_header pkt q \<longleftrightarrow> (\<exists>d. q = pkt\<lparr>p_data := d\<rparr>)"

lemma same_headerI [intro]: "same_header pkt (pkt\<lparr>p_data := d\<rparr>)"
  by (auto simp: same_header_def)

lemma same_header_trans: "same_header a b \<Longrightarrow> same_header b c \<Longrightarrow> same_header a c"
  by (auto simp: same_header_def)

lemma conn_server_serves: "serves n cp \<Longrightarrow> \<exists>srv. conn_server n cp = Inr srv"
  by (auto simp: serves_def conn_server_def)

lemma set_port_total:
  assumes "serves n cp"
  shows "\<exists>q. process_set_port n cp pkt b = Inr q \<and> same_header pkt q"
proof -
  obtain vs where "vs_store (ng_vs n) (c_vs cp) = Some vs" using assms unfolding serves_def by blast
  then show ?thesis using conn_server_serves [OF assms]
    by (cases b) (auto simp: process_set_port_def process_set_tcp_port_def process_set_udp_port_def Let_def)
qed

lemma set_ip_total:
  assumes s: "serves n cp" and w: "conn_wf n cp"
  shows "\<exists>q. process_set_ip n cp pkt b = Inr q \<and> same_header pkt q"
proof -
  obtain l lip where "c_vs_addr cp = Some l" "ng_lips n l = Some lip" using s unfolding serves_def by blast
  then have v: "conn_vs_addr n cp = Inr (lip_get_ip_address lip)" by (simp add: conn_vs_addr_def)
  have f: "\<exists>ip. conn_self_addr n cp = Inr ip" if "CONNECTION_IS_FULLNAT cp"
    using w that by (auto simp: conn_wf_def conn_self_addr_def)
  obtain srv where "conn_server n cp = Inr srv" using conn_server_serves [OF s] by blast
  then show ?thesis using v f
    by (cases b; cases "CONNECTION_IS_FULLNAT cp")
      (auto simp: process_set_ip_def process_set_ipv4_def process_set_ipv6_def Let_def)
qed

lemma set_mac_total:
  assumes s: "serves n cp" and d: "dev_ok (ng_d n)"
  shows "\<exists>q. process_set_mac n cp pkt b = Inr q \<and> same_header pkt q"
proof -
  have "unat (client_adapter_idx cp) < unat (adapter_num (ng_d n))" "unat (server_adapter_idx cp) < unat (adapter_num (ng_d n))"
    using s unfolding serves_def by blast+
  then obtain m m' where "ng_driver_get_mac n (unat (client_adapter_idx cp)) = Inr m"
      "ng_driver_get_mac n (unat (server_adapter_idx cp)) = Inr m'"
    using dev_mac [OF d] unfolding ng_driver_get_mac_def by blast
  then show ?thesis using conn_server_serves [OF s] by (cases b) (auto simp: process_set_mac_def Let_def)
qed

lemma checksum_same_header: "same_header pkt (process_set_checksum pkt)"
proof -
  have 4: "same_header p (checksum_ipv4 p)" for p
    by (auto simp: checksum_ipv4_def Let_def)
  have s: "same_header p (checksum_tcp p)" "same_header p (checksum_udp p)" for p
    by (auto simp: checksum_tcp_def checksum_udp_def checksum_segment_def Let_def)
  show ?thesis using 4 s same_header_trans by (simp add: process_set_checksum_def Let_def) blast
qed

text \<open>The packet, and the cards after it has been queued.\<close>

definition sent :: "ptr \<Rightarrow> packet \<Rightarrow> driver \<Rightarrow> 'a cnet_scheme \<Rightarrow> 'a cnet_scheme" where
  "sent p q d n = n\<lparr>ng_pkts := (ng_pkts n)(p \<mapsto> q), ng_d := d\<rparr>"

lemma process_connection_total:
  assumes c: "conns n c = Some cp" and s: "serves n cp" and w: "conn_wf n cp" and d: "dev_ok (ng_d n)"
    and p: "ng_pkts n p = Some pkt"
  shows "\<exists>q d'. process_connection c p b n = Inr (PACKET_STOLEN, sent p q d' n) \<and> protocol_ip q = protocol_ip pkt \<and> p_id q = p_id pkt \<and>
    dev_ok d' \<and> adapter_num d' = adapter_num (ng_d n) \<and> tx_queued d' = tx_queued (ng_d n) + {#p#} \<and> only_queued (ng_d n) d'"
proof -
  obtain q1 where q1: "process_set_port n cp pkt b = Inr q1" "same_header pkt q1" using set_port_total [OF s] by blast
  obtain q2 where q2: "process_set_ip n cp q1 b = Inr q2" "same_header q1 q2" using set_ip_total [OF s w] by blast
  obtain q3 where q3: "process_set_mac n cp q2 b = Inr q3" "same_header q2 q3" using set_mac_total [OF s d] by blast
  let ?i = "if b then server_adapter_idx cp else client_adapter_idx cp"
  let ?q = "process_set_checksum (q3\<lparr>adapter_idx := ?i\<rparr>)"
  have "same_header pkt q3" using q1 q2 q3 same_header_trans by blast
  then have q: "protocol_ip ?q = protocol_ip pkt" "p_id ?q = p_id pkt" "adapter_idx ?q = ?i"
    using checksum_same_header [of "q3\<lparr>adapter_idx := ?i\<rparr>"] by (auto simp: same_header_def)
  have "unat (adapter_idx ?q) < unat (adapter_num (ng_d n))" using s q(3) by (simp add: serves_def)
  from put_tx_spec [OF d, of "(ng_pkts n)(p \<mapsto> ?q)" p, OF _ this]
  obtain d' where d': "driver_put_packet_to_send_buffer ((ng_pkts n)(p \<mapsto> ?q)) (ng_d n) p = Inr (1, d')"
      "dev_ok d'" "adapter_num d' = adapter_num (ng_d n)" "tx_queued d' = tx_queued (ng_d n) + {#p#}"
      "only_queued (ng_d n) d'"
    by auto
  have "process_connection c p b n = Inr (PACKET_STOLEN, sent p ?q d' n)"
    using c p q1(1) q2(1) q3(1) d'(1)
    by (simp add: process_connection_def ng_driver_put_packet_to_send_buffer_def sent_def Let_def)
  with q(1,2) d'(2-) show ?thesis by blast
qed

section \<open>Steps that leave packets and cards alone\<close>

definition prepared :: "'a cnet_scheme \<Rightarrow> 'a cnet_scheme \<Rightarrow> bool" where
  "prepared n n' \<longleftrightarrow> stack_ok n' \<and> env_same n n' \<and> ng_pkts n' = ng_pkts n \<and> ng_d n' = ng_d n \<and> ng_z n' = ng_z n \<and>
     quota (ng_heap n) \<le> Suc (quota (ng_heap n'))"

lemma stack_okD:
  assumes "stack_ok n"
  shows "conn_ok n" "env_ok n" "dev_ok (ng_d n)" "\<And>p cp. conns n p = Some cp \<Longrightarrow> serves n cp"
  using assms unfolding stack_ok_def env_ok_def by blast+

lemma serves_cong:
  "c_vs a = c_vs b \<Longrightarrow> c_vs_addr a = c_vs_addr b \<Longrightarrow> c_server a = c_server b \<Longrightarrow>
     client_adapter_idx a = client_adapter_idx b \<Longrightarrow> server_adapter_idx a = server_adapter_idx b \<Longrightarrow> serves n a = serves n b"
  by (simp add: serves_def)

lemma stack_ok_upd:
  assumes ok: "stack_ok n" and p: "conns n p = Some cp"
    and same: "c_flags cp' = c_flags cp" "c_self_addr cp' = c_self_addr cp" "serves n cp' = serves n cp"
  shows "stack_ok (n\<lparr>conns := (conns n)(p \<mapsto> cp')\<rparr>)"
proof (rule stack_okI [OF ok conn_upd_ok [OF stack_okD(1) [OF ok] p same(1,2)]])
  show "env_same n (n\<lparr>conns := (conns n)(p \<mapsto> cp')\<rparr>)" by (simp add: env_same_def loop_same_def)
  show "serves (n\<lparr>conns := (conns n)(p \<mapsto> cp')\<rparr>) cq \<or> (\<exists>p cr. conns n p = Some cr \<and> (serves n cr \<longrightarrow> serves n cq))"
    if "conns (n\<lparr>conns := (conns n)(p \<mapsto> cp')\<rparr>) q = Some cq" for q cq
    using that p same(3) by (cases "q = p") auto
qed

lemma lookup_prepared:
  assumes ok: "stack_ok n" and proto: "proto \<noteq> 0"
  shows "\<exists>r n'. connection_lookup ip port proto b n = Inr (r, n') \<and> prepared n n' \<and> (\<forall>c. r = Some c \<longrightarrow> conns n' c \<noteq> None) \<and>
    ng_vs n' = ng_vs n \<and> ng_lips n' = ng_lips n \<and> ng_itf n' = ng_itf n"
proof -
  obtain r n' where r: "connection_lookup ip port proto b n = Inr (r, n')" "conn_ok n'"
    "case r of None \<Rightarrow> n' = n | Some p \<Rightarrow> n' = n\<lparr>conns := set_proto p proto (conns n)\<rparr> \<and>
         match_in n b (ip, port, proto) p = Inr True \<and> conns n p \<noteq> None \<and>
         p \<in> set (bucket_of n b (conn_slot (ng_rand n) (ip, port, proto)))"
    using connection_lookup_spec [OF stack_okD(1) [OF ok] proto] by blast
  show ?thesis
  proof (cases r)
    case None
    then have "n' = n" using r(3) by simp
    then show ?thesis using r(1) ok None by (auto simp: prepared_def)
  next
    case (Some c)
    then have n': "n' = n\<lparr>conns := set_proto c proto (conns n)\<rparr>" and c: "conns n c \<noteq> None" using r(3) by simp_all
    have "stack_ok n'"
    proof (rule stack_okI [OF ok r(2)])
      show "env_same n n'" by (simp add: n' env_same_def loop_same_def)
      fix q cq assume "conns n' q = Some cq"
      then obtain cp where "conns n q = Some cp" "cq = (if q = c then cp\<lparr>c_protocol := proto\<rparr> else cp)"
        unfolding n' by (auto simp: set_proto_eq)
      then have "conns n q = Some cp" "serves n cq = serves n cp" by (simp_all add: serves_def)
      then show "serves n' cq \<or> (\<exists>p cr. conns n p = Some cr \<and> (serves n cr \<longrightarrow> serves n cq))" by blast
    qed
    moreover have "conns n' c \<noteq> None" using c by (simp add: n' set_proto_def)
    ultimately show ?thesis using r(1) Some by (auto simp: prepared_def env_same_def loop_same_def n')
  qed
qed

lemma free_env:
  assumes ok: "conn_ok n" and p: "conns n p = Some cp"
  shows "\<exists>n'. connection_free p n = Inr n' \<and> conn_ok n' \<and> env_same n n' \<and> conns n' = (conns n)(p := None) \<and>
    ng_pkts n' = ng_pkts n \<and> ng_d n' = ng_d n \<and> ng_z n' = ng_z n \<and> ng_heap n' = ng_heap n"
proof -
  obtain lips where l: "connection_free p n = Inr (freed p lips cp n)"
     "if CONNECTION_IS_FULLNAT cp
      then \<exists>lip lip'. ng_lips n (c_self_addr cp) = Some lip \<and> lip_after_free cp lip lip' \<and>
             lips = (ng_lips n)(c_self_addr cp \<mapsto> lip')
      else lips = ng_lips n"
    using connection_free_eq [OF ok p] by blast
  have "conn_ok (freed p lips cp n)" using connection_free_ok [OF ok p] l(1) by auto
  moreover have "same_idents (ng_lips n) lips"
    using l(2) lip_after_free_ident by (auto simp: same_idents_def split: if_splits)
  ultimately show ?thesis using l(1) by (auto simp: freed_def env_same_def loop_same_def timer_del_def)
qed

lemma stack_ok_free:
  assumes ok: "stack_ok n" and p: "conns n p = Some cp"
  shows "\<exists>n'. connection_free p n = Inr n' \<and> prepared n n'"
proof -
  obtain n' where n': "connection_free p n = Inr n'" "conn_ok n'" "env_same n n'" "conns n' = (conns n)(p := None)"
    "ng_pkts n' = ng_pkts n" "ng_d n' = ng_d n" "ng_z n' = ng_z n" "ng_heap n' = ng_heap n"
    using free_env [OF stack_okD(1) [OF ok] p] by blast
  have "stack_ok n'"
    by (rule stack_okI [OF ok n'(2,3)]) (metis n'(4) fun_upd_apply option.distinct(1))
  then show ?thesis using n' by (auto simp: prepared_def)
qed

lemma create_env:
  assumes "create_frame n n'"
  shows "env_same n n'" "ng_pkts n' = ng_pkts n" "ng_d n' = ng_d n" "ng_z n' = ng_z n"
    "quota (ng_heap n) \<le> Suc (quota (ng_heap n'))"
  using assms pools_kept_same unfolding create_frame_def env_same_def loop_same_def by auto

lemma created_serves:
  assumes ok: "env_ok n" and vs: "vs_store (ng_vs n) v = Some vs"
    and vip: "ng_interface_lookup_vsip n (packet_get_dip pkt) = Inr (Some l)" "ng_lips n l = Some lip"
    and a: "unat (adapter_idx pkt) < unat (adapter_num (ng_d n))" and c: "created n v vs pkt lips cp"
  shows "serves n cp"
proof -
  have f: "c_vs cp = v" "c_vs_addr cp = Some l" "client_adapter_idx cp = adapter_idx pkt"
    using c vip(1) unfolding created_def filled_def by auto
  obtain s srv where s: "c_server cp = Some s" "get_server (ng_pools n) s = Inr srv" "server_card n srv (server_adapter_idx cp)"
    using c unfolding created_def filled_def by blast
  have "int (unat (server_adapter_idx cp)) < int (unat (adapter_num (ng_d n)))"
    using s(3) ok by (simp add: server_card_def nic_ok_def env_ok_def)
  then have "unat (server_adapter_idx cp) < unat (adapter_num (ng_d n))" by (simp only: of_nat_less_iff)
  then show ?thesis using f s(1,2) vs vip(2) a by (simp add: serves_def)
qed

lemma create_prepared:
  assumes ok: "stack_ok n" and vs: "vs_store (ng_vs n) v = Some vs"
    and vip: "ng_interface_lookup_vsip n (packet_get_dip pkt) = Inr (Some l)" "ng_lips n l = Some lip"
    and a: "unat (adapter_idx pkt) < unat (adapter_num (ng_d n))"
  shows "\<exists>r n'. connection_create mem pkt v n = Inr (r, n') \<and> prepared n n' \<and> (\<forall>c. r = Some c \<longrightarrow> conns n' c \<noteq> None)"
proof -
  have env: "env_ok n" using ok stack_okD(2) by blast
  then have pool: "pool_at (vs_pool vs) (ng_pools n)" and wheel: "CONNECTION_TIMEOUT_SECONDS \<le> total_clock_seconds (net_clock n)"
    using vs unfolding env_ok_def by blast+
  obtain r n' where r: "connection_create mem pkt v n = Inr (r, n')" "conn_ok n'" "create_frame n n'"
    "case r of None \<Rightarrow> conns n' = conns n
     | Some p \<Rightarrow> conns n p = None \<and> (\<exists>cp. conns n' = (conns n)(p \<mapsto> cp) \<and> created n v vs pkt (ng_lips n') cp)"
    using connection_create_ok [OF stack_okD(1) [OF ok] vs pool wheel] by blast
  have new: "(\<exists>p. conns n p = Some cp) \<or> created n v vs pkt (ng_lips n') cp" if "conns n' q = Some cp" for q cp
    using r(4) that by (cases r) (auto split: if_splits)
  have "stack_ok n'"
  proof (rule stack_okI [OF ok r(2) create_env(1) [OF r(3)]])
    fix q cp assume "conns n' q = Some cp"
    from new [OF this] have "serves n cp"
      using created_serves [OF env vs vip a] stack_okD(4) [OF ok] by blast
    then show "serves n' cp \<or> (\<exists>p cr. conns n p = Some cr \<and> (serves n cr \<longrightarrow> serves n cp))"
      using env_same_serves create_env(1) [OF r(3)] by blast
  qed
  then have "prepared n n'" using create_env [OF r(3)] by (simp add: prepared_def)
  moreover have "\<forall>c. r = Some c \<longrightarrow> conns n' c \<noteq> None" using r(4) by (cases r) auto
  ultimately show ?thesis using r(1) by blast
qed

section \<open>Handling one packet\<close>

text \<open>
  What handling the packet \<open>p\<close> leaves: the invariant, all other packets, and the packet itself on
  the queue of a card if it was stolen and on none otherwise; \<open>k\<close> bounds the memory taken.
\<close>

definition handled :: "nat \<Rightarrow> ptr \<Rightarrow> verdict \<Rightarrow> 'a cnet_scheme \<Rightarrow> 'a cnet_scheme \<Rightarrow> bool" where
  "handled k p v n n' \<longleftrightarrow> stack_ok n' \<and> env_same n n' \<and> (\<forall>q. q \<noteq> p \<longrightarrow> ng_pkts n' q = ng_pkts n q) \<and>
     (\<forall>q. map_option p_id (ng_pkts n' q) = map_option p_id (ng_pkts n q)) \<and>
     dom (ng_pkts n') = dom (ng_pkts n) \<and> ng_z n' = ng_z n \<and> quota (ng_heap n) \<le> quota (ng_heap n') + k \<and>
     tx_queued (ng_d n') = tx_queued (ng_d n) + (if v = PACKET_STOLEN then {#p#} else {#})"

lemma prepared_handled: "prepared n n' \<Longrightarrow> v \<noteq> PACKET_STOLEN \<Longrightarrow> handled 1 p v n n'"
  by (simp add: prepared_def handled_def)

lemma handled_same: "stack_ok n \<Longrightarrow> v \<noteq> PACKET_STOLEN \<Longrightarrow> handled k p v n n"
  by (simp add: handled_def)

lemma prepared_then:
  "prepared n a \<Longrightarrow> handled k p v a n' \<Longrightarrow> handled (Suc k) p v n n'"
  unfolding prepared_def handled_def using env_same_trans by fastforce

lemma handled_more: "handled k p v n n' \<Longrightarrow> k \<le> j \<Longrightarrow> handled j p v n n'"
  by (auto simp: handled_def)

lemma handled_then:
  "handled k p v n a \<Longrightarrow> stack_ok n' \<Longrightarrow> env_same a n' \<Longrightarrow> ng_pkts n' = ng_pkts a \<Longrightarrow> ng_d n' = ng_d a \<Longrightarrow>
     ng_z n' = ng_z a \<Longrightarrow> ng_heap n' = ng_heap a \<Longrightarrow> handled k p v n n'"
  unfolding handled_def using env_same_trans by fastforce

lemma stack_ok_sent:
  assumes ok: "stack_ok n" and d: "dev_ok d" "adapter_num d = adapter_num (ng_d n)" "only_queued (ng_d n) d"
  shows "stack_ok (sent p q d n)" "env_same n (sent p q d n)"
proof -
  show e: "env_same n (sent p q d n)" using d by (simp add: env_same_def loop_same_def sent_def)
  have "conn_ok (sent p q d n)"
    using stack_okD(1) [OF ok] unfolding conn_ok_def by (simp add: sent_def net_ok_def conn_wf_def)
  then show "stack_ok (sent p q d n)"
    by (rule stack_okI [OF ok _ e]) (use stack_okD(4) [OF ok] env_same_serves [OF _ e] in \<open>auto simp: sent_def\<close>)
qed

lemma process_connection_handled:
  assumes ok: "stack_ok n" and c: "conns n c = Some cp" and p: "ng_pkts n p = Some pkt"
  shows "\<exists>q n'. process_connection c p b n = Inr (PACKET_STOLEN, n') \<and> handled 0 p PACKET_STOLEN n n' \<and>
    ng_pkts n' p = Some q \<and> protocol_ip q = protocol_ip pkt \<and> conns n' = conns n"
proof -
  have w: "conn_wf n cp" using conn_ok_wf [OF stack_okD(1) [OF ok] c] .
  obtain q d where q: "process_connection c p b n = Inr (PACKET_STOLEN, sent p q d n)" "protocol_ip q = protocol_ip pkt"
    "dev_ok d" "adapter_num d = adapter_num (ng_d n)" "only_queued (ng_d n) d" "tx_queued d = tx_queued (ng_d n) + {#p#}" "p_id q = p_id pkt"
    using process_connection_total [OF c stack_okD(4) [OF ok c] w stack_okD(3) [OF ok] p] by blast
  have "handled 0 p PACKET_STOLEN n (sent p q d n)"
    using stack_ok_sent [OF ok q(3-5)] q(6,7) p by (auto simp: handled_def sent_def)
  with q(1,2) show ?thesis by (auto simp: sent_def)
qed

lemma tcp_change_state_fields:
  assumes "tcp_change_state pkt cp = (s, cp')"
  shows "c_flags cp' = c_flags cp" "c_self_addr cp' = c_self_addr cp" "serves n cp' = serves n cp"
  using assms by (auto simp: tcp_change_state_def Let_def serves_def split: if_splits)

lemma process_found_handled:
  assumes ok: "stack_ok n" and r: "\<And>c. r = Some c \<Longrightarrow> conns n c \<noteq> None" and p: "ng_pkts n p = Some pkt"
  shows "\<exists>v n'. process_found p r b n = Inr (v, n') \<and> handled 0 p v n n'"
proof (cases r)
  case None
  then show ?thesis using ok handled_same by (fastforce simp: process_found_def)
next
  case (Some c)
  then obtain cp where c: "conns n c = Some cp" using r by blast
  obtain q n1 where n1: "process_connection c p b n = Inr (PACKET_STOLEN, n1)" "handled 0 p PACKET_STOLEN n n1"
    "ng_pkts n1 p = Some q" "conns n1 = conns n" using process_connection_handled [OF ok c p] by blast
  have ok1: "stack_ok n1" using n1(2) by (simp add: handled_def)
  have c1: "conns n1 c = Some cp" using c n1(4) by simp
  obtain s cp' where s: "tcp_change_state q cp = (s, cp')" by fastforce
  let ?n2 = "n1\<lparr>conns := (conns n1)(c \<mapsto> cp')\<rparr>"
  have ok2: "stack_ok ?n2" by (rule stack_ok_upd [OF ok1 c1 tcp_change_state_fields [OF s]])
  have h2: "handled 0 p PACKET_STOLEN n ?n2"
    by (rule handled_then [OF n1(2) ok2]) (simp_all add: env_same_def loop_same_def)
  have "conns ?n2 c = Some cp'" by simp
  from free_env [OF stack_okD(1) [OF ok2] this] stack_ok_free [OF ok2 this]
  obtain n3 where n3: "connection_free c ?n2 = Inr n3" "stack_ok n3" "env_same ?n2 n3" "ng_pkts n3 = ng_pkts ?n2"
    "ng_d n3 = ng_d ?n2" "ng_z n3 = ng_z ?n2" "ng_heap n3 = ng_heap ?n2" by (auto simp: prepared_def)
  have h3: "handled 0 p PACKET_STOLEN n n3" by (rule handled_then [OF h2 n3(2-)])
  have "process_found p r b n = (if PACKET_IS_TCP q then (if s = TCP_CLOSED then Inr (PACKET_STOLEN, n3) else Inr (PACKET_STOLEN, ?n2))
      else Inr (PACKET_STOLEN, n1))"
    using Some n1(1,3) c1 s n3(1) by (simp add: process_found_def Let_def)
  then show ?thesis using n1(2) h2 h3 by (metis (no_types, lifting))
qed

section \<open>IP packets\<close>

lemma net_lookup:
  "net_ok n \<Longrightarrow> \<exists>res. interface_lookup (ng_rand n) (ng_lips n) (ng_itf n) ip vs = Inr res"
  using interface_lookup_spec unfolding net_ok_def by blast

lemma stack_ok_net: "stack_ok n \<Longrightarrow> net_ok n"
  using stack_okD(1) conn_okD(1) by blast

lemma env_ok_vs: "env_ok n \<Longrightarrow> vs_ok (ng_rand n) (ng_lips n) (ng_vs n)"
  unfolding env_ok_def by blast

lemma prepared_trans_env:
  "prepared n a \<Longrightarrow> ng_pkts a = ng_pkts n \<and> ng_d a = ng_d n \<and> stack_ok a"
  by (simp add: prepared_def)

lemma process_ip_packet_handled:
  assumes ok: "stack_ok n" and p: "ng_pkts n p = Some pkt" and proto: "protocol_ip pkt \<noteq> 0"
    and a: "unat (adapter_idx pkt) < unat (adapter_num (ng_d n))"
  shows "\<exists>v n'. process_ip_packet mem p n = Inr (v, n') \<and> handled 2 p v n n'"
proof -
  let ?dip = "packet_get_dip pkt" and ?proto = "packet_get_transport_protocol pkt"
  have proto': "?proto \<noteq> 0" using proto by (simp add: packet_get_transport_protocol_def)
  obtain lip where lip: "ng_interface_lookup_vsip n ?dip = Inr lip"
    "\<And>l. lip = Some l \<Longrightarrow> \<exists>lp. ng_lips n l = Some lp \<and> ip_address_eq ?dip (lip_addr lp)"
    using net_lookup_vsip [OF stack_ok_net [OF ok], of ?dip] by blast
  obtain vs where vs: "vserver_lookup (ng_rand n) (ng_lips n) (ng_vs n) ?dip (packet_get_dport pkt) ?proto = Inr vs"
    "case vs of Some (v, l) \<Rightarrow> listens (ng_vs n) v l \<and> (\<exists>vs lip. vs_store (ng_vs n) v = Some vs \<and> ng_lips n l = Some lip \<and>
          ip_address_eq (lip_addr lip) ?dip \<and> vs_port vs = packet_get_dport pkt \<and> vs_protocol vs = ?proto)
     | None \<Rightarrow> True"
    using vserver_lookup_ok [OF env_ok_vs [OF stack_okD(2) [OF ok]], of ?dip "packet_get_dport pkt" ?proto]
    by (fastforce split: option.splits)
  obtain slip where slip: "ng_interface_lookup_selfip n ?dip = Inr slip"
    using net_lookup [OF stack_ok_net [OF ok]] by (auto simp: ng_interface_lookup_selfip_def)
  have p1: "ng_pkts n1 p = Some pkt" if "prepared n n1" for n1 using that p by (simp add: prepared_def)
  show ?thesis
  proof (cases lip)
    case None
    obtain r n1 where r: "connection_lookup ?dip (packet_get_dport pkt) ?proto (slip = None) n = Inr (r, n1)" "prepared n n1"
      "\<And>c. r = Some c \<Longrightarrow> conns n1 c \<noteq> None"
      using lookup_prepared [OF ok proto'] by blast
    have ok1: "stack_ok n1" using r(2) by (simp add: prepared_def)
    obtain v n' where n': "process_found p r (slip = None) n1 = Inr (v, n')" "handled 0 p v n1 n'"
      using process_found_handled [OF ok1 r(3) p1 [OF r(2)]] by blast
    have "handled 2 p v n n'" by (rule handled_more [OF prepared_then [OF r(2) n'(2)]]) simp
    with p lip(1) None slip r(1) n'(1) show ?thesis by (simp add: process_ip_packet_def Let_def)
  next
    case (Some l)
    then obtain lp where lp: "ng_lips n l = Some lp" using lip(2) by blast
    show ?thesis
    proof (cases vs)
      case None
      have "handled 2 p PACKET_DROP n n" by (rule handled_same [OF ok]) simp
      with p lip(1) Some vs(1) None show ?thesis by (simp add: process_ip_packet_def Let_def)
    next
      case (Some vl)
      obtain v vlip where vl: "vl = (v, vlip)" by fastforce
      then obtain vserv where vserv: "vs_store (ng_vs n) v = Some vserv" using vs(2) Some by auto
      obtain r n1 where r: "connection_lookup (packet_get_sip pkt) (packet_get_sport pkt) ?proto True n = Inr (r, n1)" "prepared n n1"
        "\<And>c. r = Some c \<Longrightarrow> conns n1 c \<noteq> None" "ng_vs n1 = ng_vs n" "ng_lips n1 = ng_lips n" "ng_itf n1 = ng_itf n"
        using lookup_prepared [OF ok proto'] by blast
      have ok1: "stack_ok n1" and same: "ng_rand n1 = ng_rand n" "ng_d n1 = ng_d n" using r(2) by (auto simp: prepared_def env_same_def)
      have vip: "ng_interface_lookup_vsip n1 ?dip = Inr (Some l)" "ng_lips n1 l = Some lp" "vs_store (ng_vs n1) v = Some vserv"
        using lip(1) \<open>lip = Some l\<close> lp vserv r(4-6) same by (simp_all add: ng_interface_lookup_vsip_def)
      have a1: "unat (adapter_idx pkt) < unat (adapter_num (ng_d n1))" using a same by simp
      obtain r2 n2 where r2: "(if r = None then connection_create mem pkt v n1 else Inr (r, n1)) = Inr (r2, n2)"
        "n2 = n1 \<or> prepared n1 n2" "\<And>c. r2 = Some c \<Longrightarrow> conns n2 c \<noteq> None"
      proof (cases r)
        case None
        then show thesis using that create_prepared [OF ok1 vip(3,1,2) a1, of mem] by auto
      next
        case (Some c)
        then show thesis using that [of r n1] r(3) by simp
      qed
      have ok2: "stack_ok n2" "ng_pkts n2 p = Some pkt" using r2(2) ok1 p1 [OF r(2)] by (auto simp: prepared_def)
      obtain w n' where n': "process_found p r2 True n2 = Inr (w, n')" "handled 0 p w n2 n'"
        using process_found_handled [OF ok2(1) r2(3) ok2(2)] by blast
      have "handled 1 p w n1 n'"
        using r2(2) n'(2) prepared_then [of n1 n2 0 p w n'] handled_more [of 0 p w n1 n' 1] by auto
      from prepared_then [OF r(2) this] have "handled 2 p w n n'" by (simp add: numeral_2_eq_2)
      moreover have "process_ip_packet mem p n = Inr (w, n')"
        using p lip(1) \<open>lip = Some l\<close> vs(1) Some vl r(1) r2(1) n'(1) by (simp add: process_ip_packet_def Let_def)
      ultimately show ?thesis by blast
    qed
  qed
qed

end
