(* ===== verification/ArpStack.thy ===== *)
theory ArpStack
  imports Stack
begin

text \<open>
  Handling ARP packets and whole batches of packets: \<open>arp_handler\<close> answers or learns without
  faulting as long as memory is left, and \<open>process_packets\<close> neither loses nor duplicates a packet.
\<close>

section \<open>Answering a request\<close>

lemma conn_ok_rt: "conn_ok n \<Longrightarrow> net_ok (n\<lparr>ng_rt := rt\<rparr>) \<Longrightarrow> conn_ok (n\<lparr>ng_rt := rt\<rparr>)"
  unfolding conn_ok_def conn_wf_def by simp

lemma stack_ok_rt:
  assumes ok: "stack_ok n" and rt: "net_ok (n\<lparr>ng_rt := rt\<rparr>)"
  shows "stack_ok (n\<lparr>ng_rt := rt\<rparr>)"
  by (rule stack_okI [OF ok conn_ok_rt [OF stack_okD(1) [OF ok] rt]])
    (use stack_okD(4) [OF ok] in \<open>auto simp: env_same_def loop_same_def\<close>)

lemma lookup_ip_total:
  assumes "net_ok n"
  shows "\<exists>r. ng_interface_lookup_ip n ip = Inr r"
  using net_lookup [OF assms, of ip False] net_lookup [OF assms, of ip True]
  by (auto simp: ng_interface_lookup_ip_def)

text \<open>The answer is written over the request, which then leaves by the card of the route.\<close>

lemma arp_response_cases:
  assumes ok: "stack_ok n" and p: "ng_pkts n p = Some pkt"
  shows "(\<exists>rt. arp_response junk p n = Inr (0, n\<lparr>ng_rt := rt\<rparr>) \<and> stack_ok (n\<lparr>ng_rt := rt\<rparr>)) \<or>
    (\<exists>rt q len. arp_response junk p n = Inr (len, n\<lparr>ng_rt := rt, ng_pkts := (ng_pkts n)(p \<mapsto> q)\<rparr>) \<and> len \<noteq> 0 \<and>
       stack_ok (n\<lparr>ng_rt := rt\<rparr>) \<and> unat (adapter_idx q) < unat (adapter_num (ng_d n)) \<and> p_id q = p_id pkt)"
proof -
  have net: "net_ok n" using stack_ok_net [OF ok] .
  define ip where "ip = ip_address_init_v4 junk (ld32 (p_data pkt) (network_header pkt + 24))"
  obtain lip where lip: "ng_interface_lookup_ip n ip = Inr lip" using lookup_ip_total [OF net] by blast
  obtain rt where rt: "ng_rt_lookup_rr ip n = Inr (case routes_to (ng_rand n) (ng_ents n) ip (ng_rt n) of
       [] \<Rightarrow> None | p # _ \<Rightarrow> Some p, n\<lparr>ng_rt := rt\<rparr>)" "net_ok (n\<lparr>ng_rt := rt\<rparr>)"
    using net_rt_lookup_rr [OF net] by blast
  have ok': "stack_ok (n\<lparr>ng_rt := rt\<rparr>)" by (rule stack_ok_rt [OF ok rt(2)])
  have zero: ?thesis if "arp_response junk p n = Inr (0, n)"
    using that ok by (intro disjI1 exI [of _ "ng_rt n"]) simp
  have eq: "arp_response junk p n = (if lip = None then Inr (0, n) else if ar_op pkt \<noteq> ARP_REQUEST_OP then Inr (0, n)
      else bindE (ng_rt_lookup_rr ip n) (\<lambda>(re, n). case re of None \<Rightarrow> Inr (0, n)
        | Some re \<Rightarrow> bindE (deref (ng_ents n) re) (\<lambda>e. bindE (ng_driver_get_mac n (unat (re_nic_id e))) (\<lambda>hwaddr.
            let pkt = pkt\<lparr>p_data := arp_reply_frame (mac_header pkt) (network_header pkt) hwaddr (p_data pkt),
                          adapter_idx := ucast (re_nic_id e)\<rparr>
            in Inr (int (ETH_HDR + ARP_HDR), n\<lparr>ng_pkts := (ng_pkts n)(p \<mapsto> pkt)\<rparr>)))))"
    using p lip by (simp add: arp_response_def ip_def Let_def)
  show ?thesis
  proof (cases "lip = None \<or> ar_op pkt \<noteq> ARP_REQUEST_OP")
    case True
    then show ?thesis using eq by (intro zero) auto
  next
    case False
    show ?thesis
    proof (cases "routes_to (ng_rand n) (ng_ents n) ip (ng_rt n)")
      case Nil
      then show ?thesis using eq False rt(1) ok' by auto
    next
      case (Cons re res)
      obtain e where e: "ng_ents n re = Some e" "unat (re_nic_id e) < 256" "nic_ok (ng_itf n) (int (unat (re_nic_id e)))"
        using route_nic [OF net Cons] by blast
      have "int (unat (re_nic_id e)) < int (unat (adapter_num (ng_d n)))"
        using e(3) stack_okD(2) [OF ok] by (simp add: nic_ok_def env_ok_def)
      then have i: "unat (re_nic_id e) < unat (adapter_num (ng_d n))" by (simp only: of_nat_less_iff)
      obtain mac where mac: "driver_get_mac (ng_d n) (unat (re_nic_id e)) = Inr mac"
        using dev_mac [OF stack_okD(3) [OF ok] i] by blast
      let ?q = "pkt\<lparr>p_data := arp_reply_frame (mac_header pkt) (network_header pkt) mac (p_data pkt),
                    adapter_idx := ucast (re_nic_id e)\<rparr>"
      have "unat (ucast (re_nic_id e) :: u8) = unat (re_nic_id e)"
        using e(2) by (simp add: unsigned_ucast_eq take_bit_nat_eq_self)
      then have a: "unat (adapter_idx ?q) < unat (adapter_num (ng_d n))" using i by simp
      have "arp_response junk p n = Inr (int (ETH_HDR + ARP_HDR), n\<lparr>ng_rt := rt, ng_pkts := (ng_pkts n)(p \<mapsto> ?q)\<rparr>)"
        using eq False rt(1) Cons e(1) mac by (auto simp: ng_driver_get_mac_def Let_def)
      moreover have "int (ETH_HDR + ARP_HDR) \<noteq> 0" by (simp add: ETH_HDR_def)
      moreover have "p_id ?q = p_id pkt" by simp
      ultimately show ?thesis using ok' a by blast
    qed
  qed
qed

lemma arp_request_handled:
  assumes ok: "stack_ok n" and p: "ng_pkts n p = Some pkt" and r: "is_arp_request pkt"
  shows "\<exists>v n'. arp_handler junk p n = Inr (v, n') \<and> handled 0 p v n n'"
  using arp_response_cases [OF ok p, of junk]
proof (elim disjE exE conjE)
  fix rt assume a: "arp_response junk p n = Inr (0, n\<lparr>ng_rt := rt\<rparr>)" "stack_ok (n\<lparr>ng_rt := rt\<rparr>)"
  have "handled 0 p PACKET_ACCEPT n (n\<lparr>ng_rt := rt\<rparr>)" using a(2) by (simp add: handled_def env_same_def loop_same_def)
  moreover have "arp_handler junk p n = Inr (PACKET_ACCEPT, n\<lparr>ng_rt := rt\<rparr>)"
    using p r a(1) by (simp add: arp_handler_def)
  ultimately show ?thesis by blast
next
  fix rt q and len :: int
  assume a: "arp_response junk p n = Inr (len, n\<lparr>ng_rt := rt, ng_pkts := (ng_pkts n)(p \<mapsto> q)\<rparr>)" "len \<noteq> 0"
    "stack_ok (n\<lparr>ng_rt := rt\<rparr>)" "unat (adapter_idx q) < unat (adapter_num (ng_d n))" "p_id q = p_id pkt"
  let ?n = "n\<lparr>ng_rt := rt\<rparr>"
  from put_tx_spec [OF stack_okD(3) [OF ok], of "(ng_pkts n)(p \<mapsto> q)" p q] a(4)
  obtain d where d: "driver_put_packet_to_send_buffer ((ng_pkts n)(p \<mapsto> q)) (ng_d n) p = Inr (1, d)" "dev_ok d"
    "adapter_num d = adapter_num (ng_d n)" "only_queued (ng_d n) d" "tx_queued d = tx_queued (ng_d n) + {#p#}" by auto
  have s: "stack_ok (sent p q d ?n)" "env_same ?n (sent p q d ?n)" using stack_ok_sent [OF a(3)] d(2-4) by simp_all
  have "env_same n ?n" by (simp add: env_same_def loop_same_def)
  then have "env_same n (sent p q d ?n)" using s(2) env_same_trans by blast
  then have "handled 0 p PACKET_STOLEN n (sent p q d ?n)" using s(1) d(5) a(5) p by (auto simp: handled_def sent_def)
  moreover have "arp_handler junk p n = Inr (PACKET_STOLEN, sent p q d ?n)"
    using p r a(1,2) d(1) by (simp add: arp_handler_def ng_driver_put_packet_to_send_buffer_def sent_def)
  ultimately show ?thesis by blast
qed

section \<open>Learning from a reply\<close>

lemma set_mac_kept:
  assumes "get_server s x = Inr srv"
  shows "\<exists>s'. server_set_mac s x mac = Inr s' \<and> pools_kept s s'"
proof -
  obtain p i where x: "x = (p, i)" by fastforce
  obtain sp where sp: "sp_store s p = Some sp" "i < length (sp_servers sp)" "srv = sp_servers sp ! i"
    using assms by (auto simp: x get_server_def arr_get_def fault_simps deref_def split: option.splits if_splits)
  let ?sp = "sp\<lparr>sp_servers := (sp_servers sp)[i := srv\<lparr>srv_mac := mac\<rparr>]\<rparr>"
  let ?s = "s\<lparr>sp_store := (sp_store s)(p \<mapsto> ?sp)\<rparr>"
  have "server_set_mac s x mac = Inr ?s"
    using sp assms by (simp add: x server_set_mac_def put_server_def arr_set_def)
  moreover have "pool_at q ?s" if "pool_at q s" for q
    using that sp(1) by (auto simp: pool_at_def sp_ok_def)
  moreover have "\<exists>srv'. get_server ?s y = Inr srv' \<and> srv_addr srv' = srv_addr srvy" if "get_server s y = Inr srvy" for y srvy
  proof (cases "y = x")
    case True
    then show ?thesis using that sp assms by (simp add: x get_server_def)
  next
    case False
    have "get_server ?s y = get_server s y"
      using False sp(1) by (cases y) (auto simp: x get_server_def arr_get_def deref_def nth_list_update split: option.splits)
    then show ?thesis using that by simp
  qed
  ultimately show ?thesis by (auto simp: pools_kept_def)
qed

text \<open>A fresh route entry can be written without disturbing the table.\<close>

lemma fresh_entry:
  assumes ok: "net_ok n"
  defines "q \<equiv> brk (ng_heap n)"
  shows "\<not> ht_mem (rt_hashtable (ng_rt n)) q" "rt_ok (ng_rand n) ((ng_ents n)(q \<mapsto> e)) (ng_rt n)"
    "rt_unique ((ng_ents n)(q \<mapsto> e)) (ng_rt n)"
proof -
  have rt: "rt_ok (ng_rand n) (ng_ents n) (ng_rt n)" using ok by (simp add: net_ok_def)
  have none: "ng_ents n q = None" using ok below_new [of "brk (ng_heap n)" "ng_ents n" q] by (simp add: net_ok_def q_def)
  show m: "\<not> ht_mem (rt_hashtable (ng_rt n)) q"
  proof
    assume "ht_mem (rt_hashtable (ng_rt n)) q"
    then obtain i where "q \<in> set (rt_hashtable (ng_rt n) i)" by (auto simp: ht_mem_def)
    from routes.keyedD [OF rt this] none show False by (auto simp: re_key_def fault_simps)
  qed
  show "rt_ok (ng_rand n) ((ng_ents n)(q \<mapsto> e)) (ng_rt n)"
    by (rule table_ok_cong [OF rt]) (use m in \<open>auto simp: re_key_def deref_def\<close>)
  show "rt_unique ((ng_ents n)(q \<mapsto> e)) (ng_rt n)"
  proof -
    have "((ng_ents n)(q \<mapsto> e)) p = ng_ents n p" if "ht_mem (rt_hashtable (ng_rt n)) p" for p using m that by auto
    then show ?thesis using ok unfolding net_ok_def rt_unique_def by simp
  qed
qed

definition learnt :: "'a net_scheme \<Rightarrow> heap \<Rightarrow> route_entry store \<Rightarrow> route_table \<Rightarrow> 'a net_scheme" where
  "learnt n h ents rt = n\<lparr>ng_heap := h, ng_ents := ents, ng_rt := rt\<rparr>"

lemma add_route_ok:
  assumes ok: "net_ok n" and q: "0 < quota (ng_heap n)" and i: "0 \<le> i" "i < 256" "i < itf_num (ng_itf n)"
  shows "\<exists>h ents rt res. rt_entry_create (ng_heap n) = (Some (brk (ng_heap n)), h) \<and>
    ng_rt_add_entry (brk (ng_heap n)) (rt_entry_new ip (of_int i) (brk (ng_heap n)) (n\<lparr>ng_heap := h\<rparr>)) = Inr (res, learnt n h ents rt) \<and>
    net_ok (learnt n h ents rt) \<and> brk (ng_heap n) \<le> brk h \<and> Suc (quota h) = quota (ng_heap n)"
proof -
  let ?q = "brk (ng_heap n)" and ?h = "(ng_heap n)\<lparr>brk := Suc (brk (ng_heap n)), quota := quota (ng_heap n) - 1\<rparr>"
  let ?e = "rt_entry_init ip (of_int i)"
  let ?ents = "(ng_ents n)(?q \<mapsto> ?e)"
  have "?ents ?q = Some ?e" by simp
  from rt_add_entry_ok [OF fresh_entry(2,3) [OF ok] this fresh_entry(1) [OF ok]]
  obtain res rt where rt: "rt_add_entry (ng_rand n) ?ents (ng_rt n) ?q = Inr (res, rt)" "rt_ok (ng_rand n) ?ents rt"
    "rt_unique ?ents rt" "\<forall>q. ht_mem (rt_hashtable rt) q \<longrightarrow> q = ?q \<or> ht_mem (rt_hashtable (ng_rt n)) q" by blast
  have "(of_int i :: u32) = of_nat (nat i)" using i(1) by simp
  then have "unat (of_int i :: u32) = nat i" using i(2) by (simp add: unsigned_of_nat take_bit_nat_eq_self)
  then have u: "unat (re_nic_id ?e) < 256" "int (unat (re_nic_id ?e)) < itf_num (ng_itf n)"
    using i by (simp_all only: rt_entry_init_def route_entry.select_convs)
  have nics: "rt_nics_ok (itf_num (ng_itf n)) ?ents rt"
    unfolding rt_nics_ok_def
  proof (intro allI impI)
    fix p re assume p: "ht_mem (rt_hashtable rt) p" "?ents p = Some re"
    show "unat (re_nic_id re) < 256 \<and> int (unat (re_nic_id re)) < itf_num (ng_itf n)"
    proof (cases "p = ?q")
      case True
      then have "re = ?e" using p(2) by simp
      then show ?thesis using u by blast
    next
      case False
      then have "ht_mem (rt_hashtable (ng_rt n)) p" "ng_ents n p = Some re" using p rt(4) by auto
      then show ?thesis using ok unfolding net_ok_def rt_nics_ok_def by blast
    qed
  qed
  have "net_ok (learnt n ?h ?ents rt)"
    using ok rt(2,3) nics unfolding net_ok_def
    by (auto simp: learnt_def below_def less_Suc_eq)
  moreover have "rt_entry_create (ng_heap n) = (Some ?q, ?h)" using q by (simp add: rt_entry_create_def malloc_def)
  moreover have "ng_rt_add_entry ?q (rt_entry_new ip (of_int i) ?q (n\<lparr>ng_heap := ?h\<rparr>)) = Inr (res, learnt n ?h ?ents rt)"
    using rt(1) by (simp add: ng_rt_add_entry_def rt_entry_new_def learnt_def)
  ultimately show ?thesis using q by (intro exI [of _ ?h] exI [of _ ?ents] exI [of _ rt] exI [of _ res]) simp
qed

lemma lookup_nic_total:
  assumes "net_ok n"
  shows "\<exists>r. ng_rt_lookup_with_nic_id ip i n = Inr r"
proof -
  have "\<exists>b. rt_match i (ng_ents n) p ip = Inr b" if "p \<in> set (rt_hashtable (ng_rt n) k)" for p k
    using routes.keyedD [where r = "ng_rand n" and s = "ng_ents n" and t = "rt_hashtable (ng_rt n)", OF _ that] assms
    by (auto simp: net_ok_def re_key_def rt_match_def fault_simps)
  then have "\<exists>r. list_find (\<lambda>p. rt_match i (ng_ents n) p ip) (rt_hashtable (ng_rt n) (rt_hashkey (ng_rand n) ip)) = Inr r"
    by (rule list_find_total)
  then show ?thesis
    by (auto simp: ng_rt_lookup_with_nic_id_def rt_lookup_with_nic_id_def rt_lookup_impl_def Let_def split: option.split)
qed

text \<open>One server of the walk: at most one block of memory is taken.\<close>

definition learning :: "nat \<Rightarrow> 'a cnet_scheme \<Rightarrow> 'a cnet_scheme \<Rightarrow> bool" where
  "learning k n n' \<longleftrightarrow> stack_ok n' \<and> env_same n n' \<and> ng_pkts n' = ng_pkts n \<and> ng_d n' = ng_d n \<and> ng_z n' = ng_z n \<and>
     quota (ng_heap n) \<le> quota (ng_heap n') + k"

lemma learning_trans: "learning j a b \<Longrightarrow> learning k b c \<Longrightarrow> learning (j + k) a c"
  unfolding learning_def using env_same_trans by fastforce

lemma arp_server_step_ok:
  assumes ok: "stack_ok n" and x: "x \<in> set (server_list (ng_pools n))" and q: "0 < quota (ng_heap n)"
    and a: "unat (adapter_idx pkt) < unat (adapter_num (ng_d n))"
  shows "\<exists>n'. arp_server_step pkt x n = Inr n' \<and> learning 1 n n'"
proof -
  have same: "learning 1 n n" using ok by (simp add: learning_def)
  obtain srv where srv: "get_server (ng_pools n) x = Inr srv"
    using stack_okD(2) [OF ok] x unfolding env_ok_def by blast
  let ?ip = "server_get_ip_address srv" and ?i = "uint (adapter_idx pkt)"
  obtain re where re: "ng_rt_lookup_with_nic_id ?ip ?i n = Inr re" using lookup_nic_total [OF stack_ok_net [OF ok]] by blast
  have "int (unat (adapter_idx pkt)) < int 256" using u8_less [of "adapter_idx pkt"] by (simp only: of_nat_less_iff)
  moreover have "int (unat (adapter_idx pkt)) < int (unat (adapter_num (ng_d n)))" using a by (simp only: of_nat_less_iff)
  ultimately have i: "0 \<le> ?i" "?i < 256" "?i < itf_num (ng_itf n)"
    using stack_okD(2) [OF ok] by (simp_all add: env_ok_def)
  obtain h ents rt res where l: "rt_entry_create (ng_heap n) = (Some (brk (ng_heap n)), h)"
    "ng_rt_add_entry (brk (ng_heap n)) (rt_entry_new ?ip (of_int ?i) (brk (ng_heap n)) (n\<lparr>ng_heap := h\<rparr>)) = Inr (res, learnt n h ents rt)"
    "net_ok (learnt n h ents rt)" "brk (ng_heap n) \<le> brk h" "Suc (quota h) = quota (ng_heap n)"
    using add_route_ok [OF stack_ok_net [OF ok] q i, of ?ip] by blast
  obtain pools where pools: "server_set_mac (ng_pools n) x (\<lambda>k. p_data pkt (network_header pkt + 8 + k)) = Inr pools"
    "pools_kept (ng_pools n) pools" using set_mac_kept [OF srv] by blast
  let ?n = "(learnt n h ents rt)\<lparr>ng_pools := pools\<rparr>"
  have env: "env_same n ?n" using pools(2) by (simp add: env_same_def loop_same_def learnt_def)
  have "conn_ok ?n"
    using stack_okD(1) [OF ok] l(3) pool_ok_other [OF _ l(4)]
    unfolding conn_ok_def conn_wf_def net_ok_def by (simp add: learnt_def) blast
  then have "stack_ok ?n"
    by (rule stack_okI [OF ok _ env]) (use stack_okD(4) [OF ok] in \<open>auto simp: learnt_def\<close>)
  then have learn: "learning 1 n ?n" using env l(5) by (simp add: learning_def learnt_def)
  show ?thesis
  proof (cases "ip_address_eq ?ip (packet_get_sip pkt) \<and> re = None")
    case False
    then have "arp_server_step pkt x n = Inr n" using srv re by (auto simp: arp_server_step_def Let_def)
    then show ?thesis using same by blast
  next
    case True
    have "ng_pools (learnt n h ents rt) = ng_pools n" by (simp add: learnt_def)
    then have "arp_server_step pkt x n = Inr ?n"
      using True srv re l(1,2) pools(1) by (simp add: arp_server_step_def Let_def)
    then show ?thesis using learn by blast
  qed
qed

lemma arp_servers_ok:
  assumes "stack_ok n" "set xs \<subseteq> set (server_list (ng_pools n))" "length xs \<le> quota (ng_heap n)"
    and "unat (adapter_idx pkt) < unat (adapter_num (ng_d n))"
  shows "\<exists>n'. foldE (arp_server_step pkt) xs n = Inr n' \<and> learning (length xs) n n'"
  using assms
proof (induction xs arbitrary: n)
  case Nil
  then show ?case by (simp add: learning_def)
next
  case (Cons x xs)
  obtain a where a: "arp_server_step pkt x n = Inr a" "learning 1 n a"
    using arp_server_step_ok [of n x pkt] Cons.prems by auto
  have "stack_ok a" "ng_d a = ng_d n" "server_list (ng_pools a) = server_list (ng_pools n)" "quota (ng_heap n) \<le> Suc (quota (ng_heap a))"
    using a(2) by (auto simp: learning_def env_same_def pools_kept_def)
  then obtain n' where n': "foldE (arp_server_step pkt) xs a = Inr n'" "learning (length xs) a n'"
    using Cons.IH [of a] Cons.prems by auto
  have "learning (length (x # xs)) n n'" using learning_trans [OF a(2) n'(2)] by simp
  with a(1) n'(1) show ?case by simp
qed

lemma arp_handler_handled:
  assumes ok: "stack_ok n" and p: "ng_pkts n p = Some pkt"
    and q: "length (server_list (ng_pools n)) \<le> quota (ng_heap n)"
    and a: "unat (adapter_idx pkt) < unat (adapter_num (ng_d n))"
  shows "\<exists>v n'. arp_handler junk p n = Inr (v, n') \<and> handled (length (server_list (ng_pools n))) p v n n'"
proof (cases "is_arp_request pkt")
  case True
  then show ?thesis using arp_request_handled [OF ok p, of junk] handled_more by blast
next
  case False
  show ?thesis
  proof (cases "is_arp_reply pkt")
    case True
    obtain n' where n': "foldE (arp_server_step pkt) (server_list (ng_pools n)) n = Inr n'"
      "learning (length (server_list (ng_pools n))) n n'"
      using arp_servers_ok [OF ok _ q a] by blast
    then have "handled (length (server_list (ng_pools n))) p PACKET_ACCEPT n n'"
      by (simp add: learning_def handled_def)
    then show ?thesis using p False True n'(1)
      by (simp add: arp_handler_def arp_server_route_def server_pool_get_server_list_def)
  next
    case nothing: False
    then show ?thesis using p False handled_same [OF ok, of PACKET_ACCEPT] by (auto simp: arp_handler_def)
  qed
qed

section \<open>Batches\<close>

text \<open>
  A packet a batch may hold: received by an existing card, and with a transport protocol if it is an
  IP packet, which the filter of \<open>packet_init_and_filter\<close> sees to.
\<close>

definition receivable :: "'a cnet_scheme \<Rightarrow> ptr \<Rightarrow> bool" where
  "receivable n p \<longleftrightarrow> (\<exists>pkt. ng_pkts n p = Some pkt \<and> unat (adapter_idx pkt) < unat (adapter_num (ng_d n)) \<and>
     (PACKET_IS_IP pkt \<longrightarrow> protocol_ip pkt \<noteq> 0))"

text \<open>The memory one packet may need: a chunk of connections, or a route for every server.\<close>

definition need :: "'a cnet_scheme \<Rightarrow> nat" where
  "need n = length (server_list (ng_pools n)) + 2"

lemma main_process_handled:
  assumes ok: "stack_ok n" and r: "receivable n p" and q: "need n \<le> quota (ng_heap n)"
  shows "\<exists>v n'. main_process_packets mem junk p n = Inr (v, n') \<and> handled (need n) p v n n'"
proof -
  obtain pkt where pkt: "ng_pkts n p = Some pkt" "unat (adapter_idx pkt) < unat (adapter_num (ng_d n))"
    "PACKET_IS_IP pkt \<longrightarrow> protocol_ip pkt \<noteq> 0" using r unfolding receivable_def by blast
  consider "PACKET_IS_IP pkt" | "\<not> PACKET_IS_IP pkt" "PACKET_IS_ARP pkt" | "\<not> PACKET_IS_IP pkt" "\<not> PACKET_IS_ARP pkt" by blast
  then show ?thesis
  proof cases
    case 1
    then obtain v n' where "process_ip_packet mem p n = Inr (v, n')" "handled 2 p v n n'"
      using process_ip_packet_handled [OF ok pkt(1)] pkt(2,3) by blast
    moreover have "handled (need n) p v n n'"
      by (rule handled_more [OF calculation(2)]) (simp add: need_def)
    ultimately show ?thesis using pkt(1) 1 by (simp add: main_process_packets_def)
  next
    case 2
    have "length (server_list (ng_pools n)) \<le> quota (ng_heap n)" using q by (simp add: need_def)
    then obtain v n' where "arp_handler junk p n = Inr (v, n')" "handled (length (server_list (ng_pools n))) p v n n'"
      using arp_handler_handled [OF ok pkt(1) _ pkt(2)] by blast
    moreover have "handled (need n) p v n n'"
      by (rule handled_more [OF calculation(2)]) (simp add: need_def)
    ultimately show ?thesis using pkt(1) 2 by (simp add: main_process_packets_def)
  next
    case 3
    then show ?thesis using pkt(1) handled_same [OF ok, of PACKET_DROP] by (auto simp: main_process_packets_def)
  qed
qed

lemma handled_next:
  assumes h: "handled k p v n n'" and r: "receivable n q" and ne: "q \<noteq> p"
  shows "receivable n' q"
  using assms unfolding handled_def env_same_def receivable_def by metis

text \<open>
  One batch: every packet of the list ends on the list of packets to free or on the queue of a card,
  and the list is empty afterwards.
\<close>

definition batch_done :: "ptr list \<Rightarrow> ptr list \<Rightarrow> ptr list \<Rightarrow> 'a cnet_scheme \<Rightarrow> 'a cnet_scheme \<Rightarrow> bool" where
  "batch_done head free free' n n' \<longleftrightarrow> stack_ok n' \<and> env_same n n' \<and> ng_z n' = ng_z n \<and>
     (\<forall>q. q \<notin> set head \<longrightarrow> ng_pkts n' q = ng_pkts n q) \<and>
     (\<forall>q. map_option p_id (ng_pkts n' q) = map_option p_id (ng_pkts n q)) \<and> dom (ng_pkts n') = dom (ng_pkts n) \<and>
     tx_queued (ng_d n') + mset free' = tx_queued (ng_d n) + mset free + mset head \<and>
     quota (ng_heap n) \<le> quota (ng_heap n') + length head * need n"

lemma batch_handled:
  assumes "stack_ok n" "\<And>p. p \<in> set ps \<Longrightarrow> receivable n p" "distinct ps" "length ps * need n \<le> quota (ng_heap n)"
  shows "\<exists>n' free'. foldE (process_step mem junk) ps (n, ps, free) = Inr (n', [], free') \<and> batch_done ps free free' n n'"
  using assms
proof (induction ps arbitrary: n free)
  case Nil
  then show ?case by (simp add: batch_done_def)
next
  case (Cons p ps)
  obtain v a where a: "main_process_packets mem junk p n = Inr (v, a)" "handled (need n) p v n a"
    using main_process_handled [of n p mem junk] Cons.prems by auto
  have ha: "stack_ok a" "env_same n a" "quota (ng_heap n) \<le> quota (ng_heap a) + need n" using a(2) by (simp_all add: handled_def)
  have need: "need a = need n" using ha(2) by (simp add: need_def env_same_def pools_kept_def)
  have r: "receivable a q" if "q \<in> set ps" for q
    using handled_next [OF a(2)] Cons.prems(2,3) that by (metis distinct.simps(2) list.set_intros(2))
  let ?free = "if v \<noteq> PACKET_STOLEN then p # free else free"
  have "length ps * need a \<le> quota (ng_heap a)" using Cons.prems(4) ha(3) need by simp
  then obtain n' free' where n': "foldE (process_step mem junk) ps (a, ps, ?free) = Inr (n', [], free')" "batch_done ps ?free free' a n'"
    using Cons.IH [OF ha(1) r, of ?free] Cons.prems(3) unfolding distinct.simps by blast
  have "tx_queued (ng_d a) + mset ?free = tx_queued (ng_d n) + mset free + {#p#}"
    using a(2) by (simp add: handled_def)
  moreover have "env_same n n'" using n'(2) ha(2) env_same_trans by (auto simp: batch_done_def)
  ultimately have "batch_done (p # ps) free free' n n'"
    using n'(2) a(2) need unfolding batch_done_def handled_def by simp
  moreover have "foldE (process_step mem junk) (p # ps) (n, p # ps, free) = Inr (n', [], free')"
    using a(1) n'(1) by (simp add: process_step_def)
  ultimately show ?case by blast
qed

lemma process_packets_handled:
  assumes ok: "stack_ok n" and head: "distinct head" "\<And>p. p \<in> set head \<Longrightarrow> receivable n p"
    and mem: "length head * need n \<le> quota (ng_heap n)"
  shows "\<exists>n' free'. process_packets mem junk head free n = Inr (n', [], free') \<and> stack_ok n' \<and> ng_z n' = ng_z n \<and>
    tx_queued (ng_d n') + mset free' = tx_queued (ng_d n) + mset free + mset head \<and>
    (\<forall>q. q \<notin> set head \<longrightarrow> ng_pkts n' q = ng_pkts n q)"
  using batch_handled [OF ok head(2,1) mem, of mem junk free] unfolding process_packets_def batch_done_def by blast

end
