(* ===== verification/Forward.thy ===== *)
theory Forward
  imports Process
begin

text \<open>
  What \<open>process_connection\<close> makes of an IPv4 packet: the addresses, ports and hardware addresses of
  the other side, valid checksums, and every other byte as it was. Together the two directions
  hide the servers from the clients.
\<close>

section \<open>Checksums change two bytes each\<close>

lemma st16_st16 [simp]: "st16 (st16 d i v) i w = st16 d i w"
  by (auto simp: st16_def fun_eq_iff)

lemma checksum_ipv4_st:
  "\<exists>y. checksum_ipv4 pkt = pkt\<lparr>p_data := st16 (p_data pkt) 24 y\<rparr>"
  by (rule exI [of _ "checksum (st16 (p_data pkt) 24 0) 14 20 0"])
    (simp add: checksum_ipv4_def ETH_HDR_def IP_HDR_def Let_def)

lemma checksum_segment_st:
  "\<exists>x. checksum_segment pkt k = pkt\<lparr>p_data := st16 (p_data pkt) (transport_header pkt + k) x\<rparr>"
  by (cases "PACKET_IS_IPV4 pkt") (auto simp: checksum_segment_def Let_def)

text \<open>The offset of the checksum within the segment.\<close>

definition check_at :: "packet \<Rightarrow> nat" where
  "check_at pkt = (if PACKET_IS_TCP pkt then 16 else 6)"

definition sums_valid :: "packet \<Rightarrow> bool" where
  "sums_valid pkt \<longleftrightarrow> word_sum (p_data pkt) 14 20 mod 65535 = 0 \<and>
     (check_at pkt + 2 \<le> cover pkt \<longrightarrow>
       (pseudo_of pkt + word_sum (p_data pkt) (transport_header pkt) (cover pkt)) mod 65535 = 0)"

lemma process_set_checksum_spec:
  assumes v4: "PACKET_IS_IPV4 pkt" and h: "network_header pkt = 14" "transport_header pkt = 34"
  shows "\<exists>x y. process_set_checksum pkt = pkt\<lparr>p_data := st16 (st16 (p_data pkt) 24 y) (34 + check_at pkt) x\<rparr>"
    and "sums_valid (process_set_checksum pkt)"
proof -
  obtain y where y: "checksum_ipv4 pkt = pkt\<lparr>p_data := st16 (p_data pkt) 24 y\<rparr>" using checksum_ipv4_st by blast
  let ?p = "checksum_ipv4 pkt"
  have pf: "PACKET_IS_IPV4 ?p" "network_header ?p = 14" "transport_header ?p = 34" "check_at ?p = check_at pkt"
      "PACKET_IS_TCP ?p = PACKET_IS_TCP pkt"
    using v4 h by (simp_all add: y PACKET_IS_IPV4_def PACKET_IS_TCP_def check_at_def)
  have seg: "process_set_checksum pkt = checksum_segment ?p (check_at pkt)"
    using v4 pf(5) by (simp add: process_set_checksum_def checksum_tcp_def checksum_udp_def check_at_def Let_def)
  obtain x where x: "checksum_segment ?p (check_at pkt) = ?p\<lparr>p_data := st16 (p_data ?p) (34 + check_at pkt) x\<rparr>"
    using checksum_segment_st [of ?p "check_at pkt"] pf(3) by auto
  have eq: "process_set_checksum pkt = pkt\<lparr>p_data := st16 (st16 (p_data pkt) 24 y) (34 + check_at pkt) x\<rparr>"
    using x by (simp add: seg y)
  then show "\<exists>x y. process_set_checksum pkt = pkt\<lparr>p_data := st16 (st16 (p_data pkt) 24 y) (34 + check_at pkt) x\<rparr>"
    by blast
  let ?q = "process_set_checksum pkt"
  have qf: "check_at ?q = check_at pkt" "transport_header ?q = 34"
    using h by (simp_all add: eq check_at_def PACKET_IS_TCP_def)
  have "word_sum (p_data ?q) 14 20 = word_sum (p_data ?p) 14 20"
    by (rule word_sum_cong) (simp add: eq y mem_simps)
  then have ip: "word_sum (p_data ?q) 14 20 mod 65535 = 0" using checksum_ipv4_valid [of pkt] by simp
  have even: "check_at pkt = 2 * (check_at pkt div 2)" by (simp add: check_at_def)
  have cov: "cover ?q = cover ?p"
    using header_stable(1) [of ?p "st16 (p_data ?p) (34 + check_at pkt) x"] pf
    by (simp add: seg x header_len_def st16_other)
  have "(pseudo_of ?q + word_sum (p_data ?q) (transport_header ?q) (cover ?q)) mod 65535 = 0"
    if "check_at ?q + 2 \<le> cover ?q"
  proof -
    have "2 * (check_at pkt div 2) + 1 < cover ?p" using that cov qf even by simp
    moreover have "network_header ?p + header_len ?p \<le> transport_header ?p" using pf by (simp add: header_len_def)
    ultimately show ?thesis
      using checksum_segment_valid(1) [of ?p "check_at pkt div 2"] even seg pf(3) cov qf(2) by metis
  qed
  with ip show "sums_valid ?q" by (simp add: sums_valid_def)
qed

section \<open>The rewritten packet\<close>

text \<open>The addresses and ports of an IPv4 packet, and the same seen from the other end.\<close>

type_synonym flow = "u32 \<times> u32 \<times> u16 \<times> u16"

definition flow_of :: "packet \<Rightarrow> flow" where
  "flow_of pkt = (ip_saddr (p_data pkt) 14, ip_daddr (p_data pkt) 14, ld16 (p_data pkt) 34, ld16 (p_data pkt) 36)"

fun mirror :: "flow \<Rightarrow> flow" where
  "mirror (s, d, sp, dp) = (d, s, dp, sp)"

text \<open>What the connection refers to.\<close>

record refs =
  r_srv :: server
  r_vs :: vserver
  r_vip :: ip_address
  r_sip :: ip_address
  r_smac :: mac
  r_cmac :: mac

definition refers :: "'a cnet_scheme \<Rightarrow> connection \<Rightarrow> refs \<Rightarrow> bool" where
  "refers n cp r \<longleftrightarrow> conn_server n cp = Inr (r_srv r) \<and> vs_store (ng_vs n) (c_vs cp) = Some (r_vs r) \<and>
     conn_vs_addr n cp = Inr (r_vip r) \<and> (CONNECTION_IS_FULLNAT cp \<longrightarrow> conn_self_addr n cp = Inr (r_sip r)) \<and>
     ng_driver_get_mac n (unat (server_adapter_idx cp)) = Inr (r_smac r) \<and>
     ng_driver_get_mac n (unat (client_adapter_idx cp)) = Inr (r_cmac r)"

fun out_flow :: "connection \<Rightarrow> refs \<Rightarrow> bool \<Rightarrow> flow \<Rightarrow> flow" where
  "out_flow cp r True (s, d, sp, dp) =
     (if CONNECTION_IS_FULLNAT cp then ip_w0 (r_sip r) else s, ip_w0 (na_ip (srv_addr (r_srv r))),
      if CONNECTION_IS_FULLNAT cp then c_self_port cp else sp, na_port (srv_addr (r_srv r)))"
| "out_flow cp r False (s, d, sp, dp) =
     (ip_w0 (r_vip r), if CONNECTION_IS_FULLNAT cp then ip_w0 (client_addr cp) else d,
      vs_port (r_vs r), if CONNECTION_IS_FULLNAT cp then client_port cp else dp)"

definition forwarded :: "connection \<Rightarrow> refs \<Rightarrow> bool \<Rightarrow> packet \<Rightarrow> packet \<Rightarrow> bool" where
  "forwarded cp r is_client pkt q \<longleftrightarrow> flow_of q = out_flow cp r is_client (flow_of pkt) \<and> sums_valid q \<and>
     (\<forall>k < 6. p_data q k = (if is_client then srv_mac (r_srv r) k else client_mac cp k)) \<and>
     (\<forall>k < 6. p_data q (6 + k) = (if is_client then r_smac r k else r_cmac r k)) \<and>
     (\<forall>j. 12 \<le> j \<and> j < 24 \<or> 38 \<le> j \<and> j \<noteq> 34 + check_at pkt \<and> j \<noteq> 35 + check_at pkt \<longrightarrow> p_data q j = p_data pkt j) \<and>
     adapter_idx q = (if is_client then server_adapter_idx cp else client_adapter_idx cp) \<and> p_len q = p_len pkt"

definition ip4_frame :: "packet \<Rightarrow> bool" where
  "ip4_frame pkt \<longleftrightarrow> PACKET_IS_IPV4 pkt \<and> mac_header pkt = 0 \<and> network_header pkt = 14 \<and> transport_header pkt = 34"

lemma set_port_eq:
  "process_set_port n cp pkt is_client = process_set_tcp_port n cp pkt is_client"
  by (simp add: process_set_port_def process_set_tcp_port_def process_set_udp_port_def)

text \<open>The three steps before the checksums, as one change of bytes.\<close>

definition rewritten :: "connection \<Rightarrow> refs \<Rightarrow> bool \<Rightarrow> bytes \<Rightarrow> bytes" where
  "rewritten cp r is_client d =
     (let f = CONNECTION_IS_FULLNAT cp
      in if is_client then
           let d = (if f then st16 d 34 (c_self_port cp) else d);
               d = st16 d 36 (na_port (srv_addr (r_srv r)));
               d = (if f then st32 d 26 (ip_w0 (r_sip r)) else d);
               d = st32 d 30 (ip_w0 (na_ip (srv_addr (r_srv r))))
           in put_bytes (put_bytes d 6 6 (r_smac r)) 0 6 (srv_mac (r_srv r))
         else
           let d = (if f then st16 d 36 (client_port cp) else d);
               d = st16 d 34 (vs_port (r_vs r));
               d = (if f then st32 d 30 (ip_w0 (client_addr cp)) else d);
               d = st32 d 26 (ip_w0 (r_vip r))
           in put_bytes (put_bytes d 6 6 (r_cmac r)) 0 6 (client_mac cp))"

lemma steps_rewritten:
  assumes r: "refers n cp r" and f: "ip4_frame pkt"
  shows "bindE (process_set_port n cp pkt is_client) (\<lambda>pkt. bindE (process_set_ip n cp pkt is_client) (\<lambda>pkt.
      process_set_mac n cp pkt is_client)) = Inr (pkt\<lparr>p_data := rewritten cp r is_client (p_data pkt)\<rparr>)"
  using assms
  by (cases is_client; cases "CONNECTION_IS_FULLNAT cp")
    (simp_all add: set_port_eq process_set_tcp_port_def process_set_ip_def process_set_ipv4_def process_set_mac_def
      refers_def ip4_frame_def PACKET_IS_IPV4_def rewritten_def Let_def ETH_ALEN_def server_get_port_def
      server_get_ip_address_def ip_address_get_ipv4_def connection_get_client_ip_def)

lemma rewritten_frame: "12 \<le> j \<and> j < 26 \<or> 38 \<le> j \<Longrightarrow> rewritten cp r is_client d j = d j"
  by (auto simp: rewritten_def Let_def mem_simps)

lemma rewritten_macs:
  "k < 6 \<Longrightarrow> rewritten cp r is_client d k = (if is_client then srv_mac (r_srv r) k else client_mac cp k)"
  "k < 6 \<Longrightarrow> rewritten cp r is_client d (6 + k) = (if is_client then r_smac r k else r_cmac r k)"
  by (simp_all add: rewritten_def Let_def put_bytes_def)

lemma rewritten_flow:
  "(ip_saddr (rewritten cp r b d) 14, ip_daddr (rewritten cp r b d) 14, ld16 (rewritten cp r b d) 34, ld16 (rewritten cp r b d) 36)
     = out_flow cp r b (ip_saddr d 14, ip_daddr d 14, ld16 d 34, ld16 d 36)"
  by (cases b; cases "CONNECTION_IS_FULLNAT cp") (simp_all add: rewritten_def Let_def ip_saddr_def ip_daddr_def mem_simps)

text \<open>
  \<open>process_connection\<close> rewrites the packet for the other side, queues it and steals it.
\<close>

lemma process_connection_forwards:
  assumes c: "conns n c = Some cp" and p: "ng_pkts n p = Some pkt" and r: "refers n cp r" and f: "ip4_frame pkt"
  shows "\<exists>q. forwarded cp r is_client pkt q \<and> process_connection c p is_client n
     = bindE (ng_driver_put_packet_to_send_buffer p (n\<lparr>ng_pkts := (ng_pkts n)(p \<mapsto> q)\<rparr>)) (\<lambda>(_, n). Inr (PACKET_STOLEN, n))"
proof -
  let ?i = "if is_client then server_adapter_idx cp else client_adapter_idx cp"
  let ?d = "rewritten cp r is_client (p_data pkt)"
  let ?p = "pkt\<lparr>p_data := ?d, adapter_idx := ?i\<rparr>"
  have pf: "PACKET_IS_IPV4 ?p" "network_header ?p = 14" "transport_header ?p = 34" "check_at ?p = check_at pkt"
    using f by (simp_all add: ip4_frame_def PACKET_IS_IPV4_def check_at_def PACKET_IS_TCP_def)
  obtain x y where xy: "process_set_checksum ?p = ?p\<lparr>p_data := st16 (st16 ?d 24 y) (34 + check_at pkt) x\<rparr>"
    using process_set_checksum_spec(1) [OF pf(1-3)] pf(4) by auto
  have ca: "6 \<le> check_at pkt" by (simp add: check_at_def)
  let ?q = "process_set_checksum ?p"
  have "flow_of ?q = out_flow cp r is_client (flow_of pkt)"
    using rewritten_flow [of cp r is_client "p_data pkt"] ca
    by (simp add: flow_of_def xy ip_saddr_def ip_daddr_def mem_simps)
  moreover have "p_data ?q k = ?d k" if "k \<noteq> 24" "k \<noteq> 25" "k \<noteq> 34 + check_at pkt" "k \<noteq> 35 + check_at pkt" for k
    using that by (simp add: xy st16_def)
  ultimately have fw: "forwarded cp r is_client pkt ?q"
    using process_set_checksum_spec(2) [OF pf(1-3)] rewritten_macs [of _ cp r is_client "p_data pkt"]
      rewritten_frame [of _ cp r is_client "p_data pkt"] ca
    unfolding forwarded_def by (auto simp: xy)
  have "process_connection c p is_client n = bindE (bindE (process_set_port n cp pkt is_client) (\<lambda>pkt.
      bindE (process_set_ip n cp pkt is_client) (\<lambda>pkt. process_set_mac n cp pkt is_client))) (\<lambda>pkt.
      bindE (ng_driver_put_packet_to_send_buffer p (n\<lparr>ng_pkts := (ng_pkts n)(p \<mapsto> process_set_checksum (pkt\<lparr>adapter_idx := ?i\<rparr>))\<rparr>))
        (\<lambda>(_, n). Inr (PACKET_STOLEN, n)))"
    using c p by (simp add: process_connection_def bindE_assoc Let_def)
  then show ?thesis using fw steps_rewritten [OF r f, of is_client] by auto
qed

section \<open>There and back\<close>

lemma forwarded_flow: "forwarded cp r b pkt q \<Longrightarrow> flow_of q = out_flow cp r b (flow_of pkt)"
  by (simp add: forwarded_def)

text \<open>Both directions of a full-NAT connection.\<close>

lemma nat_both_ways:
  assumes r: "refers n cp r" and c: "conns n c = Some cp" and nat: "CONNECTION_IS_FULLNAT cp"
    and req: "ng_pkts n p = Some req" "ip4_frame req"
      "flow_of req = (ip_w0 (client_addr cp), ip_w0 (r_vip r), client_port cp, vs_port (r_vs r))"
    and ans: "ng_pkts n p' = Some ans" "ip4_frame ans"
  shows "\<exists>out ret. process_connection c p True n
        = bindE (ng_driver_put_packet_to_send_buffer p (n\<lparr>ng_pkts := (ng_pkts n)(p \<mapsto> out)\<rparr>)) (\<lambda>(_, n). Inr (PACKET_STOLEN, n)) \<and>
      flow_of out = (ip_w0 (r_sip r), ip_w0 (na_ip (srv_addr (r_srv r))), c_self_port cp, na_port (srv_addr (r_srv r))) \<and>
      process_connection c p' False n
        = bindE (ng_driver_put_packet_to_send_buffer p' (n\<lparr>ng_pkts := (ng_pkts n)(p' \<mapsto> ret)\<rparr>)) (\<lambda>(_, n). Inr (PACKET_STOLEN, n)) \<and>
      (flow_of ans = mirror (flow_of out) \<longrightarrow> flow_of ret = mirror (flow_of req)) \<and>
      sums_valid out \<and> sums_valid ret"
proof -
  obtain out where out: "forwarded cp r True req out" "process_connection c p True n
      = bindE (ng_driver_put_packet_to_send_buffer p (n\<lparr>ng_pkts := (ng_pkts n)(p \<mapsto> out)\<rparr>)) (\<lambda>(_, n). Inr (PACKET_STOLEN, n))"
    using process_connection_forwards [OF c req(1) r req(2)] by blast
  obtain ret where ret: "forwarded cp r False ans ret" "process_connection c p' False n
      = bindE (ng_driver_put_packet_to_send_buffer p' (n\<lparr>ng_pkts := (ng_pkts n)(p' \<mapsto> ret)\<rparr>)) (\<lambda>(_, n). Inr (PACKET_STOLEN, n))"
    using process_connection_forwards [OF c ans(1) r ans(2)] by blast
  have "flow_of out = (ip_w0 (r_sip r), ip_w0 (na_ip (srv_addr (r_srv r))), c_self_port cp, na_port (srv_addr (r_srv r)))"
    using forwarded_flow [OF out(1)] req(3) nat by simp
  moreover have "flow_of ret = mirror (flow_of req)"
    using forwarded_flow [OF ret(1)] req(3) nat by (cases "flow_of ans") simp
  moreover have "sums_valid out" "sums_valid ret" using out(1) ret(1) by (simp_all add: forwarded_def)
  ultimately show ?thesis using out(2) ret(2) by blast
qed

text \<open>
  A transparent connection is looked up by the address a reply is sent to, the client's, and the
  reply is then rewritten as if it came from the client: it goes back to the server.
\<close>

lemma transparent_reply:
  assumes r: "refers n cp r" and c: "conns n c = Some cp" and t: "\<not> CONNECTION_IS_FULLNAT cp"
    and ans: "ng_pkts n p = Some ans" "ip4_frame ans" "flow_of ans = (ip_w0 (na_ip (srv_addr (r_srv r))), ip_w0 (client_addr cp), na_port (srv_addr (r_srv r)), client_port cp)"
  shows "\<exists>ret. process_connection c p True n
      = bindE (ng_driver_put_packet_to_send_buffer p (n\<lparr>ng_pkts := (ng_pkts n)(p \<mapsto> ret)\<rparr>)) (\<lambda>(_, n). Inr (PACKET_STOLEN, n)) \<and>
    flow_of ret = (ip_w0 (na_ip (srv_addr (r_srv r))), ip_w0 (na_ip (srv_addr (r_srv r))), na_port (srv_addr (r_srv r)), na_port (srv_addr (r_srv r))) \<and>
    adapter_idx ret = server_adapter_idx cp"
proof -
  obtain ret where ret: "forwarded cp r True ans ret" "process_connection c p True n
      = bindE (ng_driver_put_packet_to_send_buffer p (n\<lparr>ng_pkts := (ng_pkts n)(p \<mapsto> ret)\<rparr>)) (\<lambda>(_, n). Inr (PACKET_STOLEN, n))"
    using process_connection_forwards [OF c ans(1) r ans(2)] by blast
  then show ?thesis using forwarded_flow [OF ret(1)] ans(3) t by (auto simp: forwarded_def)
qed

end
