(* ===== verification/SampleNet.thy ===== *)
theory SampleNet
  imports ArpStack Forward ConnLookup
begin

text \<open>
  One small running process on which the theorems about the whole state are tried: a card, a virtual
  server at 5 with one server at 7, a self IP 3, and a connection of the client 1 that has been given
  the first port of the self IP.
\<close>

section \<open>The state\<close>

definition full_range :: port_range where
  "full_range = \<lparr>pr_size = 4, pr_get = 0, pr_put = 3, pr_avail = 3, pr_ports = [1024, 1280, 1536, 0]\<rparr>"

text \<open>The same with port 1024 given out.\<close>

definition used_range :: port_range where
  "used_range = full_range\<lparr>pr_get := 1, pr_avail := 2\<rparr>"

definition sample_ranged :: "u32 \<Rightarrow> int \<Rightarrow> port_range \<Rightarrow> local_ip" where
  "sample_ranged ip type r =
     \<lparr>lip_type = type, lip_addr = sample_ip ip, lip_nic_id = 0, tcp_port = Some r, udp_port = Some full_range\<rparr>"

definition sample_server :: server where
  "sample_server = \<lparr>srv_addr = \<lparr>na_ip = sample_ip 7, na_port = 36895\<rparr>, srv_mac = (\<lambda>_. 9)\<rparr>"

definition sample_pools :: pools_state where
  "sample_pools = \<lparr>sp_store = [7 \<mapsto> \<lparr>sp_servers = replicate 64 sample_server, sp_num = 1, sp_next = 0, sp_ref = 1\<rparr>],
     server_pool_list = [7], server_list = [(7, 0)]\<rparr>"

definition sample_card :: adapter where
  "sample_card = \<lparr>a_id = 0, a_mac = (\<lambda>_. 2), tx_ring = Some sample_ring, rx_ring = Some sample_ring, a_queue_num = 1,
     a_desc_num = 4, a_queue_idx = 0, a_regs_addr = 0, a_desc_addr = 0\<rparr>"

definition sample_driver :: driver where
  "sample_driver = (driver_init 0)\<lparr>adapters := [Some sample_card], adapter_num := 1, ring_num := 1\<rparr>"

definition sample_client :: connection where
  "sample_client = sample_connection\<lparr>c_vs_addr := Some 9, c_self_addr := 8, c_server := Some (7, 0), c_vs := 1,
     client_addr := sample_ip 1, client_port := 8, c_self_port := 1024, c_flags := 1, c_protocol := PROTO_TCP\<rparr>"

text \<open>The request of the client and the server's answer, as they arrive.\<close>

definition sample_request :: packet where
  "sample_request = sample_packet\<lparr>p_data := (p_data sample_packet)(30 := 5, 34 := 8, 37 := 80)\<rparr>"

definition sample_answer :: packet where
  "sample_answer = sample_packet\<lparr>p_data := (p_data sample_packet)(26 := 7, 30 := 3, 34 := 31, 35 := 144, 37 := 4)\<rparr>"

definition sample_clock :: "buckets \<Rightarrow> clock" where
  "sample_clock t = \<lparr>cpu_frequency = 1000, clk_now = 0, clk_fill = 0, last_expire = 0, total_clock_seconds = 60,
     next_clock_second = 0, timer_table = t\<rparr>"

definition sample_chunk :: "ptr list \<Rightarrow> mem_pool" where
  "sample_chunk free = \<lparr>mp_free_list = free, mp_size = 128, mp_chunksize = 1024, mp_num = int (length free), mp_name = ''connection pool''\<rparr>"

text \<open>Before the first connection.\<close>

definition idle_net :: cnet where
  "idle_net = \<lparr>ng_id = 0, ng_d = sample_driver, ng_itf = sample_interface,
     ng_z = fst (packet_zone_init (\<lambda>_. sample_packet) 0 0 0 0 0 0 Map.empty),
     ng_q = \<lparr>lfq_nproc = 1, lfq_id = 0, lfq_desc_num = 0, lfq_module_size = 0, lfq_queue_size = 0, lfq_start = 0, recv_queue = [], send_queue = []\<rparr>,
     ng_rt = \<lparr>gw_nic_id = 0, rt_hashtable = (\<lambda>_. [])\<rparr>, ng_heap = \<lparr>brk = 2000, quota = 10\<rparr>, ng_rand = 0,
     ng_lips = [8 \<mapsto> sample_ranged 3 SELF_IP_T full_range, 9 \<mapsto> sample_ranged 5 VS_IP_T full_range],
     ng_ents = Map.empty, ng_pools = sample_pools, ng_vs = sample_vs_state,
     ng_pkts = [42 \<mapsto> sample_request, 43 \<mapsto> sample_answer], ng_queues = Map.empty, ng_mmio = (\<lambda>_. 0),
     conns = Map.empty, conn_mem_pool = sample_chunk [1000], client_hashtable = (\<lambda>_. []), self_hashtable = (\<lambda>_. []),
     net_clock = sample_clock (\<lambda>_. [])\<rparr>"

text \<open>With the connection of the client.\<close>

definition sample_net :: cnet where
  "sample_net = idle_net\<lparr>ng_lips := (ng_lips idle_net)(8 \<mapsto> sample_ranged 3 SELF_IP_T used_range),
     conns := [1000 \<mapsto> sample_client], conn_mem_pool := sample_chunk [],
     client_hashtable := (\<lambda>_. [])(connection_hashkey 0 (sample_ip 1) 8 6 := [1000]),
     self_hashtable := (\<lambda>_. [])(connection_hashkey 0 (sample_ip 3) 1024 6 := [1000]),
     net_clock := sample_clock ((\<lambda>_. [])(3 := [1000]))\<rparr>"

section \<open>Its invariants\<close>

lemmas sample_defs = sample_net_def idle_net_def sample_ranged_def sample_clock_def sample_chunk_def
  sample_client_def sample_connection_def sample_driver_def driver_init_def sample_pools_def

lemma full_range_ok: "pr_ok full_range" "pr_content full_range = [1024, 1280, 1536]" "pr_room full_range = 0"
  "pr_ok used_range" "pr_content used_range = [1280, 1536]" "pr_room used_range = 1"
  by code_simp+

lemma sample_env: "env_ok (idle_net\<lparr>ng_lips := l, conns := c, conn_mem_pool := m, client_hashtable := ch, self_hashtable := sh, net_clock := sample_clock t\<rparr>)"
proof -
  have "dev_ok sample_driver"
    by (auto simp: dev_ok_def sample_driver_def sample_card_def)
  moreover have "vs_ok 0 l sample_vs_state" for l by (rule sample_vs_ok)
  moreover have "pool_at 7 sample_pools" by (simp add: pool_at_def sp_ok_def sample_pools_def MAX_SERVER_def)
  ultimately show ?thesis
    by (auto simp: env_ok_def idle_net_def sample_interface_def sample_driver_def sample_vs_state_def sample_pools_def
        get_server_def fault_simps arr_get_def CONNECTION_TIMEOUT_SECONDS_def sample_clock_def split: if_splits)
qed


lemma sample_net_oks: "net_ok idle_net" "net_ok sample_net"
  by (simp_all add: net_ok_def sample_interface_ok rt_unique_def rt_nics_ok_def below_def table_ok_empty ht_mem_def sample_net_def idle_net_def)

lemma sample_lips_ok: "lips_ok (ng_lips idle_net)" "lips_ok (ng_lips sample_net)"
  using full_range_ok
  by (auto simp: lips_ok_def lip_range_def sample_net_def idle_net_def sample_ranged_def pr_ok_shape full_range_ok split: if_splits)

lemma idle_net_ok: "conn_ok idle_net" "ports_ok idle_net" "keys_ok idle_net"
proof -
  have "pool_ok [] (sample_chunk [1000]) \<lparr>brk = 2000, quota = 10\<rparr>"
    by (simp add: pool_ok_def sample_chunk_def)
  moreover have "wheel_ok (sample_clock (\<lambda>_. []))" "\<not> timer_linked (sample_clock (\<lambda>_. [])) p" for p
    by (simp_all add: wheel_ok_def sample_clock_def timer_linked_def list_ex_iff)
  moreover have "linked_once (\<lambda>_. [])" by (auto simp: linked_once_def table_ok_empty)
  ultimately show "conn_ok idle_net"
    using sample_net_oks(1) sample_lips_ok(1) by (auto simp: conn_ok_def idle_net_def ht_mem_def)
  show "keys_ok idle_net" by (simp add: keys_ok_def idle_net_def table_ok_empty)
  show "ports_ok idle_net"
    using full_range_ok by (auto simp: ports_ok_def holders_def idle_net_def sample_ranged_def lip_range_def split: if_splits)
qed

lemma sample_holders: "holders sample_net l t = (if l = 8 \<and> t then {1000} else {})"
  by (auto simp: holders_def sample_defs CONNECTION_IS_FULLNAT_def CONNECTION_IS_TCP_def)

lemma sample_net_ok: "conn_ok sample_net" "ports_ok sample_net" "keys_ok sample_net"
proof -
  have "pool_ok [1000] (sample_chunk []) \<lparr>brk = 2000, quota = 10\<rparr>"
    by (simp add: pool_ok_def sample_chunk_def)
  moreover have "wheel_ok (sample_clock ((\<lambda>_. [])(3 := [1000])))"
      "timer_linked (sample_clock ((\<lambda>_. [])(3 := [1000]))) p \<longleftrightarrow> p = 1000" for p
    by (auto simp: wheel_ok_def sample_clock_def timer_linked_def list_ex_iff split: if_splits)
  moreover have "linked_once ((\<lambda>_. [])(i := [1000]))" for i by (auto simp: linked_once_def table_ok_def)
  ultimately show "conn_ok sample_net"
    using sample_net_oks(2) sample_lips_ok(2)
    by (auto simp: conn_ok_def sample_net_def idle_net_def ht_mem_def conn_wf_def sample_client_def CONNECTION_IS_FULLNAT_def intro!: exI [of _ "[1000]"] split: if_splits)
  show "keys_ok sample_net"
    by (auto simp: keys_ok_def table_ok_def client_slot_def self_slot_def connection_hashkey_client_def connection_hashkey_self_def
        sample_defs fault_simps PROTO_TCP_def)
  show "ports_ok sample_net"
    using full_range_ok unfolding ports_ok_def sample_holders
    by (auto simp: port_held_def sample_defs lip_range_def split: if_splits)
qed

lemma sample_stack_ok: "stack_ok idle_net" "stack_ok sample_net"
proof -
  have "env_ok idle_net" using sample_env [where l = "ng_lips idle_net" and c = "conns idle_net" and m = "conn_mem_pool idle_net"
      and ch = "client_hashtable idle_net" and sh = "self_hashtable idle_net" and t = "\<lambda>_. []"] by (simp add: idle_net_def)
  then show "stack_ok idle_net" using idle_net_ok by (simp add: stack_ok_def idle_net_def)
  have "env_ok sample_net" unfolding sample_net_def by (rule sample_env)
  then show "stack_ok sample_net" using sample_net_ok
    by (auto simp: stack_ok_def serves_def get_server_def fault_simps arr_get_def sample_defs sample_vs_state_def split: if_splits)
qed

definition sample_refs :: refs where
  "sample_refs = \<lparr>r_srv = sample_server, r_vs = the (vs_store sample_vs_state 1), r_vip = sample_ip 5, r_sip = sample_ip 3,
     r_smac = (\<lambda>_. 2), r_cmac = (\<lambda>_. 2)\<rparr>"

lemma sample_refers: "refers sample_net sample_client sample_refs"
  by (simp add: refers_def sample_refs_def conn_server_def conn_vs_addr_def conn_self_addr_def ng_driver_get_mac_def driver_get_mac_def
      driver_get_adapter_def fault_simps arr_get_def get_server_def sample_defs sample_vs_state_def sample_card_def lip_get_ip_address_def)

lemma sample_frames:
  "ip4_frame sample_request" "flow_of sample_request = (1, 5, 8, htons 80)"
  "ip4_frame sample_answer" "flow_of sample_answer = (7, 3, 36895, 1024)"
  by code_simp+

end
