(* ===== verification/Dispatch.thy ===== *)
theory Dispatch
  imports Process "HOL-Library.Signed_Division"
begin

text \<open>
  \<open>uspace/src/dispatch.c\<close>: which process handles a packet. Every process owns a slice of the ports
  and the addresses are spread by their hash; packets for another process travel through the
  lock-free queues, and so do packets going home to the process that owns their buffer.
\<close>

section \<open>Assigning packets to processes\<close>

record dispatch =
  disp_id :: int
  disp_num :: int
  port_base :: u16
  port_slice :: u16
  disp_port_low :: u16
  disp_port_high :: u16

text \<open>Conversions of \<open>int\<close> values to \<open>u16\<close> wrap around; \<open>/\<close> rounds towards zero (\<open>sdiv\<close>).\<close>

definition dispatch_module_init :: "int \<Rightarrow> int \<Rightarrow> dispatch res" where
  "dispatch_module_init n i =
     (if n = 0 then Inl Bad_arith
      else
        let base = 1024;
            slice = (of_int ((65535 - uint base) sdiv n) :: u16);
            low = (of_int (i * uint slice + uint base) :: u16);
            high = (of_int (uint low + uint slice - 1) :: u16)
        in Inr \<lparr>disp_id = i, disp_num = n, port_base = base, port_slice = slice,
                disp_port_low = low, disp_port_high = high\<rparr>)"

definition dispatch_get_port_range :: "dispatch \<Rightarrow> u16 \<times> u16" where
  "dispatch_get_port_range disp = (disp_port_low disp, disp_port_high disp)"

definition dispatch_port_to_id :: "dispatch \<Rightarrow> u16 \<Rightarrow> int res" where
  "dispatch_port_to_id disp port =
     (if port_slice disp = 0 then Inl Bad_arith
      else Inr ((uint port - uint (port_base disp)) sdiv uint (port_slice disp)))"

text \<open>\<open>h % disp.num\<close> is computed on unsigned operands.\<close>

definition dispatch_hash_to_id :: "dispatch \<Rightarrow> u32 \<Rightarrow> int res" where
  "dispatch_hash_to_id disp h =
     (if (of_int (disp_num disp) :: u32) = 0 then Inl Bad_arith
      else Inr (sint (h mod of_int (disp_num disp))))"

definition dispatch_ip_packet :: "dispatch \<Rightarrow> packet \<Rightarrow> 'a net_scheme \<Rightarrow> int res" where
  "dispatch_ip_packet disp pkt n =
     (let src_ip = na_ip (p_saddr pkt);
          dst_ip = na_ip (p_daddr pkt);
          dst_port = na_port (p_daddr pkt)
      in bindE (ng_interface_lookup_vsip n src_ip) (\<lambda>lip.
           if lip \<noteq> None then dispatch_hash_to_id disp (ip_address_hash (ng_rand n) src_ip)
           else bindE (ng_interface_lookup_selfip n dst_ip) (\<lambda>lip.
             if lip \<noteq> None then dispatch_port_to_id disp dst_port
             else dispatch_hash_to_id disp (ip_address_hash (ng_rand n) dst_ip))))"

section \<open>Exchanging packets\<close>

text \<open>The queue structure is that of the state, \<open>ng_q\<close>.\<close>

definition ng_lfq_send :: "ptr \<Rightarrow> int \<Rightarrow> 'a net_scheme \<Rightarrow> 'a net_scheme res" where
  "ng_lfq_send p i n = bindE (lfq_send (ng_q n) (ng_queues n) p i) (\<lambda>queues. Inr (n\<lparr>ng_queues := queues\<rparr>))"

definition ng_set_lfq_state :: "ptr \<Rightarrow> lfq_state \<Rightarrow> 'a net_scheme \<Rightarrow> 'a net_scheme res" where
  "ng_set_lfq_state p s n =
     bindE (deref (ng_pkts n) p) (\<lambda>pkt. Inr (n\<lparr>ng_pkts := (ng_pkts n)(p \<mapsto> packet_set_lfq_state pkt s)\<rparr>))"

definition dispatch_flush :: "'a net_scheme \<Rightarrow> 'a net_scheme res" where
  "dispatch_flush n =
     bindE (lfq_send_flush (ng_pkts n) (ng_q n) (ng_queues n)) (\<lambda>(_, queues). Inr (n\<lparr>ng_queues := queues\<rparr>))"

definition dispatch_send_step ::
  "dispatch \<Rightarrow> ptr \<Rightarrow> 'a net_scheme \<times> ptr list \<Rightarrow> ('a net_scheme \<times> ptr list) res" where
  "dispatch_send_step disp pos = (\<lambda>(n, send_head).
     bindE (deref (ng_pkts n) pos) (\<lambda>pkt.
       if PACKET_IS_IP pkt then
         bindE (dispatch_ip_packet disp pkt n) (\<lambda>i.
           if i \<noteq> lfq_id (ng_q n) then
             let send_head = remove1 pos send_head
             in bindE (ng_set_lfq_state pos LFQ_DISPATCH n) (\<lambda>n.
                bindE (ng_lfq_send pos i n) (\<lambda>n. Inr (n, send_head)))
           else Inr (n, send_head))
       else Inr (n, send_head)))"

definition dispatch_recv_step ::
  "ptr \<Rightarrow> 'a net_scheme \<times> ptr list \<times> ptr list \<Rightarrow> ('a net_scheme \<times> ptr list \<times> ptr list) res" where
  "dispatch_recv_step pos = (\<lambda>(n, recv_head, reclaim_head).
     bindE (deref (ng_pkts n) pos) (\<lambda>pkt.
       case packet_get_lfq_state pkt of
         LFQ_START \<Rightarrow> Inr (n, recv_head, reclaim_head)
       | LFQ_DISPATCH \<Rightarrow> Inr (n, recv_head, reclaim_head)
       | LFQ_RECLAIM \<Rightarrow>
           bindE (ng_set_lfq_state pos LFQ_END n) (\<lambda>n.
             Inr (n, remove1 pos recv_head, reclaim_head @ [pos]))
       | LFQ_XMIT \<Rightarrow>
           bindE (ng_driver_put_packet_to_send_buffer pos n) (\<lambda>(_, n).
             Inr (n, remove1 pos recv_head, reclaim_head))
       | LFQ_END \<Rightarrow> Inl Exit_call))"

definition dispatch_packet ::
  "dispatch \<Rightarrow> ptr list \<Rightarrow> ptr list \<Rightarrow> ptr list \<Rightarrow> 'a net_scheme
     \<Rightarrow> ('a net_scheme \<times> ptr list \<times> ptr list \<times> ptr list) res" where
  "dispatch_packet disp send_head recv_head reclaim_head n =
     bindE (if send_head \<noteq> [] then
              bindE (foldE (dispatch_send_step disp) send_head (n, send_head)) (\<lambda>(n, send_head).
              bindE (dispatch_flush n) (\<lambda>n. Inr (n, send_head)))
            else Inr (n, send_head)) (\<lambda>(n, send_head).
     bindE (lfq_recv (ng_z n) (ng_q n) (ng_queues n) recv_head) (\<lambda>(_, queues, recv_head).
     let n = n\<lparr>ng_queues := queues\<rparr>
     in if recv_head \<noteq> [] then
          bindE (foldE dispatch_recv_step recv_head (n, recv_head, reclaim_head)) (\<lambda>(n, recv_head, reclaim_head).
            Inr (n, send_head, recv_head, reclaim_head))
        else Inr (n, send_head, recv_head, reclaim_head)))"

definition dispatch_reclaim_step :: "ptr \<Rightarrow> 'a net_scheme \<times> ptr list \<Rightarrow> ('a net_scheme \<times> ptr list) res" where
  "dispatch_reclaim_step pos = (\<lambda>(n, to_reclaim).
     bindE (deref (ng_pkts n) pos) (\<lambda>pkt.
       let i = p_id pkt
       in if i \<noteq> lfq_id (ng_q n) then
            let to_reclaim = remove1 pos to_reclaim
            in bindE (ng_set_lfq_state pos LFQ_RECLAIM n) (\<lambda>n.
               bindE (ng_lfq_send pos i n) (\<lambda>n. Inr (n, to_reclaim)))
          else Inr (n, to_reclaim)))"

definition dispatch_reclaim :: "ptr list \<Rightarrow> 'a net_scheme \<Rightarrow> ('a net_scheme \<times> ptr list) res" where
  "dispatch_reclaim to_reclaim n =
     (if to_reclaim \<noteq> [] then
        bindE (foldE dispatch_reclaim_step to_reclaim (n, to_reclaim)) (\<lambda>(n, to_reclaim).
        bindE (dispatch_flush n) (\<lambda>n. Inr (n, to_reclaim)))
      else Inr (n, to_reclaim))"

section \<open>The slices of the ports\<close>

lemma slice_bounds:
  assumes n: "0 < n" "n \<le> 64511" and i: "0 \<le> i" "i < n"
  shows "0 < 64511 div n" "i * (64511 div n) + 1024 + (64511 div n) \<le> (65535 :: int)"
proof -
  show "0 < 64511 div n" using n by (simp add: pos_imp_zdiv_pos_iff)
  have "(i + 1) * (64511 div n) \<le> n * (64511 div n)" using i n by (intro mult_right_mono) (auto simp: pos_imp_zdiv_nonneg_iff)
  also have "n * (64511 div n) \<le> 64511" using mult_div_mod_eq [of n 64511] pos_mod_sign [of n 64511] n(1) by linarith
  finally show "i * (64511 div n) + 1024 + (64511 div n) \<le> 65535" by (simp add: algebra_simps)
qed

lemma div_slot:
  fixes a :: int
  assumes "0 < s"
  shows "a div s = i \<longleftrightarrow> i * s \<le> a \<and> a < i * s + s"
proof
  assume "a div s = i"
  then have "a = i * s + a mod s" using div_mult_mod_eq [of a s] by simp
  then show "i * s \<le> a \<and> a < i * s + s" using pos_mod_bound [OF assms, of a] pos_mod_sign [OF assms, of a] by linarith
next
  assume "i * s \<le> a \<and> a < i * s + s"
  then show "a div s = i" by (intro int_div_pos_eq [of a s i "a - i * s"]) (auto simp: mult.commute)
qed

lemma uint_u16_of_int: "0 \<le> x \<Longrightarrow> x < 65536 \<Longrightarrow> uint (of_int x :: u16) = x"
  by (simp add: unsigned_of_int take_bit_int_eq_self)

lemma dispatch_init_eq:
  assumes n: "0 < n" "n \<le> 64511" and i: "0 \<le> i" "i < n"
  shows "\<exists>d. dispatch_module_init n i = Inr d \<and> disp_num d = n \<and> uint (port_base d) = 1024 \<and> uint (port_slice d) = 64511 div n \<and>
    uint (disp_port_low d) = i * (64511 div n) + 1024 \<and> uint (disp_port_high d) = i * (64511 div n) + 1023 + 64511 div n"
proof -
  let ?s = "64511 div n"
  note b = slice_bounds [OF assms]
  have le: "0 \<le> i * ?s" "?s \<le> 64511" using b(1) i n zdiv_mono2 [of 64511 1 n] by simp_all
  have sd: "64511 sdiv n = ?s" using n by (simp add: signed_divide_int_def)
  have s: "uint (of_int ?s :: u16) = ?s" using b(1) le by (intro uint_u16_of_int) auto
  have l: "uint (of_int (i * ?s + 1024) :: u16) = i * ?s + 1024" using b le by (intro uint_u16_of_int) auto
  have h: "uint (of_int (i * ?s + 1024 + ?s - 1) :: u16) = i * ?s + 1024 + ?s - 1" using b le by (intro uint_u16_of_int) auto
  show ?thesis
    using n s l h sd by (simp add: dispatch_module_init_def Let_def)
qed




section \<open>Spreading by address\<close>

lemma dispatch_hash_range:
  assumes "0 < disp_num d" "disp_num d < 2 ^ 31"
  shows "\<exists>i. dispatch_hash_to_id d h = Inr i \<and> 0 \<le> i \<and> i < disp_num d"
proof -
  let ?n = "of_int (disp_num d) :: u32"
  have u: "uint ?n = disp_num d" using assms by (simp add: unsigned_of_int take_bit_int_eq_self)
  then have n0: "?n \<noteq> 0" using assms(1) by auto
  have m: "uint (h mod ?n) = uint h mod disp_num d" by (simp add: uint_mod u)
  then have lt: "uint (h mod ?n) < disp_num d" using assms(1) by simp
  have "- (2 ^ 31) \<le> uint (h mod ?n)" by (rule order_trans [of _ 0]) simp_all
  then have "sint (h mod ?n) = uint (h mod ?n)"
    using lt assms(2) by (simp add: sint_uint signed_take_bit_int_eq_self)
  then show ?thesis using n0 lt m assms(1) by (simp add: dispatch_hash_to_id_def)
qed

end
