(* ===== verification/MainLoop.thy ===== *)
theory MainLoop
  imports Dispatch
begin

text \<open>
  \<open>uspace/src/main.c\<close>, and the configuration of \<open>test.c\<close> it installs: starting the processes,
  initialising the modules of one process in order, and the endless loop. What comes from outside
  (the operating system's answers, the device, the time stamp counter, uninitialised memory) is a
  record of parameters, \<open>env\<close>.
\<close>

section \<open>The process\<close>

record unet = cnet +
  disp :: dispatch

record env =
  e_pagesize :: int
  e_desc_memory :: "nat \<Rightarrow> nat \<Rightarrow> desc"
  e_device :: "u64 list"
  e_maps :: "nat \<times> nat \<times> u64"
  e_queue_memory :: "ptr \<Rightarrow> nat \<Rightarrow> u64"
  e_packet_memory :: "ptr \<Rightarrow> packet"
  e_junk :: buckets
  e_gw :: u32
  e_tsc :: u64
  e_inet_addr :: "string \<Rightarrow> u32"
  e_inet_pton :: "string \<Rightarrow> in6"
  e_addr :: net_address
  e_servers :: "nat \<Rightarrow> server"
  e_lips :: "nat \<Rightarrow> ptr"

text \<open>
  \<open>init\<close>: the stages in the order of the source; answer 0 as soon as one fails. The queues come
  first in the packet memory, the packets behind them. \<open>n\<close> holds the heap, the shared queues and
  whatever the other globals hold before.
\<close>

definition init_network :: "env \<Rightarrow> int \<Rightarrow> int \<Rightarrow> unet \<Rightarrow> (int \<times> unet) res" where
  "init_network e nproc i n =
     bindE (rt_module_init (ng_heap n) (e_gw e) (e_junk e)) (\<lambda>(rt, h).
       case rt of
         None \<Rightarrow> Inr (0, n\<lparr>ng_heap := h\<rparr>)
       | Some rt \<Rightarrow>
           let n = n\<lparr>ng_heap := h, ng_rt := rt, ng_rand := fst (hash_module_init (e_tsc e))\<rparr>
           in bindE (dispatch_module_init nproc i) (\<lambda>dp.
              let n = n\<lparr>disp := dp\<rparr>
              in bindE (driver_module_init (e_desc_memory e) (e_device e) (e_maps e) i (ng_heap n)) (\<lambda>(d, h).
                   case d of
                     None \<Rightarrow> Inr (0, n\<lparr>ng_heap := h\<rparr>)
                   | Some d \<Rightarrow>
                       case dispatch_get_port_range dp of (self_low, self_high) \<Rightarrow>
                         let nic_num = int (driver_get_adapter_num d)
                         in bindE (interface_module_init nic_num 1 65535 self_low self_high h (e_junk e)) (\<lambda>(itf, h).
                              case itf of
                                None \<Rightarrow> Inr (0, n\<lparr>ng_heap := h\<rparr>)
                              | Some itf \<Rightarrow> Inr (1, n\<lparr>ng_heap := h, ng_d := d, ng_itf := itf\<rparr>)))))"

definition init_buffers :: "env \<Rightarrow> int \<Rightarrow> int \<Rightarrow> unet \<Rightarrow> (int \<times> unet) res" where
  "init_buffers e nproc i n =
     (let d = ng_d n;
          start = (if buffer_addr d = 0 then None else Some (unat (buffer_addr d)))
      in case lfq_module_init (e_pagesize e) (e_queue_memory e) nproc i 1024 start (ng_queues n) (ng_heap n) of
           (None, queues, h) \<Rightarrow> Inr (0, n\<lparr>ng_queues := queues, ng_heap := h\<rparr>)
         | (Some q, queues, h) \<Rightarrow>
             let used_bytes = (of_int (lfq_get_module_size q) :: u64);
                 addr = buffer_addr d + used_bytes;
                 phys = buffer_addr_phys d + used_bytes;
                 sz = buffer_total_size d - used_bytes
             in bindE (packet_module_init (e_packet_memory e) addr phys sz nproc i h (ng_pkts n)) (\<lambda>(z, h, pkts).
                  let n = n\<lparr>ng_queues := queues, ng_heap := h, ng_pkts := pkts, ng_q := q\<rparr>
                  in case z of None \<Rightarrow> Inr (0, n) | Some z \<Rightarrow> Inr (1, n\<lparr>ng_z := z\<rparr>)))"

definition init_modules :: "env \<Rightarrow> unet \<Rightarrow> (int \<times> unet) res" where
  "init_modules e n =
     (case timer_module_init DEFAULT_SECONDS (CLOCK (e_tsc e)) (ng_heap n) (e_junk e) of
        (ret, None, h) \<Rightarrow> Inr (0, n\<lparr>ng_heap := h\<rparr>)
      | (ret, Some c, h) \<Rightarrow>
          bindE (connection_module_init (e_junk e) (e_junk e) (n\<lparr>ng_heap := h, net_clock := c\<rparr>)) (\<lambda>(ret, n).
            if ret = 0 then Inr (0, n)
            else case vserver_module_init (ng_vs n) (ng_heap n) (e_junk e) of
              (ret, vs, h) \<Rightarrow>
                let n = n\<lparr>ng_vs := vs, ng_heap := h\<rparr>
                in if ret = 0 then Inr (0, n) else Inr (1, n)))"

definition init :: "env \<Rightarrow> int \<Rightarrow> int \<Rightarrow> unet \<Rightarrow> (int \<times> unet) res" where
  "init e nproc i n =
     bindE (init_network e nproc i n) (\<lambda>(ret, n).
       if ret = 0 then Inr (0, n)
       else bindE (init_buffers e nproc i n) (\<lambda>(ret, n).
         if ret = 0 then Inr (0, n)
         else bindE (init_modules e n) (\<lambda>(ret, n).
           if ret = 0 then Inr (0, n)
           else Inr (ng_init i (ng_d n) (ng_z n) (ng_q n) (ng_itf n) (ng_rt n) n))))"

section \<open>Starting the processes\<close>

text \<open>
  \<open>forks i\<close> is what the \<open>i\<close>-th \<open>fork\<close> returns to the process looked at, \<open>affinity\<close> whether
  \<open>sched_setaffinity\<close> succeeds.
\<close>

definition bind_cpu :: "(int \<Rightarrow> bool) \<Rightarrow> int \<Rightarrow> int" where
  "bind_cpu affinity i = (if affinity i then 1 else 0)"

fun spawn_loop :: "nat \<Rightarrow> (int \<Rightarrow> int) \<Rightarrow> int \<Rightarrow> int \<Rightarrow> int res" where
  "spawn_loop 0 forks n i = (if i < n then Inl Diverges else Inr i)"
| "spawn_loop (Suc fuel) forks n i =
     (if i < n then
        (if forks i < 0 then Inl Exit_call
         else if forks i = 0 then Inr i
         else spawn_loop fuel forks n (i + 1))
      else Inr i)"

definition spawn :: "int \<Rightarrow> (int \<Rightarrow> int) \<Rightarrow> (int \<Rightarrow> bool) \<Rightarrow> int \<Rightarrow> int res" where
  "spawn cpunum forks affinity n =
     (if n = 1 then Inr 0
      else
        let n = (if cpunum < n then cpunum else n)
        in bindE (spawn_loop (nat n) forks n 0) (\<lambda>i.
             if i = n then Inl Exit_call
             else if bind_cpu affinity i = 0 then Inl Exit_call
             else Inr i))"

section \<open>The loop\<close>

record lists =
  recv_from_driver :: "ptr list"
  recv_from_dispatch :: "ptr list"
  to_reclaim :: "ptr list"
  free_head :: "ptr list"

record input =
  in_ports :: "ptr \<Rightarrow> u16 \<times> u16"
  in_conn :: "ptr \<Rightarrow> connection"
  in_ip :: ip_address
  in_tsc :: u64

text \<open>One iteration, in three parts: receiving, processing, and giving buffers back.\<close>

definition loop_receive :: "input \<Rightarrow> unet \<times> lists \<Rightarrow> (unet \<times> lists) res" where
  "loop_receive e = (\<lambda>(n, l).
     bindE (driver_alloc_rx_buffer (ng_pkts n) (ng_d n) (packet_zone_get_free_packet_pool (ng_z n)) (ng_mmio n))
       (\<lambda>(_, d, pp, m).
     bindE (driver_recv d (ng_pkts n) (recv_from_driver l)) (\<lambda>(_, d, pkts, from_driver).
     bindE (packet_init_and_filter (in_ports e) pkts from_driver (free_head l)) (\<lambda>(pkts, from_driver, free).
     let n = n\<lparr>ng_d := d, ng_z := (ng_z n)\<lparr>free_packet_pool := pp\<rparr>, ng_mmio := m, ng_pkts := pkts\<rparr>
     in bindE (dispatch_packet (disp n) from_driver (recv_from_dispatch l) free n) (\<lambda>(n, from_driver, from_disp, free).
          Inr (n, l\<lparr>recv_from_driver := from_driver, recv_from_dispatch := from_disp, free_head := free\<rparr>))))))"

definition loop_process :: "input \<Rightarrow> unet \<times> lists \<Rightarrow> (unet \<times> lists) res" where
  "loop_process e = (\<lambda>(n, l).
     bindE (process_packets (in_conn e) (in_ip e) (recv_from_driver l) (free_head l) n) (\<lambda>(n, from_driver, free).
     bindE (process_packets (in_conn e) (in_ip e) (recv_from_dispatch l) (to_reclaim l) n) (\<lambda>(n, from_disp, rec).
       Inr (n, l\<lparr>recv_from_driver := from_driver, recv_from_dispatch := from_disp,
                 to_reclaim := rec, free_head := free\<rparr>))))"

definition loop_reclaim :: "input \<Rightarrow> unet \<times> lists \<Rightarrow> (unet \<times> lists) res" where
  "loop_reclaim e = (\<lambda>(n, l).
     bindE (driver_reclaim_tx_buffer (ng_d n) (to_reclaim l)) (\<lambda>(_, d, rec).
     bindE (dispatch_reclaim rec (n\<lparr>ng_d := d\<rparr>)) (\<lambda>(n, rec).
     case packet_zone_reclaim (ng_z n) (free_head l) of (z, free) \<Rightarrow>
     case packet_zone_reclaim z rec of (z, rec) \<Rightarrow>
     bindE (driver_send (ng_pkts n) (ng_d n) (ng_mmio n)) (\<lambda>(_, d, m).
     bindE (dispatch_flush (n\<lparr>ng_z := z, ng_d := d, ng_mmio := m\<rparr>)) (\<lambda>n.
     bindE (net_timer_expire (in_tsc e) n) (\<lambda>n.
       Inr (n, l\<lparr>to_reclaim := rec, free_head := free\<rparr>)))))))"

definition loop_iteration :: "input \<Rightarrow> unet \<times> lists \<Rightarrow> (unet \<times> lists) res" where
  "loop_iteration e s = bindE (loop_receive e s) (\<lambda>s. bindE (loop_process e s) (loop_reclaim e))"

text \<open>
  \<open>main_loop\<close> for as many iterations as there are inputs; between two iterations the cards and the
  other processes change the shared memory (\<open>outside\<close>).
\<close>

definition main_loop ::
  "(input \<times> (unet \<Rightarrow> unet)) list \<Rightarrow> unet \<Rightarrow> (unet \<times> lists) res" where
  "main_loop inputs n =
     bindE (rt_find_server_route n) (\<lambda>n.
       foldE (\<lambda>(e, outside) (n, l). loop_iteration e (outside n, l)) inputs
         (n, \<lparr>recv_from_driver = [], recv_from_dispatch = [], to_reclaim = [], free_head = []\<rparr>))"

section \<open>The configuration of test.c\<close>

definition static_route :: "(string \<Rightarrow> u32) \<Rightarrow> ip_address \<Rightarrow> string \<Rightarrow> int \<Rightarrow> 'a net_scheme \<Rightarrow> 'a net_scheme res" where
  "static_route inet_addr junk ip_string nic_id n =
     (let ip = ip_address_init_v4 junk (inet_addr ip_string)
      in case rt_entry_create (ng_heap n) of
           (None, h) \<Rightarrow> Inl Bad_deref
         | (Some re, h) \<Rightarrow>
             bindE (ng_rt_add_entry re (rt_entry_new ip (of_int nic_id) re (n\<lparr>ng_heap := h\<rparr>))) (\<lambda>(_, n). Inr n))"

definition test_ips :: "(string \<times> bool \<times> int) list" where
  "test_ips = [(''192.168.2.36'', False, 0), (''192.168.2.31'', False, 1), (''192.168.2.32'', False, 2),
               (''192.168.2.33'', False, 3), (''192.168.2.34'', True, 0), (''192.168.2.35'', True, 0)]"

fun test_add_ips ::
  "(string \<Rightarrow> u32) \<Rightarrow> (string \<Rightarrow> in6) \<Rightarrow> ip_address \<Rightarrow> (string \<times> bool \<times> int) list \<Rightarrow> 'a net_scheme
     \<Rightarrow> (ptr option list \<times> 'a net_scheme) res" where
  "test_add_ips inet_addr inet_pton junk [] n = Inr ([], n)"
| "test_add_ips inet_addr inet_pton junk ((s, vs, nic) # ips) n =
     bindE (ng_add_ip inet_addr inet_pton junk s AF_INET vs nic n) (\<lambda>(p, n).
     bindE (test_add_ips inet_addr inet_pton junk ips n) (\<lambda>(ps, n). Inr (p # ps, n)))"

definition test_mac :: mac where
  "test_mac k = [0x00, 0x26, 0x2D, 0x0B, 0x79, 0x02] ! (k mod 6)"

text \<open>The pointers the source does not check are dereferenced: NULL is a fault.\<close>

definition vs_add_lip :: "ptr option \<Rightarrow> ptr \<Rightarrow> 'a net_scheme \<Rightarrow> (int \<times> 'a net_scheme) res" where
  "vs_add_lip lip v n =
     (case lip of
        None \<Rightarrow> Inl Bad_deref
      | Some l \<Rightarrow>
          bindE (vserver_add_ip (ng_rand n) (ng_lips n) (ng_vs n) v l (ng_heap n)) (\<lambda>(ret, vs, h).
            Inr (ret, n\<lparr>ng_vs := vs, ng_heap := h\<rparr>)))"

definition test_arp :: "env \<Rightarrow> 'a net_scheme \<Rightarrow> (int \<times> 'a net_scheme) res" where
  "test_arp e n =
     bindE (test_add_ips (e_inet_addr e) (e_inet_pton e) (na_ip (e_addr e)) test_ips n) (\<lambda>(ps, n).
     case server_pool_create (e_servers e) (ng_pools n) (ng_heap n) of
       (None, pools, h) \<Rightarrow> Inl Bad_deref
     | (Some pool, pools, h) \<Rightarrow>
         let addr = net_address_init_v4 (e_inet_addr e) (e_addr e) ''192.168.2.87'' 80
         in bindE (server_pool_add_server pools pool addr) (\<lambda>(srv, pools).
            case srv of
              None \<Rightarrow> Inl Bad_deref
            | Some srv \<Rightarrow>
                bindE (server_set_mac pools srv test_mac) (\<lambda>pools.
                bindE (vserver_create (ng_rand n) (ng_lips n) (e_lips e) (ng_vs n) pool (htons 7788) PROTO_TCP 1 h)
                  (\<lambda>(v, vs, h).
                   case v of
                     None \<Rightarrow> Inl Bad_deref
                   | Some v \<Rightarrow>
                       bindE (vs_add_lip (ps ! 4) v (n\<lparr>ng_pools := pools, ng_vs := vs, ng_heap := h\<rparr>)) (\<lambda>(ret, n).
                         if ret = 0 then Inl Exit_call
                         else bindE (vs_add_lip (ps ! 5) v n) (\<lambda>(_, n). Inr (1, n)))))))"

text \<open>\<open>main\<close> up to the endless loop: usage, processes, modules, configuration.\<close>

definition main ::
  "int \<Rightarrow> (int \<Rightarrow> int) \<Rightarrow> (int \<Rightarrow> bool) \<Rightarrow> (string \<Rightarrow> int) \<Rightarrow> env
     \<Rightarrow> (input \<times> (unet \<Rightarrow> unet)) list \<Rightarrow> string list \<Rightarrow> unet \<Rightarrow> (int \<times> unet) res" where
  "main cpunum forks affinity atoi e inputs argv n =
     (if length argv \<noteq> 2 then Inr (1, n)
      else
        let nproc = atoi (argv ! 1)
        in bindE (spawn cpunum forks affinity nproc) (\<lambda>i.
           bindE (init e nproc i n) (\<lambda>(ret, n).
             if ret = 0 then Inr (-1, n)
             else bindE (test_arp e n) (\<lambda>(ret, n).
               if ret = 0 then Inr (-1, n)
               else bindE (main_loop inputs n) (\<lambda>(n, _). Inr (1, n))))))"

end
