(* ===== verification/Ukmem.thy ===== *)
theory Ukmem
  imports Driver
begin

text \<open>
  \<open>modules/ukmem.c\<close>: the kernel module that hands the memory of the network cards to the
  processes. The kernel's driver registers the cards with their registers, hardware address and
  descriptor rings; a process reads a summary and maps three areas, told apart by their size:
  registers, descriptors, packet buffers. A mapping is a list of segments, each an offset into the
  area, a physical address and a length, in the order of the calls of \<open>remap_pfn_range\<close>.
\<close>

section \<open>Registering cards\<close>

definition MAX_DESC_NUM :: nat where "MAX_DESC_NUM = 8"

definition MAX_ADAPTER_NUM :: nat where "MAX_ADAPTER_NUM = 16"

definition PAGE_SIZE :: u64 where "PAGE_SIZE = 4096"

record adapter_mem =
  adapter_addr :: u64
  regs_phys :: u64
  am_mac :: "nat \<Rightarrow> u8"
  rx_desc :: "u64 list"
  tx_desc :: "u64 list"
  rx_desc_num :: nat
  tx_desc_num :: nat

record ukmem =
  uk_adapter :: "adapter_mem list"
  uk_adapter_num :: nat
  uk_queue_num :: int
  regs_pages :: u32
  desc_pages :: u64
  uk_start :: u64
  uk_phys :: u64
  uk_size :: u32

text \<open>\<open>u\<close> is the zeroed static structure at first; answer 0 is success.\<close>

definition ukmmap_init :: "u32 \<Rightarrow> u64 \<Rightarrow> u64 \<Rightarrow> ukmem \<Rightarrow> int \<times> ukmem" where
  "ukmmap_init regs dsc mapped u =
     (let u = u\<lparr>uk_adapter_num := 0, regs_pages := regs, desc_pages := dsc, uk_start := 0,
                uk_phys := 2 ^ 30, uk_size := ucast PAGE_SIZE * 1024 * 100,
                uk_adapter := map (\<lambda>a. a\<lparr>rx_desc_num := 0, tx_desc_num := 0\<rparr>) (uk_adapter u)\<rparr>;
          u = u\<lparr>uk_start := mapped\<rparr>
      in if mapped = 0 then (1, u) else (0, u))"

definition ukmmap_exit :: "ukmem \<Rightarrow> ukmem" where
  "ukmmap_exit u = u"

text \<open>The index of the card stands for the pointer to it.\<close>

definition ukmem_find_adapter :: "ukmem \<Rightarrow> u64 \<Rightarrow> nat option" where
  "ukmem_find_adapter u addr = find (\<lambda>i. adapter_addr (uk_adapter u ! i) = addr) [0..<uk_adapter_num u]"

definition upd_adapter :: "nat \<Rightarrow> (adapter_mem \<Rightarrow> adapter_mem) \<Rightarrow> ukmem \<Rightarrow> ukmem res" where
  "upd_adapter i f u =
     bindE (arr_get (uk_adapter u) i) (\<lambda>a.
     bindE (arr_set (uk_adapter u) i (f a)) (\<lambda>as. Inr (u\<lparr>uk_adapter := as\<rparr>)))"

definition ukmem_alloc_adapter :: "u64 \<Rightarrow> ukmem \<Rightarrow> ukmem res" where
  "ukmem_alloc_adapter addr u =
     bindE (upd_adapter (uk_adapter_num u) (\<lambda>a. a\<lparr>adapter_addr := addr\<rparr>) u) (\<lambda>u.
       Inr (u\<lparr>uk_adapter_num := uk_adapter_num u + 1\<rparr>))"

definition ukmem_add_regs :: "u64 \<Rightarrow> u64 \<Rightarrow> ukmem \<Rightarrow> ukmem res" where
  "ukmem_add_regs addr phys u =
     (case ukmem_find_adapter u addr of
        None \<Rightarrow> Inr u
      | Some i \<Rightarrow> upd_adapter i (\<lambda>a. a\<lparr>regs_phys := phys\<rparr>) u)"

definition ukmem_add_mac :: "u64 \<Rightarrow> (nat \<Rightarrow> u8) \<Rightarrow> ukmem \<Rightarrow> ukmem res" where
  "ukmem_add_mac addr mac u =
     (case ukmem_find_adapter u addr of
        None \<Rightarrow> Inr u
      | Some i \<Rightarrow> upd_adapter i (\<lambda>a. a\<lparr>am_mac := (\<lambda>k. if k < 6 then mac k else am_mac a k)\<rparr>) u)"

definition KTX_FLAG :: int where "KTX_FLAG = 0"

definition KRX_FLAG :: int where "KRX_FLAG = 1"

definition ukmem_add_desc :: "u64 \<Rightarrow> u64 \<Rightarrow> int \<Rightarrow> ukmem \<Rightarrow> ukmem res" where
  "ukmem_add_desc addr desc_phys flag u =
     (case ukmem_find_adapter u addr of
        None \<Rightarrow> Inr u
      | Some i \<Rightarrow>
          bindE (arr_get (uk_adapter u) i) (\<lambda>a.
          bindE (if flag = KTX_FLAG then
                   bindE (arr_set (tx_desc a) (tx_desc_num a) desc_phys) (\<lambda>ds.
                     Inr (a\<lparr>tx_desc := ds, tx_desc_num := tx_desc_num a + 1\<rparr>))
                 else
                   bindE (arr_set (rx_desc a) (rx_desc_num a) desc_phys) (\<lambda>ds.
                     Inr (a\<lparr>rx_desc := ds, rx_desc_num := rx_desc_num a + 1\<rparr>))) (\<lambda>a.
            upd_adapter i (\<lambda>_. a) u)))"

definition ukmem_add_rx_desc where
  "ukmem_add_rx_desc addr desc_phys u = ukmem_add_desc addr desc_phys KRX_FLAG u"

definition ukmem_add_tx_desc where
  "ukmem_add_tx_desc addr desc_phys u = ukmem_add_desc addr desc_phys KTX_FLAG u"

definition ukmem_set_queue_num :: "int \<Rightarrow> ukmem \<Rightarrow> ukmem" where
  "ukmem_set_queue_num num u = u\<lparr>uk_queue_num := num\<rparr>"

section \<open>Mapping\<close>

type_synonym segment = "u64 \<times> u64 \<times> u64"

text \<open>
  \<open>remap_pfn_range\<close> maps one segment or fails; \<open>remap\<close> decides. The physical address is cut to its
  page. A mapping in progress is the list of the segments so far.
\<close>

definition remap_pfn_range :: "(segment \<Rightarrow> bool) \<Rightarrow> u64 \<Rightarrow> u64 \<Rightarrow> u64 \<Rightarrow> segment list \<Rightarrow> bool \<times> segment list" where
  "remap_pfn_range remap off phys len m =
     (let s = (off, push_bit 12 (drop_bit 12 phys), len) in if remap s then (True, m @ [s]) else (False, m))"

fun mmap_regs_loop ::
  "(segment \<Rightarrow> bool) \<Rightarrow> u64 \<Rightarrow> adapter_mem list \<Rightarrow> nat \<Rightarrow> segment list \<Rightarrow> bool \<times> segment list" where
  "mmap_regs_loop remap len [] i m = (True, m)"
| "mmap_regs_loop remap len (a # as) i m =
     (case remap_pfn_range remap (of_nat i * len) (regs_phys a) len m of
        (False, m) \<Rightarrow> (False, m)
      | (True, m) \<Rightarrow> mmap_regs_loop remap len as (i + 1) m)"

definition ukmem_mmap_regs :: "(segment \<Rightarrow> bool) \<Rightarrow> ukmem \<Rightarrow> bool \<times> segment list" where
  "ukmem_mmap_regs remap u =
     mmap_regs_loop remap (ucast (regs_pages u) * PAGE_SIZE) (take (uk_adapter_num u) (uk_adapter u)) 0 []"

text \<open>The descriptors of one kind of one card; \<open>sz\<close> is the offset so far.\<close>

fun mmap_descs ::
  "(segment \<Rightarrow> bool) \<Rightarrow> u32 \<Rightarrow> u64 list \<Rightarrow> u32 \<Rightarrow> segment list \<Rightarrow> bool \<times> u32 \<times> segment list" where
  "mmap_descs remap len [] sz m = (True, sz, m)"
| "mmap_descs remap len (phys # ds) sz m =
     (case remap_pfn_range remap (ucast sz) phys (scast len) m of
        (False, m) \<Rightarrow> (False, sz, m)
      | (True, m) \<Rightarrow> mmap_descs remap len ds (sz + len) m)"

fun mmap_desc_loop ::
  "(segment \<Rightarrow> bool) \<Rightarrow> u32 \<Rightarrow> adapter_mem list \<Rightarrow> u32 \<Rightarrow> segment list \<Rightarrow> bool \<times> segment list" where
  "mmap_desc_loop remap len [] sz m = (True, m)"
| "mmap_desc_loop remap len (a # as) sz m =
     (case mmap_descs remap len (take (tx_desc_num a) (tx_desc a)) sz m of
        (False, sz, m) \<Rightarrow> (False, m)
      | (True, sz, m) \<Rightarrow>
          (case mmap_descs remap len (take (rx_desc_num a) (rx_desc a)) sz m of
             (False, sz, m) \<Rightarrow> (False, m)
           | (True, sz, m) \<Rightarrow> mmap_desc_loop remap len as sz m))"

definition ukmem_mmap_desc :: "(segment \<Rightarrow> bool) \<Rightarrow> ukmem \<Rightarrow> bool \<times> segment list" where
  "ukmem_mmap_desc remap u =
     mmap_desc_loop remap (ucast (desc_pages u * PAGE_SIZE)) (take (uk_adapter_num u) (uk_adapter u)) 0 []"

definition regs_area :: "ukmem \<Rightarrow> u64" where
  "regs_area u = ucast (of_nat (uk_adapter_num u) * regs_pages u) * PAGE_SIZE"

definition desc_area :: "ukmem \<Rightarrow> u64" where
  "desc_area u = of_nat (uk_adapter_num u) * desc_pages u * PAGE_SIZE * of_nat (rx_desc_num (uk_adapter u ! 0)) * 2"

definition ukmem_mmap :: "(segment \<Rightarrow> bool) \<Rightarrow> u64 \<Rightarrow> u64 \<Rightarrow> ukmem \<Rightarrow> bool \<times> segment list" where
  "ukmem_mmap remap pgoff sz u =
     (if pgoff \<noteq> 0 \<or> sz mod PAGE_SIZE \<noteq> 0 then (False, [])
      else if sz = regs_area u then ukmem_mmap_regs remap u
      else if sz = desc_area u then ukmem_mmap_desc remap u
      else remap_pfn_range remap 0 (uk_phys u) sz [])"

section \<open>Reading the summary\<close>

text \<open>
  The words the device copies out: address, size, number of cards and of queues, then one word per
  card whose first six bytes are the hardware address (the other two are what the stack held,
  \<open>junk\<close>). Nothing is copied to a buffer that is too small.
\<close>

definition mac_word :: "u64 \<Rightarrow> (nat \<Rightarrow> u8) \<Rightarrow> u64" where
  "mac_word junk mac =
     foldr (\<lambda>k w. push_bit 8 w OR ucast (if k < 6 then mac k else ucast (drop_bit (8 * k) junk))) [0..<8] 0"

definition ukmem_read :: "u64 list \<Rightarrow> nat \<Rightarrow> ukmem \<Rightarrow> (u64 list option \<times> nat) res" where
  "ukmem_read junk sz u =
     (let len = 8 * (4 + uk_adapter_num u)
      in bindE (foldE (\<lambda>i buff.
           bindE (arr_get (uk_adapter u) i) (\<lambda>a.
           bindE (arr_get buff (4 + i)) (\<lambda>w. arr_set buff (4 + i) (mac_word w (am_mac a)))))
         [0..<uk_adapter_num u]
         ([uk_phys u, ucast (uk_size u), of_nat (uk_adapter_num u), of_int (uk_queue_num u)]
            @ take MAX_ADAPTER_NUM junk)) (\<lambda>buff.
       Inr (if len \<le> sz then Some (take (4 + uk_adapter_num u) buff) else None, len)))"

end
