(* ===== verification/DeviceMap.thy ===== *)
theory DeviceMap
  imports Ukmem
begin

text \<open>
  The kernel module and the driver fit together: what a process reads from the device describes the
  registered cards, and the addresses the driver computes for its registers and rings are those at
  which the kernel has mapped them.
\<close>

section \<open>The mapping as a list\<close>

definition page_of :: "u64 \<Rightarrow> u64" where
  "page_of phys = push_bit 12 (drop_bit 12 phys)"

text \<open>The descriptor rings of a card, and of all cards, in the order they are mapped.\<close>

definition card_descs :: "adapter_mem \<Rightarrow> u64 list" where
  "card_descs a = take (tx_desc_num a) (tx_desc a) @ take (rx_desc_num a) (rx_desc a)"

definition desc_segments :: "u32 \<Rightarrow> u32 \<Rightarrow> u64 list \<Rightarrow> segment list" where
  "desc_segments len sz ds = map (\<lambda>k. (ucast (sz + of_nat k * len), page_of (ds ! k), scast len)) [0..<length ds]"

lemma desc_segments_Cons:
  "desc_segments len sz (p # ds) = (ucast sz, page_of p, scast len) # desc_segments len (sz + len) ds"
  by (simp add: desc_segments_def map_upt_Suc algebra_simps del: upt_Suc)

lemma desc_segments_append:
  "desc_segments len sz (ds @ es) = desc_segments len sz ds @ desc_segments len (sz + of_nat (length ds) * len) es"
proof (induction ds arbitrary: sz)
  case (Cons p ds)
  show ?case by (simp add: desc_segments_Cons Cons.IH algebra_simps)
qed (simp add: desc_segments_def)

lemma mmap_descs_all:
  "mmap_descs (\<lambda>_. True) len ds sz m = (True, sz + of_nat (length ds) * len, m @ desc_segments len sz ds)"
proof (induction ds arbitrary: sz m)
  case Nil
  then show ?case by (simp add: desc_segments_def)
next
  case (Cons p ds)
  then show ?case
    by (simp add: remap_pfn_range_def desc_segments_Cons page_of_def Let_def algebra_simps)
qed

lemma mmap_desc_loop_all:
  "mmap_desc_loop (\<lambda>_. True) len as sz m = (True, m @ desc_segments len sz (concat (map card_descs as)))"
proof (induction as arbitrary: sz m)
  case Nil
  then show ?case by (simp add: desc_segments_def)
next
  case (Cons a as)
  then show ?case
    by (simp add: mmap_descs_all desc_segments_append card_descs_def algebra_simps)
qed

lemma mmap_regs_loop_all:
  "mmap_regs_loop (\<lambda>_. True) len as i m
     = (True, m @ map (\<lambda>k. (of_nat (i + k) * len, page_of (regs_phys (as ! k)), len)) [0..<length as])"
proof (induction as arbitrary: i m)
  case (Cons a as)
  have "map (\<lambda>k. (of_nat (i + k) * len, page_of (regs_phys ((a # as) ! k)), len)) [0..<Suc (length as)]
      = (of_nat i * len, page_of (regs_phys a), len) #
        map (\<lambda>k. (of_nat (Suc i + k) * len, page_of (regs_phys (as ! k)), len)) [0..<length as]"
    by (simp add: map_upt_Suc ac_simps del: upt_Suc)
  then show ?case
    by (simp add: Cons.IH remap_pfn_range_def page_of_def Let_def del: upt_Suc)
qed simp

lemma concat_blocks:
  assumes "\<forall>xs\<in>set xss. length xs = b" "i < length xss" "j < b"
  shows "concat xss ! (i * b + j) = xss ! i ! j" "i * b + j < length (concat xss)"
  using assms
proof (induction xss arbitrary: i)
  case (Cons xs xss)
  {
    case 1
    then show ?case using Cons.IH(1) [of "i - 1"] by (cases i) (auto simp: nth_append)
  next
    case 2
    then show ?case using Cons.IH(2) [of "i - 1"] by (cases i) auto
  }
qed simp_all

section \<open>The addresses of the driver\<close>

definition regs_step :: "driver \<Rightarrow> nat" where
  "regs_step d = unat (d_regs_size d)"

definition desc_step :: "driver \<Rightarrow> nat" where
  "desc_step d = unat (d_desc_size d * ucast (ring_num d) * 2)"

definition opened :: "u64 list \<Rightarrow> driver \<Rightarrow> nat \<Rightarrow> nat \<Rightarrow> nat \<Rightarrow> driver \<Rightarrow> bool" where
  "opened t d regs dsc k d' \<longleftrightarrow> (\<exists>as. length as = length (adapters d) \<and> d' = d\<lparr>adapters := as\<rparr>) \<and>
     k \<le> length (adapters d) \<and>
     (\<forall>i<k. \<exists>a. adapters d' ! i = Some a \<and> a_regs_addr a = regs + i * regs_step d \<and> a_desc_addr a = dsc + i * desc_step d \<and>
        a_queue_idx a = d_id d \<and> a_queue_num a = ring_num d \<and> a_desc_num a = ucast (d_desc_num d) \<and>
        a_mac a = bytes_of_u64 (t ! (4 + i)))"

lemma adapter_create_fields:
  assumes "adapter_create memory i queue_idx queue_num regs_addr desc_addr desc_num mac h = Inr (a, h')"
  shows "a_queue_idx a = queue_idx" "a_queue_num a = queue_num" "a_regs_addr a = regs_addr"
    "a_desc_addr a = desc_addr" "a_desc_num a = desc_num" "a_mac a = mac"
  using assms
  by (auto simp: adapter_create_def fault_simps Let_def split: prod.splits option.splits sum.splits)

lemma adapter_create_total:
  "3 \<le> quota h \<Longrightarrow> \<exists>a h'. adapter_create memory i queue_idx queue_num regs_addr desc_addr desc_num mac h = Inr (a, h')"
  by (auto simp: adapter_create_def ring_create_def malloc_def fault_simps Let_def split: prod.splits)

lemma open_adapters:
  assumes "foldE (open_adapter memory t) [0..<k] (d, regs, dsc, h) = Inr (d', regs', dsc', h')"
  shows "opened t d regs dsc k d' \<and> regs' = regs + k * regs_step d \<and> dsc' = dsc + k * desc_step d"
  using assms
proof (induction k arbitrary: d' regs' dsc' h')
  case 0
  then show ?case by (auto simp: opened_def intro: exI [of _ "adapters d"])
next
  case (Suc k)
  then obtain d1 r1 s1 h1 where 1: "foldE (open_adapter memory t) [0..<k] (d, regs, dsc, h) = Inr (d1, r1, s1, h1)"
      "open_adapter memory t k (d1, r1, s1, h1) = Inr (d', regs', dsc', h')"
    by (auto simp: foldE_append fault_simps split: sum.splits)
  note ih = Suc.IH [OF 1(1)]
  then obtain as where d1: "d1 = d\<lparr>adapters := as\<rparr>" "length as = length (adapters d)" by (auto simp: opened_def)
  obtain a where a: "k < length as" "d' = d\<lparr>adapters := as[k := Some a]\<rparr>" "regs' = r1 + regs_step d" "dsc' = s1 + desc_step d"
      "a_queue_idx a = d_id d" "a_queue_num a = ring_num d" "a_regs_addr a = r1" "a_desc_addr a = s1"
      "a_desc_num a = ucast (d_desc_num d)" "a_mac a = bytes_of_u64 (t ! (4 + k))"
    using 1(2) adapter_create_fields
    by (auto simp: open_adapter_def fault_simps d1 regs_step_def desc_step_def arr_set_def arr_get_def split: sum.splits if_splits)
  have "opened t d regs dsc (Suc k) d'"
    using ih a d1 unfolding opened_def by (auto simp: less_Suc_eq intro!: exI [of _ "as[k := Some a]"])
  then show ?case using ih a(3,4) by simp
qed

section \<open>The summary read from the device\<close>

lemma byte_pushed:
  "bytes_of_u64 (push_bit 8 x OR ucast (b :: u8)) 0 = b"
  "k < 7 \<Longrightarrow> bytes_of_u64 (push_bit 8 x OR ucast (b :: u8)) (Suc k) = bytes_of_u64 x k"
proof -
  show "bytes_of_u64 (push_bit 8 x OR ucast b) 0 = b"
    by (rule bit_word_eqI) (simp add: bytes_of_u64_def bit_simps)
  have "\<not> bit b (8 + m)" for m using bit_imp_le_length [of b "8 + m"] by auto
  then show "k < 7 \<Longrightarrow> bytes_of_u64 (push_bit 8 x OR ucast b) (Suc k) = bytes_of_u64 x k"
    by (intro bit_word_eqI) (simp add: bytes_of_u64_def bit_simps add.assoc)
qed

lemma bytes_of_foldr:
  "k < length bs \<Longrightarrow> length bs \<le> 8 \<Longrightarrow> bytes_of_u64 (foldr (\<lambda>b w. push_bit 8 w OR ucast (b :: u8)) bs 0) k = bs ! k"
proof (induction bs arbitrary: k)
  case (Cons b bs)
  then show ?case by (cases k) (simp_all add: byte_pushed)
qed simp

lemma mac_word_bytes:
  assumes "k < 6"
  shows "bytes_of_u64 (mac_word w mac) k = mac k"
proof -
  let ?f = "\<lambda>k. if k < 6 then mac k else ucast (drop_bit (8 * k) w)"
  have "mac_word w mac = foldr (\<lambda>b w. push_bit 8 w OR ucast b) (map ?f [0..<8]) 0"
    unfolding mac_word_def foldr_map comp_def by (rule refl)
  then show ?thesis using assms bytes_of_foldr [of k "map ?f [0..<8]"] by simp
qed

definition mac_step :: "ukmem \<Rightarrow> nat \<Rightarrow> u64 list \<Rightarrow> u64 list res" where
  "mac_step u i buff = bindE (arr_get (uk_adapter u) i) (\<lambda>a.
     bindE (arr_get buff (4 + i)) (\<lambda>w. arr_set buff (4 + i) (mac_word w (am_mac a))))"

lemma mac_steps:
  assumes "foldE (mac_step u) [0..<k] buff = Inr buff'"
  shows "length buff' = length buff \<and> (\<forall>j. j < 4 \<or> 4 + k \<le> j \<longrightarrow> buff' ! j = buff ! j) \<and>
    (\<forall>i<k. 4 + i < length buff \<and> (\<exists>w. buff' ! (4 + i) = mac_word w (am_mac (uk_adapter u ! i))))"
  using assms
proof (induction k arbitrary: buff')
  case (Suc k)
  then obtain b where b: "foldE (mac_step u) [0..<k] buff = Inr b" "mac_step u k b = Inr buff'"
    by (auto simp: foldE_append fault_simps split: sum.splits)
  note ih = Suc.IH [OF b(1)]
  obtain w where w: "4 + k < length b" "buff' = b[4 + k := mac_word w (am_mac (uk_adapter u ! k))]"
    using b(2) by (auto simp: mac_step_def fault_simps arr_get_def arr_set_def split: if_splits)
  show ?case
  proof (intro conjI allI impI)
    fix i assume "i < Suc k"
    then show "4 + i < length buff" using ih w(1) by (cases "i = k") auto
    show "\<exists>w. buff' ! (4 + i) = mac_word w (am_mac (uk_adapter u ! i))"
      using \<open>i < Suc k\<close> ih w by (cases "i = k") auto
  qed (use ih w in auto)
qed simp

lemma ukmem_read_words:
  assumes "ukmem_read junk sz u = Inr (Some t, len)"
  shows "length t = 4 + uk_adapter_num u" "t ! 0 = uk_phys u" "t ! 1 = ucast (uk_size u)" "t ! 2 = of_nat (uk_adapter_num u)"
    "t ! 3 = of_int (uk_queue_num u)"
    "i < uk_adapter_num u \<Longrightarrow> \<exists>w. t ! (4 + i) = mac_word w (am_mac (uk_adapter u ! i))"
proof -
  let ?b = "[uk_phys u, ucast (uk_size u), of_nat (uk_adapter_num u), of_int (uk_queue_num u)] @ take MAX_ADAPTER_NUM junk"
  obtain b where b: "foldE (mac_step u) [0..<uk_adapter_num u] ?b = Inr b" and t: "t = take (4 + uk_adapter_num u) b"
    using assms by (auto simp: ukmem_read_def mac_step_def [abs_def] fault_simps Let_def split: sum.splits if_splits)
  note m = mac_steps [OF b]
  have l: "4 + uk_adapter_num u \<le> length b" if "0 < uk_adapter_num u"
  proof -
    have "uk_adapter_num u - 1 < uk_adapter_num u" using that by simp
    then have "4 + (uk_adapter_num u - 1) < length ?b" using m by blast
    then show ?thesis using m [THEN conjunct1] that by linarith
  qed
  show "length t = 4 + uk_adapter_num u" using l m t by (cases "uk_adapter_num u = 0") auto
  show "t ! 0 = uk_phys u" "t ! 1 = ucast (uk_size u)" "t ! 2 = of_nat (uk_adapter_num u)" "t ! 3 = of_int (uk_queue_num u)"
    using m by (simp_all add: t numeral_2_eq_2 numeral_3_eq_3)
  show "\<exists>w. t ! (4 + i) = mac_word w (am_mac (uk_adapter u ! i))" if "i < uk_adapter_num u"
    using m that by (simp add: t)
qed

section \<open>Agreement\<close>

text \<open>What the kernel's driver has registered when it has probed its cards, each with \<open>Q\<close> queues.\<close>

definition registered :: "ukmem \<Rightarrow> nat \<Rightarrow> bool" where
  "registered u Q \<longleftrightarrow> 0 < uk_adapter_num u \<and> uk_adapter_num u \<le> length (uk_adapter u) \<and>
     uk_adapter_num u \<le> MAX_ADAPTER_NUM \<and> 0 < Q \<and> Q \<le> MAX_DESC_NUM \<and> uk_queue_num u = int Q \<and>
     regs_pages u = 128 \<and> desc_pages u = 1 \<and>
     (\<forall>a \<in> set (take (uk_adapter_num u) (uk_adapter u)).
        tx_desc_num a = Q \<and> rx_desc_num a = Q \<and> Q \<le> length (tx_desc a) \<and> Q \<le> length (rx_desc a))"

lemma registeredD:
  assumes "registered u Q"
  shows "0 < uk_adapter_num u" "uk_adapter_num u \<le> length (uk_adapter u)" "uk_adapter_num u \<le> 16" "0 < Q" "Q \<le> 8"
    "regs_pages u = 128" "desc_pages u = 1" "uk_queue_num u = int Q"
    "i < uk_adapter_num u \<Longrightarrow> tx_desc_num (uk_adapter u ! i) = Q \<and> rx_desc_num (uk_adapter u ! i) = Q \<and>
       Q \<le> length (tx_desc (uk_adapter u ! i)) \<and> Q \<le> length (rx_desc (uk_adapter u ! i))"
proof -
  show "0 < uk_adapter_num u" "uk_adapter_num u \<le> length (uk_adapter u)" "uk_adapter_num u \<le> 16" "0 < Q" "Q \<le> 8"
      "regs_pages u = 128" "desc_pages u = 1" "uk_queue_num u = int Q"
    using assms unfolding registered_def MAX_ADAPTER_NUM_def MAX_DESC_NUM_def by blast+
  assume i: "i < uk_adapter_num u"
  then have "uk_adapter u ! i \<in> set (take (uk_adapter_num u) (uk_adapter u))"
    using assms by (auto simp: registered_def in_set_conv_nth intro!: exI [of _ i])
  then show "tx_desc_num (uk_adapter u ! i) = Q \<and> rx_desc_num (uk_adapter u ! i) = Q \<and>
       Q \<le> length (tx_desc (uk_adapter u ! i)) \<and> Q \<le> length (rx_desc (uk_adapter u ! i))"
    using assms unfolding registered_def by blast
qed

lemma small_u32: "k < 65536 \<Longrightarrow> unat (of_nat k * 4096 :: u32) = k * 4096"
proof -
  assume k: "k < 65536"
  have "(of_nat k * 4096 :: u32) = of_nat (k * 4096)" by simp
  then show ?thesis using k by (simp only: unsigned_of_nat take_bit_nat_eq_self) (simp add: take_bit_nat_eq_self)
qed

text \<open>Ring \<open>q\<close> of a card is mapped \<open>2 Q i + q\<close> pages from the start, its receive ring \<open>Q\<close> pages further.\<close>

lemma desc_mapped:
  assumes r: "registered u Q" and i: "i < uk_adapter_num u" and q: "q < Q"
  shows "\<exists>m. ukmem_mmap_desc (\<lambda>_. True) u = (True, m) \<and>
    (of_nat ((i * (2 * Q) + q) * 4096), page_of (tx_desc (uk_adapter u ! i) ! q), 4096) \<in> set m \<and>
    (of_nat ((i * (2 * Q) + (Q + q)) * 4096), page_of (rx_desc (uk_adapter u ! i) ! q), 4096) \<in> set m"
proof -
  note R = registeredD [OF r]
  let ?cs = "take (uk_adapter_num u) (uk_adapter u)"
  let ?bs = "map card_descs ?cs"
  have len: "(ucast (desc_pages u * PAGE_SIZE) :: u32) = 4096" by (simp add: R PAGE_SIZE_def)
  have "\<forall>b\<in>set ?bs. length b = 2 * Q" using r by (auto simp: registered_def card_descs_def)
  then have block: "concat ?bs ! (i * (2 * Q) + j) = card_descs (uk_adapter u ! i) ! j \<and> i * (2 * Q) + j < length (concat ?bs)"
    if "j < 2 * Q" for j using concat_blocks [of ?bs "2 * Q" i j] that i R(2) by simp
  have small: "i * (2 * Q) + j < 65536" if "j < 2 * Q" for j
  proof -
    have "i * (2 * Q) \<le> 16 * 16" using i R(3,5) by (intro mult_le_mono) auto
    then show ?thesis using that R(5) by linarith
  qed
  have seg: "(of_nat ((i * (2 * Q) + j) * 4096), page_of (card_descs (uk_adapter u ! i) ! j), 4096) \<in> set (desc_segments 4096 0 (concat ?bs))"
    if j: "j < 2 * Q" for j
  proof -
    have "ucast (of_nat (i * (2 * Q) + j) * 4096 :: u32) = (of_nat ((i * (2 * Q) + j) * 4096) :: u64)"
      by (subst of_nat_unat [symmetric]) (simp only: small_u32 [OF small [OF j]])
    moreover have "(scast (4096 :: u32) :: u64) = 4096" by simp
    ultimately show ?thesis using block [OF j] unfolding desc_segments_def by (auto intro!: image_eqI [where x = "i * (2 * Q) + j"])
  qed
  have "card_descs (uk_adapter u ! i) ! q = tx_desc (uk_adapter u ! i) ! q"
      "card_descs (uk_adapter u ! i) ! (Q + q) = rx_desc (uk_adapter u ! i) ! q"
    using R(9) [OF i] q by (auto simp: card_descs_def nth_append)
  then show ?thesis using seg [of q] seg [of "Q + q"] q
    by (simp add: ukmem_mmap_desc_def mmap_desc_loop_all len)
qed


lemma regs_mapped:
  assumes r: "registered u Q" and i: "i < uk_adapter_num u"
  shows "\<exists>m. ukmem_mmap_regs (\<lambda>_. True) u = (True, m) \<and>
    (of_nat (i * 524288), page_of (regs_phys (uk_adapter u ! i)), 524288) \<in> set m"
proof -
  note R = registeredD [OF r]
  have len: "ucast (regs_pages u) * PAGE_SIZE = 524288" by (simp add: R PAGE_SIZE_def)
  show ?thesis using i R(2)
    by (auto simp: ukmem_mmap_regs_def mmap_regs_loop_all len image_iff intro!: bexI [of _ i])
qed

text \<open>The sizes the driver asks for tell the two areas apart.\<close>

lemma areas:
  assumes r: "registered u Q" and sz: "sz_regs = 524288 * of_nat (uk_adapter_num u)" "sz_desc = 4096 * of_nat (uk_adapter_num u) * of_nat Q * 2"
  shows "ukmem_mmap remap 0 sz_regs u = ukmem_mmap_regs remap u" "ukmem_mmap remap 0 sz_desc u = ukmem_mmap_desc remap u"
proof -
  note R = registeredD [OF r]
  let ?n = "uk_adapter_num u"
  have m: "?n \<in> set [1..<17]" "Q \<in> set [1..<9]" using R by auto
  have e: "[1..<17] = [1,2,3,4,5,6,7,8,9,10,11,12,13,14,15,16::nat]" "[1..<9] = [1,2,3,4,5,6,7,8::nat]" by code_simp+
  note cases = m [unfolded e list.set]
  have *: "regs_area u = sz_regs" using cases(1) by (auto simp: regs_area_def R sz PAGE_SIZE_def)
  moreover have "desc_area u = sz_desc" using R(9) [of 0] R(1) by (simp add: desc_area_def R sz PAGE_SIZE_def)
  moreover have "sz_regs mod PAGE_SIZE = 0" "sz_desc mod PAGE_SIZE = 0" "sz_regs \<noteq> sz_desc"
    using cases by (auto simp: sz PAGE_SIZE_def)
  ultimately show "ukmem_mmap remap 0 sz_regs u = ukmem_mmap_regs remap u" "ukmem_mmap remap 0 sz_desc u = ukmem_mmap_desc remap u"
    by (simp_all add: ukmem_mmap_def)
qed


lemma ucast_byte: "k < 256 \<Longrightarrow> (ucast (of_nat k :: u8) :: u32) = of_nat k" "k < 256 \<Longrightarrow> unat (of_nat k :: u8) = k"
  by (simp_all add: unsigned_of_nat take_bit_nat_eq_self)

lemma ucast_long: "k < 4294967296 \<Longrightarrow> (ucast (of_nat k :: u32) :: u64) = of_nat k"
  by (simp add: unsigned_of_nat take_bit_nat_eq_self)

lemma ucast_down: "k < 256 \<Longrightarrow> (ucast (of_nat k :: u64) :: u8) = of_nat k"
  by (simp add: unsigned_of_nat take_bit_nat_eq_self)

lemma queue_desc_addr:
  assumes "a_queue_idx a = of_nat q" "a_queue_num a = of_nat Q" "a_desc_num a = 256" "q < Q" "Q \<le> 8"
  shows "snd (adapter_queue_regs_desc_addr a False) = a_desc_addr a + q * 4096"
    "snd (adapter_queue_regs_desc_addr a True) = a_desc_addr a + (Q + q) * 4096"
proof -
  have "unat (of_nat q * 4096 :: u32) = q * 4096" "unat (of_nat (Q + q) * 4096 :: u32) = (Q + q) * 4096"
    using assms by (intro small_u32; simp)+
  then show "snd (adapter_queue_regs_desc_addr a False) = a_desc_addr a + q * 4096"
    "snd (adapter_queue_regs_desc_addr a True) = a_desc_addr a + (Q + q) * 4096"
    using assms by (simp_all add: adapter_queue_regs_desc_addr_def Let_def ucast_byte)
qed

text \<open>What \<open>driver_open\<close> makes of the words it reads.\<close>

lemma driver_open_fields:
  assumes opn: "driver_open memory t (regs, dsc, buf) (driver_init (of_nat q)) h = Inr (d, h')"
    and t: "t ! 2 = of_nat n" "t ! 3 = of_int (int Q)" and b: "n \<le> 16" "0 < Q" "Q \<le> 8" "q < Q" and i: "i < n"
  shows "regs_total_size d = 524288 * of_nat n \<and> desc_total_size d = 4096 * of_nat n * of_nat Q * 2 \<and>
    (\<exists>a. driver_get_adapter d i = Inr a \<and> a_mac a = bytes_of_u64 (t ! (4 + i)) \<and> a_regs_addr a = regs + i * 524288 \<and>
       a_desc_addr a = dsc + i * (2 * Q) * 4096 \<and> a_queue_idx a = of_nat q \<and> a_queue_num a = of_nat Q \<and> a_desc_num a = 256)"
proof -
  define d0 where "d0 = (driver_init (of_nat q))\<lparr>buffer_addr_phys := t ! 0, buffer_total_size := t ! 1, adapter_num := of_nat n,
    ring_num := of_nat Q, desc_total_size := ucast (4096 * of_nat n * of_nat Q * 2 :: u32), regs_total_size := ucast (524288 * of_nat n :: u32),
    d_regs_addr := regs, d_desc_addr := dsc, buffer_addr := buf\<rparr>"
  have n8: "unat (of_nat n :: u8) = n" "unat (of_nat Q :: u8) = Q" using b by (simp_all add: ucast_byte)
  obtain r s where f: "foldE (open_adapter memory t) [0..<n] (d0, regs, dsc, h) = Inr (d, r, s, h')"
    using opn b n8 t
    by (auto simp: driver_open_def d0_def fault_simps Let_def driver_init_def arr_get_def DESC_BLOCK_SIZE_def REG_BLOCK_SIZE_def
        ucast_byte ucast_down split: if_splits sum.splits)
  note o = open_adapters [OF f, THEN conjunct1]
  have st: "regs_step d0 = 524288" "desc_step d0 = 2 * Q * 4096"
  proof -
    have "unat (of_nat (2 * Q) * 4096 :: u32) = 2 * Q * 4096" using b by (intro small_u32) simp
    then show "desc_step d0 = 2 * Q * 4096"
      using b by (simp add: desc_step_def d0_def driver_init_def DESC_BLOCK_SIZE_def ucast_byte ac_simps)
    show "regs_step d0 = 524288" by (simp add: regs_step_def d0_def driver_init_def REG_BLOCK_SIZE_def)
  qed
  have sz: "(ucast (524288 * of_nat n :: u32) :: u64) = 524288 * of_nat n"
      "(ucast (4096 * of_nat n * of_nat Q * 2 :: u32) :: u64) = 4096 * of_nat n * of_nat Q * 2"
  proof -
    have "n * Q \<le> 16 * 8" using b by (intro mult_le_mono) auto
    then show "(ucast (524288 * of_nat n :: u32) :: u64) = 524288 * of_nat n"
      "(ucast (4096 * of_nat n * of_nat Q * 2 :: u32) :: u64) = 4096 * of_nat n * of_nat Q * 2"
      using ucast_long [of "524288 * n"] ucast_long [of "4096 * n * Q * 2"] b by (simp_all add: mult.commute [of Q n])
  qed
  obtain as where d: "d = d0\<lparr>adapters := as\<rparr>" "length as = 32" "n \<le> 32"
    using o by (auto simp: opened_def d0_def driver_init_def)
  obtain a where "adapters d ! i = Some a" "a_regs_addr a = regs + i * regs_step d0" "a_desc_addr a = dsc + i * desc_step d0"
      "a_queue_idx a = d_id d0" "a_queue_num a = ring_num d0" "a_desc_num a = ucast (d_desc_num d0)" "a_mac a = bytes_of_u64 (t ! (4 + i))"
    using o i unfolding opened_def by blast
  moreover have "d_id d0 = of_nat q" "ring_num d0 = of_nat Q" "ucast (d_desc_num d0) = (256 :: u32)"
      "regs_total_size d0 = 524288 * of_nat n" "desc_total_size d0 = 4096 * of_nat n * of_nat Q * 2"
    unfolding d0_def using sz by (simp_all add: driver_init_def DESC_NUM_def)
  ultimately show ?thesis using d i
    by (simp add: driver_get_adapter_def fault_simps arr_get_def st ac_simps)
qed

lemma driver_mapping:
  assumes r: "registered u Q" and rd: "ukmem_read junk sz u = Inr (Some t, len)"
    and opn: "driver_open memory t (regs, dsc, buf) (driver_init (of_nat q)) h = Inr (d, h')"
    and q: "q < Q" and i: "i < uk_adapter_num u"
  shows "\<exists>a m_regs m_desc. driver_get_adapter d i = Inr a \<and> a_queue_idx a = of_nat q \<and> a_regs_addr a = regs + i * 524288 \<and> (\<forall>k<6. a_mac a k = am_mac (uk_adapter u ! i) k) \<and>
    ukmem_mmap (\<lambda>_. True) 0 (regs_total_size d) u = (True, m_regs) \<and>
    (of_nat (a_regs_addr a - regs), page_of (regs_phys (uk_adapter u ! i)), 524288) \<in> set m_regs \<and>
    ukmem_mmap (\<lambda>_. True) 0 (desc_total_size d) u = (True, m_desc) \<and>
    (of_nat (snd (adapter_queue_regs_desc_addr a False) - dsc), page_of (tx_desc (uk_adapter u ! i) ! q), 4096) \<in> set m_desc \<and>
    (of_nat (snd (adapter_queue_regs_desc_addr a True) - dsc), page_of (rx_desc (uk_adapter u ! i) ! q), 4096) \<in> set m_desc"
proof -
  note R = registeredD [OF r] and W = ukmem_read_words [OF rd]
  have t: "t ! 2 = of_nat (uk_adapter_num u)" "t ! 3 = of_int (int Q)" using W R(8) by simp_all
  from driver_open_fields [OF opn t R(3,4,5) q i] obtain a where
    sizes: "regs_total_size d = 524288 * of_nat (uk_adapter_num u)" "desc_total_size d = 4096 * of_nat (uk_adapter_num u) * of_nat Q * 2" and
    a: "driver_get_adapter d i = Inr a" "a_mac a = bytes_of_u64 (t ! (4 + i))" "a_regs_addr a = regs + i * 524288"
      "a_desc_addr a = dsc + i * (2 * Q) * 4096" "a_queue_idx a = of_nat q" "a_queue_num a = of_nat Q" "a_desc_num a = 256"
    by blast
  note A = queue_desc_addr [OF a(5,6,7) q R(5)] and M = areas [OF r sizes, where remap = "\<lambda>_. True"]
  obtain w where "t ! (4 + i) = mac_word w (am_mac (uk_adapter u ! i))" using W(6) [OF i] by blast
  then have mac: "\<forall>k<6. a_mac a k = am_mac (uk_adapter u ! i) k" using a(2) mac_word_bytes by simp
  obtain m1 m2 where
    "ukmem_mmap_regs (\<lambda>_. True) u = (True, m1)" "(of_nat (i * 524288), page_of (regs_phys (uk_adapter u ! i)), 524288) \<in> set m1"
    "ukmem_mmap_desc (\<lambda>_. True) u = (True, m2)"
    "(of_nat ((i * (2 * Q) + q) * 4096), page_of (tx_desc (uk_adapter u ! i) ! q), 4096) \<in> set m2"
    "(of_nat ((i * (2 * Q) + (Q + q)) * 4096), page_of (rx_desc (uk_adapter u ! i) ! q), 4096) \<in> set m2"
    using regs_mapped [OF r i] desc_mapped [OF r i q] by blast
  moreover have "a_regs_addr a - regs = i * 524288" "snd (adapter_queue_regs_desc_addr a False) - dsc = (i * (2 * Q) + q) * 4096"
      "snd (adapter_queue_regs_desc_addr a True) - dsc = (i * (2 * Q) + (Q + q)) * 4096"
    by (simp_all only: A a(3,4)) (simp_all add: algebra_simps)
  ultimately show ?thesis using a(1,3,5) mac by (metis M)
qed

text \<open>
  C11: the addresses the driver computes for its cards are those the kernel module has mapped: for the
  sizes the driver asks for, the module maps registers and descriptors, and the register block and the
  rings of the driver's queue lie at the segments with the physical addresses of that card and queue;
  the hardware address is the card's, too.
\<close>

theorem driver_sees_kernel_mapping:
  assumes r: "registered u Q" and rd: "ukmem_read junk sz u = Inr (Some t, len)"
    and opn: "driver_open memory t (regs, dsc, buf) (driver_init (of_nat q)) h = Inr (d, h')"
    and q: "q < Q" and i: "i < uk_adapter_num u"
  shows "\<exists>a m_regs m_desc. driver_get_adapter d i = Inr a \<and> (\<forall>k<6. a_mac a k = am_mac (uk_adapter u ! i) k) \<and>
    ukmem_mmap (\<lambda>_. True) 0 (regs_total_size d) u = (True, m_regs) \<and>
    (of_nat (a_regs_addr a - regs), page_of (regs_phys (uk_adapter u ! i)), 524288) \<in> set m_regs \<and>
    ukmem_mmap (\<lambda>_. True) 0 (desc_total_size d) u = (True, m_desc) \<and>
    (of_nat (snd (adapter_queue_regs_desc_addr a False) - dsc), page_of (tx_desc (uk_adapter u ! i) ! q), 4096) \<in> set m_desc \<and>
    (of_nat (snd (adapter_queue_regs_desc_addr a True) - dsc), page_of (rx_desc (uk_adapter u ! i) ! q), 4096) \<in> set m_desc"
  using driver_mapping [OF assms] by blast

lemma driver_sees_kernel_mapping_witness:
  "\<exists>d h' a m. driver_open (\<lambda>_ _. \<lparr>d_lo = 0, d_hi = 0\<rparr>) [7, 8192, 1, 1, 0x0605040302] (4096, 8192, 0) (driver_init (of_nat 0)) \<lparr>brk = 1, quota = 9\<rparr> = Inr (d, h') \<and>
     driver_get_adapter d 0 = Inr a \<and> a_mac a 1 = 3 \<and>
     ukmem_mmap (\<lambda>_. True) 0 (desc_total_size d) \<lparr>uk_adapter = [\<lparr>adapter_addr = 1, regs_phys = 0x100000, am_mac = (!) [2, 3, 4, 5, 6, 0], rx_desc = [0x5000], tx_desc = [0x4000], rx_desc_num = 1, tx_desc_num = 1\<rparr>],
       uk_adapter_num = 1, uk_queue_num = 1, regs_pages = 128, desc_pages = 1, uk_start = 0, uk_phys = 7, uk_size = 8192\<rparr> = (True, m) \<and>
     (of_nat (snd (adapter_queue_regs_desc_addr a True) - 8192), page_of 0x5000, 4096) \<in> set m"
proof -
  let ?u = "\<lparr>uk_adapter = [\<lparr>adapter_addr = 1, regs_phys = 0x100000, am_mac = (!) [2, 3, 4, 5, 6, 0], rx_desc = [0x5000], tx_desc = [0x4000], rx_desc_num = 1, tx_desc_num = 1\<rparr>],
       uk_adapter_num = 1, uk_queue_num = 1, regs_pages = 128, desc_pages = 1, uk_start = 0, uk_phys = 7, uk_size = 8192\<rparr> :: ukmem"
  let ?t = "[7, 8192, 1, 1, 0x0605040302] :: u64 list"
  let ?o = "driver_open (\<lambda>_ _. \<lparr>d_lo = 0, d_hi = 0\<rparr>) ?t (4096, 8192, 0) (driver_init (of_nat 0)) \<lparr>brk = 1, quota = 9\<rparr>"
  have r: "registered ?u 1" by (simp add: registered_def MAX_ADAPTER_NUM_def MAX_DESC_NUM_def)
  have rd: "ukmem_read (replicate 16 0) 160 ?u = Inr (Some ?t, 40)" by code_simp
  have "\<exists>a h. adapter_create (\<lambda>_ _. \<lparr>d_lo = 0, d_hi = 0\<rparr>) 0 0 1 4096 8192 256 (bytes_of_u64 0x0605040302) \<lparr>brk = 1, quota = 9\<rparr> = Inr (a, h)"
    by (rule adapter_create_total) simp
  then obtain a0 h0 where a: "adapter_create (\<lambda>_ _. \<lparr>d_lo = 0, d_hi = 0\<rparr>) 0 0 1 4096 8192 256 (bytes_of_u64 0x0605040302) \<lparr>brk = 1, quota = 9\<rparr> = Inr (a0, h0)"
    by blast
  have "\<exists>d h'. ?o = Inr (d, h')"
    by (simp add: driver_open_def driver_init_def open_adapter_def arr_get_def arr_set_def Let_def a [simplified]
        DESC_BLOCK_SIZE_def REG_BLOCK_SIZE_def DESC_NUM_def)
  then obtain d h' where o: "?o = Inr (d, h')" by blast
  from driver_sees_kernel_mapping [OF r rd o, of 0] show ?thesis using o by auto
qed

end
