(* ===== verification/IgbQueues.thy ===== *)
theory IgbQueues
  imports Ukmem
begin

text \<open>
  The part of the vendor's driver (\<open>modules/igb/igb_main.c\<close>) that ustack has changed: how many queues
  a card gets, their rings in memory, and the calls that register registers, hardware address and
  rings with the kernel memory module. Memory comes from \<open>heap\<close>; the physical address of a block is a
  parameter (\<open>dma_of\<close>). Compiled without SR-IOV (\<open>CONFIG_PCI_IOV\<close>).
\<close>

section \<open>Rings, vectors and the card\<close>

datatype mac_type = e1000_undefined | e1000_82575 | e1000_82576 | e1000_82580 | e1000_i350

primrec mac_rank :: "mac_type \<Rightarrow> nat" where
  "mac_rank e1000_undefined = 0"
| "mac_rank e1000_82575 = 1"
| "mac_rank e1000_82576 = 2"
| "mac_rank e1000_82580 = 3"
| "mac_rank e1000_i350 = 4"

text \<open>The buffers of a ring; the fields of the union for transmit and for receive rings side by side.\<close>

record igb_buffer =
  ib_skb :: "ptr option"
  ib_dma :: u64
  ib_time_stamp :: u64
  ib_length :: u16
  ib_next_to_watch :: u16
  ib_mapped_as_page :: bool
  ib_page :: "ptr option"
  ib_page_dma :: u64
  ib_page_offset :: u16

definition no_buffer :: igb_buffer where
  "no_buffer = \<lparr>ib_skb = None, ib_dma = 0, ib_time_stamp = 0, ib_length = 0, ib_next_to_watch = 0, ib_mapped_as_page = False,
     ib_page = None, ib_page_dma = 0, ib_page_offset = 0\<rparr>"

text \<open>\<open>rg_mem\<close> is the memory \<open>desc\<close> points to, \<open>rg_vector\<close> the number of the vector it is mapped to.\<close>

record igb_ring =
  rg_vector :: "nat option"
  rg_dma :: u64
  rg_desc :: "ptr option"
  rg_mem :: bytes
  rg_size :: u32
  rg_count :: u16
  next_to_use :: u16
  next_to_clean :: u16
  queue_index :: u8
  reg_idx :: u8
  rg_head :: nat
  rg_tail :: nat
  buffer_info :: "igb_buffer list option"
  rg_flags :: u32
  rx_buffer_len :: u32

text \<open>What \<open>kzalloc\<close> answers.\<close>

definition zero_ring :: igb_ring where
  "zero_ring = \<lparr>rg_vector = None, rg_dma = 0, rg_desc = None, rg_mem = (\<lambda>_. 0), rg_size = 0, rg_count = 0, next_to_use = 0,
     next_to_clean = 0, queue_index = 0, reg_idx = 0, rg_head = 0, rg_tail = 0, buffer_info = None, rg_flags = 0, rx_buffer_len = 0\<rparr>"

record igb_q_vector =
  qv_rx_ring :: "nat option"
  qv_tx_ring :: "nat option"
  itr_val :: u16
  itr_register :: nat

type_synonym rings = "igb_ring option list"

record igb_adapter =
  ig_addr :: u64
  hw_addr :: nat
  ig_mac_type :: mac_type
  ig_mac :: "nat \<Rightarrow> u8"
  tx_rings :: rings
  rx_rings :: rings
  num_tx_queues :: nat
  num_rx_queues :: nat
  num_q_vectors :: nat
  q_vector :: "igb_q_vector option list"
  msix_entries :: "ptr option"
  ig_flags :: u32
  multi_tx_table :: "nat list"
  tx_ring_count :: u16
  rx_ring_count :: u16
  vfs_allocated_count :: u32
  rss_queues :: u32
  tx_itr_setting :: u32
  rx_itr_setting :: u32
  real_num_tx_queues :: nat
  max_frame_size :: u32

definition IGB_FLAG_HAS_MSI :: u32 where "IGB_FLAG_HAS_MSI = 1"

definition IGB_FLAG_QUEUE_PAIRS :: u32 where "IGB_FLAG_QUEUE_PAIRS = 8"

definition IGB_DEFAULT_TXD :: u16 where "IGB_DEFAULT_TXD = 256"

definition IGB_DEFAULT_RXD :: u16 where "IGB_DEFAULT_RXD = 256"

definition IGB_ABS_MAX_TX_QUEUES :: nat where "IGB_ABS_MAX_TX_QUEUES = 8"

definition IGB_MAX_RX_QUEUES :: "igb_adapter \<Rightarrow> u32" where
  "IGB_MAX_RX_QUEUES a = (if vfs_allocated_count a \<noteq> 0 then 2 else if mac_rank (ig_mac_type a) > mac_rank e1000_82575 then 8 else 4)"

text \<open>A change of the ring a pointer of the array leads to.\<close>

definition upd_ring :: "nat \<Rightarrow> (igb_ring \<Rightarrow> igb_ring) \<Rightarrow> rings \<Rightarrow> rings res" where
  "upd_ring i f rs = bindE (arr_get rs i) (\<lambda>r. case r of None \<Rightarrow> Inl Bad_deref | Some r \<Rightarrow> Inr (rs[i := Some (f r)]))"

definition get_ring :: "rings \<Rightarrow> nat \<Rightarrow> igb_ring res" where
  "get_ring rs i = bindE (arr_get rs i) (\<lambda>r. case r of None \<Rightarrow> Inl Bad_deref | Some r \<Rightarrow> Inr r)"

text \<open>\<open>kfree\<close> and \<open>vfree\<close>: nothing happens for NULL.\<close>

definition kfree :: "'a option \<Rightarrow> heap \<Rightarrow> heap" where
  "kfree p h = (if p = None then h else mfree h)"

text \<open>
  Rings and vectors are allocated one by one into an array of pointers and freed in the same order. The
  loop stops at the first allocation that fails; the answer tells whether all succeeded.
\<close>

fun alloc_slots :: "(nat \<Rightarrow> 'a) \<Rightarrow> nat list \<Rightarrow> 'a option list \<Rightarrow> heap \<Rightarrow> (bool \<times> 'a option list \<times> heap) res" where
  "alloc_slots new [] xs h = Inr (True, xs, h)"
| "alloc_slots new (i # is) xs h =
     (case malloc h of
        (None, h) \<Rightarrow> Inr (False, xs, h)
      | (Some _, h) \<Rightarrow> bindE (arr_set xs i (Some (new i))) (\<lambda>xs. alloc_slots new is xs h))"

definition free_slot :: "nat \<Rightarrow> 'a option list \<times> heap \<Rightarrow> ('a option list \<times> heap) res" where
  "free_slot i = (\<lambda>(xs, h). bindE (arr_get xs i) (\<lambda>x. bindE (arr_set xs i None) (\<lambda>xs. Inr (xs, kfree x h))))"

section \<open>Queues and vectors\<close>

definition Q_IDX_82576 :: "nat \<Rightarrow> u32" where
  "Q_IDX_82576 i = of_nat ((i mod 2) * 8 + i div 2)"

definition set_reg_idx :: "(nat \<Rightarrow> u32) \<Rightarrow> nat \<Rightarrow> nat \<Rightarrow> rings \<Rightarrow> rings res" where
  "set_reg_idx f lo hi = foldE (\<lambda>i. upd_ring i (\<lambda>r. r\<lparr>reg_idx := ucast (f i)\<rparr>)) [lo..<hi]"

text \<open>The counters \<open>i\<close> and \<open>j\<close> run on from the case of the 82576.\<close>

definition igb_cache_ring_register :: "igb_adapter \<Rightarrow> igb_adapter res" where
  "igb_cache_ring_register a =
     (let base = vfs_allocated_count a;
          n = (if ig_mac_type a = e1000_82576 \<and> vfs_allocated_count a \<noteq> 0 then unat (rss_queues a) else 0)
      in bindE (set_reg_idx (\<lambda>i. base + Q_IDX_82576 i) 0 n (rx_rings a)) (\<lambda>rx.
         bindE (set_reg_idx (\<lambda>i. base + Q_IDX_82576 i) 0 n (tx_rings a)) (\<lambda>tx.
         bindE (set_reg_idx (\<lambda>i. base + of_nat i) n (num_rx_queues a) rx) (\<lambda>rx.
         bindE (set_reg_idx (\<lambda>i. base + of_nat i) n (num_tx_queues a) tx) (\<lambda>tx.
           Inr (a\<lparr>rx_rings := rx, tx_rings := tx\<rparr>))))))"

definition igb_free_queues :: "igb_adapter \<Rightarrow> heap \<Rightarrow> (igb_adapter \<times> heap) res" where
  "igb_free_queues a h =
     bindE (foldE free_slot [0..<num_tx_queues a] (tx_rings a, h)) (\<lambda>(tx, h).
     bindE (foldE free_slot [0..<num_rx_queues a] (rx_rings a, h)) (\<lambda>(rx, h).
       Inr (a\<lparr>tx_rings := tx, rx_rings := rx, num_rx_queues := 0, num_tx_queues := 0\<rparr>, h)))"

definition new_tx_ring :: "igb_adapter \<Rightarrow> nat \<Rightarrow> igb_ring" where
  "new_tx_ring a i = zero_ring\<lparr>rg_count := tx_ring_count a, queue_index := of_nat i,
     rg_flags := (if ig_mac_type a = e1000_82575 then 1 else 0)\<rparr>"

definition MAXIMUM_ETHERNET_VLAN_SIZE :: u32 where "MAXIMUM_ETHERNET_VLAN_SIZE = 1522"

definition new_rx_ring :: "igb_adapter \<Rightarrow> nat \<Rightarrow> igb_ring" where
  "new_rx_ring a i = zero_ring\<lparr>rg_count := rx_ring_count a, queue_index := of_nat i, rx_buffer_len := MAXIMUM_ETHERNET_VLAN_SIZE,
     rg_flags := 1 OR (if mac_rank (ig_mac_type a) \<ge> mac_rank e1000_82576 then 2 else 0)\<rparr>"

definition ENOMEM :: int where "ENOMEM = 12"

definition EIO :: int where "EIO = 5"

definition igb_alloc_queues :: "igb_adapter \<Rightarrow> heap \<Rightarrow> (int \<times> igb_adapter \<times> heap) res" where
  "igb_alloc_queues a h =
     bindE (alloc_slots (new_tx_ring a) [0..<num_tx_queues a] (tx_rings a) h) (\<lambda>(ok, tx, h).
     let a = a\<lparr>tx_rings := tx\<rparr>
     in if \<not> ok then bindE (igb_free_queues a h) (\<lambda>(a, h). Inr (- ENOMEM, a, h))
        else bindE (alloc_slots (new_rx_ring a) [0..<num_rx_queues a] (rx_rings a) h) (\<lambda>(ok, rx, h).
          let a = a\<lparr>rx_rings := rx\<rparr>
          in if \<not> ok then bindE (igb_free_queues a h) (\<lambda>(a, h). Inr (- ENOMEM, a, h))
             else bindE (igb_cache_ring_register a) (\<lambda>a. Inr (0, a, h))))"

definition igb_reset_interrupt_capability :: "igb_adapter \<Rightarrow> heap \<Rightarrow> igb_adapter \<times> heap" where
  "igb_reset_interrupt_capability a h =
     (if msix_entries a \<noteq> None then (a\<lparr>msix_entries := None\<rparr>, kfree (msix_entries a) h) else (a, h))"

definition igb_free_q_vectors :: "igb_adapter \<Rightarrow> heap \<Rightarrow> (igb_adapter \<times> heap) res" where
  "igb_free_q_vectors a h =
     bindE (foldE free_slot [0..<num_q_vectors a] (q_vector a, h)) (\<lambda>(vs, h).
       Inr (a\<lparr>q_vector := vs, num_q_vectors := 0\<rparr>, h))"

definition igb_clear_interrupt_scheme :: "igb_adapter \<Rightarrow> heap \<Rightarrow> (igb_adapter \<times> heap) res" where
  "igb_clear_interrupt_scheme a h =
     bindE (igb_free_queues a h) (\<lambda>(a, h).
     bindE (igb_free_q_vectors a h) (\<lambda>(a, h).
       Inr (igb_reset_interrupt_capability a h)))"

text \<open>\<open>msix\<close> says for how many vectors the kernel grants MSI-X, \<open>msi\<close> whether it grants MSI.\<close>

definition msi_only :: "bool \<Rightarrow> igb_adapter \<Rightarrow> igb_adapter" where
  "msi_only msi a =
     a\<lparr>vfs_allocated_count := 0, rss_queues := 1, num_rx_queues := 1, num_tx_queues := 1, num_q_vectors := 1,
       ig_flags := ig_flags a OR IGB_FLAG_QUEUE_PAIRS OR (if msi then IGB_FLAG_HAS_MSI else 0)\<rparr>"

definition igb_set_interrupt_capability :: "(nat \<Rightarrow> bool) \<Rightarrow> bool \<Rightarrow> igb_adapter \<Rightarrow> heap \<Rightarrow> igb_adapter \<times> heap" where
  "igb_set_interrupt_capability msix msi a h =
     (let a = a\<lparr>num_rx_queues := unat (rss_queues a), num_tx_queues := unat (rss_queues a)\<rparr>;
          numvecs = num_rx_queues a + (if ig_flags a AND IGB_FLAG_QUEUE_PAIRS = 0 then num_tx_queues a else 0);
          a = a\<lparr>num_q_vectors := numvecs\<rparr>;
          (a, h) = (case malloc h of
             (None, h) \<Rightarrow> (msi_only msi (a\<lparr>msix_entries := None\<rparr>), h)
           | (Some m, h) \<Rightarrow>
               let a = a\<lparr>msix_entries := Some m\<rparr>
               in if msix (numvecs + 1) then (a, h)
                  else case igb_reset_interrupt_capability a h of (a, h) \<Rightarrow> (msi_only msi a, h))
      in (a\<lparr>real_num_tx_queues := num_tx_queues a\<rparr>, h))"

definition IGB_START_ITR :: u16 where "IGB_START_ITR = 648"

definition E1000_EITR :: "nat \<Rightarrow> nat" where "E1000_EITR n = 0x01680 + 4 * n"

definition new_q_vector :: "igb_adapter \<Rightarrow> igb_q_vector" where
  "new_q_vector a = \<lparr>qv_rx_ring = None, qv_tx_ring = None, itr_val = IGB_START_ITR, itr_register = hw_addr a + E1000_EITR 0\<rparr>"

definition igb_alloc_q_vectors :: "igb_adapter \<Rightarrow> heap \<Rightarrow> (int \<times> igb_adapter \<times> heap) res" where
  "igb_alloc_q_vectors a h =
     bindE (alloc_slots (\<lambda>_. new_q_vector a) [0..<num_q_vectors a] (q_vector a) h) (\<lambda>(ok, vs, h).
     let a = a\<lparr>q_vector := vs\<rparr>
     in if ok then Inr (0, a, h) else bindE (igb_free_q_vectors a h) (\<lambda>(a, h). Inr (- ENOMEM, a, h)))"

text \<open>The interrupt rate of a vector: small values stand for dynamic rates.\<close>

definition start_itr :: "u32 \<Rightarrow> u16" where
  "start_itr setting = (let v = ucast setting in if v \<noteq> 0 \<and> v \<le> 3 then IGB_START_ITR else v)"

definition upd_vector :: "nat \<Rightarrow> (igb_q_vector \<Rightarrow> igb_q_vector) \<Rightarrow> igb_adapter \<Rightarrow> igb_adapter res" where
  "upd_vector v f a = bindE (arr_get (q_vector a) v) (\<lambda>q.
     case q of None \<Rightarrow> Inl Bad_deref | Some q \<Rightarrow> Inr (a\<lparr>q_vector := (q_vector a)[v := Some (f q)]\<rparr>))"

definition igb_map_rx_ring_to_vector :: "nat \<Rightarrow> nat \<Rightarrow> igb_adapter \<Rightarrow> igb_adapter res" where
  "igb_map_rx_ring_to_vector i v a =
     bindE (upd_vector v (\<lambda>q. q\<lparr>qv_rx_ring := Some i\<rparr>) a) (\<lambda>a.
     bindE (upd_ring i (\<lambda>r. r\<lparr>rg_vector := Some v\<rparr>) (rx_rings a)) (\<lambda>rx.
       upd_vector v (\<lambda>q. q\<lparr>itr_val := start_itr (rx_itr_setting a)\<rparr>) (a\<lparr>rx_rings := rx\<rparr>)))"

definition igb_map_tx_ring_to_vector :: "nat \<Rightarrow> nat \<Rightarrow> igb_adapter \<Rightarrow> igb_adapter res" where
  "igb_map_tx_ring_to_vector i v a =
     bindE (upd_vector v (\<lambda>q. q\<lparr>qv_tx_ring := Some i\<rparr>) a) (\<lambda>a.
     bindE (upd_ring i (\<lambda>r. r\<lparr>rg_vector := Some v\<rparr>) (tx_rings a)) (\<lambda>tx.
       upd_vector v (\<lambda>q. q\<lparr>itr_val := start_itr (tx_itr_setting a)\<rparr>) (a\<lparr>tx_rings := tx\<rparr>)))"

text \<open>One vector for each ring, or one for the two rings of a queue.\<close>

definition igb_map_ring_to_vector :: "igb_adapter \<Rightarrow> (int \<times> igb_adapter) res" where
  "igb_map_ring_to_vector a =
     (let nrx = num_rx_queues a; ntx = num_tx_queues a
      in if num_q_vectors a < nrx \<or> num_q_vectors a < ntx then Inr (- ENOMEM, a)
         else if num_q_vectors a \<ge> nrx + ntx then
           bindE (foldE (\<lambda>i. igb_map_rx_ring_to_vector i i) [0..<nrx] a) (\<lambda>a.
           bindE (foldE (\<lambda>i. igb_map_tx_ring_to_vector i (nrx + i)) [0..<ntx] a) (\<lambda>a. Inr (0, a)))
         else
           bindE (foldE (\<lambda>i a. bindE (if i < ntx then igb_map_tx_ring_to_vector i i a else Inr a) (igb_map_rx_ring_to_vector i i))
             [0..<nrx] a) (\<lambda>a.
           bindE (foldE (\<lambda>i. igb_map_tx_ring_to_vector i i) [nrx..<ntx] a) (\<lambda>a. Inr (0, a))))"

definition igb_init_interrupt_scheme :: "(nat \<Rightarrow> bool) \<Rightarrow> bool \<Rightarrow> igb_adapter \<Rightarrow> heap \<Rightarrow> (int \<times> igb_adapter \<times> heap) res" where
  "igb_init_interrupt_scheme msix msi a h =
     (case igb_set_interrupt_capability msix msi a h of (a, h) \<Rightarrow>
      bindE (igb_alloc_q_vectors a h) (\<lambda>(err, a, h).
        if err \<noteq> 0 then case igb_reset_interrupt_capability a h of (a, h) \<Rightarrow> Inr (err, a, h)
        else bindE (igb_alloc_queues a h) (\<lambda>(err, a, h).
          if err \<noteq> 0 then bindE (igb_free_q_vectors a h) (\<lambda>(a, h).
            case igb_reset_interrupt_capability a h of (a, h) \<Rightarrow> Inr (err, a, h))
          else bindE (igb_map_ring_to_vector a) (\<lambda>(err, a).
            if err \<noteq> 0 then bindE (igb_free_queues a h) (\<lambda>(a, h).
              bindE (igb_free_q_vectors a h) (\<lambda>(a, h).
              case igb_reset_interrupt_capability a h of (a, h) \<Rightarrow> Inr (err, a, h)))
            else Inr (0, a, h)))))"

text \<open>
  \<open>igb_sw_init\<close> up to the interrupt scheme: the module parameter \<open>queue_num\<close> and the number of CPUs,
  compared as unsigned numbers, bound the number of queues, which the kernel memory module is told.
\<close>

definition igb_queues :: "int \<Rightarrow> u32 \<Rightarrow> igb_adapter \<Rightarrow> u32" where
  "igb_queues queue_num cpus a = min (IGB_MAX_RX_QUEUES a) (min (of_int queue_num) cpus)"

definition igb_sw_init ::
  "int \<Rightarrow> u32 \<Rightarrow> u32 \<Rightarrow> (nat \<Rightarrow> bool) \<Rightarrow> bool \<Rightarrow> igb_adapter \<Rightarrow> heap \<Rightarrow> ukmem \<Rightarrow> (int \<times> igb_adapter \<times> heap \<times> ukmem) res" where
  "igb_sw_init queue_num cpus mtu msix msi a h u =
     (let a = a\<lparr>tx_ring_count := IGB_DEFAULT_TXD, rx_ring_count := IGB_DEFAULT_RXD, rx_itr_setting := 3, tx_itr_setting := 3,
            max_frame_size := mtu + 14 + 4\<rparr>;
          num = igb_queues queue_num cpus a;
          a = a\<lparr>rss_queues := num\<rparr>;
          u = ukmem_set_queue_num (sint num) u;
          a = (if rss_queues a > 4 \<or> (rss_queues a > 1 \<and> vfs_allocated_count a > 6)
               then a\<lparr>ig_flags := ig_flags a OR IGB_FLAG_QUEUE_PAIRS\<rparr> else a)
      in bindE (igb_init_interrupt_scheme msix msi a h) (\<lambda>(err, a, h).
           if err \<noteq> 0 then Inr (- ENOMEM, a, h, u) else Inr (0, a, h, u)))"

section \<open>The memory of the rings\<close>

definition unmap_tx :: "igb_buffer \<Rightarrow> igb_buffer" where
  "unmap_tx b = b\<lparr>ib_dma := 0, ib_skb := None, ib_time_stamp := 0, ib_length := 0, ib_next_to_watch := 0, ib_mapped_as_page := False\<rparr>"

text \<open>
  The buffers are unmapped one by one and then zeroed as a whole; \<open>zeroed\<close> is \<open>memset\<close> on the memory of the descriptors.
\<close>

definition zeroed :: "nat \<Rightarrow> bytes \<Rightarrow> bytes" where
  "zeroed n m = (\<lambda>k. if k < n then 0 else m k)"

definition igb_clean_tx_ring :: "igb_ring \<Rightarrow> igb_ring res" where
  "igb_clean_tx_ring r =
     (case buffer_info r of
        None \<Rightarrow> Inr r
      | Some bs \<Rightarrow>
          bindE (foldE (\<lambda>i bs. bindE (arr_get bs i) (\<lambda>b. arr_set bs i (unmap_tx b))) [0..<unat (rg_count r)] bs) (\<lambda>bs.
          if rg_desc r = None then Inl Bad_deref
          else Inr (r\<lparr>buffer_info := Some (map (\<lambda>_. no_buffer) bs), rg_mem := zeroed (unat (rg_size r)) (rg_mem r),
            next_to_use := 0, next_to_clean := 0\<rparr>)))"

definition igb_free_tx_resources :: "igb_ring \<Rightarrow> heap \<Rightarrow> (igb_ring \<times> heap) res" where
  "igb_free_tx_resources r h =
     bindE (igb_clean_tx_ring r) (\<lambda>r.
       let h = kfree (buffer_info r) h; r = r\<lparr>buffer_info := None\<rparr>
       in if rg_desc r = None then Inr (r, h) else Inr (r\<lparr>rg_desc := None\<rparr>, mfree h))"

definition unmap_rx :: "igb_buffer \<Rightarrow> igb_buffer" where
  "unmap_rx b = b\<lparr>ib_dma := 0, ib_skb := None, ib_page_dma := 0, ib_page := None,
     ib_page_offset := (if ib_page b = None then ib_page_offset b else 0)\<rparr>"

definition igb_clean_rx_ring :: "igb_ring \<Rightarrow> igb_ring res" where
  "igb_clean_rx_ring r =
     (case buffer_info r of
        None \<Rightarrow> Inr r
      | Some bs \<Rightarrow>
          bindE (foldE (\<lambda>i bs. bindE (arr_get bs i) (\<lambda>b. arr_set bs i (unmap_rx b))) [0..<unat (rg_count r)] bs) (\<lambda>bs.
          if rg_desc r = None then Inl Bad_deref
          else Inr (r\<lparr>buffer_info := Some (map (\<lambda>_. no_buffer) bs), rg_mem := zeroed (unat (rg_size r)) (rg_mem r),
            next_to_clean := 0, next_to_use := 0\<rparr>)))"

definition igb_free_rx_resources :: "igb_ring \<Rightarrow> heap \<Rightarrow> (igb_ring \<times> heap) res" where
  "igb_free_rx_resources r h =
     bindE (igb_clean_rx_ring r) (\<lambda>r.
       let h = kfree (buffer_info r) h; r = r\<lparr>buffer_info := None\<rparr>
       in if rg_desc r = None then Inr (r, h) else Inr (r\<lparr>rg_desc := None\<rparr>, mfree h))"

definition ALIGN :: "u32 \<Rightarrow> u32 \<Rightarrow> u32" where
  "ALIGN x n = (x + (n - 1)) AND NOT (n - 1)"

text \<open>
  The descriptors have 16 bytes each, in whole pages. \<open>dma_of\<close> is the physical address of a block, \<open>mem\<close>
  what it holds. When the second allocation fails the pointer to the freed buffers stays in a
  transmit ring; in a receive ring it is reset.
\<close>

definition igb_setup_tx_resources :: "(ptr \<Rightarrow> u64) \<Rightarrow> (ptr \<Rightarrow> bytes) \<Rightarrow> igb_ring \<Rightarrow> heap \<Rightarrow> int \<times> igb_ring \<times> heap" where
  "igb_setup_tx_resources dma_of mem r h =
     (case malloc h of
        (None, h) \<Rightarrow> (- ENOMEM, r\<lparr>buffer_info := None\<rparr>, h)
      | (Some _, h) \<Rightarrow>
          let r = r\<lparr>buffer_info := Some (replicate (unat (rg_count r)) no_buffer), rg_size := ALIGN (ucast (rg_count r) * 16) 4096\<rparr>
          in case malloc h of
               (None, h) \<Rightarrow> (- ENOMEM, r\<lparr>rg_desc := None\<rparr>, kfree (buffer_info r) h)
             | (Some p, h) \<Rightarrow> (0, r\<lparr>rg_desc := Some p, rg_dma := dma_of p, rg_mem := mem p, next_to_use := 0, next_to_clean := 0\<rparr>, h))"

definition igb_setup_rx_resources :: "(ptr \<Rightarrow> u64) \<Rightarrow> (ptr \<Rightarrow> bytes) \<Rightarrow> igb_ring \<Rightarrow> heap \<Rightarrow> int \<times> igb_ring \<times> heap" where
  "igb_setup_rx_resources dma_of mem r h =
     (case malloc h of
        (None, h) \<Rightarrow> (- ENOMEM, r\<lparr>buffer_info := None\<rparr>, h)
      | (Some _, h) \<Rightarrow>
          let r = r\<lparr>buffer_info := Some (replicate (unat (rg_count r)) no_buffer), rg_size := ALIGN (ucast (rg_count r) * 16) 4096\<rparr>
          in case malloc h of
               (None, h) \<Rightarrow> (- ENOMEM, r\<lparr>rg_desc := None, buffer_info := None\<rparr>, kfree (buffer_info r) h)
             | (Some p, h) \<Rightarrow> (0, r\<lparr>rg_desc := Some p, rg_dma := dma_of p, rg_mem := mem p, next_to_clean := 0, next_to_use := 0\<rparr>, h))"

definition free_resources :: "(igb_ring \<Rightarrow> heap \<Rightarrow> (igb_ring \<times> heap) res) \<Rightarrow> nat \<Rightarrow> rings \<times> heap \<Rightarrow> (rings \<times> heap) res" where
  "free_resources free i = (\<lambda>(rs, h).
     bindE (get_ring rs i) (\<lambda>r. bindE (free r h) (\<lambda>(r, h). Inr (rs[i := Some r], h))))"

definition igb_free_all_tx_resources :: "igb_adapter \<Rightarrow> heap \<Rightarrow> (igb_adapter \<times> heap) res" where
  "igb_free_all_tx_resources a h =
     bindE (foldE (free_resources igb_free_tx_resources) [0..<num_tx_queues a] (tx_rings a, h)) (\<lambda>(tx, h). Inr (a\<lparr>tx_rings := tx\<rparr>, h))"

definition igb_free_all_rx_resources :: "igb_adapter \<Rightarrow> heap \<Rightarrow> (igb_adapter \<times> heap) res" where
  "igb_free_all_rx_resources a h =
     bindE (foldE (free_resources igb_free_rx_resources) [0..<num_rx_queues a] (rx_rings a, h)) (\<lambda>(rx, h). Inr (a\<lparr>rx_rings := rx\<rparr>, h))"

text \<open>
  The rings of a card one after the other: each is handed to the kernel memory module as soon as
  it has its memory. After a failure the earlier ones are freed, the last first.
\<close>

fun setup_rings ::
  "(igb_ring \<Rightarrow> heap \<Rightarrow> int \<times> igb_ring \<times> heap) \<Rightarrow> (igb_ring \<Rightarrow> heap \<Rightarrow> (igb_ring \<times> heap) res) \<Rightarrow> (u64 \<Rightarrow> ukmem \<Rightarrow> ukmem res)
     \<Rightarrow> nat list \<Rightarrow> rings \<Rightarrow> heap \<Rightarrow> ukmem \<Rightarrow> (int \<times> rings \<times> heap \<times> ukmem) res" where
  "setup_rings setup free add [] rs h u = Inr (0, rs, h, u)"
| "setup_rings setup free add (i # is) rs h u =
     bindE (get_ring rs i) (\<lambda>r.
     case setup r h of (err, r, h) \<Rightarrow>
       let rs = rs[i := Some r]
       in if err \<noteq> 0 then
            bindE (foldE (free_resources free) (rev [0..<i]) (rs, h)) (\<lambda>(rs, h). Inr (err, rs, h, u))
          else bindE (add (rg_dma r) u) (\<lambda>u. setup_rings setup free add is rs h u))"

definition igb_setup_all_tx_resources ::
  "(ptr \<Rightarrow> u64) \<Rightarrow> (ptr \<Rightarrow> bytes) \<Rightarrow> igb_adapter \<Rightarrow> heap \<Rightarrow> ukmem \<Rightarrow> (int \<times> igb_adapter \<times> heap \<times> ukmem) res" where
  "igb_setup_all_tx_resources dma_of mem a h u =
     bindE (setup_rings (igb_setup_tx_resources dma_of mem) igb_free_tx_resources (ukmem_add_tx_desc (ig_addr a))
       [0..<num_tx_queues a] (tx_rings a) h u) (\<lambda>(err, tx, h, u).
     if num_tx_queues a = 0 then Inl Bad_arith
     else bindE (foldE (\<lambda>i t. arr_set t i (i mod num_tx_queues a)) [0..<IGB_ABS_MAX_TX_QUEUES] (multi_tx_table a)) (\<lambda>t.
       Inr (err, a\<lparr>tx_rings := tx, multi_tx_table := t\<rparr>, h, u)))"

definition igb_setup_all_rx_resources ::
  "(ptr \<Rightarrow> u64) \<Rightarrow> (ptr \<Rightarrow> bytes) \<Rightarrow> igb_adapter \<Rightarrow> heap \<Rightarrow> ukmem \<Rightarrow> (int \<times> igb_adapter \<times> heap \<times> ukmem) res" where
  "igb_setup_all_rx_resources dma_of mem a h u =
     bindE (setup_rings (igb_setup_rx_resources dma_of mem) igb_free_rx_resources (ukmem_add_rx_desc (ig_addr a))
       [0..<num_rx_queues a] (rx_rings a) h u) (\<lambda>(err, rx, h, u). Inr (err, a\<lparr>rx_rings := rx\<rparr>, h, u))"

section \<open>Finding and removing a card\<close>

text \<open>The structure of a new card, zeroed.\<close>

definition new_adapter :: "u64 \<Rightarrow> igb_adapter" where
  "new_adapter addr = \<lparr>ig_addr = addr, hw_addr = 0, ig_mac_type = e1000_undefined, ig_mac = (\<lambda>_. 0), tx_rings = replicate 16 None,
     rx_rings = replicate 16 None, num_tx_queues = 0, num_rx_queues = 0, num_q_vectors = 0, q_vector = replicate 8 None,
     msix_entries = None, ig_flags = 0, multi_tx_table = replicate 8 0, tx_ring_count = 0, rx_ring_count = 0, vfs_allocated_count = 0,
     rss_queues = 0, tx_itr_setting = 0, rx_itr_setting = 0, real_num_tx_queues = 0, max_frame_size = 0\<rparr>"

text \<open>
  What probing a card meets: the address \<open>ioremap\<close> answers (0 is a failure) and the physical address
  of the registers, the errors of the steps that talk to the bus, the card's memory and the network layer,
  and what they find.
\<close>

record probe_env =
  pe_pci :: int
  pe_addr :: u64
  pe_mmio_start :: u64
  pe_ioremap :: nat
  pe_invariants :: int
  pe_mac_type :: mac_type
  pe_queue_num :: int
  pe_cpus :: u32
  pe_mtu :: u32
  pe_msix :: "nat \<Rightarrow> bool"
  pe_msi :: bool
  pe_nvm :: int
  pe_mac :: "nat \<Rightarrow> u8"
  pe_register :: int

definition is_valid_ether_addr :: "(nat \<Rightarrow> u8) \<Rightarrow> bool" where
  "is_valid_ether_addr mac \<longleftrightarrow> mac 0 AND 1 = 0 \<and> (\<exists>k \<in> set [0..<6]. mac k \<noteq> 0)"

text \<open>Everything from the allocation of the queues on is undone after an error; the card stays registered with the kernel memory module.\<close>

definition probe_undo :: "int \<Rightarrow> igb_adapter \<Rightarrow> heap \<Rightarrow> ukmem \<Rightarrow> (int \<times> igb_adapter option \<times> heap \<times> ukmem) res" where
  "probe_undo err a h u = bindE (igb_clear_interrupt_scheme a h) (\<lambda>(_, h). Inr (err, None, mfree h, u))"

definition igb_probe :: "probe_env \<Rightarrow> heap \<Rightarrow> ukmem \<Rightarrow> (int \<times> igb_adapter option \<times> heap \<times> ukmem) res" where
  "igb_probe e h u =
     (if pe_pci e \<noteq> 0 then Inr (pe_pci e, None, h, u)
      else case malloc h of
        (None, h) \<Rightarrow> Inr (- ENOMEM, None, h, u)
      | (Some _, h) \<Rightarrow>
          let a = (new_adapter (pe_addr e))\<lparr>hw_addr := pe_ioremap e\<rparr>
          in if pe_ioremap e = 0 then Inr (- EIO, None, mfree h, u)
             else
               bindE (ukmem_alloc_adapter (ig_addr a) u) (\<lambda>u.
               bindE (ukmem_add_regs (ig_addr a) (pe_mmio_start e) u) (\<lambda>u.
               if pe_invariants e \<noteq> 0 then probe_undo (pe_invariants e) a h u
               else bindE (igb_sw_init (pe_queue_num e) (pe_cpus e) (pe_mtu e) (pe_msix e) (pe_msi e)
                             (a\<lparr>ig_mac_type := pe_mac_type e\<rparr>) h u) (\<lambda>(err, a, h, u).
                 if err \<noteq> 0 then probe_undo err a h u
                 else if pe_nvm e < 0 then probe_undo (- EIO) a h u
                 else
                   let a = a\<lparr>ig_mac := pe_mac e\<rparr>
                   in bindE (ukmem_add_mac (ig_addr a) (ig_mac a) u) (\<lambda>u.
                        if \<not> is_valid_ether_addr (ig_mac a) then probe_undo (- EIO) a h u
                        else if pe_register e \<noteq> 0 then probe_undo (pe_register e) a h u
                        else Inr (0, Some a, h, u))))))"

text \<open>Removing a card frees its structures, too; the kernel memory module is not told.\<close>

definition igb_remove :: "igb_adapter \<Rightarrow> heap \<Rightarrow> heap res" where
  "igb_remove a h = bindE (igb_clear_interrupt_scheme a h) (\<lambda>(_, h). Inr (mfree h))"

end
