(* ===== verification/IgbRegs.thy ===== *)
theory IgbRegs
  imports IgbQueues
begin

text \<open>
  How the vendor's driver programs the queues of a card (\<open>modules/igb/igb_main.c\<close>): bases, lengths
  and thresholds of the rings, the hash key and the redirection table that spread flows over the
  queues, and the control of receiver and transmitter. A register that is read holds what was last
  written to it. The steps of \<open>igb_configure\<close> and \<open>igb_open\<close> that set address filters, VLANs, power
  and interrupts are left out.
\<close>

section \<open>Registers\<close>

text \<open>Unlike the driver in user space the kernel writes one register of four bytes.\<close>

definition wr32 :: "igb_adapter \<Rightarrow> nat \<Rightarrow> u32 \<Rightarrow> mmio \<Rightarrow> mmio" where
  "wr32 a reg v m = m(hw_addr a + reg := v)"

definition rd32 :: "igb_adapter \<Rightarrow> nat \<Rightarrow> mmio \<Rightarrow> u32" where
  "rd32 a reg m = m (hw_addr a + reg)"

definition E1000_RDBAL :: "nat \<Rightarrow> nat" where "E1000_RDBAL n = (if n < 4 then 0x02800 + n * 0x100 else 0x0C000 + n * 0x40)"
definition E1000_RDBAH :: "nat \<Rightarrow> nat" where "E1000_RDBAH n = (if n < 4 then 0x02804 + n * 0x100 else 0x0C004 + n * 0x40)"
definition E1000_RDLEN :: "nat \<Rightarrow> nat" where "E1000_RDLEN n = (if n < 4 then 0x02808 + n * 0x100 else 0x0C008 + n * 0x40)"
definition E1000_SRRCTL :: "nat \<Rightarrow> nat" where "E1000_SRRCTL n = (if n < 4 then 0x0280C + n * 0x100 else 0x0C00C + n * 0x40)"
definition E1000_RDH :: "nat \<Rightarrow> nat" where "E1000_RDH n = (if n < 4 then 0x02810 + n * 0x100 else 0x0C010 + n * 0x40)"
definition KE1000_RDT :: "nat \<Rightarrow> nat" where "KE1000_RDT n = (if n < 4 then 0x02818 + n * 0x100 else 0x0C018 + n * 0x40)"
definition E1000_RXDCTL :: "nat \<Rightarrow> nat" where "E1000_RXDCTL n = (if n < 4 then 0x02828 + n * 0x100 else 0x0C028 + n * 0x40)"
definition E1000_TDBAL :: "nat \<Rightarrow> nat" where "E1000_TDBAL n = (if n < 4 then 0x03800 + n * 0x100 else 0x0E000 + n * 0x40)"
definition E1000_TDBAH :: "nat \<Rightarrow> nat" where "E1000_TDBAH n = (if n < 4 then 0x03804 + n * 0x100 else 0x0E004 + n * 0x40)"
definition E1000_TDLEN :: "nat \<Rightarrow> nat" where "E1000_TDLEN n = (if n < 4 then 0x03808 + n * 0x100 else 0x0E008 + n * 0x40)"
definition E1000_TDH :: "nat \<Rightarrow> nat" where "E1000_TDH n = (if n < 4 then 0x03810 + n * 0x100 else 0x0E010 + n * 0x40)"
definition KE1000_TDT :: "nat \<Rightarrow> nat" where "KE1000_TDT n = (if n < 4 then 0x03818 + n * 0x100 else 0x0E018 + n * 0x40)"
definition E1000_TXDCTL :: "nat \<Rightarrow> nat" where "E1000_TXDCTL n = (if n < 4 then 0x03828 + n * 0x100 else 0x0E028 + n * 0x40)"

definition E1000_RCTL :: nat where "E1000_RCTL = 0x00100"
definition E1000_TCTL :: nat where "E1000_TCTL = 0x00400"
definition E1000_CTRL_EXT :: nat where "E1000_CTRL_EXT = 0x00018"
definition E1000_QDE :: nat where "E1000_QDE = 0x02408"
definition E1000_DTXSWC :: nat where "E1000_DTXSWC = 0x03500"
definition E1000_DTXCTL :: nat where "E1000_DTXCTL = 0x03590"
definition E1000_RXCSUM :: nat where "E1000_RXCSUM = 0x05000"
definition E1000_MRQC :: nat where "E1000_MRQC = 0x05818"
definition E1000_VT_CTL :: nat where "E1000_VT_CTL = 0x0581C"
definition E1000_RPLOLR :: nat where "E1000_RPLOLR = 0x05AF0"
definition E1000_VMOLR :: "nat \<Rightarrow> nat" where "E1000_VMOLR n = 0x05AD0 + 4 * n"
definition E1000_RETA :: "nat \<Rightarrow> nat" where "E1000_RETA i = 0x05C00 + i * 4"
definition E1000_RSSRK :: "nat \<Rightarrow> nat" where "E1000_RSSRK i = 0x05C80 + i * 4"
definition E1000_MANC :: nat where "E1000_MANC = 0x05820"
definition E1000_RLPML :: nat where "E1000_RLPML = 0x05004"
definition E1000_RFCTL :: nat where "E1000_RFCTL = 0x05008"
definition E1000_UTA :: nat where "E1000_UTA = 0x0A000"
definition E1000_RAL :: "nat \<Rightarrow> nat" where "E1000_RAL i = (if i \<le> 15 then 0x05400 + i * 8 else 0x054E0 + (i - 16) * 8)"
definition E1000_RAH :: "nat \<Rightarrow> nat" where "E1000_RAH i = (if i \<le> 15 then 0x05404 + i * 8 else 0x054E4 + (i - 16) * 8)"

section \<open>Transmitting\<close>

definition igb_config_collision_dist :: "igb_adapter \<Rightarrow> mmio \<Rightarrow> mmio" where
  "igb_config_collision_dist a m =
     (let tctl = rd32 a E1000_TCTL m;
          tctl = tctl AND NOT 0x003ff000;
          tctl = tctl OR push_bit 12 63
      in wr32 a E1000_TCTL tctl m)"

text \<open>The last write takes back what \<open>igb_config_collision_dist\<close> has set.\<close>

definition igb_setup_tctl :: "igb_adapter \<Rightarrow> mmio \<Rightarrow> mmio" where
  "igb_setup_tctl a m =
     (let m = wr32 a (E1000_TXDCTL 0) 0 m;
          tctl = rd32 a E1000_TCTL m;
          tctl = tctl AND NOT 0x00000ff0;
          tctl = tctl OR (0x00000008 OR 0x01000000 OR push_bit 4 15);
          m = igb_config_collision_dist a m;
          tctl = tctl OR 0x00000002
      in wr32 a E1000_TCTL tctl m)"

definition E1000_QUEUE_ENABLE :: u32 where "E1000_QUEUE_ENABLE = 0x02000000"

definition IGB_TX_WTHRESH :: "igb_adapter \<Rightarrow> u32" where
  "IGB_TX_WTHRESH a = (if ig_mac_type a = e1000_82576 \<and> msix_entries a \<noteq> None then 1 else 16)"

definition igb_configure_tx_ring :: "igb_adapter \<Rightarrow> igb_ring \<Rightarrow> mmio \<Rightarrow> igb_ring \<times> mmio" where
  "igb_configure_tx_ring a ring m =
     (let tdba = rg_dma ring;
          i = unat (reg_idx ring);
          txdctl = rd32 a (E1000_TXDCTL i) m;
          m = wr32 a (E1000_TXDCTL i) (txdctl AND NOT E1000_QUEUE_ENABLE) m;
          m = wr32 a (E1000_TDLEN i) (ucast (rg_count ring) * 16) m;
          m = wr32 a (E1000_TDBAL i) (ucast tdba) m;
          m = wr32 a (E1000_TDBAH i) (ucast (drop_bit 32 tdba)) m;
          ring = ring\<lparr>rg_head := hw_addr a + E1000_TDH i, rg_tail := hw_addr a + KE1000_TDT i\<rparr>;
          m = m(rg_head ring := 0, rg_tail ring := 0);
          txdctl = txdctl OR 8;
          txdctl = txdctl OR push_bit 8 1;
          txdctl = txdctl OR push_bit 16 (IGB_TX_WTHRESH a);
          txdctl = txdctl OR E1000_QUEUE_ENABLE
      in (ring, wr32 a (E1000_TXDCTL i) txdctl m))"

text \<open>A loop over rings that changes the ring and the registers.\<close>

definition configure_ring :: "(igb_ring \<Rightarrow> mmio \<Rightarrow> igb_ring \<times> mmio) \<Rightarrow> nat \<Rightarrow> rings \<times> mmio \<Rightarrow> (rings \<times> mmio) res" where
  "configure_ring conf i = (\<lambda>(rs, m).
     bindE (get_ring rs i) (\<lambda>r. case conf r m of (r, m) \<Rightarrow> Inr (rs[i := Some r], m)))"

definition igb_configure_tx :: "igb_adapter \<Rightarrow> mmio \<Rightarrow> (igb_adapter \<times> mmio) res" where
  "igb_configure_tx a m =
     bindE (foldE (configure_ring (igb_configure_tx_ring a)) [0..<num_tx_queues a] (tx_rings a, m)) (\<lambda>(tx, m). Inr (a\<lparr>tx_rings := tx\<rparr>, m))"

section \<open>Spreading flows over the queues\<close>

definition rsshash :: "u8 list" where
  "rsshash = [0x6d, 0x5a, 0x56, 0xda, 0x25, 0x5b, 0x0e, 0xc2, 0x41, 0x67, 0x25, 0x3d, 0x43, 0xa3, 0x8f, 0xb0, 0xd0, 0xca, 0x2b, 0xcb,
     0xae, 0x7b, 0x30, 0xb4, 0x77, 0xcb, 0x2d, 0xa3, 0x80, 0x30, 0xf2, 0x0c, 0x6a, 0x42, 0xb7, 0x3b, 0xbe, 0xac, 0x01, 0xfa]"

definition write_rsskey :: "igb_adapter \<Rightarrow> nat \<Rightarrow> mmio \<Rightarrow> mmio res" where
  "write_rsskey a j m =
     bindE (arr_get rsshash (j * 4)) (\<lambda>b0. bindE (arr_get rsshash (j * 4 + 1)) (\<lambda>b1.
     bindE (arr_get rsshash (j * 4 + 2)) (\<lambda>b2. bindE (arr_get rsshash (j * 4 + 3)) (\<lambda>b3.
       let rsskey = (ucast b0 :: u32);
           rsskey = rsskey OR push_bit 8 (ucast b1);
           rsskey = rsskey OR push_bit 16 (ucast b2);
           rsskey = rsskey OR push_bit 24 (ucast b3)
       in Inr (wr32 a (E1000_RSSRK 0 + j * 4) rsskey m)))))"

text \<open>The number of queues of a pool and the places of a queue in an entry of the redirection table.\<close>

definition reta_shape :: "igb_adapter \<Rightarrow> u32 \<times> nat \<times> nat" where
  "reta_shape a =
     (if vfs_allocated_count a \<noteq> 0 then
        (case ig_mac_type a of
           e1000_i350 \<Rightarrow> (1, 0, 0) | e1000_82580 \<Rightarrow> (1, 0, 0) | e1000_82576 \<Rightarrow> (2, 3, 0)
         | e1000_82575 \<Rightarrow> (rss_queues a, 2, 6) | _ \<Rightarrow> (rss_queues a, 0, 0))
      else (rss_queues a, if ig_mac_type a = e1000_82575 then 6 else 0, 0))"

text \<open>The union \<open>reta\<close> of four bytes and a word.\<close>

definition reta_dword :: "u8 list \<Rightarrow> u32" where
  "reta_dword bs = foldr (\<lambda>b w. push_bit 8 w OR ucast b) bs 0"

definition reta_step :: "igb_adapter \<Rightarrow> u32 \<times> nat \<times> nat \<Rightarrow> nat \<Rightarrow> u8 list \<times> mmio \<Rightarrow> (u8 list \<times> mmio) res" where
  "reta_step a = (\<lambda>(num, shift, shift2) j (bs, m).
     if num = 0 then Inl Bad_arith
     else
       let v = (ucast (push_bit shift (of_nat j mod num)) :: u8);
           v = (if shift2 \<noteq> 0 then v OR ucast (push_bit shift2 num) else v);
           bs = bs[j mod 4 := v]
       in Inr (bs, if j mod 4 = 3 then wr32 a (E1000_RETA (j div 4)) (reta_dword bs) m else m))"

definition igb_vmdq_set_loopback_pf :: "igb_adapter \<Rightarrow> bool \<Rightarrow> mmio \<Rightarrow> mmio" where
  "igb_vmdq_set_loopback_pf a enable m =
     (let dtxswc = rd32 a E1000_DTXSWC m;
          dtxswc = (if enable then dtxswc OR push_bit 31 1 else dtxswc AND NOT (push_bit 31 1))
      in wr32 a E1000_DTXSWC dtxswc m)"

definition igb_vmdq_set_replication_pf :: "igb_adapter \<Rightarrow> bool \<Rightarrow> mmio \<Rightarrow> mmio" where
  "igb_vmdq_set_replication_pf a enable m =
     (let vt_ctl = rd32 a E1000_VT_CTL m;
          vt_ctl = (if enable then vt_ctl OR push_bit 30 1 else vt_ctl AND NOT (push_bit 30 1))
      in wr32 a E1000_VT_CTL vt_ctl m)"

definition igb_vmm_control :: "igb_adapter \<Rightarrow> mmio \<Rightarrow> mmio" where
  "igb_vmm_control a m =
     (let t = ig_mac_type a
      in if t = e1000_82575 \<or> t = e1000_undefined then m
         else
           let m = (if t = e1000_82576 then wr32 a E1000_DTXCTL (rd32 a E1000_DTXCTL m OR 0x0008) m else m);
               m = (if t = e1000_82576 \<or> t = e1000_82580 then wr32 a E1000_RPLOLR (rd32 a E1000_RPLOLR m OR 0x40000000) m else m);
               b = (vfs_allocated_count a \<noteq> 0)
           in igb_vmdq_set_replication_pf a b (igb_vmdq_set_loopback_pf a b m))"

definition MRQC_FIELDS :: u32 where
  "MRQC_FIELDS = 0x00020000 OR 0x00010000 OR (0x00100000 OR 0x00200000) OR (0x00400000 OR 0x00800000) OR (0x01000000 OR 0x00040000)"

text \<open>\<open>junk\<close> is what the union holds before.\<close>

definition igb_setup_mrqc :: "u8 list \<Rightarrow> igb_adapter \<Rightarrow> mmio \<Rightarrow> mmio res" where
  "igb_setup_mrqc junk a m =
     bindE (foldE (write_rsskey a) [0..<10] m) (\<lambda>m.
     bindE (foldE (reta_step a (reta_shape a)) [0..<128] (junk, m)) (\<lambda>(_, m).
       let rxcsum = rd32 a E1000_RXCSUM m OR 0x00002000;
           rxcsum = (if mac_rank (ig_mac_type a) \<ge> mac_rank e1000_82576 then rxcsum OR 0x00000800 else rxcsum);
           m = wr32 a E1000_RXCSUM rxcsum m;
           m = (if vfs_allocated_count a \<noteq> 0 \<and> mac_rank (ig_mac_type a) > mac_rank e1000_82575
                then let vtctl = rd32 a E1000_VT_CTL m AND NOT (push_bit 7 0x7 OR push_bit 29 1)
                     in wr32 a E1000_VT_CTL (vtctl OR push_bit 7 (vfs_allocated_count a)) m
                else m);
           mrqc = (if vfs_allocated_count a \<noteq> 0 then (if rss_queues a > 1 then 0x00000005 else 0x00000003) else 0x00000002);
           m = igb_vmm_control a m
       in Inr (wr32 a E1000_MRQC (mrqc OR MRQC_FIELDS) m)))"

section \<open>Receiving\<close>

definition igb_setup_rctl :: "u32 \<Rightarrow> igb_adapter \<Rightarrow> mmio \<Rightarrow> mmio" where
  "igb_setup_rctl mc_filter_type a m =
     (let rctl = rd32 a E1000_RCTL m;
          rctl = rctl AND NOT (push_bit 12 3);
          rctl = rctl AND NOT (0x000000C0 OR 0x00000040);
          rctl = rctl OR (0x00000002 OR 0x00008000 OR 0x00000000 OR push_bit 12 mc_filter_type);
          rctl = rctl OR 0x04000000;
          rctl = rctl AND NOT (0x00000004 OR 0x00030000);
          rctl = rctl OR 0x00000020;
          m = wr32 a (E1000_RXDCTL 0) 0 m;
          m = (if vfs_allocated_count a \<noteq> 0 then wr32 a E1000_QDE 0xFFFF m else m)
      in wr32 a E1000_RCTL rctl m)"

definition igb_set_vmolr :: "igb_adapter \<Rightarrow> nat \<Rightarrow> bool \<Rightarrow> mmio \<Rightarrow> mmio" where
  "igb_set_vmolr a vfn aupe m =
     (if mac_rank (ig_mac_type a) < mac_rank e1000_82576 then m
      else
        let vmolr = rd32 a (E1000_VMOLR vfn) m;
            vmolr = vmolr OR 0x40000000;
            vmolr = (if aupe then vmolr OR 0x01000000 else vmolr AND NOT 0x01000000);
            vmolr = vmolr AND NOT (0x08000000 OR 0x00020000);
            vmolr = (if rss_queues a > 1 \<and> of_nat vfn = vfs_allocated_count a then vmolr OR 0x00020000 else vmolr);
            vmolr = (if of_nat vfn \<le> vfs_allocated_count a then vmolr OR 0x08000000 else vmolr)
        in wr32 a (E1000_VMOLR vfn) vmolr m)"

text \<open>With pages of 4096 bytes half a page is the buffer of a split packet.\<close>

definition srrctl_of :: "igb_adapter \<Rightarrow> igb_ring \<Rightarrow> u32" where
  "srrctl_of a ring =
     (let srrctl = (if rx_buffer_len ring < 1024
            then (push_bit 2 (ALIGN (rx_buffer_len ring) 64) OR drop_bit 10 2048) OR 0x0A000000
            else drop_bit 10 (ALIGN (rx_buffer_len ring) 1024) OR 0x02000000);
          srrctl = (if ig_mac_type a = e1000_82580 then srrctl OR 0x40000000 else srrctl)
      in if vfs_allocated_count a \<noteq> 0 \<or> num_rx_queues a > 1 then srrctl OR 0x80000000 else srrctl)"

definition igb_configure_rx_ring :: "igb_adapter \<Rightarrow> igb_ring \<Rightarrow> mmio \<Rightarrow> igb_ring \<times> mmio" where
  "igb_configure_rx_ring a ring m =
     (let rdba = rg_dma ring;
          i = unat (reg_idx ring);
          rxdctl = rd32 a (E1000_RXDCTL i) m;
          m = wr32 a (E1000_RXDCTL i) (rxdctl AND NOT E1000_QUEUE_ENABLE) m;
          m = wr32 a (E1000_RDBAL i) (ucast rdba) m;
          m = wr32 a (E1000_RDBAH i) (ucast (drop_bit 32 rdba)) m;
          m = wr32 a (E1000_RDLEN i) (ucast (rg_count ring) * 16) m;
          ring = ring\<lparr>rg_head := hw_addr a + E1000_RDH i, rg_tail := hw_addr a + KE1000_RDT i\<rparr>;
          m = m(rg_head ring := 0, rg_tail ring := 0);
          m = wr32 a (E1000_SRRCTL i) (srrctl_of a ring) m;
          m = igb_set_vmolr a (i mod 8) True m;
          rxdctl = rd32 a (E1000_RXDCTL i) m;
          rxdctl = rxdctl OR E1000_QUEUE_ENABLE;
          rxdctl = rxdctl AND 0xFFF00000;
          rxdctl = rxdctl OR 8;
          rxdctl = rxdctl OR push_bit 8 8;
          rxdctl = rxdctl OR push_bit 16 1
      in (ring, wr32 a (E1000_RXDCTL i) rxdctl m))"

definition igb_set_uta :: "nat \<Rightarrow> igb_adapter \<Rightarrow> mmio \<Rightarrow> mmio" where
  "igb_set_uta uta_reg_count a m =
     (if mac_rank (ig_mac_type a) < mac_rank e1000_82576 \<or> vfs_allocated_count a = 0 then m
      else foldl (\<lambda>m i. wr32 a (E1000_UTA + i * 4) 0xFFFFFFFF m) m [0..<uta_reg_count])"

definition igb_rar_set_qsel :: "igb_adapter \<Rightarrow> (nat \<Rightarrow> u8) \<Rightarrow> nat \<Rightarrow> u8 \<Rightarrow> mmio \<Rightarrow> mmio" where
  "igb_rar_set_qsel a addr index qsel m =
     (let low = ucast (addr 0) OR push_bit 8 (ucast (addr 1)) OR push_bit 16 (ucast (addr 2)) OR push_bit 24 (ucast (addr 3));
          high = ucast (addr 4) OR push_bit 8 (ucast (addr 5));
          high = high OR 0x80000000;
          high = (if ig_mac_type a = e1000_82575 then high OR (0x00040000 * ucast qsel) else high OR push_bit (unat qsel) 0x00040000)
      in wr32 a (E1000_RAH index) high (wr32 a (E1000_RAL index) low m))"

definition igb_configure_rx :: "nat \<Rightarrow> igb_adapter \<Rightarrow> mmio \<Rightarrow> (igb_adapter \<times> mmio) res" where
  "igb_configure_rx uta_reg_count a m =
     (let m = igb_set_uta uta_reg_count a m;
          m = igb_rar_set_qsel a (ig_mac a) 0 (ucast (vfs_allocated_count a)) m
      in bindE (foldE (configure_ring (igb_configure_rx_ring a)) [0..<num_rx_queues a] (rx_rings a, m)) (\<lambda>(rx, m). Inr (a\<lparr>rx_rings := rx\<rparr>, m)))"

section \<open>Opening and closing\<close>

text \<open>What the other parts of the driver hold: the filter type, the size of the unicast table and uninitialised memory.\<close>

record card_env =
  ce_mc_filter_type :: u32
  ce_uta_reg_count :: nat
  ce_junk :: "u8 list"
  ce_dma :: "ptr \<Rightarrow> u64"
  ce_mem :: "ptr \<Rightarrow> bytes"
  ce_testing :: bool
  ce_request_irq :: int

definition igb_get_hw_control :: "igb_adapter \<Rightarrow> mmio \<Rightarrow> mmio" where
  "igb_get_hw_control a m = wr32 a E1000_CTRL_EXT (rd32 a E1000_CTRL_EXT m OR 0x10000000) m"

text \<open>
  The flush of the receive queues after managed packets may have come in: the queues are disabled,
  every packet is rejected for a while, then the registers get their values back.
\<close>

definition igb_rx_fifo_flush_82575 :: "igb_adapter \<Rightarrow> mmio \<Rightarrow> mmio" where
  "igb_rx_fifo_flush_82575 a m =
     (if ig_mac_type a \<noteq> e1000_82575 \<or> rd32 a E1000_MANC m AND 0x00020000 = 0 then m
      else
        let rxdctl = (\<lambda>i. rd32 a (E1000_RXDCTL i) m);
            m = foldl (\<lambda>m i. wr32 a (E1000_RXDCTL i) (rxdctl i AND NOT E1000_QUEUE_ENABLE) m) m [0..<4];
            rfctl = rd32 a E1000_RFCTL m;
            m = wr32 a E1000_RFCTL (rfctl AND NOT 0x00040000) m;
            rlpml = rd32 a E1000_RLPML m;
            m = wr32 a E1000_RLPML 0 m;
            rctl = rd32 a E1000_RCTL m;
            temp_rctl = rctl AND NOT (0x00000002 OR 0x00000004);
            temp_rctl = temp_rctl OR 0x00000020;
            m = wr32 a E1000_RCTL temp_rctl m;
            m = wr32 a E1000_RCTL (temp_rctl OR 0x00000002) m;
            m = foldl (\<lambda>m i. wr32 a (E1000_RXDCTL i) (rxdctl i) m) m [0..<4];
            m = wr32 a E1000_RCTL rctl m;
            m = wr32 a E1000_RLPML rlpml m
        in wr32 a E1000_RFCTL rfctl m)"

definition igb_configure :: "card_env \<Rightarrow> igb_adapter \<Rightarrow> mmio \<Rightarrow> (igb_adapter \<times> mmio) res" where
  "igb_configure e a m =
     (let m = igb_setup_tctl a (igb_get_hw_control a m)
      in bindE (igb_setup_mrqc (ce_junk e) a m) (\<lambda>m.
         let m = igb_setup_rctl (ce_mc_filter_type e) a m
         in bindE (igb_configure_tx a m) (\<lambda>(a, m).
            bindE (igb_configure_rx (ce_uta_reg_count e) a m) (\<lambda>(a, m). Inr (a, igb_rx_fifo_flush_82575 a m)))))"

definition EBUSY :: int where "EBUSY = 16"

definition igb_open ::
  "card_env \<Rightarrow> igb_adapter \<Rightarrow> heap \<Rightarrow> ukmem \<Rightarrow> mmio \<Rightarrow> (int \<times> igb_adapter \<times> heap \<times> ukmem \<times> mmio) res" where
  "igb_open e a h u m =
     (if ce_testing e then Inr (- EBUSY, a, h, u, m)
      else bindE (igb_setup_all_tx_resources (ce_dma e) (ce_mem e) a h u) (\<lambda>(err, a, h, u).
        if err \<noteq> 0 then Inr (err, a, h, u, m)
        else bindE (igb_setup_all_rx_resources (ce_dma e) (ce_mem e) a h u) (\<lambda>(err, a, h, u).
          if err \<noteq> 0 then bindE (igb_free_all_tx_resources a h) (\<lambda>(a, h). Inr (err, a, h, u, m))
          else bindE (igb_configure e a m) (\<lambda>(a, m).
            if ce_request_irq e \<noteq> 0 then
              bindE (igb_free_all_rx_resources a h) (\<lambda>(a, h).
              bindE (igb_free_all_tx_resources a h) (\<lambda>(a, h). Inr (ce_request_irq e, a, h, u, m)))
            else
              let m = (if vfs_allocated_count a \<noteq> 0 then wr32 a E1000_CTRL_EXT (rd32 a E1000_CTRL_EXT m OR 0x00004000) m else m)
              in Inr (0, a, h, u, m)))))"

definition clean_ring :: "(igb_ring \<Rightarrow> igb_ring res) \<Rightarrow> nat \<Rightarrow> rings \<Rightarrow> rings res" where
  "clean_ring clean i rs = bindE (get_ring rs i) (\<lambda>r. bindE (clean r) (\<lambda>r. Inr (rs[i := Some r])))"

definition igb_clean_all_tx_rings :: "igb_adapter \<Rightarrow> igb_adapter res" where
  "igb_clean_all_tx_rings a =
     bindE (foldE (clean_ring igb_clean_tx_ring) [0..<num_tx_queues a] (tx_rings a)) (\<lambda>rs. Inr (a\<lparr>tx_rings := rs\<rparr>))"

definition igb_clean_all_rx_rings :: "igb_adapter \<Rightarrow> igb_adapter res" where
  "igb_clean_all_rx_rings a =
     bindE (foldE (clean_ring igb_clean_rx_ring) [0..<num_rx_queues a] (rx_rings a)) (\<lambda>rs. Inr (a\<lparr>rx_rings := rs\<rparr>))"

definition igb_down :: "igb_adapter \<Rightarrow> mmio \<Rightarrow> (igb_adapter \<times> mmio) res" where
  "igb_down a m =
     (let m = wr32 a E1000_RCTL (rd32 a E1000_RCTL m AND NOT 0x00000002) m;
          m = wr32 a E1000_TCTL (rd32 a E1000_TCTL m AND NOT 0x00000002) m
      in bindE (igb_clean_all_tx_rings a) (\<lambda>a. bindE (igb_clean_all_rx_rings a) (\<lambda>a. Inr (a, m))))"

definition igb_close :: "igb_adapter \<Rightarrow> heap \<Rightarrow> mmio \<Rightarrow> (igb_adapter \<times> heap \<times> mmio) res" where
  "igb_close a h m =
     bindE (igb_down a m) (\<lambda>(a, m).
     bindE (igb_free_all_tx_resources a h) (\<lambda>(a, h).
     bindE (igb_free_all_rx_resources a h) (\<lambda>(a, h). Inr (a, h, m))))"

end
