(* ===== verification/IgbRss.thy ===== *)
theory IgbRss
  imports IgbRegs Rss
begin

text \<open>
  The card and the stack agree on the queue of a flow: with the key and the redirection table the
  kernel's driver has programmed, the queue the card chooses for an arriving packet is the one
  \<open>rss.c\<close> computes.
\<close>

section \<open>Reading back registers\<close>

lemma rd32_wr32: "rd32 a r (wr32 a s v m) = (if r = s then v else rd32 a r m)"
  by (simp add: rd32_def wr32_def)

section \<open>The card\<close>

text \<open>
  What the card does with its registers: byte \<open>k\<close> of the key, and of the redirection table, is byte
  \<open>k mod 4\<close> of register \<open>k div 4\<close>; the hash of a bit string adds, for every bit set, the 32 bits of the key
  that start there; its low seven bits choose an entry of the table, whose low four bits are the queue.
\<close>

definition reg_byte :: "u32 \<Rightarrow> nat \<Rightarrow> u8" where
  "reg_byte w i = ucast (drop_bit (8 * i) w)"

definition card_key :: "igb_adapter \<Rightarrow> mmio \<Rightarrow> nat \<Rightarrow> u8" where
  "card_key a m k = reg_byte (rd32 a (E1000_RSSRK (k div 4)) m) (k mod 4)"

definition card_reta :: "igb_adapter \<Rightarrow> mmio \<Rightarrow> nat \<Rightarrow> u8" where
  "card_reta a m k = reg_byte (rd32 a (E1000_RETA (k div 4)) m) (k mod 4)"

definition window_at :: "(nat \<Rightarrow> u8) \<Rightarrow> nat \<Rightarrow> u32" where
  "window_at key j = foldl (\<lambda>w t. push_bit 1 w OR (if bit (key ((j + t) div 8)) (7 - (j + t) mod 8) then 1 else 0)) 0 [0..<32]"

definition card_hash :: "(nat \<Rightarrow> u8) \<Rightarrow> (nat \<Rightarrow> bool) \<Rightarrow> nat \<Rightarrow> u32" where
  "card_hash key bits n = fold (\<lambda>j r. if bits j then r XOR window_at key j else r) [0..<n] 0"

definition card_queue :: "igb_adapter \<Rightarrow> mmio \<Rightarrow> bytes \<Rightarrow> nat" where
  "card_queue a m input = unat (take_bit 4 (card_reta a m (unat (take_bit 7 (card_hash (card_key a m) (msb_bits input) 96)))))"

section \<open>The key\<close>

lemma length_rsshash [simp]: "length rsshash = 40"
  by (simp add: rsshash_def)

lemma word_of_bytes:
  fixes b0 b1 b2 b3 :: u8
  defines "w \<equiv> ucast b0 OR push_bit 8 (ucast b1) OR push_bit 16 (ucast b2) OR push_bit 24 (ucast b3 :: u32)"
  shows "reg_byte w 0 = b0" "reg_byte w 1 = b1" "reg_byte w 2 = b2" "reg_byte w 3 = b3"
proof -
  have no: "\<not> bit (b :: u8) n" if "8 \<le> n" for b n using bit_imp_le_length [of b n] that by auto
  show "reg_byte w 0 = b0" "reg_byte w 1 = b1" "reg_byte w 2 = b2" "reg_byte w 3 = b3"
    by (rule bit_word_eqI; simp add: w_def reg_byte_def bit_simps no)+
qed


definition key_word :: "nat \<Rightarrow> u32" where
  "key_word j = ucast (rsshash ! (j * 4)) OR push_bit 8 (ucast (rsshash ! (j * 4 + 1))) OR push_bit 16 (ucast (rsshash ! (j * 4 + 2)))
     OR push_bit 24 (ucast (rsshash ! (j * 4 + 3)))"

lemma write_rsskey_eq: "j < 10 \<Longrightarrow> write_rsskey a j m = Inr (wr32 a (E1000_RSSRK j) (key_word j) m)"
  by (simp add: write_rsskey_def key_word_def E1000_RSSRK_def arr_get_def Let_def or.assoc add.commute mult.commute)

lemma write_keys:
  "n \<le> 10 \<Longrightarrow> \<exists>m'. foldE (write_rsskey a) [0..<n] m = Inr m' \<and>
     (\<forall>j < n. rd32 a (E1000_RSSRK j) m' = key_word j) \<and> (\<forall>r. (\<forall>j < n. r \<noteq> E1000_RSSRK j) \<longrightarrow> rd32 a r m' = rd32 a r m)"
proof (induction n)
  case (Suc n)
  then obtain m1 where "foldE (write_rsskey a) [0..<n] m = Inr m1" "\<forall>j < n. rd32 a (E1000_RSSRK j) m1 = key_word j"
    "\<forall>r. (\<forall>j < n. r \<noteq> E1000_RSSRK j) \<longrightarrow> rd32 a r m1 = rd32 a r m" by auto
  then show ?case using Suc.prems
    by (intro exI [of _ "wr32 a (E1000_RSSRK n) (key_word n) m1"])
      (auto simp: foldE_append write_rsskey_eq rd32_wr32 less_Suc_eq E1000_RSSRK_def)
qed simp

lemma key_word_bytes: "reg_byte (key_word (k div 4)) (k mod 4) = rsshash ! k"
proof -
  have byte: "reg_byte (key_word q) i = rsshash ! (q * 4 + i)" if "i < 4" for q i
  proof -
    have "i = 0 \<or> i = 1 \<or> i = 2 \<or> i = 3" using that by linarith
    then show ?thesis
      using word_of_bytes [of "rsshash ! (q * 4)" "rsshash ! (q * 4 + 1)" "rsshash ! (q * 4 + 2)" "rsshash ! (q * 4 + 3)"]
      unfolding key_word_def by (metis add.right_neutral)
  qed
  have "k div 4 * 4 + k mod 4 = k" by simp
  then show ?thesis using byte [of "k mod 4" "k div 4"] by simp
qed

text \<open>The windows of this key are the table of the program.\<close>

lemma rsshash_windows: "map (window_at ((!) rsshash)) [0..<96] = K"
  by code_simp

lemma window_at_cong:
  assumes "\<And>k. k < 16 \<Longrightarrow> key k = key' k" "j < 96"
  shows "window_at key j = window_at key' j"
  unfolding window_at_def by (rule foldl_cong) (use assms in auto)

lemma card_hash_toeplitz:
  assumes "\<And>k. k < 40 \<Longrightarrow> key k = rsshash ! k"
  shows "card_hash key bits 96 = toeplitz bits 96"
proof -
  have w: "window_at key j = key_window j" if "j < 96" for j
  proof -
    have "window_at key j = window_at ((!) rsshash) j" using that assms by (intro window_at_cong) auto
    also have "\<dots> = K ! j" using that by (simp add: rsshash_windows [symmetric])
    finally show ?thesis using that by (simp add: K_nth)
  qed
  then show ?thesis unfolding card_hash_def toeplitz_def by (intro fold_cong) (auto simp: fun_eq_iff)
qed

section \<open>The redirection table\<close>

definition reta_entry :: "igb_adapter \<Rightarrow> nat \<Rightarrow> u8" where
  "reta_entry a j = ucast ((of_nat j :: u32) mod rss_queues a)"

lemma reta_dword_bytes:
  "reta_dword [b0, b1, b2, b3] = ucast b0 OR push_bit 8 (ucast b1) OR push_bit 16 (ucast b2) OR push_bit 24 (ucast b3)"
  by (rule bit_word_eqI) (auto simp: reta_dword_def bit_simps)

definition reta_word :: "igb_adapter \<Rightarrow> nat \<Rightarrow> u32" where
  "reta_word a q = reta_dword [reta_entry a (4 * q), reta_entry a (4 * q + 1), reta_entry a (4 * q + 2), reta_entry a (4 * q + 3)]"

lemma reta_word_byte:
  assumes "i < 4"
  shows "reg_byte (reta_word a q) i = reta_entry a (4 * q + i)"
proof -
  have "i = 0 \<or> i = 1 \<or> i = 2 \<or> i = 3" using assms by linarith
  then show ?thesis
    using word_of_bytes [of "reta_entry a (4 * q)" "reta_entry a (4 * q + 1)" "reta_entry a (4 * q + 2)" "reta_entry a (4 * q + 3)"]
    unfolding reta_word_def reta_dword_bytes by (metis add.right_neutral)
qed

text \<open>Four steps fill one register.\<close>

lemma reta_four:
  assumes num: "rss_queues a \<noteq> 0" and bs: "length bs = 4"
  shows "\<exists>bs'. foldE (reta_step a (rss_queues a, 0, 0)) [4 * q..<4 * Suc q] (bs, m) = Inr (bs', wr32 a (E1000_RETA q) (reta_word a q) m) \<and> length bs' = 4"
proof -
  obtain c0 c1 c2 c3 where b: "bs = [c0, c1, c2, c3]" using bs by (auto simp: numeral_eq_Suc length_Suc_conv)
  have l: "[4 * q..<4 * Suc q] = [4 * q, 4 * q + 1, 4 * q + 2, 4 * q + 3]" by (simp add: upt_rec)
  have m: "4 * q mod 4 = 0" "(4 * q + 1) mod 4 = 1" "(4 * q + 2) mod 4 = 2" "(4 * q + 3) mod 4 = 3" "(4 * q + 3) div 4 = q" by presburger+
  have step: "reta_step a (rss_queues a, 0, 0) j (bs, m)
      = Inr (bs[j mod 4 := reta_entry a j], if j mod 4 = 3 then wr32 a (E1000_RETA (j div 4)) (reta_dword (bs[j mod 4 := reta_entry a j])) m else m)" for j bs m
    using num by (simp add: reta_step_def reta_entry_def Let_def)
  have "foldE (reta_step a (rss_queues a, 0, 0)) [4 * q..<4 * Suc q] (bs, m)
      = Inr ([reta_entry a (4 * q), reta_entry a (4 * q + 1), reta_entry a (4 * q + 2), reta_entry a (4 * q + 3)],
             wr32 a (E1000_RETA q) (reta_word a q) m)"
    unfolding l b foldE.simps step m bindE.simps by (simp add: step m reta_word_def numeral_eq_Suc)
  then show ?thesis by simp
qed

lemma write_reta:
  assumes num: "rss_queues a \<noteq> 0" and bs: "length bs = 4"
  shows "\<exists>bs' m'. foldE (reta_step a (rss_queues a, 0, 0)) [0..<4 * n] (bs, m) = Inr (bs', m') \<and> length bs' = 4 \<and>
    (\<forall>q < n. rd32 a (E1000_RETA q) m' = reta_word a q) \<and> (\<forall>r. (\<forall>q < n. r \<noteq> E1000_RETA q) \<longrightarrow> rd32 a r m' = rd32 a r m)"
proof (induction n)
  case 0
  then show ?case using bs by auto
next
  case (Suc n)
  then obtain bs1 m1 where 1: "foldE (reta_step a (rss_queues a, 0, 0)) [0..<4 * n] (bs, m) = Inr (bs1, m1)" "length bs1 = 4"
    "\<forall>q < n. rd32 a (E1000_RETA q) m1 = reta_word a q" "\<forall>r. (\<forall>q < n. r \<noteq> E1000_RETA q) \<longrightarrow> rd32 a r m1 = rd32 a r m" by blast
  obtain bs2 where 2: "foldE (reta_step a (rss_queues a, 0, 0)) [4 * n..<4 * Suc n] (bs1, m1) = Inr (bs2, wr32 a (E1000_RETA n) (reta_word a n) m1)"
    "length bs2 = 4" using reta_four [OF num 1(2)] by blast
  have "[0..<4 * Suc n] = [0..<4 * n] @ [4 * n..<4 * Suc n]" using upt_add_eq_append [of 0 "4 * n" 4] by (simp add: add.commute)
  then show ?case using 1 2
    by (intro exI [of _ bs2] exI [of _ "wr32 a (E1000_RETA n) (reta_word a n) m1"])
      (auto simp: foldE_append rd32_wr32 less_Suc_eq E1000_RETA_def simp del: mult_Suc_right)
qed

lemma reta_entry_queue:
  assumes num: "rss_queues a \<noteq> 0" "unat (rss_queues a) \<le> 16" and j: "j < 128"
  shows "unat (take_bit 4 (reta_entry a j)) = j mod unat (rss_queues a)"
proof -
  let ?n = "unat (rss_queues a)"
  have n: "0 < ?n" using num by (simp add: unat_gt_0)
  have jn: "unat (of_nat j :: u32) = j" using j by (simp add: unsigned_of_nat take_bit_nat_eq_self)
  have lt: "j mod ?n < 16" using n num(2) mod_less_divisor [OF n, of j] by linarith
  have "unat ((of_nat j :: u32) mod rss_queues a) = j mod ?n" by (simp add: unat_mod_distrib jn)
  then show ?thesis using lt
    by (simp add: reta_entry_def unsigned_take_bit_eq unsigned_ucast_eq take_bit_nat_eq_self)
qed

section \<open>The card and the stack\<close>

text \<open>What the programming of the card leaves in the registers of the hash.\<close>

definition rss_ready :: "igb_adapter \<Rightarrow> mmio \<Rightarrow> bool" where
  "rss_ready a m \<longleftrightarrow> (\<forall>j < 10. rd32 a (E1000_RSSRK j) m = key_word j) \<and> (\<forall>q < 32. rd32 a (E1000_RETA q) m = reta_word a q)"

lemma rss_ready_queue:
  assumes r: "rss_ready a m" and num: "rss_queues a \<noteq> 0" "unat (rss_queues a) \<le> 16"
  shows "rss_hash_v4_idx (unat (rss_queues a)) saddr daddr sport dport = Inr (of_nat (card_queue a m (rss_input saddr daddr sport dport)))"
proof -
  let ?n = "unat (rss_queues a)"
  define h where "h = toeplitz (msb_bits (rss_input saddr daddr sport dport)) 96"
  have key: "card_key a m k = rsshash ! k" if "k < 40" for k
    using r that key_word_bytes by (simp add: rss_ready_def card_key_def)
  have hash: "card_hash (card_key a m) (msb_bits (rss_input saddr daddr sport dport)) 96 = h"
    unfolding h_def by (rule card_hash_toeplitz) (simp add: key)
  have "(0x7f :: u32) = mask 7" by (simp add: mask_eq_exp_minus_1)
  then have t: "h AND 0x7f = take_bit 7 h" by (simp add: take_bit_eq_mask)
  have lt: "unat (take_bit 7 h) < 128" using take_bit_nat_less_exp [of 7 "unat h"] by (simp add: unsigned_take_bit_eq)
  have u: "unat (ucast (take_bit 7 h) :: u8) = unat (take_bit 7 h)" using lt by (simp add: unsigned_ucast_eq take_bit_nat_eq_self)
  have "card_reta a m (unat (take_bit 7 h)) = reta_entry a (unat (take_bit 7 h))"
    using r lt reta_word_byte [of "unat (take_bit 7 h) mod 4" a "unat (take_bit 7 h) div 4"]
    by (simp add: rss_ready_def card_reta_def)
  then have "card_queue a m (rss_input saddr daddr sport dport) = unat (take_bit 7 h) mod ?n"
    using reta_entry_queue [OF num lt] by (simp add: card_queue_def hash)
  moreover have "?n \<noteq> 0" using num(1) by (simp add: unat_eq_0)
  ultimately show ?thesis
    by (simp add: rss_hash_v4_idx_def rss_hash_toeplitz h_def [symmetric] t u Let_def)
qed

end
