(* ===== verification/IgbConf.thy ===== *)
theory IgbConf
  imports IgbRss
begin

text \<open>
  After \<open>igb_configure\<close> the registers of every queue hold base and length of the queue's ring, head and
  tail are zero, the queue is enabled, and key and redirection table of the hash are in place: no
  register is overwritten by the programming of another part.
\<close>

section \<open>What a part of the programming leaves alone\<close>

definition changes :: "igb_adapter \<Rightarrow> nat set \<Rightarrow> mmio \<Rightarrow> mmio \<Rightarrow> bool" where
  "changes a R m n \<longleftrightarrow> (\<forall>r. r \<notin> R \<longrightarrow> rd32 a r n = rd32 a r m)"

named_theorems change_rules

lemma changes_refl [change_rules]: "changes a R m m"
  by (simp add: changes_def)

lemma changes_wr32 [change_rules]: "r \<in> R \<Longrightarrow> changes a R m n \<Longrightarrow> changes a R m (wr32 a r v n)"
  by (simp add: changes_def rd32_wr32)

lemma changes_upd [change_rules]: "r \<in> R \<Longrightarrow> changes a R m n \<Longrightarrow> changes a R m (n(hw_addr a + r := v))"
  using changes_wr32 by (simp add: wr32_def)

lemma changes_trans: "changes a R m n \<Longrightarrow> changes a S n k \<Longrightarrow> changes a (R \<union> S) m k"
  by (simp add: changes_def)

lemma changes_mono: "changes a R m n \<Longrightarrow> R \<subseteq> S \<Longrightarrow> changes a S m n"
  by (auto simp: changes_def)

section \<open>One kind of rings\<close>

text \<open>
  Programming ring \<open>i\<close> changes the registers \<open>block i\<close> only, gives the ring its head and tail and
  establishes \<open>prog i\<close>, which no other block can disturb.
\<close>

definition same_ring :: "igb_ring \<Rightarrow> igb_ring \<Rightarrow> bool" where
  "same_ring r s \<longleftrightarrow> s = r\<lparr>rg_head := rg_head s, rg_tail := rg_tail s\<rparr>"

locale ring_program =
  fixes a :: igb_adapter
    and conf :: "igb_ring \<Rightarrow> mmio \<Rightarrow> igb_ring \<times> mmio"
    and block :: "nat \<Rightarrow> nat set"
    and prog :: "nat \<Rightarrow> igb_ring \<Rightarrow> mmio \<Rightarrow> bool"
  assumes conf_ring: "unat (reg_idx r) = i \<Longrightarrow> i < 16 \<Longrightarrow> conf r m = (s, n) \<Longrightarrow> same_ring r s \<and> prog i s n \<and> changes a (block i) m n"
    and prog_keep: "prog i r m \<Longrightarrow> i < 16 \<Longrightarrow> j < 16 \<Longrightarrow> i \<noteq> j \<Longrightarrow> changes a (block j) m n \<Longrightarrow> prog i r n"
begin

lemma configure_rings:
  assumes "n \<le> length rs" "n \<le> 16" "\<And>i. i < n \<Longrightarrow> \<exists>r. rs ! i = Some r \<and> unat (reg_idx r) = i"
  shows "\<exists>ss k. foldE (configure_ring conf) [0..<n] (rs, m) = Inr (ss, k) \<and> length ss = length rs \<and> (\<forall>i \<ge> n. ss ! i = rs ! i) \<and>
    (\<forall>i < n. \<exists>r s. rs ! i = Some r \<and> ss ! i = Some s \<and> same_ring r s \<and> prog i s k) \<and> changes a (\<Union>i<n. block i) m k"
  using assms
proof (induction n)
  case 0
  then show ?case by (simp add: changes_def)
next
  case (Suc n)
  then obtain ss k where ih: "foldE (configure_ring conf) [0..<n] (rs, m) = Inr (ss, k)" "length ss = length rs" "\<forall>i \<ge> n. ss ! i = rs ! i"
    "\<forall>i < n. \<exists>r s. rs ! i = Some r \<and> ss ! i = Some s \<and> same_ring r s \<and> prog i s k" "changes a (\<Union>i<n. block i) m k" by auto
  obtain r where r: "rs ! n = Some r" "unat (reg_idx r) = n" using Suc.prems(3) by blast
  obtain s l where c: "conf r k = (s, l)" by (cases "conf r k")
  have p: "same_ring r s" "prog n s l" "changes a (block n) k l" using conf_ring [OF r(2) _ c] Suc.prems(2) by simp_all
  have "configure_ring conf n (ss, k) = Inr (ss[n := Some s], l)"
    using ih(2,3) r(1) Suc.prems(1) c by (simp add: configure_ring_def get_ring_def arr_get_def)
  then have "foldE (configure_ring conf) [0..<Suc n] (rs, m) = Inr (ss[n := Some s], l)" using ih(1) by (simp add: foldE_append)
  moreover have "\<exists>r s'. rs ! i = Some r \<and> ss[n := Some s] ! i = Some s' \<and> same_ring r s' \<and> prog i s' l" if "i < Suc n" for i
  proof (cases "i = n")
    case True
    then show ?thesis using r(1) p ih(2) Suc.prems(1) by simp
  next
    case False
    then obtain r' s' where "rs ! i = Some r'" "ss ! i = Some s'" "same_ring r' s'" "prog i s' k" using ih(4) \<open>i < Suc n\<close> by (meson less_Suc_eq)
    then show ?thesis using False prog_keep [OF _ _ _ _ p(3), of i s'] \<open>i < Suc n\<close> Suc.prems(2) by auto
  qed
  moreover have "changes a (\<Union>i<Suc n. block i) m l"
    using changes_trans [OF ih(5) p(3)] by (rule changes_mono) (auto simp: less_Suc_eq)
  ultimately show ?case using ih(2,3) Suc.prems(1) by (intro exI [of _ "ss[n := Some s]"] exI [of _ l]) auto
qed

end

section \<open>The registers of a ring\<close>

definition tx_block :: "nat \<Rightarrow> nat set" where
  "tx_block i = {E1000_TDBAL i..<E1000_TDBAL i + 0x40}"

definition rx_block :: "nat \<Rightarrow> nat set" where
  "rx_block i = {E1000_RDBAL i..<E1000_RDBAL i + 0x40}"

definition vmolr_regs :: "nat set" where
  "vmolr_regs = {0x05AD0..<0x05AF0}"

lemmas tx_regs = E1000_TDBAL_def E1000_TDBAH_def E1000_TDLEN_def E1000_TDH_def KE1000_TDT_def E1000_TXDCTL_def

lemmas rx_regs = E1000_RDBAL_def E1000_RDBAH_def E1000_RDLEN_def E1000_RDH_def KE1000_RDT_def E1000_RXDCTL_def E1000_SRRCTL_def

lemma tx_in_block [change_rules]:
  "E1000_TDBAL i \<in> tx_block i" "E1000_TDBAH i \<in> tx_block i" "E1000_TDLEN i \<in> tx_block i" "E1000_TDH i \<in> tx_block i"
  "KE1000_TDT i \<in> tx_block i" "E1000_TXDCTL i \<in> tx_block i"
  by (simp_all add: tx_block_def tx_regs)

lemma rx_in_block [change_rules]:
  "E1000_RDBAL i \<in> rx_block i" "E1000_RDBAH i \<in> rx_block i" "E1000_RDLEN i \<in> rx_block i" "E1000_RDH i \<in> rx_block i"
  "KE1000_RDT i \<in> rx_block i" "E1000_RXDCTL i \<in> rx_block i" "E1000_SRRCTL i \<in> rx_block i"
  by (simp_all add: rx_block_def rx_regs)

lemma tx_blocks_disjoint: "i \<noteq> j \<Longrightarrow> i < 16 \<Longrightarrow> j < 16 \<Longrightarrow> r \<in> tx_block i \<Longrightarrow> r \<notin> tx_block j"
  by (auto simp: tx_block_def E1000_TDBAL_def split: if_splits)

lemma rx_blocks_disjoint: "i \<noteq> j \<Longrightarrow> i < 16 \<Longrightarrow> j < 16 \<Longrightarrow> r \<in> rx_block i \<Longrightarrow> r \<notin> rx_block j"
  by (auto simp: rx_block_def E1000_RDBAL_def split: if_splits)

lemma rx_block_vmolr: "i < 16 \<Longrightarrow> r \<in> rx_block i \<Longrightarrow> r \<notin> vmolr_regs"
  by (auto simp: rx_block_def vmolr_regs_def E1000_RDBAL_def split: if_splits)

section \<open>Programming a ring\<close>

definition tx_programmed :: "igb_adapter \<Rightarrow> nat \<Rightarrow> igb_ring \<Rightarrow> mmio \<Rightarrow> bool" where
  "tx_programmed a i r m \<longleftrightarrow> rd32 a (E1000_TDBAL i) m = ucast (rg_dma r) \<and> rd32 a (E1000_TDBAH i) m = ucast (drop_bit 32 (rg_dma r)) \<and>
     rd32 a (E1000_TDLEN i) m = ucast (rg_count r) * 16 \<and> rd32 a (E1000_TDH i) m = 0 \<and> rd32 a (KE1000_TDT i) m = 0 \<and>
     bit (rd32 a (E1000_TXDCTL i) m) 25 \<and> rg_tail r = hw_addr a + KE1000_TDT i"

definition rx_programmed :: "igb_adapter \<Rightarrow> nat \<Rightarrow> igb_ring \<Rightarrow> mmio \<Rightarrow> bool" where
  "rx_programmed a i r m \<longleftrightarrow> rd32 a (E1000_RDBAL i) m = ucast (rg_dma r) \<and> rd32 a (E1000_RDBAH i) m = ucast (drop_bit 32 (rg_dma r)) \<and>
     rd32 a (E1000_RDLEN i) m = ucast (rg_count r) * 16 \<and> rd32 a (E1000_RDH i) m = 0 \<and> rd32 a (KE1000_RDT i) m = 0 \<and>
     bit (rd32 a (E1000_RXDCTL i) m) 25 \<and> rd32 a (E1000_SRRCTL i) m = srrctl_of a r \<and> rg_tail r = hw_addr a + KE1000_RDT i"

lemma rd32_upd: "rd32 a r (n(hw_addr a + s := v)) = (if r = s then v else rd32 a r n)"
  by (simp add: rd32_def)

lemma tx_programmed_changes:
  assumes "tx_programmed a i r m" "changes a S m n" "\<And>x. x \<in> tx_block i \<Longrightarrow> x \<notin> S"
  shows "tx_programmed a i r n"
proof -
  have "rd32 a x n = rd32 a x m" if "x \<in> tx_block i" for x using assms(2,3) that by (simp add: changes_def)
  then show ?thesis using assms(1) by (simp add: tx_programmed_def tx_in_block)
qed

lemma rx_programmed_changes:
  assumes "rx_programmed a i r m" "changes a S m n" "\<And>x. x \<in> rx_block i \<Longrightarrow> x \<notin> S"
  shows "rx_programmed a i r n"
proof -
  have "rd32 a x n = rd32 a x m" if "x \<in> rx_block i" for x using assms(2,3) that by (simp add: changes_def)
  then show ?thesis using assms(1) by (simp add: rx_programmed_def rx_in_block)
qed

lemma configure_tx_ring_ok:
  assumes i: "unat (reg_idx r) = i" and c: "igb_configure_tx_ring a r m = (s, n)"
  shows "same_ring r s \<and> tx_programmed a i s n \<and> changes a (tx_block i) m n"
proof -
  have s: "s = r\<lparr>rg_head := hw_addr a + E1000_TDH i, rg_tail := hw_addr a + KE1000_TDT i\<rparr>"
    using c i by (auto simp: igb_configure_tx_ring_def Let_def)
  have "changes a (tx_block i) m n"
    using c i by (auto simp: igb_configure_tx_ring_def Let_def intro!: change_rules)
  moreover have "tx_programmed a i s n"
    using c i by (cases "i < 4") (auto simp: s igb_configure_tx_ring_def Let_def tx_programmed_def rd32_wr32 rd32_upd tx_regs E1000_QUEUE_ENABLE_def bit_simps)
  ultimately show ?thesis by (simp add: s same_ring_def)
qed

lemma set_vmolr_changes: "changes a vmolr_regs m (igb_set_vmolr a (i mod 8) aupe m)"
proof -
  have "E1000_VMOLR (i mod 8) \<in> vmolr_regs" by (simp add: E1000_VMOLR_def vmolr_regs_def)
  then show ?thesis unfolding igb_set_vmolr_def Let_def by (auto intro!: change_rules)
qed

lemma configure_rx_ring_ok:
  assumes i: "unat (reg_idx r) = i" "i < 16" and c: "igb_configure_rx_ring a r m = (s, n)"
  shows "same_ring r s \<and> rx_programmed a i s n \<and> changes a (rx_block i \<union> vmolr_regs) m n"
proof -
  define s0 where "s0 = r\<lparr>rg_head := hw_addr a + E1000_RDH i, rg_tail := hw_addr a + KE1000_RDT i\<rparr>"
  define m0 where "m0 = wr32 a (E1000_SRRCTL i) (srrctl_of a s0)
    ((wr32 a (E1000_RDLEN i) (ucast (rg_count r) * 16) (wr32 a (E1000_RDBAH i) (ucast (drop_bit 32 (rg_dma r))) (wr32 a (E1000_RDBAL i) (ucast (rg_dma r))
       (wr32 a (E1000_RXDCTL i) (rd32 a (E1000_RXDCTL i) m AND NOT E1000_QUEUE_ENABLE) m))))
       (hw_addr a + E1000_RDH i := 0, hw_addr a + KE1000_RDT i := 0))"
  define m1 where "m1 = igb_set_vmolr a (i mod 8) True m0"
  define v where "v = ((((rd32 a (E1000_RXDCTL i) m1 OR E1000_QUEUE_ENABLE) AND 0xFFF00000) OR 8) OR push_bit 8 8) OR push_bit 16 (1 :: u32)"
  have sn: "s = s0" "n = wr32 a (E1000_RXDCTL i) v m1"
    using c i(1) by (auto simp: igb_configure_rx_ring_def Let_def s0_def m0_def m1_def v_def)
  have ch0: "changes a (rx_block i) m m0" unfolding m0_def by (intro change_rules)
  have ch1: "changes a vmolr_regs m0 m1" unfolding m1_def by (rule set_vmolr_changes)
  have "changes a (rx_block i \<union> vmolr_regs) m n"
    unfolding sn(2) using changes_trans [OF ch0 ch1] by (intro change_rules) (simp_all add: rx_in_block)
  moreover have "rx_programmed a i s n"
  proof -
    have "bit v 25" by (simp add: v_def E1000_QUEUE_ENABLE_def bit_simps)
    moreover have "rd32 a x m1 = rd32 a x m0" if "x \<in> rx_block i" for x
      using ch1 rx_block_vmolr [OF i(2) that] by (simp add: changes_def)
    note same = this [OF rx_in_block(1)] this [OF rx_in_block(2)] this [OF rx_in_block(3)] this [OF rx_in_block(4)] this [OF rx_in_block(5)] this [OF rx_in_block(7)]
    moreover have "rd32 a (E1000_RDBAL i) m0 = ucast (rg_dma r)" "rd32 a (E1000_RDBAH i) m0 = ucast (drop_bit 32 (rg_dma r))"
      "rd32 a (E1000_RDLEN i) m0 = ucast (rg_count r) * 16" "rd32 a (E1000_RDH i) m0 = 0" "rd32 a (KE1000_RDT i) m0 = 0" "rd32 a (E1000_SRRCTL i) m0 = srrctl_of a s0"
      unfolding m0_def rd32_wr32 rd32_upd by (simp_all add: rx_regs)
    moreover have "E1000_RDBAL i \<noteq> E1000_RXDCTL i" "E1000_RDBAH i \<noteq> E1000_RXDCTL i" "E1000_RDLEN i \<noteq> E1000_RXDCTL i" "E1000_RDH i \<noteq> E1000_RXDCTL i"
      "KE1000_RDT i \<noteq> E1000_RXDCTL i" "E1000_SRRCTL i \<noteq> E1000_RXDCTL i" by (simp_all add: rx_regs)
    ultimately show ?thesis by (simp add: rx_programmed_def sn rd32_wr32) (simp add: s0_def)
  qed
  ultimately show ?thesis by (simp add: sn(1) s0_def same_ring_def)
qed

interpretation tx: ring_program a "igb_configure_tx_ring a" tx_block "tx_programmed a" for a
proof unfold_locales
  fix i j r m n assume "tx_programmed a i r m" "i < 16" "j < 16" "i \<noteq> j" "changes a (tx_block j) m n"
  then show "tx_programmed a i r n" using tx_programmed_changes tx_blocks_disjoint by blast
qed (use configure_tx_ring_ok in blast)

interpretation rx: ring_program a "igb_configure_rx_ring a" "\<lambda>i. rx_block i \<union> vmolr_regs" "rx_programmed a" for a
proof unfold_locales
  fix i j r m n assume p: "rx_programmed a i r m" "i < 16" "j < 16" "i \<noteq> j" "changes a (rx_block j \<union> vmolr_regs) m n"
  then show "rx_programmed a i r n"
    using rx_programmed_changes [OF p(1,5)] rx_blocks_disjoint rx_block_vmolr by blast
qed (use configure_rx_ring_ok in blast)

section \<open>The whole card\<close>

text \<open>Hash, receiver and transmitter as the stack needs them, and the registers that tell.\<close>

definition card_ready :: "igb_adapter \<Rightarrow> mmio \<Rightarrow> bool" where
  "card_ready a m \<longleftrightarrow> rss_ready a m \<and> rd32 a E1000_MRQC m = 2 OR MRQC_FIELDS \<and> bit (rd32 a E1000_RCTL m) 1 \<and> bit (rd32 a E1000_TCTL m) 1"

definition rss_regs :: "nat set" where
  "rss_regs = {0x05C00..<0x05CA8}"

lemma rss_ready_changes:
  assumes "rss_ready a m" "changes a S m n" "\<And>x. x \<in> rss_regs \<Longrightarrow> x \<notin> S"
  shows "rss_ready a n"
proof -
  have "rd32 a x n = rd32 a x m" if "x \<in> rss_regs" for x using assms(2,3) that by (simp add: changes_def)
  then show ?thesis using assms(1) by (auto simp: rss_ready_def rss_regs_def E1000_RSSRK_def E1000_RETA_def)
qed

lemma card_ready_changes:
  assumes "card_ready a m" "changes a S m n" "\<And>x. x \<in> rss_regs \<union> {E1000_MRQC, E1000_RCTL, E1000_TCTL} \<Longrightarrow> x \<notin> S"
  shows "card_ready a n"
  using assms rss_ready_changes [of a m S n] by (auto simp: card_ready_def changes_def)

lemma vmm_control_changes:
  "changes a {E1000_DTXCTL, E1000_RPLOLR, E1000_DTXSWC, E1000_VT_CTL} m (igb_vmm_control a m)"
  unfolding igb_vmm_control_def igb_vmdq_set_loopback_pf_def igb_vmdq_set_replication_pf_def Let_def
  by (auto intro!: change_rules)

lemma setup_mrqc_ok:
  assumes vf: "vfs_allocated_count a = 0" and t: "ig_mac_type a \<noteq> e1000_82575" and num: "rss_queues a \<noteq> 0" and junk: "length junk = 4"
  shows "\<exists>k. igb_setup_mrqc junk a m = Inr k \<and> rss_ready a k \<and> rd32 a E1000_MRQC k = 2 OR MRQC_FIELDS \<and>
    rd32 a E1000_RCTL k = rd32 a E1000_RCTL m \<and> rd32 a E1000_TCTL k = rd32 a E1000_TCTL m"
proof -
  have shape: "reta_shape a = (rss_queues a, 0, 0)" using vf t by (simp add: reta_shape_def)
  obtain m1 where 1: "foldE (write_rsskey a) [0..<10] m = Inr m1" "\<forall>j < 10. rd32 a (E1000_RSSRK j) m1 = key_word j"
    "\<forall>r. (\<forall>j < 10. r \<noteq> E1000_RSSRK j) \<longrightarrow> rd32 a r m1 = rd32 a r m" using write_keys [of 10 a m] by blast
  obtain bs m2 where 2: "foldE (reta_step a (rss_queues a, 0, 0)) [0..<4 * 32] (junk, m1) = Inr (bs, m2)" 
    "\<forall>q < 32. rd32 a (E1000_RETA q) m2 = reta_word a q" "\<forall>r. (\<forall>q < 32. r \<noteq> E1000_RETA q) \<longrightarrow> rd32 a r m2 = rd32 a r m1"
    using write_reta [OF num junk, of 32 m1] by blast
  have "rd32 a (E1000_RSSRK j) m2 = key_word j" if "j < 10" for j
    using 1(2) 2(3) that by (auto simp: E1000_RSSRK_def E1000_RETA_def)
  then have r2: "rss_ready a m2" using 2(2) by (simp add: rss_ready_def)
  have c2: "rd32 a E1000_RCTL m2 = rd32 a E1000_RCTL m" "rd32 a E1000_TCTL m2 = rd32 a E1000_TCTL m"
    using 1(3) 2(3) by (auto simp: E1000_RSSRK_def E1000_RETA_def E1000_RCTL_def E1000_TCTL_def)
  let ?S = "{E1000_RXCSUM} \<union> {E1000_DTXCTL, E1000_RPLOLR, E1000_DTXSWC, E1000_VT_CTL}"
  define m3 where "m3 = wr32 a E1000_RXCSUM (let w = rd32 a E1000_RXCSUM m2 OR 0x00002000
    in if mac_rank (ig_mac_type a) \<ge> mac_rank e1000_82576 then w OR 0x00000800 else w) m2"
  define k where "k = wr32 a E1000_MRQC (2 OR MRQC_FIELDS) (igb_vmm_control a m3)"
  have run: "igb_setup_mrqc junk a m = Inr k"
    using 1(1) 2(1) vf by (simp add: igb_setup_mrqc_def shape k_def m3_def Let_def)
  have ch: "changes a ?S m2 (igb_vmm_control a m3)"
    by (rule changes_trans [OF _ vmm_control_changes]) (auto simp: m3_def intro!: change_rules)
  then have chk: "changes a (insert E1000_MRQC ?S) m2 k"
    unfolding k_def by (intro change_rules) (auto elim: changes_mono)
  have "rss_ready a k"
    by (rule rss_ready_changes [OF r2 chk])
      (auto simp: rss_regs_def E1000_MRQC_def E1000_RXCSUM_def E1000_DTXCTL_def E1000_RPLOLR_def E1000_DTXSWC_def E1000_VT_CTL_def)
  moreover have "rd32 a E1000_RCTL k = rd32 a E1000_RCTL m2" "rd32 a E1000_TCTL k = rd32 a E1000_TCTL m2"
    using chk by (auto simp: changes_def E1000_MRQC_def E1000_RXCSUM_def E1000_DTXCTL_def E1000_RPLOLR_def E1000_DTXSWC_def E1000_VT_CTL_def
        E1000_RCTL_def E1000_TCTL_def)
  moreover have "rd32 a E1000_MRQC k = 2 OR MRQC_FIELDS" by (simp add: k_def rd32_wr32)
  ultimately show ?thesis using c2 run by simp
qed

lemma setup_tctl_ok: "bit (rd32 a E1000_TCTL (igb_setup_tctl a m)) 1"
  by (simp add: igb_setup_tctl_def igb_config_collision_dist_def Let_def rd32_wr32 bit_simps)

lemma setup_rctl_ok:
  assumes "vfs_allocated_count a = 0"
  shows "changes a {E1000_RXDCTL 0, E1000_RCTL} m (igb_setup_rctl mc a m)" "bit (rd32 a E1000_RCTL (igb_setup_rctl mc a m)) 1"
proof -
  show "changes a {E1000_RXDCTL 0, E1000_RCTL} m (igb_setup_rctl mc a m)"
    using assms unfolding igb_setup_rctl_def Let_def by (auto intro!: change_rules)
  show "bit (rd32 a E1000_RCTL (igb_setup_rctl mc a m)) 1"
    using assms by (simp add: igb_setup_rctl_def Let_def rd32_wr32 bit_simps)
qed

text \<open>All rings of a card, and everything else, after \<open>igb_configure\<close>.\<close>

definition rings_programmed :: "(nat \<Rightarrow> igb_ring \<Rightarrow> mmio \<Rightarrow> bool) \<Rightarrow> nat \<Rightarrow> rings \<Rightarrow> rings \<Rightarrow> mmio \<Rightarrow> bool" where
  "rings_programmed prog n rs ss m \<longleftrightarrow> length ss = length rs \<and> (\<forall>i \<ge> n. ss ! i = rs ! i) \<and>
     (\<forall>i < n. \<exists>r s. rs ! i = Some r \<and> ss ! i = Some s \<and> same_ring r s \<and> prog i s m)"

lemma rings_programmed_changes:
  assumes "rings_programmed prog n rs ss m" "\<And>i r. i < n \<Longrightarrow> prog i r m \<Longrightarrow> prog i r k"
  shows "rings_programmed prog n rs ss k"
  using assms unfolding rings_programmed_def by blast

lemma tx_programmed_adapter: "hw_addr b = hw_addr a \<Longrightarrow> tx_programmed b = tx_programmed a"
  by (simp add: fun_eq_iff tx_programmed_def rd32_def)

lemma tx_block_cases: "i < 8 \<Longrightarrow> x \<in> tx_block i \<Longrightarrow> 0x3800 \<le> x \<and> x < 0x3B40 \<or> 0xE100 \<le> x \<and> x < 0xE200"
  by (auto simp: tx_block_def E1000_TDBAL_def split: if_splits)

lemma rx_block_cases: "i < 8 \<Longrightarrow> x \<in> rx_block i \<Longrightarrow> 0x2800 \<le> x \<and> x < 0x2B40 \<or> 0xC100 \<le> x \<and> x < 0xC200"
  by (auto simp: rx_block_def E1000_RDBAL_def split: if_splits)

lemma rar_set_qsel_changes: "changes a {0x5400, 0x5404} m (igb_rar_set_qsel a mac 0 qsel m)"
  unfolding igb_rar_set_qsel_def Let_def by (auto intro!: change_rules simp: E1000_RAL_def E1000_RAH_def)

lemma configure_ok:
  assumes vf: "vfs_allocated_count a = 0" and t: "ig_mac_type a \<noteq> e1000_82575" and num: "rss_queues a \<noteq> 0" and junk: "length (ce_junk e) = 4"
    and q: "q \<le> 8" "num_tx_queues a = q" "num_rx_queues a = q" "q \<le> length (tx_rings a)" "q \<le> length (rx_rings a)"
    and tx: "\<And>i. i < q \<Longrightarrow> \<exists>r. tx_rings a ! i = Some r \<and> unat (reg_idx r) = i"
    and rx: "\<And>i. i < q \<Longrightarrow> \<exists>r. rx_rings a ! i = Some r \<and> unat (reg_idx r) = i"
  shows "\<exists>txs rxs k. igb_configure e a m = Inr (a\<lparr>tx_rings := txs, rx_rings := rxs\<rparr>, k) \<and> card_ready a k \<and>
    rings_programmed (tx_programmed a) q (tx_rings a) txs k \<and> rings_programmed (rx_programmed (a\<lparr>tx_rings := txs\<rparr>)) q (rx_rings a) rxs k"
proof -
  let ?m0 = "igb_setup_tctl a (igb_get_hw_control a m)"
  obtain m1 where m1: "igb_setup_mrqc (ce_junk e) a ?m0 = Inr m1" "rss_ready a m1" "rd32 a E1000_MRQC m1 = 2 OR MRQC_FIELDS"
    "rd32 a E1000_TCTL m1 = rd32 a E1000_TCTL ?m0" using setup_mrqc_ok [OF vf t num junk] by blast
  define m2 where "m2 = igb_setup_rctl (ce_mc_filter_type e) a m1"
  note R = setup_rctl_ok [OF vf, where m = m1 and mc = "ce_mc_filter_type e", folded m2_def]
  have "rss_ready a m2" by (rule rss_ready_changes [OF m1(2) R(1)]) (auto simp: rss_regs_def E1000_RXDCTL_def E1000_RCTL_def)
  moreover have "rd32 a E1000_MRQC m2 = rd32 a E1000_MRQC m1" "rd32 a E1000_TCTL m2 = rd32 a E1000_TCTL m1"
    using R(1) by (simp_all add: changes_def E1000_RXDCTL_def E1000_RCTL_def E1000_MRQC_def E1000_TCTL_def)
  ultimately have ready2: "card_ready a m2" using m1(3,4) R(2) setup_tctl_ok by (simp add: card_ready_def)
  obtain txs m3 where tx': "foldE (configure_ring (igb_configure_tx_ring a)) [0..<q] (tx_rings a, m2) = Inr (txs, m3)"
    "rings_programmed (tx_programmed a) q (tx_rings a) txs m3" "changes a (\<Union>i<q. tx_block i) m2 m3"
    using tx.configure_rings [of q "tx_rings a" a m2] q tx unfolding rings_programmed_def by auto
  have T: "x \<notin> (\<Union>i<q. tx_block i)" if "\<not> (0x3800 \<le> x \<and> x < 0x3B40)" "\<not> (0xE100 \<le> x \<and> x < 0xE200)" for x
  proof
    assume "x \<in> (\<Union>i<q. tx_block i)"
    then obtain i where "i < q" "x \<in> tx_block i" by blast
    then show False using tx_block_cases [of i x] q(1) that by simp
  qed
  have ready3: "card_ready a m3"
    by (rule card_ready_changes [OF ready2 tx'(3)], rule T) (auto simp: rss_regs_def E1000_MRQC_def E1000_RCTL_def E1000_TCTL_def)
  let ?b = "a\<lparr>tx_rings := txs\<rparr>"
  define m4 where "m4 = igb_rar_set_qsel ?b (ig_mac a) 0 (ucast (vfs_allocated_count a)) m3"
  obtain rxs m5 where rx': "foldE (configure_ring (igb_configure_rx_ring ?b)) [0..<q] (rx_rings a, m4) = Inr (rxs, m5)"
    "rings_programmed (rx_programmed ?b) q (rx_rings a) rxs m5" "changes ?b (\<Union>i<q. rx_block i \<union> vmolr_regs) m4 m5"
    using rx.configure_rings [of q "rx_rings a" ?b m4] q rx unfolding rings_programmed_def by auto
  let ?S = "{0x5400, 0x5404} \<union> (\<Union>i<q. rx_block i \<union> vmolr_regs)"
  have "changes ?b ?S m3 m5" using changes_trans [OF rar_set_qsel_changes rx'(3) [unfolded m4_def]] .
  then have ch: "changes a ?S m3 m5" by (simp add: changes_def rd32_def)
  have S: "x \<notin> ?S" if "x \<noteq> 0x5400" "x \<noteq> 0x5404" "\<not> (0x2800 \<le> x \<and> x < 0x2B40)" "\<not> (0xC100 \<le> x \<and> x < 0xC200)" "\<not> (0x5AD0 \<le> x \<and> x < 0x5AF0)" for x
  proof
    note x = that
    assume "x \<in> ?S"
    then obtain i where "i < q" "x \<in> rx_block i \<or> x \<in> vmolr_regs" using x(1,2) by blast
    then show False using rx_block_cases [of i x] q(1) x by (auto simp: vmolr_regs_def)
  qed
  have "card_ready a m5"
    by (rule card_ready_changes [OF ready3 ch], rule S) (auto simp: rss_regs_def E1000_MRQC_def E1000_RCTL_def E1000_TCTL_def)
  moreover have "rings_programmed (tx_programmed a) q (tx_rings a) txs m5"
  proof (rule rings_programmed_changes [OF tx'(2)])
    fix i r assume i: "i < q" and p: "tx_programmed a i r m3"
    show "tx_programmed a i r m5"
      by (rule tx_programmed_changes [OF p ch], rule S) (use tx_block_cases [of i] i q(1) in fastforce)+
  qed
  moreover have "igb_configure e a m = Inr (a\<lparr>tx_rings := txs, rx_rings := rxs\<rparr>, m5)"
    using m1(1) tx'(1) rx'(1) q(2,3) t vf
    by (simp add: igb_configure_def Let_def m2_def m4_def igb_configure_tx_def igb_configure_rx_def igb_set_uta_def igb_rx_fifo_flush_82575_def)
  ultimately show ?thesis using rx'(2) by blast
qed

end
