(* ===== verification/IgbSetup.thy ===== *)
theory IgbSetup
  imports IgbRegs
begin

text \<open>
  Setting a card up and taking it down again: whatever allocation or step fails, nothing is left
  allocated, no array is overrun, and when all succeed the card has its queues.
\<close>

section \<open>Arrays of pointers\<close>

definition in_use :: "'a option list \<Rightarrow> nat" where
  "in_use xs = length (filter (\<lambda>x. x \<noteq> None) xs)"

lemma in_use_Cons: "in_use [] = 0" "in_use (x # xs) = (if x = None then 0 else 1) + in_use xs"
  by (simp_all add: in_use_def)

lemma in_use_upd:
  "i < length xs \<Longrightarrow> in_use (xs[i := y]) + (if xs ! i = None then 0 else 1) = in_use xs + (if y = None then 0 else 1)"
proof (induction xs arbitrary: i)
  case (Cons x xs)
  show ?case
  proof (cases i)
    case (Suc k)
    then have "in_use (xs[k := y]) + (if xs ! k = None then 0 else 1) = in_use xs + (if y = None then 0 else 1)"
      using Cons.IH [of k] Cons.prems by simp
    then show ?thesis using Suc by (simp add: in_use_Cons)
  qed (simp add: in_use_Cons)
qed simp

lemma in_use_set:
  "i < length xs \<Longrightarrow> xs ! i = None \<Longrightarrow> in_use (xs[i := Some y]) = Suc (in_use xs)"
  "i < length xs \<Longrightarrow> in_use (xs[i := None]) + (if xs ! i = None then 0 else 1) = in_use xs"
  "i < length xs \<Longrightarrow> xs ! i = Some x \<Longrightarrow> in_use (xs[i := Some y]) = in_use xs"
  using in_use_upd [of i xs "Some y"] in_use_upd [of i xs None] by auto

lemma in_use_none: "(\<And>i. i < length xs \<Longrightarrow> xs ! i = None) \<Longrightarrow> in_use xs = 0"
  by (auto simp: in_use_def in_set_conv_nth filter_empty_conv)

lemma in_use_replicate [simp]: "in_use (replicate n None) = 0"
  by (rule in_use_none) simp

lemma in_use_le:
  assumes "\<And>j. n \<le> j \<Longrightarrow> j < length xs \<Longrightarrow> xs ! j = None"
  shows "in_use xs \<le> n"
proof -
  have "in_use (drop n xs) = 0" by (rule in_use_none) (use assms in simp)
  moreover have "in_use xs = in_use (take n xs) + in_use (drop n xs)"
    unfolding in_use_def by (subst append_take_drop_id [symmetric, of xs n]) (simp only: filter_append length_append)
  moreover have "in_use (take n xs) \<le> length (take n xs)" unfolding in_use_def by (rule length_filter_le)
  ultimately show ?thesis by simp
qed

text \<open>Allocating into empty places.\<close>

lemma alloc_slots_spec:
  assumes "distinct ks" "\<And>i. i \<in> set ks \<Longrightarrow> i < length xs \<and> xs ! i = None"
  shows "\<exists>ok xs' h'. alloc_slots new ks xs h = Inr (ok, xs', h') \<and> length xs' = length xs \<and>
    quota h' + in_use xs' = quota h + in_use xs \<and> (\<forall>j. j \<notin> set ks \<longrightarrow> xs' ! j = xs ! j) \<and>
    (ok \<longrightarrow> (\<forall>j \<in> set ks. xs' ! j = Some (new j))) \<and> (\<not> ok \<longrightarrow> quota h < length ks)"
  using assms
proof (induction ks arbitrary: xs h)
  case (Cons i ks)
  show ?case
  proof (cases "malloc h")
    case (Pair p h1)
    show ?thesis
    proof (cases p)
      case None
      then show ?thesis using Pair malloc_None [of h h1] by (auto intro!: exI [of _ False] exI [of _ xs])
    next
      case (Some q)
      have i: "i < length xs" "xs ! i = None" using Cons.prems(2) by simp_all
      let ?xs = "xs[i := Some (new i)]"
      have "distinct ks" "\<And>j. j \<in> set ks \<Longrightarrow> j < length ?xs \<and> ?xs ! j = None" using Cons.prems by (auto simp: nth_list_update)
      from Cons.IH [OF this, of h1] obtain ok xs' h' where r: "alloc_slots new ks ?xs h1 = Inr (ok, xs', h')" "length xs' = length xs"
        "quota h' + in_use xs' = quota h1 + in_use ?xs" "\<forall>j. j \<notin> set ks \<longrightarrow> xs' ! j = ?xs ! j" "ok \<longrightarrow> (\<forall>j \<in> set ks. xs' ! j = Some (new j))"
        "\<not> ok \<longrightarrow> quota h1 < length ks" by auto
      have qh: "quota h = Suc (quota h1)" using Pair Some malloc_Some by blast
      then have "quota h' + in_use xs' = quota h + in_use xs" using r(3) in_use_set(1) [OF i] by simp
      moreover have "i \<notin> set ks" using Cons.prems(1) by simp
      ultimately show ?thesis using r i Pair Some qh
        by (intro exI [of _ ok] exI [of _ xs'] exI [of _ h']) (auto simp: arr_set_def nth_list_update)
    qed
  qed
qed auto

lemma quota_kfree: "quota (kfree x h) = quota h + (if x = None then 0 else 1)"
  by (simp add: kfree_def mfree_def)

lemma free_slots_spec:
  assumes "\<And>i. i \<in> set ks \<Longrightarrow> i < length xs"
  shows "\<exists>xs' h'. foldE free_slot ks (xs, h) = Inr (xs', h') \<and> length xs' = length xs \<and>
    quota h' + in_use xs' = quota h + in_use xs \<and> (\<forall>j. xs' ! j = (if j \<in> set ks then None else xs ! j))"
  using assms
proof (induction ks arbitrary: xs h)
  case (Cons i ks)
  have i: "i < length xs" using Cons.prems by simp
  let ?xs = "xs[i := None]" and ?h = "kfree (xs ! i) h"
  obtain xs' h' where r: "foldE free_slot ks (?xs, ?h) = Inr (xs', h')" "length xs' = length xs"
    "quota h' + in_use xs' = quota ?h + in_use ?xs" "\<forall>j. xs' ! j = (if j \<in> set ks then None else ?xs ! j)"
    using Cons.IH [of ?xs ?h] Cons.prems by auto
  have "quota h' + in_use xs' = quota h + in_use xs" using r(3) in_use_set(2) [OF i] by (simp add: quota_kfree)
  moreover have "foldE free_slot (i # ks) (xs, h) = Inr (xs', h')" using i r(1) by (simp add: free_slot_def arr_get_def arr_set_def)
  ultimately show ?case using r(2,4) i by (auto simp: nth_list_update)
qed auto

section \<open>The queues of a card\<close>

text \<open>The memory a card's structures hold, apart from that of its rings.\<close>

definition held_mem :: "igb_adapter \<Rightarrow> nat" where
  "held_mem a = in_use (tx_rings a) + in_use (rx_rings a) + in_use (q_vector a) + (if msix_entries a = None then 0 else 1)"

text \<open>Rings and vectors only where the counters say.\<close>

definition arrays_ok :: "igb_adapter \<Rightarrow> bool" where
  "arrays_ok a \<longleftrightarrow> length (tx_rings a) = 16 \<and> length (rx_rings a) = 16 \<and> length (q_vector a) = 8 \<and>
     num_tx_queues a \<le> 16 \<and> num_rx_queues a \<le> 16 \<and> num_q_vectors a \<le> 8 \<and>
     (\<forall>i. num_tx_queues a \<le> i \<and> i < 16 \<longrightarrow> tx_rings a ! i = None) \<and>
     (\<forall>i. num_rx_queues a \<le> i \<and> i < 16 \<longrightarrow> rx_rings a ! i = None) \<and>
     (\<forall>i. num_q_vectors a \<le> i \<and> i < 8 \<longrightarrow> q_vector a ! i = None)"

text \<open>What stays the same while queues come and go.\<close>

definition same_card :: "igb_adapter \<Rightarrow> igb_adapter \<Rightarrow> bool" where
  "same_card a b \<longleftrightarrow> ig_addr b = ig_addr a \<and> hw_addr b = hw_addr a \<and> ig_mac_type b = ig_mac_type a \<and> ig_mac b = ig_mac a \<and>
     multi_tx_table b = multi_tx_table a \<and> tx_ring_count b = tx_ring_count a \<and> rx_ring_count b = rx_ring_count a \<and>
     rss_queues b = rss_queues a \<and> vfs_allocated_count b = vfs_allocated_count a"

text \<open>Falling back to one queue changes the number of queues, too.\<close>

definition same_dev :: "igb_adapter \<Rightarrow> igb_adapter \<Rightarrow> bool" where
  "same_dev a b \<longleftrightarrow> ig_addr b = ig_addr a \<and> hw_addr b = hw_addr a \<and> ig_mac_type b = ig_mac_type a \<and> ig_mac b = ig_mac a \<and>
     multi_tx_table b = multi_tx_table a \<and> tx_ring_count b = tx_ring_count a \<and> rx_ring_count b = rx_ring_count a"

lemma same_card_refl [simp]: "same_card a a"
  by (simp add: same_card_def)

lemma same_card_trans: "same_card a b \<Longrightarrow> same_card b c \<Longrightarrow> same_card a c"
  by (simp add: same_card_def)

lemma free_queues_ok:
  assumes "arrays_ok a"
  shows "\<exists>b h'. igb_free_queues a h = Inr (b, h') \<and> arrays_ok b \<and> same_card a b \<and> quota h' + held_mem b = quota h + held_mem a \<and>
    in_use (tx_rings b) = 0 \<and> in_use (rx_rings b) = 0 \<and> num_tx_queues b = 0 \<and> num_rx_queues b = 0 \<and>
    q_vector b = q_vector a \<and> num_q_vectors b = num_q_vectors a \<and> msix_entries b = msix_entries a"
proof -
  obtain tx h1 where tx: "foldE free_slot [0..<num_tx_queues a] (tx_rings a, h) = Inr (tx, h1)" "length tx = 16"
    "quota h1 + in_use tx = quota h + in_use (tx_rings a)" "\<forall>j. tx ! j = (if j < num_tx_queues a then None else tx_rings a ! j)"
    using free_slots_spec [of "[0..<num_tx_queues a]" "tx_rings a" h] assms by (auto simp: arrays_ok_def)
  obtain rx h2 where rx: "foldE free_slot [0..<num_rx_queues a] (rx_rings a, h1) = Inr (rx, h2)" "length rx = 16"
    "quota h2 + in_use rx = quota h1 + in_use (rx_rings a)" "\<forall>j. rx ! j = (if j < num_rx_queues a then None else rx_rings a ! j)"
    using free_slots_spec [of "[0..<num_rx_queues a]" "rx_rings a" h1] assms by (auto simp: arrays_ok_def)
  have none: "j < 16 \<Longrightarrow> tx ! j = None" "j < 16 \<Longrightarrow> rx ! j = None" for j
    using tx(4) rx(4) assms by (auto simp: arrays_ok_def)
  then have "in_use tx = 0" "in_use rx = 0" using tx(2) rx(2) by (auto intro: in_use_none)
  then show ?thesis using tx(1-3) rx(1-3) none assms
    by (auto simp: igb_free_queues_def arrays_ok_def same_card_def held_mem_def)
qed

lemma free_q_vectors_ok:
  assumes "arrays_ok a"
  shows "\<exists>b h'. igb_free_q_vectors a h = Inr (b, h') \<and> arrays_ok b \<and> same_card a b \<and> quota h' + held_mem b = quota h + held_mem a \<and>
    in_use (q_vector b) = 0 \<and> tx_rings b = tx_rings a \<and> rx_rings b = rx_rings a \<and> num_tx_queues b = num_tx_queues a \<and>
    num_rx_queues b = num_rx_queues a \<and> msix_entries b = msix_entries a"
proof -
  obtain vs h1 where vs: "foldE free_slot [0..<num_q_vectors a] (q_vector a, h) = Inr (vs, h1)" "length vs = 8"
    "quota h1 + in_use vs = quota h + in_use (q_vector a)" "\<forall>j. vs ! j = (if j < num_q_vectors a then None else q_vector a ! j)"
    using free_slots_spec [of "[0..<num_q_vectors a]" "q_vector a" h] assms by (auto simp: arrays_ok_def)
  have "j < 8 \<Longrightarrow> vs ! j = None" for j using vs(4) assms by (auto simp: arrays_ok_def)
  moreover from this have "in_use vs = 0" using vs(2) by (auto intro: in_use_none)
  ultimately show ?thesis using vs(1-3) assms
    by (auto simp: igb_free_q_vectors_def arrays_ok_def same_card_def held_mem_def)
qed

lemma reset_capability_ok:
  assumes "igb_reset_interrupt_capability a h = (b, h')"
  shows "quota h' + held_mem b = quota h + held_mem a" "msix_entries b = None" "b = a\<lparr>msix_entries := None\<rparr>"
  using assms by (auto simp: igb_reset_interrupt_capability_def held_mem_def quota_kfree split: if_splits)

text \<open>Nothing is left after the interrupt scheme has been cleared.\<close>

lemma clear_scheme_ok:
  assumes ok: "arrays_ok a"
  shows "\<exists>b h'. igb_clear_interrupt_scheme a h = Inr (b, h') \<and> quota h' = quota h + held_mem a"
proof -
  obtain b h1 where b: "igb_free_queues a h = Inr (b, h1)" "arrays_ok b" "quota h1 + held_mem b = quota h + held_mem a"
    "in_use (tx_rings b) = 0" "in_use (rx_rings b) = 0" using free_queues_ok [OF ok] by blast
  obtain c h2 where c: "igb_free_q_vectors b h1 = Inr (c, h2)" "quota h2 + held_mem c = quota h1 + held_mem b" "in_use (q_vector c) = 0"
    "tx_rings c = tx_rings b" "rx_rings c = rx_rings b" using free_q_vectors_ok [OF b(2)] by blast
  obtain d h3 where d: "igb_reset_interrupt_capability c h2 = (d, h3)" by fastforce
  note r = reset_capability_ok [OF d]
  have "held_mem d = 0" using r(2,3) b(4,5) c(3-5) by (simp add: held_mem_def)
  then show ?thesis using b(1,3) c(1,2) d r(1) by (simp add: igb_clear_interrupt_scheme_def)
qed

lemma upd_rings_all:
  assumes "distinct ks" "\<And>i. i \<in> set ks \<Longrightarrow> i < length rs \<and> rs ! i \<noteq> None"
  shows "\<exists>rs'. foldE (\<lambda>i. upd_ring i (f i)) ks rs = Inr rs' \<and> length rs' = length rs \<and>
    (\<forall>j. rs' ! j = (if j \<in> set ks then map_option (f j) (rs ! j) else rs ! j))"
  using assms
proof (induction ks arbitrary: rs)
  case (Cons i ks)
  obtain r where i: "i < length rs" "rs ! i = Some r" using Cons.prems(2) by fastforce
  let ?rs = "rs[i := Some (f i r)]"
  have "distinct ks" "\<And>j. j \<in> set ks \<Longrightarrow> j < length ?rs \<and> ?rs ! j \<noteq> None" using Cons.prems by (auto simp: nth_list_update)
  from Cons.IH [OF this] obtain rs' where rs': "foldE (\<lambda>i. upd_ring i (f i)) ks ?rs = Inr rs'" "length rs' = length rs"
    "\<forall>j. rs' ! j = (if j \<in> set ks then map_option (f j) (?rs ! j) else ?rs ! j)" by auto
  have "i \<notin> set ks" using Cons.prems(1) by simp
  moreover have "foldE (\<lambda>i. upd_ring i (f i)) (i # ks) rs = Inr rs'" using i rs'(1) by (simp add: upd_ring_def arr_get_def)
  ultimately show ?case using rs'(2,3) i by (intro exI [of _ rs']) (auto simp: nth_list_update)
qed simp

text \<open>Rings without memory, registered under their number.\<close>

definition idle_ring :: "u16 \<Rightarrow> nat \<Rightarrow> igb_ring \<Rightarrow> bool" where
  "idle_ring c i r \<longleftrightarrow> rg_count r = c \<and> unat (reg_idx r) = i \<and> buffer_info r = None \<and> rg_desc r = None"

definition rings_idle :: "u16 \<Rightarrow> nat \<Rightarrow> rings \<Rightarrow> bool" where
  "rings_idle c n rs \<longleftrightarrow> n \<le> length rs \<and> (\<forall>i < n. \<exists>r. rs ! i = Some r \<and> idle_ring c i r)"

lemma in_use_same: "length xs = length ys \<Longrightarrow> (\<And>i. i < length xs \<Longrightarrow> (xs ! i = None) = (ys ! i = None)) \<Longrightarrow> in_use xs = in_use ys"
proof -
  have "list_all2 (\<lambda>x y. (x = None) = (y = None)) xs ys \<Longrightarrow> in_use xs = in_use ys"
    by (induction rule: list_all2_induct) (simp_all add: in_use_Cons del: not_None_eq)
  then show "length xs = length ys \<Longrightarrow> (\<And>i. i < length xs \<Longrightarrow> (xs ! i = None) = (ys ! i = None)) \<Longrightarrow> in_use xs = in_use ys"
    by (simp add: list_all2_conv_all_nth)
qed

lemma register_rings:
  assumes n: "n \<le> length rs" "n \<le> 16" and rs: "\<And>i. i < n \<Longrightarrow> \<exists>r. rs ! i = Some r \<and> rg_count r = c \<and> buffer_info r = None \<and> rg_desc r = None"
  shows "\<exists>rs'. set_reg_idx (\<lambda>i. 0 + of_nat i) 0 n rs = Inr rs' \<and> length rs' = length rs \<and> rings_idle c n rs' \<and> in_use rs' = in_use rs \<and>
    (\<forall>j. n \<le> j \<longrightarrow> rs' ! j = rs ! j)"
proof -
  let ?f = "\<lambda>i r. r\<lparr>reg_idx := ucast (0 + of_nat i :: u32)\<rparr>"
  have "distinct [0..<n]" "\<And>i. i \<in> set [0..<n] \<Longrightarrow> i < length rs \<and> rs ! i \<noteq> None" using n rs by fastforce+
  from upd_rings_all [OF this, of ?f] obtain rs' where rs': "foldE (\<lambda>i. upd_ring i (?f i)) [0..<n] rs = Inr rs'" "length rs' = length rs"
    "\<forall>j. rs' ! j = (if j \<in> set [0..<n] then map_option (?f j) (rs ! j) else rs ! j)" by blast
  have "unat (ucast (of_nat i :: u32) :: u8) = i" if "i < n" for i
    using that n(2) by (simp add: unsigned_ucast_eq unsigned_of_nat take_bit_nat_eq_self)
  then have "rings_idle c n rs'" using rs'(2,3) rs n(1) by (fastforce simp: rings_idle_def idle_ring_def)
  moreover have "in_use rs' = in_use rs" by (rule in_use_same) (use rs'(2,3) in auto)
  ultimately show ?thesis using rs' by (auto simp: set_reg_idx_def)
qed

lemma cache_register_ok:
  assumes ok: "arrays_ok a" and vf: "vfs_allocated_count a = 0"
    and tx: "\<And>i. i < num_tx_queues a \<Longrightarrow> tx_rings a ! i = Some (new_tx_ring a i)"
    and rx: "\<And>i. i < num_rx_queues a \<Longrightarrow> rx_rings a ! i = Some (new_rx_ring a i)"
  shows "\<exists>b tx' rx'. igb_cache_ring_register a = Inr b \<and> b = a\<lparr>rx_rings := rx', tx_rings := tx'\<rparr> \<and> arrays_ok b \<and> held_mem b = held_mem a \<and>
    rings_idle (tx_ring_count a) (num_tx_queues a) tx' \<and> rings_idle (rx_ring_count a) (num_rx_queues a) rx'"
proof -
  obtain tx' where t: "set_reg_idx (\<lambda>i. 0 + of_nat i) 0 (num_tx_queues a) (tx_rings a) = Inr tx'" "length tx' = length (tx_rings a)"
    "rings_idle (tx_ring_count a) (num_tx_queues a) tx'" "in_use tx' = in_use (tx_rings a)" "\<forall>j. num_tx_queues a \<le> j \<longrightarrow> tx' ! j = tx_rings a ! j"
    using register_rings [of "num_tx_queues a" "tx_rings a" "tx_ring_count a"] ok tx by (auto simp: arrays_ok_def new_tx_ring_def zero_ring_def)
  obtain rx' where r: "set_reg_idx (\<lambda>i. 0 + of_nat i) 0 (num_rx_queues a) (rx_rings a) = Inr rx'" "length rx' = length (rx_rings a)"
    "rings_idle (rx_ring_count a) (num_rx_queues a) rx'" "in_use rx' = in_use (rx_rings a)" "\<forall>j. num_rx_queues a \<le> j \<longrightarrow> rx' ! j = rx_rings a ! j"
    using register_rings [of "num_rx_queues a" "rx_rings a" "rx_ring_count a"] ok rx by (auto simp: arrays_ok_def new_rx_ring_def zero_ring_def)
  have "igb_cache_ring_register a = Inr (a\<lparr>rx_rings := rx', tx_rings := tx'\<rparr>)"
    using t(1) r(1) by (simp add: igb_cache_ring_register_def vf) (simp add: set_reg_idx_def)
  moreover have "arrays_ok (a\<lparr>rx_rings := rx', tx_rings := tx'\<rparr>)" using ok t(2,5) r(2,5) by (auto simp: arrays_ok_def)
  ultimately show ?thesis using t(3,4) r(3,4) by (auto simp: held_mem_def)
qed

text \<open>Allocating the queues: all of them with their registers, or none.\<close>

lemma alloc_queues_ok:
  assumes ok: "arrays_ok a" and none: "in_use (tx_rings a) = 0" "in_use (rx_rings a) = 0" and vf: "vfs_allocated_count a = 0"
  shows "\<exists>err b h'. igb_alloc_queues a h = Inr (err, b, h') \<and> arrays_ok b \<and> same_card a b \<and> quota h' + held_mem b = quota h + held_mem a \<and>
    q_vector b = q_vector a \<and> num_q_vectors b = num_q_vectors a \<and> msix_entries b = msix_entries a \<and>
    (if err = 0 then num_tx_queues b = num_tx_queues a \<and> num_rx_queues b = num_rx_queues a \<and>
       rings_idle (tx_ring_count a) (num_tx_queues a) (tx_rings b) \<and> rings_idle (rx_ring_count a) (num_rx_queues a) (rx_rings b)
     else err = - ENOMEM \<and> in_use (tx_rings b) = 0 \<and> in_use (rx_rings b) = 0 \<and> quota h < num_tx_queues a + num_rx_queues a)"
proof -
  have all_none: "xs ! i = None" if "in_use xs = 0" "i < length xs" for xs :: rings and i
    using that by (auto simp: in_use_def filter_empty_conv)
  have len: "length (tx_rings a) = 16" "length (rx_rings a) = 16" "num_tx_queues a \<le> 16" "num_rx_queues a \<le> 16" using ok by (simp_all add: arrays_ok_def)
  have e: "\<And>i. i \<in> set [0..<num_tx_queues a] \<Longrightarrow> i < length (tx_rings a) \<and> tx_rings a ! i = None"
    "\<And>i. i \<in> set [0..<num_rx_queues a] \<Longrightarrow> i < length (rx_rings a) \<and> rx_rings a ! i = None"
    using len all_none [OF none(1)] all_none [OF none(2)] by auto
  obtain k1 tx h1 where tx: "alloc_slots (new_tx_ring a) [0..<num_tx_queues a] (tx_rings a) h = Inr (k1, tx, h1)" "length tx = 16"
    "quota h1 + in_use tx = quota h + in_use (tx_rings a)" "\<forall>j. num_tx_queues a \<le> j \<longrightarrow> tx ! j = tx_rings a ! j"
    "k1 \<longrightarrow> (\<forall>j < num_tx_queues a. tx ! j = Some (new_tx_ring a j))" "\<not> k1 \<longrightarrow> quota h < num_tx_queues a"
    using alloc_slots_spec [where ks = "[0..<num_tx_queues a]" and xs = "tx_rings a" and new = "new_tx_ring a" and h = h, OF distinct_upt e(1)] len by auto
  let ?a = "a\<lparr>tx_rings := tx\<rparr>"
  have a1: "arrays_ok ?a" using ok tx(2,4) by (simp add: arrays_ok_def)
  show ?thesis
  proof (cases k1)
    case False
    obtain b h' where b: "igb_free_queues ?a h1 = Inr (b, h')" "arrays_ok b" "same_card ?a b" "quota h' + held_mem b = quota h1 + held_mem ?a"
      "in_use (tx_rings b) = 0" "in_use (rx_rings b) = 0" "q_vector b = q_vector ?a" "num_q_vectors b = num_q_vectors ?a" "msix_entries b = msix_entries ?a"
      using free_queues_ok [OF a1, of h1] by blast
    then have "igb_alloc_queues a h = Inr (- ENOMEM, b, h')" using tx(1) False by (simp add: igb_alloc_queues_def Let_def)
    moreover have "quota h' + held_mem b = quota h + held_mem a" using b(4) tx(3) by (simp add: held_mem_def)
    moreover have "same_card a b" using b(3) by (simp add: same_card_def)
    ultimately show ?thesis using b(2,5-9) tx(6) False by (auto simp: ENOMEM_def)
  next
    case True
    have new: "new_rx_ring ?a = new_rx_ring a" by (simp add: new_rx_ring_def fun_eq_iff)
    obtain k2 rx h2 where rx: "alloc_slots (new_rx_ring a) [0..<num_rx_queues a] (rx_rings a) h1 = Inr (k2, rx, h2)" "length rx = 16"
      "quota h2 + in_use rx = quota h1 + in_use (rx_rings a)" "\<forall>j. num_rx_queues a \<le> j \<longrightarrow> rx ! j = rx_rings a ! j"
      "k2 \<longrightarrow> (\<forall>j < num_rx_queues a. rx ! j = Some (new_rx_ring a j))" "\<not> k2 \<longrightarrow> quota h1 < num_rx_queues a"
      using alloc_slots_spec [where ks = "[0..<num_rx_queues a]" and xs = "rx_rings a" and new = "new_rx_ring a" and h = h1, OF distinct_upt e(2)] len by auto
    let ?b = "?a\<lparr>rx_rings := rx\<rparr>"
    have a2: "arrays_ok ?b" using a1 rx(2,4) by (simp add: arrays_ok_def)
    have q: "quota h2 + held_mem ?b = quota h + held_mem a" using tx(3) rx(3) by (simp add: held_mem_def)
    show ?thesis
    proof (cases k2)
      case False
      obtain b h' where b: "igb_free_queues ?b h2 = Inr (b, h')" "arrays_ok b" "same_card ?b b" "quota h' + held_mem b = quota h2 + held_mem ?b"
        "in_use (tx_rings b) = 0" "in_use (rx_rings b) = 0" "q_vector b = q_vector ?b" "num_q_vectors b = num_q_vectors ?b" "msix_entries b = msix_entries ?b"
        using free_queues_ok [OF a2, of h2] by blast
      then have "igb_alloc_queues a h = Inr (- ENOMEM, b, h')" using tx(1) rx(1) True False by (simp add: igb_alloc_queues_def new Let_def)
      moreover have "same_card a b" using b(3) by (simp add: same_card_def)
      moreover have "in_use tx \<le> num_tx_queues a" by (rule in_use_le) (use tx(2,4) e(1) all_none [OF none(1)] len(1) in auto)
      then have "quota h < num_tx_queues a + num_rx_queues a" using tx(3) rx(6) False none(1) by simp
      ultimately show ?thesis using b(2,4-9) q by (auto simp: ENOMEM_def)
    next
      case k2: True
      have "\<And>i. i < num_tx_queues ?b \<Longrightarrow> tx_rings ?b ! i = Some (new_tx_ring ?b i)" "\<And>i. i < num_rx_queues ?b \<Longrightarrow> rx_rings ?b ! i = Some (new_rx_ring ?b i)"
        using tx(5) rx(5) True k2 by (simp_all add: new_tx_ring_def new_rx_ring_def)
      from cache_register_ok [OF a2 _ this] vf obtain tx' rx' where c: "igb_cache_ring_register ?b = Inr (?b\<lparr>rx_rings := rx', tx_rings := tx'\<rparr>)"
        "arrays_ok (?b\<lparr>rx_rings := rx', tx_rings := tx'\<rparr>)" "held_mem (?b\<lparr>rx_rings := rx', tx_rings := tx'\<rparr>) = held_mem ?b"
        "rings_idle (tx_ring_count a) (num_tx_queues a) tx'" "rings_idle (rx_ring_count a) (num_rx_queues a) rx'" by auto
      have "igb_alloc_queues a h = Inr (0, ?b\<lparr>rx_rings := rx', tx_rings := tx'\<rparr>, h2)"
        using tx(1) rx(1) True k2 c(1) by (simp add: igb_alloc_queues_def new Let_def)
      then show ?thesis using c(2-5) q
        by (intro exI [of _ "0 :: int"] exI [of _ "?b\<lparr>rx_rings := rx', tx_rings := tx'\<rparr>"] exI [of _ h2]) (simp add: same_card_def)
    qed
  qed
qed

section \<open>Vectors\<close>

lemma all_none: "in_use xs = 0 \<Longrightarrow> i < length xs \<Longrightarrow> xs ! i = None"
  by (auto simp: in_use_def filter_empty_conv)

lemma alloc_q_vectors_ok:
  assumes ok: "arrays_ok a" and none: "in_use (q_vector a) = 0"
  shows "\<exists>err b h'. igb_alloc_q_vectors a h = Inr (err, b, h') \<and> arrays_ok b \<and> same_card a b \<and> quota h' + held_mem b = quota h + held_mem a \<and>
    tx_rings b = tx_rings a \<and> rx_rings b = rx_rings a \<and> num_tx_queues b = num_tx_queues a \<and> num_rx_queues b = num_rx_queues a \<and>
    msix_entries b = msix_entries a \<and> vfs_allocated_count b = vfs_allocated_count a \<and>
    (if err = 0 then num_q_vectors b = num_q_vectors a \<and> (\<forall>j < num_q_vectors a. q_vector b ! j \<noteq> None)
     else err = - ENOMEM \<and> in_use (q_vector b) = 0 \<and> quota h < num_q_vectors a)"
proof -
  have len: "length (q_vector a) = 8" "num_q_vectors a \<le> 8" using ok by (simp_all add: arrays_ok_def)
  have e: "i \<in> set [0..<num_q_vectors a] \<Longrightarrow> i < length (q_vector a) \<and> q_vector a ! i = None" for i
    using len all_none [OF none] by auto
  obtain k vs h1 where vs: "alloc_slots (\<lambda>_. new_q_vector a) [0..<num_q_vectors a] (q_vector a) h = Inr (k, vs, h1)" "length vs = 8"
    "quota h1 + in_use vs = quota h + in_use (q_vector a)" "\<forall>j. num_q_vectors a \<le> j \<longrightarrow> vs ! j = q_vector a ! j"
    "k \<longrightarrow> (\<forall>j < num_q_vectors a. vs ! j = Some (new_q_vector a))" "\<not> k \<longrightarrow> quota h < num_q_vectors a"
    using alloc_slots_spec [where ks = "[0..<num_q_vectors a]" and xs = "q_vector a" and new = "\<lambda>_. new_q_vector a" and h = h, OF distinct_upt e] len by auto
  let ?a = "a\<lparr>q_vector := vs\<rparr>"
  have a1: "arrays_ok ?a" using ok vs(2,4) by (simp add: arrays_ok_def)
  have q: "quota h1 + held_mem ?a = quota h + held_mem a" using vs(3) by (simp add: held_mem_def)
  show ?thesis
  proof (cases k)
    case True
    then have "igb_alloc_q_vectors a h = Inr (0, ?a, h1)" using vs(1) by (simp add: igb_alloc_q_vectors_def Let_def)
    then show ?thesis using a1 q vs(5) True by (intro exI [of _ "0 :: int"] exI [of _ ?a] exI [of _ h1]) (simp add: same_card_def)
  next
    case False
    obtain b h' where b: "igb_free_q_vectors ?a h1 = Inr (b, h')" "arrays_ok b" "same_card ?a b" "quota h' + held_mem b = quota h1 + held_mem ?a"
      "in_use (q_vector b) = 0" "tx_rings b = tx_rings ?a" "rx_rings b = rx_rings ?a" "num_tx_queues b = num_tx_queues ?a"
      "num_rx_queues b = num_rx_queues ?a" "msix_entries b = msix_entries ?a" using free_q_vectors_ok [OF a1, of h1] by blast
    have "vfs_allocated_count b = vfs_allocated_count a" using b(1) by (auto simp: igb_free_q_vectors_def fault_simps)
    moreover have "igb_alloc_q_vectors a h = Inr (- ENOMEM, b, h')" using vs(1) b(1) False by (simp add: igb_alloc_q_vectors_def Let_def)
    moreover have "same_card a b" using b(3) by (simp add: same_card_def)
    ultimately show ?thesis using b(2,4-10) q vs(6) False by (auto simp: ENOMEM_def)
  qed
qed

text \<open>Mapping rings to vectors changes nothing else.\<close>

definition same_rings :: "rings \<Rightarrow> rings \<Rightarrow> bool" where
  "same_rings rs rs' \<longleftrightarrow> length rs' = length rs \<and> (\<forall>j. \<exists>v. rs' ! j = map_option (\<lambda>r. r\<lparr>rg_vector := v\<rparr>) (rs ! j))"

definition mapped :: "igb_adapter \<Rightarrow> igb_adapter \<Rightarrow> bool" where
  "mapped a b \<longleftrightarrow> (\<exists>vs tx rx. b = a\<lparr>q_vector := vs, tx_rings := tx, rx_rings := rx\<rparr> \<and> same_rings (tx_rings a) tx \<and> same_rings (rx_rings a) rx \<and>
     length vs = length (q_vector a) \<and> (\<forall>j. (vs ! j = None) = (q_vector a ! j = None)))"

lemma keep_ring: "\<exists>v. x = map_option (\<lambda>r. r\<lparr>rg_vector := v\<rparr>) x"
  by (cases x) (auto intro: exI [of _ "rg_vector (the x)"])

lemma same_rings_refl [simp]: "same_rings rs rs"
  unfolding same_rings_def using keep_ring by blast

lemma same_rings_trans: "same_rings a b \<Longrightarrow> same_rings b c \<Longrightarrow> same_rings a c"
proof -
  assume 1: "same_rings a b" and 2: "same_rings b c"
  have "\<exists>v. c ! j = map_option (\<lambda>r. r\<lparr>rg_vector := v\<rparr>) (a ! j)" for j
  proof -
    obtain v w where "b ! j = map_option (\<lambda>r. r\<lparr>rg_vector := v\<rparr>) (a ! j)" "c ! j = map_option (\<lambda>r. r\<lparr>rg_vector := w\<rparr>) (b ! j)"
      using 1 2 unfolding same_rings_def by metis
    then show ?thesis by (intro exI [of _ w]) (cases "a ! j"; simp)
  qed
  then show ?thesis using 1 2 by (simp add: same_rings_def)
qed

lemma same_rings_set: "rs ! i = Some r \<Longrightarrow> same_rings rs (rs[i := Some (r\<lparr>rg_vector := v\<rparr>)])"
proof -
  assume r: "rs ! i = Some r"
  have "\<exists>w. rs[i := Some (r\<lparr>rg_vector := v\<rparr>)] ! j = map_option (\<lambda>r. r\<lparr>rg_vector := w\<rparr>) (rs ! j)" for j
  proof (cases "j = i \<and> i < length rs")
    case True
    then show ?thesis using r by auto
  next
    case False
    then have "rs[i := Some (r\<lparr>rg_vector := v\<rparr>)] ! j = rs ! j" by (cases "i < length rs") (simp_all add: list_update_beyond)
    then show ?thesis using keep_ring by metis
  qed
  then show ?thesis by (simp add: same_rings_def)
qed

lemma same_ringsD:
  assumes "same_rings rs rs'"
  shows "(rs' ! j = None) = (rs ! j = None)" "in_use rs' = in_use rs" "rings_idle c n rs' = rings_idle c n rs" "length rs' = length rs"
proof -
  have at: "\<exists>v. rs' ! j = map_option (\<lambda>r. r\<lparr>rg_vector := v\<rparr>) (rs ! j)" for j using assms unfolding same_rings_def by blast
  show n: "(rs' ! j = None) = (rs ! j = None)" for j using at [of j] by auto
  show len: "length rs' = length rs" using assms by (simp add: same_rings_def)
  show "in_use rs' = in_use rs" by (rule in_use_same) (use n len in auto)
  have "(\<exists>r. rs' ! j = Some r \<and> idle_ring c j r) = (\<exists>r. rs ! j = Some r \<and> idle_ring c j r)" for j
    using at [of j] by (cases "rs ! j") (auto simp: idle_ring_def)
  then show "rings_idle c n rs' = rings_idle c n rs" by (simp add: rings_idle_def len)
qed

lemma mapped_refl: "mapped a a"
  unfolding mapped_def by (intro exI [of _ "q_vector a"] exI [of _ "tx_rings a"] exI [of _ "rx_rings a"]) simp

lemma mapped_trans: "mapped a b \<Longrightarrow> mapped b c \<Longrightarrow> mapped a c"
proof -
  assume "mapped a b" "mapped b c"
  then obtain vs tx rx vs' tx' rx' where
    "b = a\<lparr>q_vector := vs, tx_rings := tx, rx_rings := rx\<rparr>" "same_rings (tx_rings a) tx" "same_rings (rx_rings a) rx"
    "length vs = length (q_vector a)" "\<And>j. (vs ! j = None) = (q_vector a ! j = None)"
    "c = b\<lparr>q_vector := vs', tx_rings := tx', rx_rings := rx'\<rparr>" "same_rings (tx_rings b) tx'" "same_rings (rx_rings b) rx'"
    "length vs' = length (q_vector b)" "\<And>j. (vs' ! j = None) = (q_vector b ! j = None)" unfolding mapped_def by blast
  then show ?thesis unfolding mapped_def using same_rings_trans
    by (intro exI [of _ vs'] exI [of _ tx'] exI [of _ rx']) (auto simp del: not_None_eq)
qed

lemma mappedD:
  assumes "mapped a b"
  shows "arrays_ok b = arrays_ok a" "held_mem b = held_mem a" "same_card a b"
    "rings_idle c n (tx_rings b) = rings_idle c n (tx_rings a)" "rings_idle c n (rx_rings b) = rings_idle c n (rx_rings a)"
    "num_tx_queues b = num_tx_queues a" "num_rx_queues b = num_rx_queues a" "num_q_vectors b = num_q_vectors a"
    "(tx_rings b ! j = None) = (tx_rings a ! j = None)" "(rx_rings b ! j = None) = (rx_rings a ! j = None)"
    "(q_vector b ! j = None) = (q_vector a ! j = None)" "msix_entries b = msix_entries a"
proof -
  obtain vs tx rx where b: "b = a\<lparr>q_vector := vs, tx_rings := tx, rx_rings := rx\<rparr>" "same_rings (tx_rings a) tx" "same_rings (rx_rings a) rx"
    "length vs = length (q_vector a)" "\<And>j. (vs ! j = None) = (q_vector a ! j = None)" using assms unfolding mapped_def by blast
  note t = same_ringsD [OF b(2)] and r = same_ringsD [OF b(3)]
  have "in_use vs = in_use (q_vector a)" by (rule in_use_same) (use b(4,5) in auto)
  then show "held_mem b = held_mem a" using b(1) t(2) r(2) by (simp add: held_mem_def)
  show "arrays_ok b = arrays_ok a" using b(1,4,5) t(1,4) r(1,4) by (simp add: arrays_ok_def)
  show "same_card a b" "num_tx_queues b = num_tx_queues a" "num_rx_queues b = num_rx_queues a" "num_q_vectors b = num_q_vectors a"
    "msix_entries b = msix_entries a" by (simp_all add: b(1) same_card_def)
  show "(tx_rings b ! j = None) = (tx_rings a ! j = None)" "(rx_rings b ! j = None) = (rx_rings a ! j = None)"
    "(q_vector b ! j = None) = (q_vector a ! j = None)" using b(1,5) t(1) r(1) by simp_all
  show "rings_idle c n (tx_rings b) = rings_idle c n (tx_rings a)" "rings_idle c n (rx_rings b) = rings_idle c n (rx_rings a)"
    using b(1) t(3) r(3) by simp_all
qed

lemma map_one_ok:
  assumes ok: "arrays_ok a" and v: "v < 8" "q_vector a ! v \<noteq> None"
  shows "i < 16 \<Longrightarrow> rx_rings a ! i \<noteq> None \<Longrightarrow> \<exists>b. igb_map_rx_ring_to_vector i v a = Inr b \<and> mapped a b"
    "i < 16 \<Longrightarrow> tx_rings a ! i \<noteq> None \<Longrightarrow> \<exists>b. igb_map_tx_ring_to_vector i v a = Inr b \<and> mapped a b"
proof -
  obtain q where q: "q_vector a ! v = Some q" using v(2) by blast
  have len: "length (q_vector a) = 8" "length (tx_rings a) = 16" "length (rx_rings a) = 16" using ok by (simp_all add: arrays_ok_def)
  let ?vs = "\<lambda>q. (q_vector a)[v := Some q]"
  have vs: "length (?vs x) = length (q_vector a)" "((?vs x) ! j = None) = (q_vector a ! j = None)" for x j
    using q v(1) len by (auto simp: nth_list_update)
  {
    assume i: "i < 16" "rx_rings a ! i \<noteq> None"
    then obtain r where r: "rx_rings a ! i = Some r" by blast
    let ?b = "a\<lparr>q_vector := ?vs (q\<lparr>qv_rx_ring := Some i, itr_val := start_itr (rx_itr_setting a)\<rparr>), rx_rings := (rx_rings a)[i := Some (r\<lparr>rg_vector := Some v\<rparr>)]\<rparr>"
    have "igb_map_rx_ring_to_vector i v a = Inr ?b"
      using q r v(1) i(1) len by (cases a) (simp add: igb_map_rx_ring_to_vector_def upd_vector_def upd_ring_def arr_get_def)
    moreover have "mapped a ?b" unfolding mapped_def using vs same_rings_set [OF r]
      by (intro exI [of _ "?vs (q\<lparr>qv_rx_ring := Some i, itr_val := start_itr (rx_itr_setting a)\<rparr>)"] exI [of _ "tx_rings a"]
          exI [of _ "(rx_rings a)[i := Some (r\<lparr>rg_vector := Some v\<rparr>)]"]) simp
    ultimately show "\<exists>b. igb_map_rx_ring_to_vector i v a = Inr b \<and> mapped a b" by blast
  }
  {
    assume i: "i < 16" "tx_rings a ! i \<noteq> None"
    then obtain r where r: "tx_rings a ! i = Some r" by blast
    let ?b = "a\<lparr>q_vector := ?vs (q\<lparr>qv_tx_ring := Some i, itr_val := start_itr (tx_itr_setting a)\<rparr>), tx_rings := (tx_rings a)[i := Some (r\<lparr>rg_vector := Some v\<rparr>)]\<rparr>"
    have "igb_map_tx_ring_to_vector i v a = Inr ?b"
      using q r v(1) i(1) len by (cases a) (simp add: igb_map_tx_ring_to_vector_def upd_vector_def upd_ring_def arr_get_def)
    moreover have "mapped a ?b" unfolding mapped_def using vs same_rings_set [OF r]
      by (intro exI [of _ "?vs (q\<lparr>qv_tx_ring := Some i, itr_val := start_itr (tx_itr_setting a)\<rparr>)"] exI [of _ "(tx_rings a)[i := Some (r\<lparr>rg_vector := Some v\<rparr>)]"]
          exI [of _ "rx_rings a"]) simp
    ultimately show "\<exists>b. igb_map_tx_ring_to_vector i v a = Inr b \<and> mapped a b" by blast
  }
qed

text \<open>Enough vectors: one for each ring or, with queue pairs, one for each queue.\<close>

lemma map_all_ok:
  assumes ok: "arrays_ok a" and nv: "num_rx_queues a \<le> num_q_vectors a" "num_tx_queues a \<le> num_q_vectors a"
    and vs: "\<And>j. j < num_q_vectors a \<Longrightarrow> q_vector a ! j \<noteq> None"
    and tx: "\<And>i. i < num_tx_queues a \<Longrightarrow> tx_rings a ! i \<noteq> None" and rx: "\<And>i. i < num_rx_queues a \<Longrightarrow> rx_rings a ! i \<noteq> None"
  shows "\<exists>b. igb_map_ring_to_vector a = Inr (0, b) \<and> mapped a b"
proof -
  let ?rx = "num_rx_queues a" and ?tx = "num_tx_queues a" and ?nv = "num_q_vectors a"
  have n: "?rx \<le> 16" "?tx \<le> 16" "?nv \<le> 8" using ok by (simp_all add: arrays_ok_def)
  have one: "v < ?nv \<Longrightarrow> i < ?rx \<Longrightarrow> \<exists>c. igb_map_rx_ring_to_vector i v b = Inr c \<and> mapped a c"
    "v < ?nv \<Longrightarrow> i < ?tx \<Longrightarrow> \<exists>c. igb_map_tx_ring_to_vector i v b = Inr c \<and> mapped a c" if m: "mapped a b" for b v i
    using map_one_ok [of b v i] mappedD(1,9-11) [OF m] mapped_trans [OF m] ok vs tx rx n by (metis (no_types) order_less_le_trans)+
  show ?thesis
  proof (cases "?rx + ?tx \<le> ?nv")
    case True
    obtain b where b: "foldE (\<lambda>i. igb_map_rx_ring_to_vector i i) [0..<?rx] a = Inr b" "mapped a b"
      using foldE_invariant [where I = "mapped a" and xs = "[0..<?rx]" and f = "\<lambda>i. igb_map_rx_ring_to_vector i i", OF mapped_refl] one(1) True by auto
    obtain c where c: "foldE (\<lambda>i. igb_map_tx_ring_to_vector i (?rx + i)) [0..<?tx] b = Inr c" "mapped a c"
      using foldE_invariant [where I = "mapped a" and xs = "[0..<?tx]" and f = "\<lambda>i. igb_map_tx_ring_to_vector i (?rx + i)", OF b(2)] one(2) True by auto
    show ?thesis using b(1) c nv True by (simp add: igb_map_ring_to_vector_def Let_def)
  next
    case False
    let ?f = "\<lambda>i a. bindE (if i < ?tx then igb_map_tx_ring_to_vector i i a else Inr a) (igb_map_rx_ring_to_vector i i)"
    have step: "\<exists>c. ?f i b = Inr c \<and> mapped a c" if i: "i < ?rx" and m: "mapped a b" for i b
    proof -
      obtain d where d: "(if i < ?tx then igb_map_tx_ring_to_vector i i b else Inr b) = Inr d" "mapped a d"
        using one(2) [OF m, of i i] m nv i by (cases "i < ?tx") auto
      from one(1) [OF d(2), of i i] nv i obtain c where "igb_map_rx_ring_to_vector i i d = Inr c" "mapped a c" by auto
      then show ?thesis using d(1) by simp
    qed
    obtain b where b: "foldE ?f [0..<?rx] a = Inr b" "mapped a b"
      using foldE_invariant [where I = "mapped a" and xs = "[0..<?rx]" and f = ?f, OF mapped_refl] step by auto
    obtain c where c: "foldE (\<lambda>i. igb_map_tx_ring_to_vector i i) [?rx..<?tx] b = Inr c" "mapped a c"
      using foldE_invariant [where I = "mapped a" and xs = "[?rx..<?tx]" and f = "\<lambda>i. igb_map_tx_ring_to_vector i i", OF b(2)] one(2) nv by auto
    show ?thesis using b(1) c nv False by (simp add: igb_map_ring_to_vector_def Let_def)
  qed
qed

section \<open>The interrupt scheme\<close>

text \<open>A card that has \<open>q\<close> queues of each kind, none of whose rings has memory.\<close>

definition has_queues :: "nat \<Rightarrow> igb_adapter \<Rightarrow> bool" where
  "has_queues q a \<longleftrightarrow> arrays_ok a \<and> num_tx_queues a = q \<and> num_rx_queues a = q \<and> unat (rss_queues a) = q \<and> vfs_allocated_count a = 0 \<and>
     rings_idle (tx_ring_count a) q (tx_rings a) \<and> rings_idle (rx_ring_count a) q (rx_rings a)"

definition no_queues :: "igb_adapter \<Rightarrow> bool" where
  "no_queues a \<longleftrightarrow> arrays_ok a \<and> in_use (tx_rings a) = 0 \<and> in_use (rx_rings a) = 0 \<and> in_use (q_vector a) = 0 \<and> msix_entries a = None"

lemma no_queues_mem: "no_queues a \<Longrightarrow> held_mem a = 0"
  by (simp add: no_queues_def held_mem_def)

text \<open>The two outcomes: vectors for all queues, or one queue without MSI-X.\<close>

definition vectors_of :: "igb_adapter \<Rightarrow> nat" where
  "vectors_of a = unat (rss_queues a) + (if ig_flags a AND IGB_FLAG_QUEUE_PAIRS = 0 then unat (rss_queues a) else 0)"

definition all_queues :: "ptr \<Rightarrow> igb_adapter \<Rightarrow> igb_adapter" where
  "all_queues e a = a\<lparr>num_rx_queues := unat (rss_queues a), num_tx_queues := unat (rss_queues a), num_q_vectors := vectors_of a,
     msix_entries := Some e, real_num_tx_queues := unat (rss_queues a)\<rparr>"

definition one_queue :: "bool \<Rightarrow> igb_adapter \<Rightarrow> igb_adapter" where
  "one_queue msi a = a\<lparr>num_rx_queues := 1, num_tx_queues := 1, num_q_vectors := 1, msix_entries := None, vfs_allocated_count := 0, rss_queues := 1,
     ig_flags := ig_flags a OR IGB_FLAG_QUEUE_PAIRS OR (if msi then IGB_FLAG_HAS_MSI else 0), real_num_tx_queues := 1\<rparr>"

lemma set_capability_eq:
  "igb_set_interrupt_capability msix msi a h =
     (case malloc h of (None, h) \<Rightarrow> (one_queue msi a, h)
      | (Some e, h) \<Rightarrow> if msix (vectors_of a + 1) then (all_queues e a, h) else (one_queue msi a, mfree h))"
proof -
  obtain p h1 where m: "malloc h = (p, h1)" by fastforce
  let ?a = "a\<lparr>num_rx_queues := unat (rss_queues a), num_tx_queues := unat (rss_queues a)\<rparr>"
  have v: "num_rx_queues ?a + (if ig_flags ?a AND IGB_FLAG_QUEUE_PAIRS = 0 then num_tx_queues ?a else 0) = vectors_of a"
    by (simp add: vectors_of_def)
  show ?thesis
    unfolding igb_set_interrupt_capability_def Let_def v m prod.case
    by (cases p) (simp_all add: all_queues_def one_queue_def msi_only_def igb_reset_interrupt_capability_def kfree_def)
qed

lemma set_capability_ok:
  assumes no: "no_queues a" and vf: "vfs_allocated_count a = 0" and n: "0 < unat (rss_queues a)" "unat (rss_queues a) \<le> 8"
    and pairs: "4 < unat (rss_queues a) \<Longrightarrow> ig_flags a AND IGB_FLAG_QUEUE_PAIRS \<noteq> 0"
    and c: "igb_set_interrupt_capability msix msi a h = (b, h')"
  shows "arrays_ok b \<and> same_dev a b \<and> vfs_allocated_count b = 0 \<and> quota h' + held_mem b = quota h \<and>
    in_use (tx_rings b) = 0 \<and> in_use (rx_rings b) = 0 \<and> in_use (q_vector b) = 0 \<and>
    num_tx_queues b = num_rx_queues b \<and> unat (rss_queues b) = num_rx_queues b \<and> num_rx_queues b \<le> num_q_vectors b \<and> (num_rx_queues b = 1 \<or> num_rx_queues b = unat (rss_queues a)) \<and>
    (0 < quota h \<longrightarrow> (\<forall>k. msix k) \<longrightarrow> num_rx_queues b = unat (rss_queues a))"
proof -
  have none: "tx_rings a ! i = None" "rx_rings a ! i = None" if "i < 16" for i
    using no that all_none [of "tx_rings a" i] all_none [of "rx_rings a" i] by (auto simp: no_queues_def arrays_ok_def)
  have nv: "q_vector a ! i = None" if "i < 8" for i using no that all_none [of "q_vector a" i] by (auto simp: no_queues_def arrays_ok_def)
  let ?r = "unat (rss_queues a)"
  have v: "vectors_of a \<le> 8" "?r \<le> vectors_of a" using n pairs by (cases "4 < ?r"; simp add: vectors_of_def)+
  have in_use: "in_use (tx_rings a) = 0" "in_use (rx_rings a) = 0" "in_use (q_vector a) = 0" using no by (simp_all add: no_queues_def)
  obtain p h1 where m: "malloc h = (p, h1)" by fastforce
  have all: "arrays_ok (all_queues e a)" for e
    using no none nv v n by (simp add: no_queues_def arrays_ok_def all_queues_def)
  have one: "arrays_ok (one_queue msi a)" using no none nv by (simp add: no_queues_def arrays_ok_def one_queue_def)
  have mem: "held_mem (all_queues e a) = 1" "held_mem (one_queue msi a) = 0" for e
    using in_use by (simp_all add: held_mem_def all_queues_def one_queue_def)
  show ?thesis
  proof (cases p)
    case None
    then have "b = one_queue msi a" "h' = h" "quota h = 0" using c m malloc_None [of h h1] by (simp_all add: set_capability_eq)
    then show ?thesis using one mem in_use by (simp add: one_queue_def same_card_def same_dev_def)
  next
    case (Some e)
    have q: "quota h = Suc (quota h1)" using malloc_Some m Some by blast
    show ?thesis
    proof (cases "msix (vectors_of a + 1)")
      case True
      then have "b = all_queues e a" "h' = h1" using c m Some by (simp_all add: set_capability_eq)
      then show ?thesis using all mem in_use q v vf by (simp add: all_queues_def same_card_def same_dev_def)
    next
      case False
      then have "b = one_queue msi a" "h' = mfree h1" using c m Some by (simp_all add: set_capability_eq)
      then show ?thesis using one mem in_use q False by (auto simp: one_queue_def same_card_def same_dev_def mfree_def)
    qed
  qed
qed

lemma rings_idle_present: "rings_idle c n rs \<Longrightarrow> i < n \<Longrightarrow> rs ! i \<noteq> None"
  by (auto simp: rings_idle_def)

lemma in_use_pos: "i < length xs \<Longrightarrow> xs ! i \<noteq> None \<Longrightarrow> 0 < in_use xs"
  using all_none [of xs i] by (metis not_gr_zero)

text \<open>Either the card has its queues, or nothing is left of the attempt.\<close>

lemma init_scheme_ok:
  assumes no: "no_queues a" and vf: "vfs_allocated_count a = 0" and n: "0 < unat (rss_queues a)" "unat (rss_queues a) \<le> 8"
    and pairs: "4 < unat (rss_queues a) \<Longrightarrow> ig_flags a AND IGB_FLAG_QUEUE_PAIRS \<noteq> 0"
  shows "\<exists>err b h'. igb_init_interrupt_scheme msix msi a h = Inr (err, b, h') \<and> same_dev a b \<and> quota h' + held_mem b = quota h \<and>
    (if err = 0 then \<exists>q. has_queues q b \<and> (q = 1 \<or> q = unat (rss_queues a)) \<and> ((\<forall>k. msix k) \<longrightarrow> q = unat (rss_queues a))
     else err = - ENOMEM \<and> no_queues b \<and> quota h < 25)"
proof -
  obtain b h1 where b: "igb_set_interrupt_capability msix msi a h = (b, h1)" by fastforce
  note B = set_capability_ok [OF no vf n pairs b]
  then have B': "arrays_ok b" "in_use (q_vector b) = 0" "in_use (tx_rings b) = 0" "in_use (rx_rings b) = 0" by simp_all
  obtain err1 c h2 where c: "igb_alloc_q_vectors b h1 = Inr (err1, c, h2)" "arrays_ok c" "same_card b c" "quota h2 + held_mem c = quota h1 + held_mem b"
    "tx_rings c = tx_rings b" "rx_rings c = rx_rings b" "num_tx_queues c = num_tx_queues b" "num_rx_queues c = num_rx_queues b"
    "msix_entries c = msix_entries b" "vfs_allocated_count c = vfs_allocated_count b"
    "if err1 = 0 then num_q_vectors c = num_q_vectors b \<and> (\<forall>j < num_q_vectors b. q_vector c ! j \<noteq> None) else err1 = - ENOMEM \<and> in_use (q_vector c) = 0 \<and> quota h1 < num_q_vectors b"
    using alloc_q_vectors_ok [OF B'(1,2), of h1] by metis
  have small: "held_mem b \<le> 1" "num_q_vectors b \<le> 8" "num_rx_queues b \<le> 8" "num_tx_queues b \<le> 8"
    using B B' n by (auto simp: held_mem_def arrays_ok_def)
  show ?thesis
  proof (cases "err1 = 0")
    case False
    obtain d h3 where d: "igb_reset_interrupt_capability c h2 = (d, h3)" by fastforce
    note r = reset_capability_ok [OF d]
    have "no_queues d" using r(3) c(2,5,6,11) B' False by (simp add: no_queues_def arrays_ok_def)
    moreover have "same_dev a d" using B c(3) r(3) by (simp add: same_card_def same_dev_def)
    moreover have "quota h < 25" using B c(11) False small by simp
    ultimately show ?thesis using b c(1,4,11) d r(1) B False by (simp add: igb_init_interrupt_scheme_def)
  next
    case True
    have v: "num_q_vectors c = num_q_vectors b" "\<And>j. j < num_q_vectors c \<Longrightarrow> q_vector c ! j \<noteq> None" using c(11) True by simp_all
    have u: "in_use (tx_rings c) = 0" "in_use (rx_rings c) = 0" "vfs_allocated_count c = 0" using c(5,6,10) B by simp_all
    obtain err2 d h3 where d: "igb_alloc_queues c h2 = Inr (err2, d, h3)" "arrays_ok d" "same_card c d" "quota h3 + held_mem d = quota h2 + held_mem c"
      "q_vector d = q_vector c" "num_q_vectors d = num_q_vectors c" "msix_entries d = msix_entries c"
      "if err2 = 0 then num_tx_queues d = num_tx_queues c \<and> num_rx_queues d = num_rx_queues c \<and>
         rings_idle (tx_ring_count c) (num_tx_queues c) (tx_rings d) \<and> rings_idle (rx_ring_count c) (num_rx_queues c) (rx_rings d)
       else err2 = - ENOMEM \<and> in_use (tx_rings d) = 0 \<and> in_use (rx_rings d) = 0 \<and> quota h2 < num_tx_queues c + num_rx_queues c"
      using alloc_queues_ok [OF c(2) u, of h2] by metis
    show ?thesis
    proof (cases "err2 = 0")
      case False
      obtain e h4 where e: "igb_free_q_vectors d h3 = Inr (e, h4)" "arrays_ok e" "same_card d e" "quota h4 + held_mem e = quota h3 + held_mem d"
        "in_use (q_vector e) = 0" "tx_rings e = tx_rings d" "rx_rings e = rx_rings d" using free_q_vectors_ok [OF d(2), of h3] by blast
      obtain f h5 where f: "igb_reset_interrupt_capability e h4 = (f, h5)" by fastforce
      note r = reset_capability_ok [OF f]
      have "no_queues f" using r(3) e(2,5-7) d(8) False by (simp add: no_queues_def arrays_ok_def)
      moreover have "same_dev a f" using B c(3) d(3) e(3) r(3) by (simp add: same_card_def same_dev_def)
      moreover have "in_use (q_vector c) \<le> 8" using c(2) length_filter_le [of _ "q_vector c"] by (simp add: in_use_def arrays_ok_def)
      then have "held_mem c \<le> 9" using u by (simp add: held_mem_def)
      then have "quota h < 25" using B c(4,7,8) d(8) False small by simp
      ultimately show ?thesis using b c(1,4) d(1,4,8) e(1,4) f r(1) B True False by (simp add: igb_init_interrupt_scheme_def)
    next
      case e2: True
      have q: "num_tx_queues d = num_rx_queues d" "num_rx_queues d \<le> num_q_vectors d" "num_rx_queues d = num_rx_queues b"
        using d(6,8) e2 c(7,8) v(1) B by simp_all
      have idle: "rings_idle (tx_ring_count d) (num_tx_queues d) (tx_rings d)" "rings_idle (rx_ring_count d) (num_rx_queues d) (rx_rings d)"
        using d(3,8) e2 by (simp_all add: same_card_def same_dev_def)
      from map_all_ok [OF d(2) q(2) _ _ rings_idle_present [OF idle(1)] rings_idle_present [OF idle(2)]] q v(2) d(5,6)
      obtain e where e: "igb_map_ring_to_vector d = Inr (0, e)" "mapped d e" by auto
      note M = mappedD [OF e(2)]
      have card: "same_dev a e" using B c(3) d(3) M(3) by (simp add: same_card_def same_dev_def)
      have mem: "quota h3 + held_mem e = quota h" using B c(4) d(4) M(2) by simp
      have rss: "unat (rss_queues d) = num_rx_queues b" "vfs_allocated_count d = 0" using B c(3) d(3) by (simp_all add: same_card_def)
      have has: "has_queues (num_rx_queues b) e"
        using d(2) idle q(1,3) M rss by (simp add: has_queues_def same_card_def same_dev_def)
      have "num_rx_queues b = 1 \<or> num_rx_queues b = unat (rss_queues a)" using B by blast
      moreover have "num_rx_queues b = unat (rss_queues a)" if "\<forall>k. msix k"
      proof -
        have "0 < num_rx_queues b" using calculation n(1) by auto
        then have "rx_rings e ! 0 \<noteq> None"
          using has rings_idle_present [of "rx_ring_count e" "num_rx_queues b" "rx_rings e" 0] by (simp add: has_queues_def)
        moreover have "0 < length (rx_rings e)" using has by (simp add: has_queues_def arrays_ok_def)
        ultimately have "0 < in_use (rx_rings e)" by (rule in_use_pos [rotated])
        then have "0 < quota h" using mem by (simp add: held_mem_def)
        then show ?thesis using B that by blast
      qed
      moreover have "igb_init_interrupt_scheme msix msi a h = Inr (0, e, h3)"
        using b c(1) d(1) e(1) True e2 by (simp add: igb_init_interrupt_scheme_def)
      ultimately show ?thesis using card mem has
        by (intro exI [of _ "0 :: int"] exI [of _ e] exI [of _ h3]) auto
    qed
  qed
qed

end
