(* ===== verification/IgbProbe.thy ===== *)
theory IgbProbe
  imports IgbSetup
begin

text \<open>
  Probing a card: it gets its queues and an entry of its own in the kernel memory module, with its
  registers and hardware address; a probe that fails returns what it has allocated.
\<close>

section \<open>The entries of the kernel memory module\<close>

definition uk_ok :: "ukmem \<Rightarrow> bool" where
  "uk_ok u \<longleftrightarrow> length (uk_adapter u) = MAX_ADAPTER_NUM \<and> uk_adapter_num u \<le> MAX_ADAPTER_NUM \<and>
     (\<forall>a \<in> set (uk_adapter u). length (tx_desc a) = MAX_DESC_NUM \<and> length (rx_desc a) = MAX_DESC_NUM)"

lemma uk_okD:
  assumes "uk_ok u"
  shows "length (uk_adapter u) = 16" "uk_adapter_num u \<le> 16"
    "i < 16 \<Longrightarrow> length (tx_desc (uk_adapter u ! i)) = 8" "i < 16 \<Longrightarrow> length (rx_desc (uk_adapter u ! i)) = 8"
  using assms by (auto simp: uk_ok_def MAX_ADAPTER_NUM_def MAX_DESC_NUM_def)

lemma uk_okI:
  "length (uk_adapter u) = 16 \<Longrightarrow> uk_adapter_num u \<le> 16 \<Longrightarrow>
     (\<And>i. i < 16 \<Longrightarrow> length (tx_desc (uk_adapter u ! i)) = 8 \<and> length (rx_desc (uk_adapter u ! i)) = 8) \<Longrightarrow> uk_ok u"
  by (auto simp: uk_ok_def MAX_ADAPTER_NUM_def MAX_DESC_NUM_def in_set_conv_nth)

definition uk_addrs :: "ukmem \<Rightarrow> u64 list" where
  "uk_addrs u = map adapter_addr (take (uk_adapter_num u) (uk_adapter u))"

lemma length_uk_addrs: "uk_ok u \<Longrightarrow> length (uk_addrs u) = uk_adapter_num u"
  using uk_okD(1,2) by (simp add: uk_addrs_def)

lemma uk_addrs_nth: "uk_ok u \<Longrightarrow> i < uk_adapter_num u \<Longrightarrow> uk_addrs u ! i = adapter_addr (uk_adapter u ! i)"
  using uk_okD(1,2) by (simp add: uk_addrs_def)

lemma find_upt: "k < n \<Longrightarrow> P k \<Longrightarrow> (\<And>i. i < k \<Longrightarrow> \<not> P i) \<Longrightarrow> find P [0..<n] = Some k"
  by (auto simp: find_Some_iff intro!: exI [of _ k])

lemma find_known:
  assumes ok: "uk_ok u" and d: "distinct (uk_addrs u)" and k: "k < uk_adapter_num u"
  shows "ukmem_find_adapter u (uk_addrs u ! k) = Some k"
  unfolding ukmem_find_adapter_def
proof (rule find_upt [OF k])
  show "adapter_addr (uk_adapter u ! k) = uk_addrs u ! k" using uk_addrs_nth [OF ok k] by simp
  fix i assume i: "i < k"
  then have "uk_addrs u ! i \<noteq> uk_addrs u ! k" using d k length_uk_addrs [OF ok] by (simp add: nth_eq_iff_index_eq)
  then show "adapter_addr (uk_adapter u ! i) \<noteq> uk_addrs u ! k" using uk_addrs_nth [OF ok, of i] i k by simp
qed

text \<open>The entry of a new card.\<close>

definition new_entry :: "u64 \<Rightarrow> u64 \<Rightarrow> adapter_mem \<Rightarrow> adapter_mem" where
  "new_entry addr phys c = c\<lparr>adapter_addr := addr, regs_phys := phys\<rparr>"

definition with_entry :: "(adapter_mem \<Rightarrow> adapter_mem) \<Rightarrow> ukmem \<Rightarrow> ukmem" where
  "with_entry f u = u\<lparr>uk_adapter := (uk_adapter u)[uk_adapter_num u := f (uk_adapter u ! uk_adapter_num u)], uk_adapter_num := uk_adapter_num u + 1\<rparr>"

lemma with_entry_ok:
  assumes "uk_ok u" "uk_adapter_num u < 16" "\<And>c. tx_desc (f c) = tx_desc c" "\<And>c. rx_desc (f c) = rx_desc c"
  shows "uk_ok (with_entry f u)"
  using uk_okD [OF assms(1)] assms by (intro uk_okI) (auto simp: with_entry_def nth_list_update)

lemma with_entry_addrs:
  assumes "uk_ok u" "uk_adapter_num u < 16"
  shows "uk_addrs (with_entry f u) = uk_addrs u @ [adapter_addr (f (uk_adapter u ! uk_adapter_num u))]"
  using uk_okD [OF assms(1)] assms(2) by (simp add: uk_addrs_def with_entry_def take_Suc_conv_app_nth)

text \<open>Changing the last entry, and one in general.\<close>

lemma upd_last_entry:
  assumes "uk_ok u" "uk_adapter_num u < 16"
  shows "upd_adapter (uk_adapter_num u) g (with_entry f u) = Inr (with_entry (g \<circ> f) u)"
  using uk_okD [OF assms(1)] assms(2) by (simp add: upd_adapter_def with_entry_def arr_get_def arr_set_def)

lemma find_last_entry:
  assumes ok: "uk_ok u" "uk_adapter_num u < 16" and fresh: "addr \<notin> set (uk_addrs u)"
    and f: "\<And>c. adapter_addr (f c) = addr"
  shows "ukmem_find_adapter (with_entry f u) addr = Some (uk_adapter_num u)"
proof -
  have "adapter_addr (uk_adapter u ! i) \<noteq> addr" if "i < uk_adapter_num u" for i
    using fresh that uk_addrs_nth [OF ok(1) that] length_uk_addrs [OF ok(1)] by (metis nth_mem)
  then show ?thesis unfolding ukmem_find_adapter_def
    using uk_okD [OF ok(1)] ok(2) f by (intro find_upt) (auto simp: with_entry_def nth_list_update)
qed

lemma alloc_and_regs:
  assumes ok: "uk_ok u" "uk_adapter_num u < 16" and fresh: "addr \<notin> set (uk_addrs u)"
  shows "ukmem_alloc_adapter addr u = Inr (with_entry (\<lambda>c. c\<lparr>adapter_addr := addr\<rparr>) u)"
    "ukmem_add_regs addr phys (with_entry (\<lambda>c. c\<lparr>adapter_addr := addr\<rparr>) u) = Inr (with_entry (new_entry addr phys) u)"
proof -
  show "ukmem_alloc_adapter addr u = Inr (with_entry (\<lambda>c. c\<lparr>adapter_addr := addr\<rparr>) u)"
    using uk_okD [OF ok(1)] ok(2) by (simp add: ukmem_alloc_adapter_def upd_adapter_def arr_get_def arr_set_def with_entry_def)
  have "ukmem_find_adapter (with_entry (\<lambda>c. c\<lparr>adapter_addr := addr\<rparr>) u) addr = Some (uk_adapter_num u)"
    by (rule find_last_entry [OF ok fresh]) simp
  then show "ukmem_add_regs addr phys (with_entry (\<lambda>c. c\<lparr>adapter_addr := addr\<rparr>) u) = Inr (with_entry (new_entry addr phys) u)"
    by (simp add: ukmem_add_regs_def upd_last_entry [OF ok] comp_def new_entry_def [abs_def])
qed

section \<open>The number of queues\<close>

lemma IGB_MAX_RX_QUEUES_le: "unat (IGB_MAX_RX_QUEUES a) \<le> 8"
  by (simp add: IGB_MAX_RX_QUEUES_def)

lemma igb_queues_le: "unat (igb_queues queue_num cpus a) \<le> 8"
proof -
  have "igb_queues queue_num cpus a \<le> IGB_MAX_RX_QUEUES a" by (simp add: igb_queues_def)
  then have "unat (igb_queues queue_num cpus a) \<le> unat (IGB_MAX_RX_QUEUES a)" by (simp add: word_le_nat_alt)
  then show ?thesis using IGB_MAX_RX_QUEUES_le [of a] by linarith
qed

lemma sint_small:
  assumes "unat (w :: u32) \<le> 8"
  shows "sint w = int (unat w)"
proof -
  have "uint w = int (unat w)" by simp
  then have "uint w \<le> 8" using assms by linarith
  then have "signed_take_bit 31 (uint w) = uint w" by (intro signed_take_bit_int_eq_self) (auto intro: order_trans [of _ 0])
  then show ?thesis by (simp add: sint_uint)
qed

text \<open>The card before and after \<open>igb_sw_init\<close> has chosen the number of queues.\<close>

definition sized :: "u32 \<Rightarrow> u32 \<Rightarrow> igb_adapter \<Rightarrow> igb_adapter" where
  "sized num mtu a = a\<lparr>tx_ring_count := IGB_DEFAULT_TXD, rx_ring_count := IGB_DEFAULT_RXD, rx_itr_setting := 3, tx_itr_setting := 3,
     max_frame_size := mtu + 14 + 4, rss_queues := num,
     ig_flags := (if 4 < num \<or> (1 < num \<and> 6 < vfs_allocated_count a) then ig_flags a OR IGB_FLAG_QUEUE_PAIRS else ig_flags a)\<rparr>"

lemma sw_init_eq:
  "igb_sw_init queue_num cpus mtu msix msi a h u =
     bindE (igb_init_interrupt_scheme msix msi (sized (igb_queues queue_num cpus a) mtu a) h) (\<lambda>(err, b, h).
       Inr (if err \<noteq> 0 then - ENOMEM else 0, b, h, ukmem_set_queue_num (sint (igb_queues queue_num cpus a)) u))"
proof -
  let ?b = "a\<lparr>tx_ring_count := IGB_DEFAULT_TXD, rx_ring_count := IGB_DEFAULT_RXD, rx_itr_setting := 3,
      tx_itr_setting := 3, max_frame_size := mtu + 14 + 4\<rparr>"
  have q: "igb_queues queue_num cpus ?b = igb_queues queue_num cpus a"
    by (simp add: igb_queues_def IGB_MAX_RX_QUEUES_def)
  have b: "(if rss_queues (?b\<lparr>rss_queues := n\<rparr>) > 4 \<or> (rss_queues (?b\<lparr>rss_queues := n\<rparr>) > 1 \<and> vfs_allocated_count (?b\<lparr>rss_queues := n\<rparr>) > 6)
      then ?b\<lparr>rss_queues := n\<rparr>\<lparr>ig_flags := ig_flags (?b\<lparr>rss_queues := n\<rparr>) OR IGB_FLAG_QUEUE_PAIRS\<rparr> else ?b\<lparr>rss_queues := n\<rparr>) = sized n mtu a" for n
    by (simp add: sized_def)
  show ?thesis unfolding igb_sw_init_def Let_def q b
    by (intro arg_cong2 [where f = bindE] refl) (auto simp: fun_eq_iff)
qed

lemma sw_init_ok:
  assumes no: "no_queues a" and vf: "vfs_allocated_count a = 0" and num: "num = igb_queues queue_num cpus a" "num \<noteq> 0"
  shows "\<exists>err b h'. igb_sw_init queue_num cpus mtu msix msi a h u = Inr (err, b, h', u\<lparr>uk_queue_num := int (unat num)\<rparr>) \<and>
    ig_addr b = ig_addr a \<and> hw_addr b = hw_addr a \<and> ig_mac_type b = ig_mac_type a \<and> tx_ring_count b = 256 \<and> rx_ring_count b = 256 \<and>
    multi_tx_table b = multi_tx_table a \<and> quota h' + held_mem b = quota h \<and> arrays_ok b \<and>
    (if err = 0 then \<exists>q. has_queues q b \<and> (q = 1 \<or> q = unat num) \<and> ((\<forall>k. msix k) \<longrightarrow> q = unat num) else quota h < 25)"
proof -
  let ?a = "sized num mtu a"
  have n8: "unat num \<le> 8" using num(1) igb_queues_le by simp
  have no': "no_queues ?a" using no by (simp add: no_queues_def arrays_ok_def sized_def)
  have pairs: "ig_flags ?a AND IGB_FLAG_QUEUE_PAIRS \<noteq> 0" if "4 < unat (rss_queues ?a)"
  proof -
    have "4 < num" using that by (simp add: sized_def word_less_nat_alt)
    then have "bit (ig_flags ?a AND IGB_FLAG_QUEUE_PAIRS) 3" by (simp add: sized_def IGB_FLAG_QUEUE_PAIRS_def bit_simps)
    then show ?thesis by auto
  qed
  have n: "0 < unat (rss_queues ?a)" "unat (rss_queues ?a) \<le> 8" using num(2) n8 by (simp_all add: sized_def unat_gt_0)
  have vf': "vfs_allocated_count ?a = 0" using vf by (simp add: sized_def)
  obtain err b h' where i: "igb_init_interrupt_scheme msix msi ?a h = Inr (err, b, h')" "same_dev ?a b" "quota h' + held_mem b = quota h"
    "if err = 0 then \<exists>q. has_queues q b \<and> (q = 1 \<or> q = unat (rss_queues ?a)) \<and> ((\<forall>k. msix k) \<longrightarrow> q = unat (rss_queues ?a))
     else err = - ENOMEM \<and> no_queues b \<and> quota h < 25"
    using init_scheme_ok [OF no' vf' n, of msix msi h] pairs by metis
  have "arrays_ok b" using i(4) by (auto simp: has_queues_def no_queues_def split: if_splits)
  moreover have "ENOMEM \<noteq> 0" by (simp add: ENOMEM_def)
  ultimately show ?thesis
    using i sint_small [OF n8] num(1) unfolding sw_init_eq
    by (auto simp: ukmem_set_queue_num_def same_dev_def sized_def IGB_DEFAULT_TXD_def IGB_DEFAULT_RXD_def split: if_splits)
qed

section \<open>Probing\<close>

text \<open>The number of queues a probe asks for, and the entry of the card after a probe that succeeds.\<close>

definition probe_queues :: "probe_env \<Rightarrow> u32" where
  "probe_queues e = igb_queues (pe_queue_num e) (pe_cpus e) ((new_adapter (pe_addr e))\<lparr>hw_addr := pe_ioremap e, ig_mac_type := pe_mac_type e\<rparr>)"

definition probed_entry :: "probe_env \<Rightarrow> adapter_mem \<Rightarrow> adapter_mem" where
  "probed_entry e c = c\<lparr>adapter_addr := pe_addr e, regs_phys := pe_mmio_start e, am_mac := (\<lambda>k. if k < 6 then pe_mac e k else am_mac c k)\<rparr>"

definition probed_uk :: "probe_env \<Rightarrow> ukmem \<Rightarrow> ukmem" where
  "probed_uk e u = (with_entry (probed_entry e) u)\<lparr>uk_queue_num := int (unat (probe_queues e))\<rparr>"

lemma with_entry_queue_num: "with_entry f (u\<lparr>uk_queue_num := n\<rparr>) = (with_entry f u)\<lparr>uk_queue_num := n\<rparr>"
  by (simp add: with_entry_def)

lemma uk_ok_queue_num [simp]: "uk_ok (u\<lparr>uk_queue_num := n\<rparr>) = uk_ok u" "uk_addrs (u\<lparr>uk_queue_num := n\<rparr>) = uk_addrs u"
  by (simp_all add: uk_ok_def uk_addrs_def)

lemma add_mac_ok:
  assumes ok: "uk_ok u" "uk_adapter_num u < 16" and fresh: "pe_addr e \<notin> set (uk_addrs u)"
  shows "ukmem_add_mac (pe_addr e) (pe_mac e) ((with_entry (new_entry (pe_addr e) (pe_mmio_start e)) u)\<lparr>uk_queue_num := int (unat (probe_queues e))\<rparr>)
    = Inr (probed_uk e u)"
proof -
  let ?u = "u\<lparr>uk_queue_num := int (unat (probe_queues e))\<rparr>" and ?f = "new_entry (pe_addr e) (pe_mmio_start e)"
  have ok': "uk_ok ?u" "uk_adapter_num ?u < 16" "pe_addr e \<notin> set (uk_addrs ?u)" using ok fresh by simp_all
  have "ukmem_find_adapter (with_entry ?f ?u) (pe_addr e) = Some (uk_adapter_num ?u)"
    by (rule find_last_entry [OF ok']) (simp add: new_entry_def)
  moreover have "(\<lambda>c. c\<lparr>am_mac := (\<lambda>k. if k < 6 then pe_mac e k else am_mac c k)\<rparr>) \<circ> ?f = probed_entry e"
    by (simp add: fun_eq_iff new_entry_def probed_entry_def)
  ultimately have "ukmem_add_mac (pe_addr e) (pe_mac e) (with_entry ?f ?u) = Inr (with_entry (probed_entry e) ?u)"
    unfolding ukmem_add_mac_def using upd_last_entry [OF ok'(1,2)] by simp
  then show ?thesis by (simp only: with_entry_queue_num probed_uk_def)
qed

lemma new_adapter_no_queues: "no_queues ((new_adapter addr)\<lparr>hw_addr := hw, ig_mac_type := t\<rparr>)"
  by (simp add: no_queues_def arrays_ok_def new_adapter_def)

lemma probe_undo_ok:
  assumes "arrays_ok a"
  shows "\<exists>h'. probe_undo err a h u = Inr (err, None, h', u) \<and> quota h' = Suc (quota h + held_mem a)"
  using clear_scheme_ok [OF assms, of h] by (auto simp: probe_undo_def mfree_def)

text \<open>No step outside the allocations fails.\<close>

definition probe_steps_ok :: "probe_env \<Rightarrow> bool" where
  "probe_steps_ok e \<longleftrightarrow> pe_pci e = 0 \<and> pe_ioremap e \<noteq> 0 \<and> pe_invariants e = 0 \<and> 0 \<le> pe_nvm e \<and> is_valid_ether_addr (pe_mac e) \<and> pe_register e = 0"

text \<open>
  Whatever fails, probing ends with a result: an error, and then everything that was allocated is free
  again, or the card with its queues and its entry.
\<close>

lemma probe_ok:
  assumes ok: "uk_ok u" "uk_adapter_num u < 16" and fresh: "pe_addr e \<notin> set (uk_addrs u)" and num: "probe_queues e \<noteq> 0"
  shows "\<exists>err res h' u'. igb_probe e h u = Inr (err, res, h', u') \<and>
    (case res of
       None \<Rightarrow> err \<noteq> 0 \<and> quota h' = quota h \<and> (probe_steps_ok e \<longrightarrow> quota h < 26)
     | Some a \<Rightarrow> err = 0 \<and> quota h' + held_mem a + 1 = quota h \<and> u' = probed_uk e u \<and>
         ig_addr a = pe_addr e \<and> hw_addr a = pe_ioremap e \<and> ig_mac_type a = pe_mac_type e \<and> ig_mac a = pe_mac e \<and>
         tx_ring_count a = 256 \<and> rx_ring_count a = 256 \<and> length (multi_tx_table a) = 8 \<and>
         (\<exists>q. has_queues q a \<and> (q = 1 \<or> q = unat (probe_queues e)) \<and> ((\<forall>k. pe_msix e k) \<longrightarrow> q = unat (probe_queues e))))"
proof (cases "pe_pci e \<noteq> 0")
  case True
  then show ?thesis by (auto simp: igb_probe_def probe_steps_ok_def)
next
  case pci: False
  obtain p h1 where m: "malloc h = (p, h1)" by fastforce
  show ?thesis
  proof (cases p)
    case None
    then show ?thesis using m malloc_None [of h h1] pci by (simp add: igb_probe_def ENOMEM_def)
  next
    case (Some x)
    have qh: "quota h = Suc (quota h1)" using malloc_Some m Some by blast
    let ?a = "(new_adapter (pe_addr e))\<lparr>hw_addr := pe_ioremap e\<rparr>" and ?u = "with_entry (new_entry (pe_addr e) (pe_mmio_start e)) u"
    show ?thesis
    proof (cases "pe_ioremap e = 0")
      case True
      then show ?thesis using m Some pci qh by (simp add: igb_probe_def EIO_def probe_steps_ok_def mfree_def)
    next
      case map: False
      have a: "ig_addr ?a = pe_addr e" by (simp add: new_adapter_def)
      note reg = alloc_and_regs [OF ok fresh]
      let ?b = "?a\<lparr>ig_mac_type := pe_mac_type e\<rparr>"
      have start: "igb_probe e h u = (if pe_invariants e \<noteq> 0 then probe_undo (pe_invariants e) ?a h1 ?u
         else bindE (igb_sw_init (pe_queue_num e) (pe_cpus e) (pe_mtu e) (pe_msix e) (pe_msi e) ?b h1 ?u) (\<lambda>(err, a, h, u).
           if err \<noteq> 0 then probe_undo err a h u
           else if pe_nvm e < 0 then probe_undo (- EIO) a h u
           else
             let a = a\<lparr>ig_mac := pe_mac e\<rparr>
             in bindE (ukmem_add_mac (ig_addr a) (ig_mac a) u) (\<lambda>u.
                  if \<not> is_valid_ether_addr (ig_mac a) then probe_undo (- EIO) a h u
                  else if pe_register e \<noteq> 0 then probe_undo (pe_register e) a h u
                  else Inr (0, Some a, h, u))))"
        using pci m Some map by (simp add: igb_probe_def a reg)
      have aok: "arrays_ok ?a" "held_mem ?a = 0" by (simp_all add: arrays_ok_def held_mem_def new_adapter_def)
      show ?thesis
      proof (cases "pe_invariants e \<noteq> 0")
        case True
        then show ?thesis using probe_undo_ok [OF aok(1), of "pe_invariants e" h1 ?u] aok(2) qh start by (auto simp: probe_steps_ok_def)
      next
        case inv: False
        have vf: "vfs_allocated_count ?b = 0" by (simp add: new_adapter_def)
        obtain err b h2 where s: "igb_sw_init (pe_queue_num e) (pe_cpus e) (pe_mtu e) (pe_msix e) (pe_msi e) ?b h1 ?u
            = Inr (err, b, h2, ?u\<lparr>uk_queue_num := int (unat (probe_queues e))\<rparr>)"
          "ig_addr b = ig_addr ?b" "hw_addr b = hw_addr ?b" "ig_mac_type b = ig_mac_type ?b" "tx_ring_count b = 256" "rx_ring_count b = 256"
          "quota h2 + held_mem b = quota h1" "arrays_ok b" "multi_tx_table b = multi_tx_table ?b"
          "if err = 0 then \<exists>q. has_queues q b \<and> (q = 1 \<or> q = unat (probe_queues e)) \<and> ((\<forall>k. pe_msix e k) \<longrightarrow> q = unat (probe_queues e)) else quota h1 < 25"
          using sw_init_ok [OF new_adapter_no_queues vf probe_queues_def num, of "pe_mtu e" "pe_msix e" "pe_msi e" h1 ?u] by blast
        let ?u2 = "?u\<lparr>uk_queue_num := int (unat (probe_queues e))\<rparr>" and ?c = "b\<lparr>ig_mac := pe_mac e\<rparr>"
        have cok: "arrays_ok ?c" "held_mem ?c = held_mem b" using s(8) by (simp_all add: arrays_ok_def held_mem_def)
        have addr: "ig_addr ?c = pe_addr e" using s(2) a by simp
        have mac: "ukmem_add_mac (pe_addr e) (pe_mac e) ?u2 = Inr (probed_uk e u)" by (rule add_mac_ok [OF ok fresh])
        show ?thesis
        proof (cases "err \<noteq> 0")
          case True
          then show ?thesis using probe_undo_ok [OF s(8), of err h2 ?u2] s(1,7,10) qh start inv by auto
        next
          case err: False
          show ?thesis
          proof (cases "pe_nvm e < 0")
            case True
            then show ?thesis using probe_undo_ok [OF s(8), of "- EIO" h2 ?u2] s(1,7) qh start inv err by (auto simp: EIO_def probe_steps_ok_def)
          next
            case nvm: False
            have rest: "igb_probe e h u = (if \<not> is_valid_ether_addr (pe_mac e) then probe_undo (- EIO) ?c h2 (probed_uk e u)
                else if pe_register e \<noteq> 0 then probe_undo (pe_register e) ?c h2 (probed_uk e u) else Inr (0, Some ?c, h2, probed_uk e u))"
              using start s(1,2) inv err nvm a mac by (simp add: Let_def)
            show ?thesis
            proof (cases "is_valid_ether_addr (pe_mac e) \<and> pe_register e = 0")
              case True
              obtain q where q: "has_queues q b" "q = 1 \<or> q = unat (probe_queues e)" "(\<forall>k. pe_msix e k) \<longrightarrow> q = unat (probe_queues e)"
                using s(10) err by auto
              then have "has_queues q ?c" by (simp add: has_queues_def arrays_ok_def)
              then show ?thesis using True rest s(2-7,9) cok(2) q(2,3) qh a by (auto simp: new_adapter_def)
            next
              case False
              then show ?thesis
                using rest probe_undo_ok [OF cok(1), of "- EIO" h2 "probed_uk e u"] probe_undo_ok [OF cok(1), of "pe_register e" h2 "probed_uk e u"]
                  cok(2) s(7) qh by (auto simp: EIO_def probe_steps_ok_def)
            qed
          qed
        qed
      qed
    qed
  qed
qed

end
