(* ===== verification/IgbOpen.thy ===== *)
theory IgbOpen
  imports IgbProbe
begin

text \<open>
  Opening a card: its rings get their memory and are handed to the kernel memory module one by one;
  when that fails nothing stays allocated, and closing the card gives all of it back.
\<close>

section \<open>The memory of one ring\<close>

definition ready_ring :: "u16 \<Rightarrow> nat \<Rightarrow> igb_ring \<Rightarrow> bool" where
  "ready_ring c i r \<longleftrightarrow> rg_count r = c \<and> unat (reg_idx r) = i \<and> rg_desc r \<noteq> None \<and> rg_size r = ALIGN (ucast c * 16) 4096 \<and>
     (\<exists>bs. buffer_info r = Some bs \<and> length bs = unat c)"

definition rings_ready :: "u16 \<Rightarrow> nat \<Rightarrow> rings \<Rightarrow> bool" where
  "rings_ready c n rs \<longleftrightarrow> n \<le> length rs \<and> (\<forall>i < n. \<exists>r. rs ! i = Some r \<and> ready_ring c i r)"

lemma buffers_loop:
  assumes "n \<le> length bs"
  shows "\<exists>bs'. foldE (\<lambda>i bs. bindE (arr_get bs i) (\<lambda>b. arr_set bs i (f b))) [0..<n] bs = Inr bs' \<and> length bs' = length bs"
  using assms
proof (induction n)
  case (Suc n)
  then obtain bs' where "foldE (\<lambda>i bs. bindE (arr_get bs i) (\<lambda>b. arr_set bs i (f b))) [0..<n] bs = Inr bs'" "length bs' = length bs" by auto
  then show ?case using Suc.prems by (simp add: foldE_append arr_get_def arr_set_def)
qed simp

text \<open>Cleaning keeps the memory of a ring and does nothing to a ring that has none.\<close>

lemma clean_ready:
  assumes "ready_ring c i r"
  shows "\<exists>r'. igb_clean_tx_ring r = Inr r' \<and> ready_ring c i r'" "\<exists>r'. igb_clean_rx_ring r = Inr r' \<and> ready_ring c i r'"
proof -
  obtain bs where bs: "buffer_info r = Some bs" "length bs = unat (rg_count r)" using assms by (auto simp: ready_ring_def)
  then have n: "unat (rg_count r) \<le> length bs" by simp
  show "\<exists>r'. igb_clean_tx_ring r = Inr r' \<and> ready_ring c i r'"
    using buffers_loop [OF n, of unmap_tx] bs assms by (auto simp: igb_clean_tx_ring_def ready_ring_def)
  show "\<exists>r'. igb_clean_rx_ring r = Inr r' \<and> ready_ring c i r'"
    using buffers_loop [OF n, of unmap_rx] bs assms by (auto simp: igb_clean_rx_ring_def ready_ring_def)
qed

lemma free_ready:
  assumes "ready_ring c i r"
  shows "\<exists>r' h'. igb_free_tx_resources r h = Inr (r', h') \<and> idle_ring c i r' \<and> quota h' = quota h + 2"
    "\<exists>r' h'. igb_free_rx_resources r h = Inr (r', h') \<and> idle_ring c i r' \<and> quota h' = quota h + 2"
  using clean_ready [OF assms]
  by (auto simp: igb_free_tx_resources_def igb_free_rx_resources_def ready_ring_def idle_ring_def kfree_def mfree_def Let_def)

lemma setup_ring_cases:
  assumes "idle_ring c i r" and s: "igb_setup_tx_resources dma_of mem r h = (err, r', h') \<or> igb_setup_rx_resources dma_of mem r h = (err, r', h')"
  shows "if err = 0 then ready_ring c i r' \<and> (\<exists>p. rg_desc r' = Some p \<and> rg_dma r' = dma_of p) \<and> quota h = quota h' + 2
    else err = - ENOMEM \<and> quota h' = quota h \<and> quota h < 2"
proof -
  obtain p h1 where 1: "malloc h = (p, h1)" by fastforce
  obtain p2 h2 where 2: "malloc h1 = (p2, h2)" by fastforce
  show ?thesis
  proof (cases p)
    case None
    then show ?thesis using s 1 malloc_None [of h h1] by (auto simp: igb_setup_tx_resources_def igb_setup_rx_resources_def ENOMEM_def)
  next
    case (Some x)
    then have q: "quota h = Suc (quota h1)" using 1 malloc_Some by blast
    show ?thesis
    proof (cases p2)
      case None
      then show ?thesis using s 1 2 Some q malloc_None [of h1 h2]
        by (auto simp: igb_setup_tx_resources_def igb_setup_rx_resources_def ENOMEM_def kfree_def mfree_def)
    next
      case (Some y)
      then have "quota h1 = Suc (quota h2)" using 2 malloc_Some by blast
      then show ?thesis using s 1 2 Some q \<open>p = Some x\<close> assms(1)
        by (auto simp: igb_setup_tx_resources_def igb_setup_rx_resources_def ready_ring_def idle_ring_def)
    qed
  qed
qed

section \<open>All rings of one kind\<close>

text \<open>
  What the transmit and the receive rings have in common: setting a ring up and freeing it, and the
  list \<open>view\<close> of the physical addresses the kernel memory module has been told, which \<open>add\<close> extends
  under an invariant \<open>inv\<close> of the module, with whatever \<open>keep\<close> says untouched.
\<close>

locale ring_memory =
  fixes alloc :: "igb_ring \<Rightarrow> heap \<Rightarrow> int \<times> igb_ring \<times> heap"
    and free :: "igb_ring \<Rightarrow> heap \<Rightarrow> (igb_ring \<times> heap) res"
    and add :: "u64 \<Rightarrow> ukmem \<Rightarrow> ukmem res"
    and view :: "ukmem \<Rightarrow> u64 list"
    and inv :: "ukmem \<Rightarrow> bool"
    and keep :: "ukmem \<Rightarrow> ukmem \<Rightarrow> bool"
  assumes setup_idle: "idle_ring c i r \<Longrightarrow> alloc r h = (err, r', h') \<Longrightarrow>
      if err = 0 then ready_ring c i r' \<and> quota h = quota h' + 2 else err = - ENOMEM \<and> quota h' = quota h \<and> quota h < 2"
    and free_back: "ready_ring c i r \<Longrightarrow> \<exists>r' h'. free r h = Inr (r', h') \<and> idle_ring c i r' \<and> quota h' = quota h + 2"
    and add_view: "inv u \<Longrightarrow> length (view u) < 8 \<Longrightarrow> \<exists>u'. add d u = Inr u' \<and> inv u' \<and> view u' = view u @ [d] \<and> keep u u'"
    and keep_refl: "keep u u"
    and keep_trans: "keep u v \<Longrightarrow> keep v w \<Longrightarrow> keep u w"
begin

lemma free_some:
  assumes "distinct js" "\<And>j. j \<in> set js \<Longrightarrow> j < length rs \<and> (\<exists>r. rs ! j = Some r \<and> ready_ring c j r)"
  shows "\<exists>rs' h'. foldE (free_resources free) js (rs, h) = Inr (rs', h') \<and> length rs' = length rs \<and> quota h' = quota h + 2 * length js \<and>
    (\<forall>j \<in> set js. \<exists>r. rs' ! j = Some r \<and> idle_ring c j r) \<and> (\<forall>j. j \<notin> set js \<longrightarrow> rs' ! j = rs ! j)"
  using assms
proof (induction js arbitrary: rs h)
  case (Cons j js)
  obtain r where r: "j < length rs" "rs ! j = Some r" "ready_ring c j r" using Cons.prems(2) by auto
  obtain r' h1 where f: "free r h = Inr (r', h1)" "idle_ring c j r'" "quota h1 = quota h + 2" using free_back [OF r(3)] by blast
  let ?rs = "rs[j := Some r']"
  have "\<And>i. i \<in> set js \<Longrightarrow> i < length ?rs \<and> (\<exists>r. ?rs ! i = Some r \<and> ready_ring c i r)"
    using Cons.prems by (auto simp: nth_list_update)
  with Cons.IH [of ?rs h1] Cons.prems(1) obtain rs' h' where ih: "foldE (free_resources free) js (?rs, h1) = Inr (rs', h')" "length rs' = length ?rs"
    "quota h' = quota h1 + 2 * length js" "\<forall>i \<in> set js. \<exists>r. rs' ! i = Some r \<and> idle_ring c i r" "\<forall>i. i \<notin> set js \<longrightarrow> rs' ! i = ?rs ! i" by auto
  have "free_resources free j (rs, h) = Inr (?rs, h1)" using r f by (simp add: free_resources_def get_ring_def arr_get_def)
  then show ?case using ih f r Cons.prems(1) by (auto simp: nth_list_update)
qed simp

lemma free_all:
  assumes "rings_ready c n rs"
  shows "\<exists>rs' h'. foldE (free_resources free) [0..<n] (rs, h) = Inr (rs', h') \<and> length rs' = length rs \<and> quota h' = quota h + 2 * n \<and>
    rings_idle c n rs' \<and> (\<forall>j. n \<le> j \<longrightarrow> rs' ! j = rs ! j)"
  using free_some [of "[0..<n]" rs c h] assms by (auto simp: rings_ready_def rings_idle_def)

text \<open>Ring \<open>k\<close> is next; those before it are ready.\<close>

lemma setup_from:
  assumes "k \<le> n" "n \<le> length rs" "\<And>i. i < k \<Longrightarrow> \<exists>r. rs ! i = Some r \<and> ready_ring c i r"
    and "\<And>i. k \<le> i \<Longrightarrow> i < n \<Longrightarrow> \<exists>r. rs ! i = Some r \<and> idle_ring c i r" and "inv u" "length (view u) + (n - k) \<le> 8"
  shows "\<exists>err rs' h' u'. setup_rings alloc free add [k..<n] rs h u = Inr (err, rs', h', u') \<and> inv u' \<and> keep u u' \<and> length rs' = length rs \<and>
    (\<forall>j. n \<le> j \<longrightarrow> rs' ! j = rs ! j) \<and> (\<forall>j. (rs' ! j = None) = (rs ! j = None)) \<and>
    (if err = 0 then rings_ready c n rs' \<and> (\<forall>j < k. rs' ! j = rs ! j) \<and> quota h = quota h' + 2 * (n - k) \<and>
       view u' = view u @ map (\<lambda>i. rg_dma (the (rs' ! i))) [k..<n]
     else err = - ENOMEM \<and> quota h' = quota h + 2 * k \<and> quota h < 2 * (n - k))"
  using assms
proof (induction "n - k" arbitrary: k rs h u)
  case 0
  then show ?case using keep_refl by (auto simp: rings_ready_def)
next
  case (Suc d)
  then have k: "k < n" by simp
  then have upt: "[k..<n] = k # [Suc k..<n]" by (simp add: upt_rec)
  obtain r where r: "rs ! k = Some r" "idle_ring c k r" using Suc.prems(4) k by blast
  have get: "get_ring rs k = Inr r" using r k Suc.prems(2) by (simp add: get_ring_def arr_get_def)
  obtain err r' h1 where s: "alloc r h = (err, r', h1)" by (cases "alloc r h")
  note S = setup_idle [OF r(2) s]
  let ?rs = "rs[k := Some r']"
  show ?case
  proof (cases "err = 0")
    case False
    have "distinct (rev [0..<k])" "\<And>j. j \<in> set (rev [0..<k]) \<Longrightarrow> j < length ?rs \<and> (\<exists>r. ?rs ! j = Some r \<and> ready_ring c j r)"
      using Suc.prems(1-3) k by auto
    from free_some [OF this, of h1] obtain rs' h' where f: "foldE (free_resources free) (rev [0..<k]) (?rs, h1) = Inr (rs', h')" "length rs' = length rs"
      "quota h' = quota h1 + 2 * k" "\<forall>j < k. \<exists>r. rs' ! j = Some r \<and> idle_ring c j r" "\<forall>j \<ge> k. rs' ! j = ?rs ! j" by auto
    have "(rs' ! j = None) = (rs ! j = None)" for j
      using f(4,5) r(1) Suc.prems(3) k Suc.prems(2) by (cases "j < k"; cases "j = k") fastforce+
    moreover have "rs' ! j = rs ! j" if "n \<le> j" for j using f(5) that k by simp
    moreover have "2 \<le> 2 * (n - k)" using k by arith
    ultimately show ?thesis using f(1-3) get s S False Suc.prems(5) keep_refl upt by (simp add: Let_def)
  next
    case True
    then have ready: "ready_ring c k r'" "quota h = quota h1 + 2" using S by simp_all
    have "length (view u) < 8" using Suc.prems(6) k by arith
    then obtain u1 where u1: "add (rg_dma r') u = Inr u1" "inv u1" "view u1 = view u @ [rg_dma r']" "keep u u1"
      using add_view [OF Suc.prems(5)] by blast
    have "d = n - Suc k" "Suc k \<le> n" "n \<le> length ?rs" "length (view u1) + (n - Suc k) \<le> 8" using Suc.hyps(2) Suc.prems(2,6) k u1(3) by auto
    moreover have "\<And>i. i < Suc k \<Longrightarrow> \<exists>r. ?rs ! i = Some r \<and> ready_ring c i r" "\<And>i. Suc k \<le> i \<Longrightarrow> i < n \<Longrightarrow> \<exists>r. ?rs ! i = Some r \<and> idle_ring c i r"
      using Suc.prems(2-4) ready(1) k by (auto simp: less_Suc_eq nth_list_update)
    ultimately obtain err rs' h' u' where ih: "setup_rings alloc free add [Suc k..<n] ?rs h1 u1 = Inr (err, rs', h', u')" "inv u'" "keep u1 u'"
      "length rs' = length rs" "\<forall>j. n \<le> j \<longrightarrow> rs' ! j = ?rs ! j" "\<forall>j. (rs' ! j = None) = (?rs ! j = None)"
      "if err = 0 then rings_ready c n rs' \<and> (\<forall>j < Suc k. rs' ! j = ?rs ! j) \<and> quota h1 = quota h' + 2 * (n - Suc k) \<and>
         view u' = view u1 @ map (\<lambda>i. rg_dma (the (rs' ! i))) [Suc k..<n]
       else err = - ENOMEM \<and> quota h' = quota h1 + 2 * Suc k \<and> quota h1 < 2 * (n - Suc k)"
      using Suc.hyps(1) [of "Suc k" ?rs u1 h1] u1(2) by auto
    have "(rs' ! j = None) = (rs ! j = None)" for j using ih(6) r(1) k Suc.prems(2) by (cases "j = k") auto
    moreover have "setup_rings alloc free add [k..<n] rs h u = Inr (err, rs', h', u')"
      using get s True u1(1) ih(1) upt by (simp add: Let_def)
    moreover have "rs' ! j = rs ! j" if "n \<le> j" for j using ih(5) that k by simp
    moreover have "keep u u'" using keep_trans [OF u1(4) ih(3)] .
    moreover have "if err = 0 then rings_ready c n rs' \<and> (\<forall>j < k. rs' ! j = rs ! j) \<and> quota h = quota h' + 2 * (n - k) \<and>
         view u' = view u @ map (\<lambda>i. rg_dma (the (rs' ! i))) [k..<n]
       else err = - ENOMEM \<and> quota h' = quota h + 2 * k \<and> quota h < 2 * (n - k)"
      using ih(7) ready(2) u1(3) k upt Suc.prems(2) by (auto split: if_splits)
    ultimately show ?thesis using ih(2,4) by blast
  qed
qed

lemma setup_all:
  assumes "rings_idle c n rs" "inv u" "view u = []" "n \<le> 8"
  shows "\<exists>err rs' h' u'. setup_rings alloc free add [0..<n] rs h u = Inr (err, rs', h', u') \<and> inv u' \<and> keep u u' \<and> length rs' = length rs \<and>
    (\<forall>j. n \<le> j \<longrightarrow> rs' ! j = rs ! j) \<and> (\<forall>j. (rs' ! j = None) = (rs ! j = None)) \<and>
    (if err = 0 then rings_ready c n rs' \<and> quota h = quota h' + 2 * n \<and> view u' = map (\<lambda>i. rg_dma (the (rs' ! i))) [0..<n]
     else err = - ENOMEM \<and> quota h' = quota h \<and> quota h < 2 * n)"
  using setup_from [of 0 n rs c u h] assms by (simp add: rings_idle_def split del: if_split cong: if_cong)

end

section \<open>The kernel memory module\<close>

definition only_tx :: "nat \<Rightarrow> ukmem \<Rightarrow> ukmem \<Rightarrow> bool" where
  "only_tx k u v \<longleftrightarrow> (\<exists>ds n. v = u\<lparr>uk_adapter := (uk_adapter u)[k := (uk_adapter u ! k)\<lparr>tx_desc := ds, tx_desc_num := n\<rparr>]\<rparr>)"

definition only_rx :: "nat \<Rightarrow> ukmem \<Rightarrow> ukmem \<Rightarrow> bool" where
  "only_rx k u v \<longleftrightarrow> (\<exists>ds n. v = u\<lparr>uk_adapter := (uk_adapter u)[k := (uk_adapter u ! k)\<lparr>rx_desc := ds, rx_desc_num := n\<rparr>]\<rparr>)"

definition tx_view :: "nat \<Rightarrow> ukmem \<Rightarrow> u64 list" where
  "tx_view k u = take (tx_desc_num (uk_adapter u ! k)) (tx_desc (uk_adapter u ! k))"

definition rx_view :: "nat \<Rightarrow> ukmem \<Rightarrow> u64 list" where
  "rx_view k u = take (rx_desc_num (uk_adapter u ! k)) (rx_desc (uk_adapter u ! k))"

text \<open>The module knows the card with this address as its card \<open>k\<close>.\<close>

definition known_as :: "nat \<Rightarrow> u64 \<Rightarrow> ukmem \<Rightarrow> bool" where
  "known_as k addr u \<longleftrightarrow> uk_ok u \<and> ukmem_find_adapter u addr = Some k \<and>
     tx_desc_num (uk_adapter u ! k) \<le> 8 \<and> rx_desc_num (uk_adapter u ! k) \<le> 8"

lemma known_asD:
  assumes "known_as k addr u"
  shows "uk_ok u" "k < uk_adapter_num u" "k < length (uk_adapter u)" "ukmem_find_adapter u addr = Some k"
    "length (tx_desc (uk_adapter u ! k)) = 8" "length (rx_desc (uk_adapter u ! k)) = 8"
    "length (tx_view k u) = tx_desc_num (uk_adapter u ! k)" "length (rx_view k u) = rx_desc_num (uk_adapter u ! k)"
proof -
  show ok: "uk_ok u" and f: "ukmem_find_adapter u addr = Some k" using assms by (simp_all add: known_as_def)
  show k: "k < uk_adapter_num u" using f by (auto simp: ukmem_find_adapter_def find_Some_iff)
  then show k': "k < length (uk_adapter u)" and t: "length (tx_desc (uk_adapter u ! k)) = 8" and r: "length (rx_desc (uk_adapter u ! k)) = 8"
    using uk_okD [OF ok] by simp_all
  show "length (tx_view k u) = tx_desc_num (uk_adapter u ! k)" "length (rx_view k u) = rx_desc_num (uk_adapter u ! k)"
    using assms t r by (simp_all add: known_as_def tx_view_def rx_view_def)
qed

lemma find_upd:
  assumes "adapter_addr c = adapter_addr (uk_adapter u ! k)"
  shows "ukmem_find_adapter (u\<lparr>uk_adapter := (uk_adapter u)[k := c]\<rparr>) addr = ukmem_find_adapter u addr"
proof -
  have "adapter_addr ((uk_adapter u)[k := c] ! i) = adapter_addr (uk_adapter u ! i)" for i
    using assms by (cases "i = k"; cases "k < length (uk_adapter u)") (simp_all add: not_less list_update_beyond)
  then show ?thesis by (simp add: ukmem_find_adapter_def)
qed

lemma known_as_upd:
  assumes "known_as k addr u" "adapter_addr c = adapter_addr (uk_adapter u ! k)" "length (tx_desc c) = 8" "length (rx_desc c) = 8"
    "tx_desc_num c \<le> 8" "rx_desc_num c \<le> 8"
  shows "known_as k addr (u\<lparr>uk_adapter := (uk_adapter u)[k := c]\<rparr>)"
proof -
  have "uk_ok (u\<lparr>uk_adapter := (uk_adapter u)[k := c]\<rparr>)"
    using uk_okD [OF known_asD(1) [OF assms(1)]] assms(3,4) known_asD(3) [OF assms(1)] by (intro uk_okI) (auto simp: nth_list_update)
  then show ?thesis using assms known_asD(3,4) [OF assms(1)] by (simp add: known_as_def find_upd)
qed

lemma add_tx_view:
  assumes k: "known_as k addr u" and n: "length (tx_view k u) < 8"
  shows "\<exists>v. ukmem_add_tx_desc addr d u = Inr v \<and> known_as k addr v \<and> tx_view k v = tx_view k u @ [d] \<and> only_tx k u v"
proof -
  note K = known_asD [OF k]
  let ?c = "uk_adapter u ! k"
  let ?n = "tx_desc_num ?c"
  let ?d = "?c\<lparr>tx_desc := (tx_desc ?c)[?n := d], tx_desc_num := ?n + 1\<rparr>"
  let ?v = "u\<lparr>uk_adapter := (uk_adapter u)[k := ?d]\<rparr>"
  have "?n < 8" using K(7) n by simp
  then have "ukmem_add_tx_desc addr d u = Inr ?v" "known_as k addr ?v" "tx_view k ?v = tx_view k u @ [d]"
    using K k known_as_upd [OF k, of ?d]
    by (simp_all add: ukmem_add_tx_desc_def ukmem_add_desc_def upd_adapter_def arr_get_def arr_set_def tx_view_def known_as_def take_Suc_conv_app_nth)
  then show ?thesis by (auto simp: only_tx_def)
qed

lemma add_rx_view:
  assumes k: "known_as k addr u" and n: "length (rx_view k u) < 8"
  shows "\<exists>v. ukmem_add_rx_desc addr d u = Inr v \<and> known_as k addr v \<and> rx_view k v = rx_view k u @ [d] \<and> only_rx k u v"
proof -
  note K = known_asD [OF k]
  let ?c = "uk_adapter u ! k"
  let ?n = "rx_desc_num ?c"
  let ?d = "?c\<lparr>rx_desc := (rx_desc ?c)[?n := d], rx_desc_num := ?n + 1\<rparr>"
  let ?v = "u\<lparr>uk_adapter := (uk_adapter u)[k := ?d]\<rparr>"
  have "?n < 8" using K(8) n by simp
  then have "ukmem_add_rx_desc addr d u = Inr ?v" "known_as k addr ?v" "rx_view k ?v = rx_view k u @ [d]"
    using K k known_as_upd [OF k, of ?d]
    by (simp_all add: ukmem_add_rx_desc_def ukmem_add_desc_def KRX_FLAG_def KTX_FLAG_def upd_adapter_def arr_get_def arr_set_def rx_view_def known_as_def take_Suc_conv_app_nth)
  then show ?thesis by (auto simp: only_rx_def)
qed

lemma only_tx_trans:
  assumes "only_tx k u v" "only_tx k v w"
  shows "only_tx k u w"
proof -
  obtain ds n ds' n' where v: "v = u\<lparr>uk_adapter := (uk_adapter u)[k := (uk_adapter u ! k)\<lparr>tx_desc := ds, tx_desc_num := n\<rparr>]\<rparr>"
    and w: "w = v\<lparr>uk_adapter := (uk_adapter v)[k := (uk_adapter v ! k)\<lparr>tx_desc := ds', tx_desc_num := n'\<rparr>]\<rparr>"
    using assms by (auto simp: only_tx_def)
  then have "w = u\<lparr>uk_adapter := (uk_adapter u)[k := (uk_adapter u ! k)\<lparr>tx_desc := ds', tx_desc_num := n'\<rparr>]\<rparr>"
    by (cases "k < length (uk_adapter u)") (simp_all add: not_less list_update_beyond)
  then show ?thesis unfolding only_tx_def by blast
qed

lemma only_rx_trans:
  assumes "only_rx k u v" "only_rx k v w"
  shows "only_rx k u w"
proof -
  obtain ds n ds' n' where v: "v = u\<lparr>uk_adapter := (uk_adapter u)[k := (uk_adapter u ! k)\<lparr>rx_desc := ds, rx_desc_num := n\<rparr>]\<rparr>"
    and w: "w = v\<lparr>uk_adapter := (uk_adapter v)[k := (uk_adapter v ! k)\<lparr>rx_desc := ds', rx_desc_num := n'\<rparr>]\<rparr>"
    using assms by (auto simp: only_rx_def)
  then have "w = u\<lparr>uk_adapter := (uk_adapter u)[k := (uk_adapter u ! k)\<lparr>rx_desc := ds', rx_desc_num := n'\<rparr>]\<rparr>"
    by (cases "k < length (uk_adapter u)") (simp_all add: not_less list_update_beyond)
  then show ?thesis unfolding only_rx_def by blast
qed

lemma only_refl: "only_tx k u u" "only_rx k u u"
proof -
  have "u = u\<lparr>uk_adapter := (uk_adapter u)[k := (uk_adapter u ! k)\<lparr>tx_desc := tx_desc (uk_adapter u ! k), tx_desc_num := tx_desc_num (uk_adapter u ! k)\<rparr>]\<rparr>" by simp
  then show "only_tx k u u" unfolding only_tx_def by blast
  have "u = u\<lparr>uk_adapter := (uk_adapter u)[k := (uk_adapter u ! k)\<lparr>rx_desc := rx_desc (uk_adapter u ! k), rx_desc_num := rx_desc_num (uk_adapter u ! k)\<rparr>]\<rparr>" by simp
  then show "only_rx k u u" unfolding only_rx_def by blast
qed

interpretation tx_mem: ring_memory "igb_setup_tx_resources dma_of mem" igb_free_tx_resources "ukmem_add_tx_desc addr" "tx_view k" "known_as k addr" "only_tx k"
  for dma_of mem addr k
proof unfold_locales
  fix c i r h err r' h'
  assume "idle_ring c i r" "igb_setup_tx_resources dma_of mem r h = (err, r', h')"
  then show "if err = 0 then ready_ring c i r' \<and> quota h = quota h' + 2 else err = - ENOMEM \<and> quota h' = quota h \<and> quota h < 2"
    using setup_ring_cases [of c i r dma_of mem h err r' h'] by (auto split: if_splits)
qed (use free_ready(1) add_tx_view only_refl only_tx_trans in blast)+

interpretation rx_mem: ring_memory "igb_setup_rx_resources dma_of mem" igb_free_rx_resources "ukmem_add_rx_desc addr" "rx_view k" "known_as k addr" "only_rx k"
  for dma_of mem addr k
proof unfold_locales
  fix c i r h err r' h'
  assume "idle_ring c i r" "igb_setup_rx_resources dma_of mem r h = (err, r', h')"
  then show "if err = 0 then ready_ring c i r' \<and> quota h = quota h' + 2 else err = - ENOMEM \<and> quota h' = quota h \<and> quota h < 2"
    using setup_ring_cases [of c i r dma_of mem h err r' h'] by (auto split: if_splits)
qed (use free_ready(2) add_rx_view only_refl only_rx_trans in blast)+

end
