(* ===== verification/IgbUp.thy ===== *)
theory IgbUp
  imports IgbConf IgbOpen
begin

text \<open>
  A card that has been opened: its rings have memory, the kernel memory module knows where, and the
  card's registers point there. A failed opening leaves nothing allocated; closing is the way back.
\<close>

section \<open>An open card\<close>

definition card_up :: "nat \<Rightarrow> igb_adapter \<Rightarrow> mmio \<Rightarrow> bool" where
  "card_up q a m \<longleftrightarrow> arrays_ok a \<and> num_tx_queues a = q \<and> num_rx_queues a = q \<and> unat (rss_queues a) = q \<and> vfs_allocated_count a = 0 \<and>
     rings_ready (tx_ring_count a) q (tx_rings a) \<and> rings_ready (rx_ring_count a) q (rx_rings a) \<and> card_ready a m \<and>
     (\<forall>i < q. \<exists>r s. tx_rings a ! i = Some r \<and> rx_rings a ! i = Some s \<and> tx_programmed a i r m \<and> rx_programmed a i s m)"

definition ring_dmas :: "nat \<Rightarrow> rings \<Rightarrow> u64 list" where
  "ring_dmas n rs = map (\<lambda>i. rg_dma (the (rs ! i))) [0..<n]"

text \<open>The part of the kernel memory module that opening a card changes.\<close>

definition only_desc :: "nat \<Rightarrow> ukmem \<Rightarrow> ukmem \<Rightarrow> bool" where
  "only_desc k u v \<longleftrightarrow> (\<exists>ts n rs l. v = u\<lparr>uk_adapter := (uk_adapter u)[k :=
     (uk_adapter u ! k)\<lparr>tx_desc := ts, tx_desc_num := n, rx_desc := rs, rx_desc_num := l\<rparr>]\<rparr>)"

lemma only_desc_tx: "only_tx k u v \<Longrightarrow> only_desc k u v"
proof -
  assume "only_tx k u v"
  then obtain ds n where "v = u\<lparr>uk_adapter := (uk_adapter u)[k := (uk_adapter u ! k)\<lparr>tx_desc := ds, tx_desc_num := n\<rparr>]\<rparr>" by (auto simp: only_tx_def)
  then have "v = u\<lparr>uk_adapter := (uk_adapter u)[k := (uk_adapter u ! k)\<lparr>tx_desc := ds, tx_desc_num := n,
    rx_desc := rx_desc (uk_adapter u ! k), rx_desc_num := rx_desc_num (uk_adapter u ! k)\<rparr>]\<rparr>" by simp
  then show ?thesis unfolding only_desc_def by blast
qed

lemma only_desc_both:
  assumes "only_tx k u v" "only_rx k v w"
  shows "only_desc k u w"
proof -
  obtain ds n rs l where v: "v = u\<lparr>uk_adapter := (uk_adapter u)[k := (uk_adapter u ! k)\<lparr>tx_desc := ds, tx_desc_num := n\<rparr>]\<rparr>"
    and w: "w = v\<lparr>uk_adapter := (uk_adapter v)[k := (uk_adapter v ! k)\<lparr>rx_desc := rs, rx_desc_num := l\<rparr>]\<rparr>"
    using assms by (auto simp: only_tx_def only_rx_def)
  then have "w = u\<lparr>uk_adapter := (uk_adapter u)[k := (uk_adapter u ! k)\<lparr>tx_desc := ds, tx_desc_num := n, rx_desc := rs, rx_desc_num := l\<rparr>]\<rparr>"
    by (cases "k < length (uk_adapter u)") (simp_all add: not_less list_update_beyond)
  then show ?thesis unfolding only_desc_def by blast
qed

lemma other_view:
  "only_tx k u v \<Longrightarrow> k < length (uk_adapter u) \<Longrightarrow> rx_view k v = rx_view k u"
  "only_rx k u v \<Longrightarrow> k < length (uk_adapter u) \<Longrightarrow> tx_view k v = tx_view k u"
  by (auto simp: only_tx_def only_rx_def rx_view_def tx_view_def)

lemma only_tx_length: "only_tx k u v \<Longrightarrow> length (uk_adapter v) = length (uk_adapter u)"
  by (auto simp: only_tx_def)

section \<open>Setting up the rings\<close>

lemma multi_table_loop:
  "length t = 8 \<Longrightarrow> n \<le> 8 \<Longrightarrow> \<exists>t'. foldE (\<lambda>i t. arr_set t i (f i)) [0..<n] t = Inr t' \<and> length t' = 8"
proof (induction n)
  case (Suc n)
  then show ?case by (auto simp: foldE_append arr_set_def)
qed simp

lemma setup_all_tx_ok:
  assumes idle: "rings_idle c q (tx_rings a)" and q: "num_tx_queues a = q" "0 < q" "q \<le> 8" and t: "length (multi_tx_table a) = 8"
    and u: "known_as k (ig_addr a) u" "tx_view k u = []"
  shows "\<exists>err txs t h' v. igb_setup_all_tx_resources dma_of mem a h u = Inr (err, a\<lparr>tx_rings := txs, multi_tx_table := t\<rparr>, h', v) \<and>
    known_as k (ig_addr a) v \<and> only_tx k u v \<and> length txs = length (tx_rings a) \<and> (\<forall>j \<ge> q. txs ! j = tx_rings a ! j) \<and>
    (\<forall>j. (txs ! j = None) = (tx_rings a ! j = None)) \<and>
    (if err = 0 then rings_ready c q txs \<and> quota h = quota h' + 2 * q \<and> tx_view k v = ring_dmas q txs
     else err = - ENOMEM \<and> quota h' = quota h \<and> quota h < 2 * q)"
proof -
  obtain err txs h' v where s: "setup_rings (igb_setup_tx_resources dma_of mem) igb_free_tx_resources (ukmem_add_tx_desc (ig_addr a)) [0..<q] (tx_rings a) h u
      = Inr (err, txs, h', v)" "known_as k (ig_addr a) v" "only_tx k u v" "length txs = length (tx_rings a)" "\<forall>j \<ge> q. txs ! j = tx_rings a ! j"
    "\<forall>j. (txs ! j = None) = (tx_rings a ! j = None)"
    "if err = 0 then rings_ready c q txs \<and> quota h = quota h' + 2 * q \<and> tx_view k v = map (\<lambda>i. rg_dma (the (txs ! i))) [0..<q]
     else err = - ENOMEM \<and> quota h' = quota h \<and> quota h < 2 * q"
    using tx_mem.setup_all [OF idle u q(3), of dma_of mem h] by blast
  obtain t' where "foldE (\<lambda>i t. arr_set t i (i mod q)) [0..<8] (multi_tx_table a) = Inr t'" using multi_table_loop [OF t, of 8 "\<lambda>i. i mod q"] by auto
  then show ?thesis using s q(1,2)
    by (intro exI [of _ err] exI [of _ txs] exI [of _ t'] exI [of _ h'] exI [of _ v])
      (simp add: igb_setup_all_tx_resources_def IGB_ABS_MAX_TX_QUEUES_def ring_dmas_def)
qed

lemma setup_all_rx_ok:
  assumes idle: "rings_idle c q (rx_rings a)" and q: "num_rx_queues a = q" "q \<le> 8" and u: "known_as k (ig_addr a) u" "rx_view k u = []"
  shows "\<exists>err rxs h' v. igb_setup_all_rx_resources dma_of mem a h u = Inr (err, a\<lparr>rx_rings := rxs\<rparr>, h', v) \<and>
    known_as k (ig_addr a) v \<and> only_rx k u v \<and> length rxs = length (rx_rings a) \<and> (\<forall>j \<ge> q. rxs ! j = rx_rings a ! j) \<and>
    (\<forall>j. (rxs ! j = None) = (rx_rings a ! j = None)) \<and>
    (if err = 0 then rings_ready c q rxs \<and> quota h = quota h' + 2 * q \<and> rx_view k v = ring_dmas q rxs
     else err = - ENOMEM \<and> quota h' = quota h \<and> quota h < 2 * q)"
proof -
  obtain err rxs h' v where s: "setup_rings (igb_setup_rx_resources dma_of mem) igb_free_rx_resources (ukmem_add_rx_desc (ig_addr a)) [0..<q] (rx_rings a) h u
      = Inr (err, rxs, h', v)" "known_as k (ig_addr a) v" "only_rx k u v" "length rxs = length (rx_rings a)" "\<forall>j \<ge> q. rxs ! j = rx_rings a ! j"
    "\<forall>j. (rxs ! j = None) = (rx_rings a ! j = None)"
    "if err = 0 then rings_ready c q rxs \<and> quota h = quota h' + 2 * q \<and> rx_view k v = map (\<lambda>i. rg_dma (the (rxs ! i))) [0..<q]
     else err = - ENOMEM \<and> quota h' = quota h \<and> quota h < 2 * q"
    using rx_mem.setup_all [OF idle u q(2), of dma_of mem h] by blast
  then show ?thesis using q(1)
    by (intro exI [of _ err] exI [of _ rxs] exI [of _ h'] exI [of _ v]) (simp add: igb_setup_all_rx_resources_def ring_dmas_def)
qed

section \<open>Opening\<close>

lemma same_ring_ready: "same_ring r s \<Longrightarrow> ready_ring c i r \<Longrightarrow> ready_ring c i s"
proof -
  assume "same_ring r s" "ready_ring c i r"
  moreover obtain x y where "s = r\<lparr>rg_head := x, rg_tail := y\<rparr>" using calculation(1) unfolding same_ring_def by blast
  ultimately show ?thesis by (simp add: ready_ring_def)
qed

lemma same_ring_dma: "same_ring r s \<Longrightarrow> rg_dma s = rg_dma r"
proof -
  assume "same_ring r s"
  then obtain x y where "s = r\<lparr>rg_head := x, rg_tail := y\<rparr>" unfolding same_ring_def by blast
  then show ?thesis by simp
qed

lemma programmed_ready:
  assumes "rings_programmed prog n rs ss m" "rings_ready c n rs"
  shows "rings_ready c n ss" "ring_dmas n ss = ring_dmas n rs" "in_use ss = in_use rs" "(\<forall>i. (ss ! i = None) = (rs ! i = None))"
proof -
  have each: "\<exists>r s. rs ! i = Some r \<and> ss ! i = Some s \<and> ready_ring c i s \<and> rg_dma s = rg_dma r" if "i < n" for i
    using assms that same_ring_ready same_ring_dma unfolding rings_programmed_def rings_ready_def by (metis option.inject)
  show "rings_ready c n ss" using each assms unfolding rings_programmed_def rings_ready_def by metis
  show "ring_dmas n ss = ring_dmas n rs" using each by (fastforce simp: ring_dmas_def)
  have len: "length ss = length rs" "\<forall>i \<ge> n. ss ! i = rs ! i" using assms(1) by (simp_all add: rings_programmed_def)
  show none: "\<forall>i. (ss ! i = None) = (rs ! i = None)"
  proof
    fix i show "(ss ! i = None) = (rs ! i = None)" using each [of i] len(2) by (cases "i < n") auto
  qed
  show "in_use ss = in_use rs" by (rule in_use_same) (use none len in auto)
qed

lemma rings_ready_idx: "rings_ready c n rs \<Longrightarrow> i < n \<Longrightarrow> \<exists>r. rs ! i = Some r \<and> unat (reg_idx r) = i"
  by (auto simp: rings_ready_def ready_ring_def)

text \<open>The conditions for opening: the card is closed and the kernel memory module knows it, without rings.\<close>

definition card_closed :: "nat \<Rightarrow> nat \<Rightarrow> igb_adapter \<Rightarrow> ukmem \<Rightarrow> bool" where
  "card_closed q k a u \<longleftrightarrow> has_queues q a \<and> length (multi_tx_table a) = 8 \<and> known_as k (ig_addr a) u \<and> tx_view k u = [] \<and> rx_view k u = []"

lemma has_queuesD:
  assumes "has_queues q a"
  shows "arrays_ok a" "num_tx_queues a = q" "num_rx_queues a = q" "unat (rss_queues a) = q" "vfs_allocated_count a = 0"
    "rings_idle (tx_ring_count a) q (tx_rings a)" "rings_idle (rx_ring_count a) q (rx_rings a)" "length (tx_rings a) = 16" "length (rx_rings a) = 16"
  using assms by (simp_all add: has_queues_def arrays_ok_def)

lemma arrays_ok_rings:
  assumes "arrays_ok a" "length txs = 16" "length rxs = 16" "\<forall>j. (txs ! j = None) = (tx_rings a ! j = None)" "\<forall>j. (rxs ! j = None) = (rx_rings a ! j = None)"
  shows "arrays_ok (a\<lparr>tx_rings := txs, rx_rings := rxs, multi_tx_table := t\<rparr>)"
    "held_mem (a\<lparr>tx_rings := txs, rx_rings := rxs, multi_tx_table := t\<rparr>) = held_mem a"
proof -
  show "arrays_ok (a\<lparr>tx_rings := txs, rx_rings := rxs, multi_tx_table := t\<rparr>)" using assms unfolding arrays_ok_def by simp
  have "in_use txs = in_use (tx_rings a)" "in_use rxs = in_use (rx_rings a)"
    by (rule in_use_same; use assms in \<open>simp add: arrays_ok_def del: not_None_eq\<close>)+
  then show "held_mem (a\<lparr>tx_rings := txs, rx_rings := rxs, multi_tx_table := t\<rparr>) = held_mem a" by (simp add: held_mem_def)
qed

definition same_but_rings :: "igb_adapter \<Rightarrow> igb_adapter \<Rightarrow> bool" where
  "same_but_rings a b \<longleftrightarrow> (\<exists>txs rxs tab. b = a\<lparr>tx_rings := txs, rx_rings := rxs, multi_tx_table := tab\<rparr>)"

lemma same_but_rings_refl [simp]: "same_but_rings a a"
proof -
  have "a = a\<lparr>tx_rings := tx_rings a, rx_rings := rx_rings a, multi_tx_table := multi_tx_table a\<rparr>" by simp
  then show ?thesis unfolding same_but_rings_def by blast
qed

lemma same_but_ringsI:
  "same_but_rings a (a\<lparr>tx_rings := txs, multi_tx_table := tab\<rparr>)" "same_but_rings a (a\<lparr>tx_rings := txs, rx_rings := rxs, multi_tx_table := tab\<rparr>)"
  "same_but_rings a (a\<lparr>tx_rings := txs, multi_tx_table := tab, rx_rings := rxs\<rparr>)"
  "same_but_rings a (a\<lparr>tx_rings := txs, rx_rings := rxs\<rparr>)" "same_but_rings a (a\<lparr>tx_rings := txs\<rparr>)"
proof -
  have "a\<lparr>tx_rings := txs, multi_tx_table := tab\<rparr> = a\<lparr>tx_rings := txs, rx_rings := rx_rings a, multi_tx_table := tab\<rparr>"
    "a\<lparr>tx_rings := txs, multi_tx_table := tab, rx_rings := rxs\<rparr> = a\<lparr>tx_rings := txs, rx_rings := rxs, multi_tx_table := tab\<rparr>"
    "a\<lparr>tx_rings := txs, rx_rings := rxs\<rparr> = a\<lparr>tx_rings := txs, rx_rings := rxs, multi_tx_table := multi_tx_table a\<rparr>"
    "a\<lparr>tx_rings := txs\<rparr> = a\<lparr>tx_rings := txs, rx_rings := rx_rings a, multi_tx_table := multi_tx_table a\<rparr>" by simp_all
  then show "same_but_rings a (a\<lparr>tx_rings := txs, multi_tx_table := tab\<rparr>)" "same_but_rings a (a\<lparr>tx_rings := txs, rx_rings := rxs, multi_tx_table := tab\<rparr>)"
    "same_but_rings a (a\<lparr>tx_rings := txs, multi_tx_table := tab, rx_rings := rxs\<rparr>)"
    "same_but_rings a (a\<lparr>tx_rings := txs, rx_rings := rxs\<rparr>)" "same_but_rings a (a\<lparr>tx_rings := txs\<rparr>)"
    unfolding same_but_rings_def by blast+
qed

lemma same_but_rings_trans:
  assumes "same_but_rings a b" "same_but_rings b c"
  shows "same_but_rings a c"
proof -
  obtain txs rxs tab where "b = a\<lparr>tx_rings := txs, rx_rings := rxs, multi_tx_table := tab\<rparr>" using assms(1) unfolding same_but_rings_def by blast
  moreover obtain txs' rxs' tab' where "c = b\<lparr>tx_rings := txs', rx_rings := rxs', multi_tx_table := tab'\<rparr>" using assms(2) unfolding same_but_rings_def by blast
  ultimately have "c = a\<lparr>tx_rings := txs', rx_rings := rxs', multi_tx_table := tab'\<rparr>" by simp
  then show ?thesis unfolding same_but_rings_def by blast
qed

lemma same_but_ringsD:
  assumes "same_but_rings a b"
  shows "ig_addr b = ig_addr a" "hw_addr b = hw_addr a" "ig_mac_type b = ig_mac_type a" "ig_mac b = ig_mac a" "num_tx_queues b = num_tx_queues a"
    "num_rx_queues b = num_rx_queues a" "rss_queues b = rss_queues a" "vfs_allocated_count b = vfs_allocated_count a"
    "tx_ring_count b = tx_ring_count a" "rx_ring_count b = rx_ring_count a" "num_q_vectors b = num_q_vectors a" "q_vector b = q_vector a"
    "msix_entries b = msix_entries a"
  using assms by (auto simp: same_but_rings_def)

text \<open>A card whose rings have memory, programmed or not; all of it can be freed again.\<close>

definition rings_full :: "nat \<Rightarrow> igb_adapter \<Rightarrow> bool" where
  "rings_full q a \<longleftrightarrow> arrays_ok a \<and> num_tx_queues a = q \<and> num_rx_queues a = q \<and> unat (rss_queues a) = q \<and> vfs_allocated_count a = 0 \<and>
     rings_ready (tx_ring_count a) q (tx_rings a) \<and> rings_ready (rx_ring_count a) q (rx_rings a)"

lemma rings_none_same:
  assumes "length rs' = length rs" "\<forall>i < n. (rs' ! i \<noteq> None) \<and> rs ! i \<noteq> None" "\<forall>i \<ge> n. rs' ! i = rs ! i"
  shows "\<forall>j. (rs' ! j = None) = (rs ! j = None)"
proof
  fix j show "(rs' ! j = None) = (rs ! j = None)" using assms by (cases "j < n") auto
qed

lemma free_all_ok:
  assumes f: "rings_full q a"
  shows "\<exists>b h1 c h2. igb_free_all_rx_resources a h = Inr (b, h1) \<and> igb_free_all_tx_resources b h1 = Inr (c, h2) \<and> quota h2 = quota h + 4 * q \<and>
      has_queues q c \<and> held_mem c = held_mem a \<and> same_but_rings a c"
    "\<exists>b h1 c h2. igb_free_all_tx_resources a h = Inr (b, h1) \<and> igb_free_all_rx_resources b h1 = Inr (c, h2) \<and> quota h2 = quota h + 4 * q \<and>
      has_queues q c \<and> held_mem c = held_mem a \<and> same_but_rings a c"
proof -
  have F: "arrays_ok a" "num_tx_queues a = q" "num_rx_queues a = q" "rings_ready (tx_ring_count a) q (tx_rings a)"
    "rings_ready (rx_ring_count a) q (rx_rings a)" using f by (simp_all add: rings_full_def)
  have tx: "\<exists>txs h'. foldE (free_resources igb_free_tx_resources) [0..<q] (tx_rings a, h) = Inr (txs, h') \<and> length txs = length (tx_rings a) \<and>
      quota h' = quota h + 2 * q \<and> rings_idle (tx_ring_count a) q txs \<and> (\<forall>j. (txs ! j = None) = (tx_rings a ! j = None))" for h
    using tx_mem.free_all [OF F(4), of h] F(4) rings_none_same [of _ "tx_rings a" q] unfolding rings_ready_def rings_idle_def by fastforce
  have rx: "\<exists>rxs h'. foldE (free_resources igb_free_rx_resources) [0..<q] (rx_rings a, h) = Inr (rxs, h') \<and> length rxs = length (rx_rings a) \<and>
      quota h' = quota h + 2 * q \<and> rings_idle (rx_ring_count a) q rxs \<and> (\<forall>j. (rxs ! j = None) = (rx_rings a ! j = None))" for h
    using rx_mem.free_all [OF F(5), of h] F(5) rings_none_same [of _ "rx_rings a" q] unfolding rings_ready_def rings_idle_def by fastforce
  have fin: "has_queues q (a\<lparr>tx_rings := txs, rx_rings := rxs\<rparr>) \<and> held_mem (a\<lparr>tx_rings := txs, rx_rings := rxs\<rparr>) = held_mem a"
    if "length txs = length (tx_rings a)" "rings_idle (tx_ring_count a) q txs" "\<forall>j. (txs ! j = None) = (tx_rings a ! j = None)"
      "length rxs = length (rx_rings a)" "rings_idle (rx_ring_count a) q rxs" "\<forall>j. (rxs ! j = None) = (rx_rings a ! j = None)" for txs rxs
    using arrays_ok_rings [OF F(1), of txs rxs "multi_tx_table a"] that f by (simp add: has_queues_def rings_full_def arrays_ok_def)
  show "\<exists>b h1 c h2. igb_free_all_rx_resources a h = Inr (b, h1) \<and> igb_free_all_tx_resources b h1 = Inr (c, h2) \<and> quota h2 = quota h + 4 * q \<and>
      has_queues q c \<and> held_mem c = held_mem a \<and> same_but_rings a c"
  proof -
    obtain rxs h1 where r: "foldE (free_resources igb_free_rx_resources) [0..<q] (rx_rings a, h) = Inr (rxs, h1)" "length rxs = length (rx_rings a)"
      "quota h1 = quota h + 2 * q" "rings_idle (rx_ring_count a) q rxs" "\<forall>j. (rxs ! j = None) = (rx_rings a ! j = None)" using rx by blast
    obtain txs h2 where t: "foldE (free_resources igb_free_tx_resources) [0..<q] (tx_rings a, h1) = Inr (txs, h2)" "length txs = length (tx_rings a)"
      "quota h2 = quota h1 + 2 * q" "rings_idle (tx_ring_count a) q txs" "\<forall>j. (txs ! j = None) = (tx_rings a ! j = None)" using tx by blast
    have order: "a\<lparr>rx_rings := rxs, tx_rings := txs\<rparr> = a\<lparr>tx_rings := txs, rx_rings := rxs\<rparr>" by simp
    show ?thesis using r(1,3) t(1,3) fin [OF t(2,4,5) r(2,4,5)] same_but_ringsI(4) F(2,3)
      by (simp add: igb_free_all_rx_resources_def igb_free_all_tx_resources_def order)
  qed
  show "\<exists>b h1 c h2. igb_free_all_tx_resources a h = Inr (b, h1) \<and> igb_free_all_rx_resources b h1 = Inr (c, h2) \<and> quota h2 = quota h + 4 * q \<and>
      has_queues q c \<and> held_mem c = held_mem a \<and> same_but_rings a c"
  proof -
    obtain txs h1 where t: "foldE (free_resources igb_free_tx_resources) [0..<q] (tx_rings a, h) = Inr (txs, h1)" "length txs = length (tx_rings a)"
      "quota h1 = quota h + 2 * q" "rings_idle (tx_ring_count a) q txs" "\<forall>j. (txs ! j = None) = (tx_rings a ! j = None)" using tx by blast
    obtain rxs h2 where r: "foldE (free_resources igb_free_rx_resources) [0..<q] (rx_rings a, h1) = Inr (rxs, h2)" "length rxs = length (rx_rings a)"
      "quota h2 = quota h1 + 2 * q" "rings_idle (rx_ring_count a) q rxs" "\<forall>j. (rxs ! j = None) = (rx_rings a ! j = None)" using rx by blast
    show ?thesis using r(1,3) t(1,3) fin [OF t(2,4,5) r(2,4,5)] same_but_ringsI(4) F(2,3)
      by (simp add: igb_free_all_rx_resources_def igb_free_all_tx_resources_def)
  qed
qed

lemma programmed_adapter:
  assumes "same_but_rings a b"
  shows "tx_programmed b = tx_programmed a" "rx_programmed b = rx_programmed a" "card_ready b = card_ready a"
proof -
  note D = same_but_ringsD [OF assms]
  show "tx_programmed b = tx_programmed a" "rx_programmed b = rx_programmed a"
    using D by (simp_all add: fun_eq_iff tx_programmed_def rx_programmed_def rd32_def srrctl_of_def)
  show "card_ready b = card_ready a"
    using D by (simp add: fun_eq_iff card_ready_def rss_ready_def rd32_def reta_word_def reta_entry_def)
qed

lemma rings_full_same:
  assumes f: "rings_full q a" and "rings_programmed p q (tx_rings a) txs m" "rings_programmed p' q (rx_rings a) rxs m'"
  shows "rings_full q (a\<lparr>tx_rings := txs, rx_rings := rxs\<rparr>)"
proof -
  have F: "arrays_ok a" "rings_ready (tx_ring_count a) q (tx_rings a)" "rings_ready (rx_ring_count a) q (rx_rings a)" using f by (simp_all add: rings_full_def)
  note T = programmed_ready [OF assms(2) F(2)] and R = programmed_ready [OF assms(3) F(3)]
  have "length txs = 16" "length rxs = 16" using assms(2,3) F(1) by (simp_all add: rings_programmed_def arrays_ok_def)
  then show ?thesis using arrays_ok_rings(1) [OF F(1) _ _ T(4) R(4), of "multi_tx_table a"] T(1) R(1) f by (simp add: rings_full_def)
qed

text \<open>Configuring a card whose rings have memory.\<close>

lemma configure_up:
  assumes f: "rings_full q a" and q: "0 < q" "q \<le> 8" and t: "ig_mac_type a \<noteq> e1000_82575" and junk: "length (ce_junk e) = 4"
  shows "\<exists>b n. igb_configure e a m = Inr (b, n) \<and> same_but_rings a b \<and> rings_full q b \<and> card_up q b n \<and>
    ring_dmas q (tx_rings b) = ring_dmas q (tx_rings a) \<and> ring_dmas q (rx_rings b) = ring_dmas q (rx_rings a)"
proof -
  have F: "arrays_ok a" "num_tx_queues a = q" "num_rx_queues a = q" "unat (rss_queues a) = q" "vfs_allocated_count a = 0"
    "rings_ready (tx_ring_count a) q (tx_rings a)" "rings_ready (rx_ring_count a) q (rx_rings a)" using f by (simp_all add: rings_full_def)
  have num: "rss_queues a \<noteq> 0" using F(4) q(1) by auto
  have len: "q \<le> length (tx_rings a)" "q \<le> length (rx_rings a)" using F(1) q(2) by (simp_all add: arrays_ok_def)
  obtain txs rxs n where c: "igb_configure e a m = Inr (a\<lparr>tx_rings := txs, rx_rings := rxs\<rparr>, n)" "card_ready a n"
    "rings_programmed (tx_programmed a) q (tx_rings a) txs n" "rings_programmed (rx_programmed (a\<lparr>tx_rings := txs\<rparr>)) q (rx_rings a) rxs n"
    using configure_ok [OF F(5) t num junk q(2) F(2,3) len rings_ready_idx [OF F(6)] rings_ready_idx [OF F(7)], of m] by blast
  let ?b = "a\<lparr>tx_rings := txs, rx_rings := rxs\<rparr>"
  have b: "same_but_rings a ?b" "rings_full q ?b" using same_but_ringsI(4) rings_full_same [OF f c(3,4)] by blast+
  have rx_b: "rx_programmed (a\<lparr>tx_rings := txs\<rparr>) = rx_programmed a"
    by (rule programmed_adapter(2), rule same_but_ringsI(5))
  have "\<exists>r s. txs ! i = Some r \<and> rxs ! i = Some s \<and> tx_programmed a i r n \<and> rx_programmed a i s n" if "i < q" for i
    using c(3,4) that unfolding rings_programmed_def rx_b by metis
  then have "card_up q ?b n"
    using b c(2) by (simp add: card_up_def rings_full_def programmed_adapter [OF b(1)])
  moreover have "ring_dmas q txs = ring_dmas q (tx_rings a)" "ring_dmas q rxs = ring_dmas q (rx_rings a)"
    using programmed_ready(2) [OF c(3) F(6)] programmed_ready(2) [OF c(4) F(7)] .
  ultimately show ?thesis using c(1) b by auto
qed

lemma open_ok:
  assumes c: "card_closed q k a u" and q: "0 < q" "q \<le> 8" and t: "ig_mac_type a \<noteq> e1000_82575" and junk: "length (ce_junk e) = 4"
  shows "\<exists>err b h' v n. igb_open e a h u m = Inr (err, b, h', v, n) \<and> same_but_rings a b \<and> known_as k (ig_addr a) v \<and> only_desc k u v \<and>
    (if err = 0 then card_up q b n \<and> quota h = quota h' + 4 * q \<and> tx_view k v = ring_dmas q (tx_rings b) \<and> rx_view k v = ring_dmas q (rx_rings b)
     else quota h' = quota h \<and> (ce_testing e \<or> ce_request_irq e \<noteq> 0 \<or> quota h < 4 * q))"
proof (cases "ce_testing e")
  case True
  then show ?thesis using c only_desc_tx [OF only_refl(1)] by (simp add: igb_open_def EBUSY_def card_closed_def)
next
  case start: False
  have hq: "has_queues q a" "length (multi_tx_table a) = 8" "known_as k (ig_addr a) u" "tx_view k u = []" "rx_view k u = []"
    using c by (simp_all add: card_closed_def)
  note H = has_queuesD [OF hq(1)] and K = known_asD [OF hq(3)]
  obtain err1 txs tab h1 u1 where 1: "igb_setup_all_tx_resources (ce_dma e) (ce_mem e) a h u = Inr (err1, a\<lparr>tx_rings := txs, multi_tx_table := tab\<rparr>, h1, u1)"
    "known_as k (ig_addr a) u1" "only_tx k u u1" "length txs = length (tx_rings a)" "\<forall>j. (txs ! j = None) = (tx_rings a ! j = None)"
    "if err1 = 0 then rings_ready (tx_ring_count a) q txs \<and> quota h = quota h1 + 2 * q \<and> tx_view k u1 = ring_dmas q txs else err1 = - ENOMEM \<and> quota h1 = quota h \<and> quota h < 2 * q"
    using setup_all_tx_ok [OF H(6,2) q hq(2-4), of "ce_dma e" "ce_mem e" h] by blast
  let ?a = "a\<lparr>tx_rings := txs, multi_tx_table := tab\<rparr>"
  show ?thesis
  proof (cases "err1 = 0")
    case False
    then show ?thesis using start 1 only_desc_tx [OF 1(3)] same_but_ringsI(1) by (simp add: igb_open_def)
  next
    case e1: True
    have rv: "rx_view k u1 = []" using other_view(1) [OF 1(3) K(3)] hq(5) by simp
    obtain err2 rxs h2 u2 where 2: "igb_setup_all_rx_resources (ce_dma e) (ce_mem e) ?a h1 u1 = Inr (err2, ?a\<lparr>rx_rings := rxs\<rparr>, h2, u2)"
      "known_as k (ig_addr a) u2" "only_rx k u1 u2" "length rxs = length (rx_rings a)" "\<forall>j. (rxs ! j = None) = (rx_rings a ! j = None)"
      "if err2 = 0 then rings_ready (rx_ring_count a) q rxs \<and> quota h1 = quota h2 + 2 * q \<and> rx_view k u2 = ring_dmas q rxs else err2 = - ENOMEM \<and> quota h2 = quota h1 \<and> quota h1 < 2 * q"
      using setup_all_rx_ok [of "rx_ring_count a" q ?a k u1 "ce_dma e" "ce_mem e" h1] H(3,7) q(2) 1(2) rv by auto
    let ?b = "?a\<lparr>rx_rings := rxs\<rparr>"
    have desc: "only_desc k u u2" using only_desc_both [OF 1(3) 2(3)] .
    have tv: "tx_view k u2 = ring_dmas q txs"
      using other_view(2) [OF 2(3)] only_tx_length [OF 1(3)] K(3) 1(6) e1 by simp
    have sb: "same_but_rings a ?b" by (rule same_but_ringsI(3))
    have ready: "rings_ready (tx_ring_count a) q txs" "quota h = quota h1 + 2 * q" using 1(6) e1 by simp_all
    show ?thesis
    proof (cases "err2 = 0")
      case False
      obtain txs' h3 where f: "foldE (free_resources igb_free_tx_resources) [0..<q] (txs, h2) = Inr (txs', h3)" "quota h3 = quota h2 + 2 * q"
        using tx_mem.free_all [OF ready(1), of h2] by blast
      have "same_but_rings a (?b\<lparr>tx_rings := txs'\<rparr>)"
        by (rule same_but_rings_trans [OF sb same_but_ringsI(5)])
      then show ?thesis using start 1(1) 2(1,2) e1 False f desc 2(6) ready(2) H(2)
        by (simp add: igb_open_def igb_free_all_tx_resources_def)
    next
      case e2: True
      have ready2: "rings_ready (rx_ring_count a) q rxs" "quota h1 = quota h2 + 2 * q" "rx_view k u2 = ring_dmas q rxs" using 2(6) e2 by simp_all
      have "length txs = 16" "length rxs = 16" using 1(4) 2(4) H(8,9) by simp_all
      then have full: "rings_full q ?b"
        using arrays_ok_rings(1) [OF H(1) _ _ 1(5) 2(5), of tab] ready(1) ready2(1) H(2-5) by (simp add: rings_full_def arrays_ok_def)
      have t': "ig_mac_type ?b \<noteq> e1000_82575" using t by simp
      obtain b n where conf: "igb_configure e ?b m = Inr (b, n)" "same_but_rings ?b b" "rings_full q b" "card_up q b n"
        "ring_dmas q (tx_rings b) = ring_dmas q txs" "ring_dmas q (rx_rings b) = ring_dmas q rxs"
        using configure_up [OF full q t' junk, of m] by auto
      have sab: "same_but_rings a b" using same_but_rings_trans [OF sb conf(2)] .
      show ?thesis
      proof (cases "ce_request_irq e = 0")
        case True
        then have "igb_open e a h u m = Inr (0, b, h2, u2, n)"
          using start 1(1) 2(1) e1 e2 conf(1) same_but_ringsD(8) [OF sab] H(5) by (simp add: igb_open_def)
        then show ?thesis using sab 2(2) desc conf(4-6) ready(2) ready2(2,3) tv by simp
      next
        case False
        obtain b' h3 b'' h4 where f: "igb_free_all_rx_resources b h2 = Inr (b', h3)" "igb_free_all_tx_resources b' h3 = Inr (b'', h4)"
          "quota h4 = quota h2 + 4 * q" "same_but_rings b b''" using free_all_ok(1) [OF conf(3), of h2] by blast
        have "igb_open e a h u m = Inr (ce_request_irq e, b'', h4, u2, n)"
          using start 1(1) 2(1) e1 e2 conf(1) f(1,2) False by (simp add: igb_open_def)
        then show ?thesis using same_but_rings_trans [OF sab f(4)] 2(2) desc False f(3) ready(2) ready2(2) by simp
      qed
    qed
  qed
qed

section \<open>Closing\<close>

lemma clean_rings_ok:
  assumes clean: "\<And>i r. ready_ring c i r \<Longrightarrow> \<exists>r'. clean r = Inr r' \<and> ready_ring c i r'" and rs: "rings_ready c n rs"
  shows "\<exists>rs'. foldE (clean_ring clean) [0..<n] rs = Inr rs' \<and> rings_ready c n rs' \<and> length rs' = length rs \<and> (\<forall>j. (rs' ! j = None) = (rs ! j = None))"
proof -
  let ?I = "\<lambda>rs'. rings_ready c n rs' \<and> length rs' = length rs \<and> (\<forall>j. (rs' ! j = None) = (rs ! j = None))"
  have "\<exists>ss'. clean_ring clean i ss = Inr ss' \<and> ?I ss'" if i: "i \<in> set [0..<n]" and I: "?I ss" for i ss
  proof -
    obtain r where r: "ss ! i = Some r" "ready_ring c i r" "i < length ss" using i I by (auto simp: rings_ready_def)
    obtain r' where r': "clean r = Inr r'" "ready_ring c i r'" using clean [OF r(2)] by blast
    have "clean_ring clean i ss = Inr (ss[i := Some r'])" using r r' by (simp add: clean_ring_def get_ring_def arr_get_def)
    moreover have "rings_ready c n (ss[i := Some r'])" using I r r' by (auto simp: rings_ready_def nth_list_update)
    moreover have "rs ! i \<noteq> None" using I r(1) by (metis option.distinct(1))
    then have "(ss[i := Some r'] ! j = None) = (rs ! j = None)" for j using I r(3) by (cases "j = i") auto
    ultimately show ?thesis using I by simp
  qed
  then show ?thesis using foldE_invariant [of ?I rs "[0..<n]" "clean_ring clean"] rs by blast
qed

lemma card_up_full: "card_up q a m \<Longrightarrow> rings_full q a"
  by (simp add: card_up_def rings_full_def)

lemma down_ok:
  assumes f: "rings_full q a"
  shows "\<exists>b n. igb_down a m = Inr (b, n) \<and> rings_full q b \<and> same_but_rings a b \<and> held_mem b = held_mem a \<and>
    \<not> bit (rd32 a E1000_RCTL n) 1 \<and> \<not> bit (rd32 a E1000_TCTL n) 1"
proof -
  have F: "arrays_ok a" "num_tx_queues a = q" "num_rx_queues a = q" "rings_ready (tx_ring_count a) q (tx_rings a)"
    "rings_ready (rx_ring_count a) q (rx_rings a)" "length (tx_rings a) = 16" "length (rx_rings a) = 16"
    using f by (simp_all add: rings_full_def arrays_ok_def)
  obtain txs where t: "foldE (clean_ring igb_clean_tx_ring) [0..<q] (tx_rings a) = Inr txs" "rings_ready (tx_ring_count a) q txs" "length txs = 16"
    "\<forall>j. (txs ! j = None) = (tx_rings a ! j = None)" using clean_rings_ok [where clean = igb_clean_tx_ring, OF clean_ready(1) F(4)] F(6) by auto
  obtain rxs where r: "foldE (clean_ring igb_clean_rx_ring) [0..<q] (rx_rings a) = Inr rxs" "rings_ready (rx_ring_count a) q rxs" "length rxs = 16"
    "\<forall>j. (rxs ! j = None) = (rx_rings a ! j = None)" using clean_rings_ok [where clean = igb_clean_rx_ring, OF clean_ready(2) F(5)] F(7) by auto
  let ?b = "a\<lparr>tx_rings := txs, rx_rings := rxs\<rparr>"
  define n where "n = wr32 a E1000_TCTL (rd32 a E1000_TCTL (wr32 a E1000_RCTL (rd32 a E1000_RCTL m AND NOT 0x00000002) m) AND NOT 0x00000002)
    (wr32 a E1000_RCTL (rd32 a E1000_RCTL m AND NOT 0x00000002) m)"
  have "igb_down a m = Inr (?b, n)"
    using t(1) r(1) F(2,3) by (simp add: igb_down_def igb_clean_all_tx_rings_def igb_clean_all_rx_rings_def n_def Let_def)
  moreover have "rings_full q ?b" "held_mem ?b = held_mem a"
    using arrays_ok_rings [OF F(1) t(3) r(3) t(4) r(4), of "multi_tx_table a"] t(2) r(2) f by (simp_all add: rings_full_def)
  moreover have "\<not> bit (rd32 a E1000_RCTL n) 1" "\<not> bit (rd32 a E1000_TCTL n) 1"
    by (simp_all add: n_def rd32_wr32 E1000_RCTL_def E1000_TCTL_def bit_simps)
  ultimately show ?thesis using same_but_ringsI(4) by blast
qed

lemma close_ok:
  assumes f: "rings_full q a"
  shows "\<exists>b h' n. igb_close a h m = Inr (b, h', n) \<and> has_queues q b \<and> quota h' = quota h + 4 * q \<and> held_mem b = held_mem a \<and> same_but_rings a b \<and>
    \<not> bit (rd32 a E1000_RCTL n) 1 \<and> \<not> bit (rd32 a E1000_TCTL n) 1"
proof -
  obtain b n where d: "igb_down a m = Inr (b, n)" "rings_full q b" "same_but_rings a b" "held_mem b = held_mem a"
    "\<not> bit (rd32 a E1000_RCTL n) 1" "\<not> bit (rd32 a E1000_TCTL n) 1" using down_ok [OF f] by blast
  obtain c h1 e h2 where e: "igb_free_all_tx_resources b h = Inr (c, h1)" "igb_free_all_rx_resources c h1 = Inr (e, h2)" "quota h2 = quota h + 4 * q"
    "has_queues q e" "held_mem e = held_mem b" "same_but_rings b e" using free_all_ok(2) [OF d(2)] by blast
  have "same_but_rings a e" using same_but_rings_trans [OF d(3) e(6)] .
  then show ?thesis using d e by (simp add: igb_close_def)
qed

lemma remove_ok:
  assumes "arrays_ok a"
  shows "\<exists>h'. igb_remove a h = Inr h' \<and> quota h' = Suc (quota h + held_mem a)"
  using clear_scheme_ok [OF assms, of h] by (auto simp: igb_remove_def mfree_def)

end
