(* ===== verification/IgbBoot.thy ===== *)
theory IgbBoot
  imports IgbUp DeviceMap
begin

text \<open>
  The kernel from loading the modules on: cards are probed and opened in any order. Once all are open,
  the kernel memory module holds what a process needs, and it agrees with the registers of the cards.
\<close>

section \<open>The kernel\<close>

record kcard =
  kc_dev :: igb_adapter
  kc_phys :: u64
  kc_regs :: mmio
  kc_up :: bool

record kernel =
  k_cards :: "kcard list"
  k_heap :: heap
  k_uk :: ukmem

text \<open>The static structure of the kernel memory module, zeroed, and after the module has been loaded with the sizes of \<open>ukmem_init\<close>.\<close>

definition static_ukmem :: ukmem where
  "static_ukmem = \<lparr>uk_adapter = replicate 16 \<lparr>adapter_addr = 0, regs_phys = 0, am_mac = (\<lambda>_. 0), rx_desc = replicate 8 0,
     tx_desc = replicate 8 0, rx_desc_num = 0, tx_desc_num = 0\<rparr>, uk_adapter_num = 0, uk_queue_num = 0, regs_pages = 0, desc_pages = 0,
     uk_start = 0, uk_phys = 0, uk_size = 0\<rparr>"

definition loaded :: "u64 \<Rightarrow> heap \<Rightarrow> kernel" where
  "loaded va h = \<lparr>k_cards = [], k_heap = h, k_uk = snd (ukmmap_init 128 1 va static_ukmem)\<rparr>"

text \<open>
  Probing and opening, as long as they succeed. The module parameter gives every card \<open>Q\<close> queues,
  MSI-X is granted, and a card's structure lies at an address of its own. What the registers of a new
  card hold is open.
\<close>

inductive kernel_step :: "nat \<Rightarrow> kernel \<Rightarrow> kernel \<Rightarrow> bool" for Q :: nat where
  step_probe: "unat (probe_queues e) = Q \<Longrightarrow> (\<And>k. pe_msix e k) \<Longrightarrow> pe_mac_type e \<noteq> e1000_82575 \<Longrightarrow> pe_addr e \<notin> set (uk_addrs (k_uk s)) \<Longrightarrow>
     igb_probe e (k_heap s) (k_uk s) = Inr (0, Some a, h, u) \<Longrightarrow>
     kernel_step Q s (s\<lparr>k_cards := k_cards s @ [\<lparr>kc_dev = a, kc_phys = pe_mmio_start e, kc_regs = m, kc_up = False\<rparr>], k_heap := h, k_uk := u\<rparr>)"
| step_open: "i < length (k_cards s) \<Longrightarrow> \<not> kc_up (k_cards s ! i) \<Longrightarrow> length (ce_junk e) = 4 \<Longrightarrow>
     igb_open e (kc_dev (k_cards s ! i)) (k_heap s) (k_uk s) (kc_regs (k_cards s ! i)) = Inr (0, a, h, u, m) \<Longrightarrow>
     kernel_step Q s (s\<lparr>k_cards := (k_cards s)[i := (k_cards s ! i)\<lparr>kc_dev := a, kc_regs := m, kc_up := True\<rparr>], k_heap := h, k_uk := u\<rparr>)"

section \<open>The invariant\<close>

text \<open>A card and its entry.\<close>

definition entry_ok :: "nat \<Rightarrow> nat \<Rightarrow> kcard \<Rightarrow> ukmem \<Rightarrow> bool" where
  "entry_ok Q i c u \<longleftrightarrow> adapter_addr (uk_adapter u ! i) = ig_addr (kc_dev c) \<and> regs_phys (uk_adapter u ! i) = kc_phys c \<and>
     (\<forall>k < 6. am_mac (uk_adapter u ! i) k = ig_mac (kc_dev c) k) \<and> tx_desc_num (uk_adapter u ! i) \<le> 8 \<and> rx_desc_num (uk_adapter u ! i) \<le> 8 \<and>
     ig_mac_type (kc_dev c) \<noteq> e1000_82575 \<and> tx_ring_count (kc_dev c) = 256 \<and> rx_ring_count (kc_dev c) = 256 \<and>
     (if kc_up c then card_up Q (kc_dev c) (kc_regs c) \<and> tx_view i u = ring_dmas Q (tx_rings (kc_dev c)) \<and> rx_view i u = ring_dmas Q (rx_rings (kc_dev c))
      else has_queues Q (kc_dev c) \<and> length (multi_tx_table (kc_dev c)) = 8 \<and> tx_view i u = [] \<and> rx_view i u = [])"

definition kernel_ok :: "nat \<Rightarrow> kernel \<Rightarrow> bool" where
  "kernel_ok Q s \<longleftrightarrow> uk_ok (k_uk s) \<and> distinct (uk_addrs (k_uk s)) \<and> uk_adapter_num (k_uk s) = length (k_cards s) \<and>
     regs_pages (k_uk s) = 128 \<and> desc_pages (k_uk s) = 1 \<and> (k_cards s \<noteq> [] \<longrightarrow> uk_queue_num (k_uk s) = int Q \<and> Q \<le> 8) \<and>
     (\<forall>i < length (k_cards s). entry_ok Q i (k_cards s ! i) (k_uk s)) \<and>
     (\<forall>i < 16. length (k_cards s) \<le> i \<longrightarrow> tx_desc_num (uk_adapter (k_uk s) ! i) = 0 \<and> rx_desc_num (uk_adapter (k_uk s) ! i) = 0)"

lemma loaded_ok: "kernel_ok Q (loaded va h)"
  by (auto simp: kernel_ok_def loaded_def ukmmap_init_def static_ukmem_def uk_ok_def uk_addrs_def MAX_ADAPTER_NUM_def MAX_DESC_NUM_def Let_def)

lemma entry_ok_cong: "uk_adapter v ! i = uk_adapter u ! i \<Longrightarrow> entry_ok Q i c v = entry_ok Q i c u"
  by (simp add: entry_ok_def tx_view_def rx_view_def)

lemma probe_has_room:
  assumes "uk_ok u" "igb_probe e h u = Inr (err, Some a, h', u')"
  shows "uk_adapter_num u < 16"
proof (rule ccontr)
  assume "\<not> uk_adapter_num u < 16"
  then have "ukmem_alloc_adapter addr u = Inl Bad_index" for addr
    using uk_okD [OF assms(1)] by (simp add: ukmem_alloc_adapter_def upd_adapter_def arr_get_def)
  then show False using assms(2) by (auto simp: igb_probe_def Let_def split: prod.splits option.splits if_splits)
qed

lemma probed_uk_entries:
  assumes ok: "uk_ok u" "uk_adapter_num u < 16"
  shows "uk_ok (probed_uk e u)" "uk_addrs (probed_uk e u) = uk_addrs u @ [pe_addr e]" "uk_adapter_num (probed_uk e u) = Suc (uk_adapter_num u)"
    "regs_pages (probed_uk e u) = regs_pages u" "desc_pages (probed_uk e u) = desc_pages u" "uk_queue_num (probed_uk e u) = int (unat (probe_queues e))"
    "i \<noteq> uk_adapter_num u \<Longrightarrow> uk_adapter (probed_uk e u) ! i = uk_adapter u ! i"
    "uk_adapter (probed_uk e u) ! uk_adapter_num u = probed_entry e (uk_adapter u ! uk_adapter_num u)"
proof -
  have p: "tx_desc (probed_entry e c) = tx_desc c" "rx_desc (probed_entry e c) = rx_desc c" "adapter_addr (probed_entry e c) = pe_addr e" for c
    by (simp_all add: probed_entry_def)
  show "uk_ok (probed_uk e u)" using with_entry_ok [OF ok, of "probed_entry e"] p by (simp add: probed_uk_def)
  show "uk_addrs (probed_uk e u) = uk_addrs u @ [pe_addr e]" using with_entry_addrs [OF ok, of "probed_entry e"] p by (simp add: probed_uk_def)
  show "uk_adapter_num (probed_uk e u) = Suc (uk_adapter_num u)" "regs_pages (probed_uk e u) = regs_pages u"
    "desc_pages (probed_uk e u) = desc_pages u" "uk_queue_num (probed_uk e u) = int (unat (probe_queues e))"
    "i \<noteq> uk_adapter_num u \<Longrightarrow> uk_adapter (probed_uk e u) ! i = uk_adapter u ! i"
    by (simp_all add: probed_uk_def with_entry_def)
  show "uk_adapter (probed_uk e u) ! uk_adapter_num u = probed_entry e (uk_adapter u ! uk_adapter_num u)"
    using uk_okD [OF ok(1)] ok(2) by (simp add: probed_uk_def with_entry_def)
qed

lemma probe_step_ok:
  assumes K: "kernel_ok Q s" and Q: "unat (probe_queues e) = Q" "0 < Q" and msix: "\<And>k. pe_msix e k" and t: "pe_mac_type e \<noteq> e1000_82575"
    and fresh: "pe_addr e \<notin> set (uk_addrs (k_uk s))" and p: "igb_probe e (k_heap s) (k_uk s) = Inr (0, Some a, h, u)"
  shows "kernel_ok Q (s\<lparr>k_cards := k_cards s @ [\<lparr>kc_dev = a, kc_phys = pe_mmio_start e, kc_regs = m, kc_up = False\<rparr>], k_heap := h, k_uk := u\<rparr>)"
proof -
  let ?u = "k_uk s" and ?n = "length (k_cards s)" and ?c = "\<lparr>kc_dev = a, kc_phys = pe_mmio_start e, kc_regs = m, kc_up = False\<rparr>"
  have S: "uk_ok ?u" "distinct (uk_addrs ?u)" "uk_adapter_num ?u = ?n" "\<And>i. i < ?n \<Longrightarrow> entry_ok Q i (k_cards s ! i) ?u"
    "\<And>i. i < 16 \<Longrightarrow> ?n \<le> i \<Longrightarrow> tx_desc_num (uk_adapter ?u ! i) = 0 \<and> rx_desc_num (uk_adapter ?u ! i) = 0" "regs_pages ?u = 128" "desc_pages ?u = 1"
    using K by (simp_all add: kernel_ok_def)
  have room: "uk_adapter_num ?u < 16" using probe_has_room [OF S(1) p] .
  have num: "probe_queues e \<noteq> 0" using Q by auto
  from probe_ok [OF S(1) room fresh num, of "k_heap s"] p have a: "u = probed_uk e ?u" "ig_addr a = pe_addr e" "ig_mac_type a = pe_mac_type e" "ig_mac a = pe_mac e"
    "tx_ring_count a = 256" "rx_ring_count a = 256" "length (multi_tx_table a) = 8" "has_queues Q a"
    using msix Q(1) by auto
  note E = probed_uk_entries [OF S(1) room, where e = e, folded a(1)]
  have "entry_ok Q i ((k_cards s @ [?c]) ! i) u" if "i < Suc ?n" for i
  proof (cases "i < ?n")
    case True
    then show ?thesis using S(3,4) E(7) entry_ok_cong [of u i ?u] by (simp add: nth_append)
  next
    case False
    then have i: "i = uk_adapter_num ?u" using that S(3) by simp
    have z: "tx_desc_num (uk_adapter ?u ! i) = 0" "rx_desc_num (uk_adapter ?u ! i) = 0" using S(3) S(5) [of i] room i by simp_all
    show ?thesis using E(8) z a(2-8) t i S(3) by (simp add: entry_ok_def tx_view_def rx_view_def probed_entry_def)
  qed
  moreover have "Q \<le> 8" unfolding Q(1) [symmetric] probe_queues_def by (rule igb_queues_le)
  moreover have "tx_desc_num (uk_adapter u ! i) = 0 \<and> rx_desc_num (uk_adapter u ! i) = 0" if "i < 16" "Suc ?n \<le> i" for i
    using S(3,5) E(7) [of i] that by simp
  ultimately show ?thesis using E(1-6) S(2,3,6,7) fresh Q(1) by (simp add: kernel_ok_def)
qed

lemma only_desc_entries:
  assumes "only_desc k u v"
  shows "uk_adapter_num v = uk_adapter_num u" "uk_queue_num v = uk_queue_num u" "regs_pages v = regs_pages u" "desc_pages v = desc_pages u"
    "i \<noteq> k \<Longrightarrow> uk_adapter v ! i = uk_adapter u ! i"
    "k < length (uk_adapter u) \<Longrightarrow> adapter_addr (uk_adapter v ! k) = adapter_addr (uk_adapter u ! k) \<and> regs_phys (uk_adapter v ! k) = regs_phys (uk_adapter u ! k) \<and>
       am_mac (uk_adapter v ! k) = am_mac (uk_adapter u ! k)"
    "length (uk_adapter v) = length (uk_adapter u)"
  using assms by (auto simp: only_desc_def)

lemma entry_closed:
  assumes K: "kernel_ok Q s" and i: "i < length (k_cards s)" "\<not> kc_up (k_cards s ! i)"
  shows "card_closed Q i (kc_dev (k_cards s ! i)) (k_uk s)"
proof -
  let ?u = "k_uk s" and ?c = "k_cards s ! i"
  have S: "uk_ok ?u" "distinct (uk_addrs ?u)" "i < uk_adapter_num ?u" and e: "entry_ok Q i ?c ?u" using K i(1) by (simp_all add: kernel_ok_def)
  have "ukmem_find_adapter ?u (ig_addr (kc_dev ?c)) = Some i"
    using find_known [OF S] uk_addrs_nth [OF S(1,3)] e by (simp add: entry_ok_def)
  then show ?thesis using S(1) e i(2) by (simp add: entry_ok_def known_as_def card_closed_def)
qed

lemma open_step_ok:
  assumes K: "kernel_ok Q s" and Q: "0 < Q" and i: "i < length (k_cards s)" "\<not> kc_up (k_cards s ! i)" and junk: "length (ce_junk e) = 4"
    and o: "igb_open e (kc_dev (k_cards s ! i)) (k_heap s) (k_uk s) (kc_regs (k_cards s ! i)) = Inr (0, a, h, u, m)"
  shows "kernel_ok Q (s\<lparr>k_cards := (k_cards s)[i := (k_cards s ! i)\<lparr>kc_dev := a, kc_regs := m, kc_up := True\<rparr>], k_heap := h, k_uk := u\<rparr>)"
proof -
  let ?u = "k_uk s" and ?n = "length (k_cards s)" and ?c = "k_cards s ! i"
  let ?d = "?c\<lparr>kc_dev := a, kc_regs := m, kc_up := True\<rparr>"
  have S: "uk_ok ?u" "distinct (uk_addrs ?u)" "uk_adapter_num ?u = ?n" "\<And>i. i < ?n \<Longrightarrow> entry_ok Q i (k_cards s ! i) ?u"
    "\<And>i. i < 16 \<Longrightarrow> ?n \<le> i \<Longrightarrow> tx_desc_num (uk_adapter ?u ! i) = 0 \<and> rx_desc_num (uk_adapter ?u ! i) = 0" "regs_pages ?u = 128" "desc_pages ?u = 1"
    "uk_queue_num ?u = int Q" "Q \<le> 8"
    using K i(1) by (auto simp: kernel_ok_def)
  have ent: "adapter_addr (uk_adapter ?u ! i) = ig_addr (kc_dev ?c)" "regs_phys (uk_adapter ?u ! i) = kc_phys ?c"
    "\<forall>k < 6. am_mac (uk_adapter ?u ! i) k = ig_mac (kc_dev ?c) k" "tx_desc_num (uk_adapter ?u ! i) \<le> 8" "rx_desc_num (uk_adapter ?u ! i) \<le> 8"
    "ig_mac_type (kc_dev ?c) \<noteq> e1000_82575" "tx_ring_count (kc_dev ?c) = 256" "rx_ring_count (kc_dev ?c) = 256"
    "has_queues Q (kc_dev ?c)" "length (multi_tx_table (kc_dev ?c)) = 8" "tx_view i ?u = []" "rx_view i ?u = []"
    using S(4) [OF i(1)] i(2) by (simp_all add: entry_ok_def)
  have il: "i < uk_adapter_num ?u" "i < length (uk_adapter ?u)" using i(1) S(3) uk_okD(1,2) [OF S(1)] by simp_all
  note cl = entry_closed [OF K i]
  from open_ok [OF cl Q S(9) ent(6) junk, of "k_heap s" "kc_regs ?c"] o
  have R: "same_but_rings (kc_dev ?c) a" "known_as i (ig_addr (kc_dev ?c)) u" "only_desc i ?u u" "card_up Q a m"
    "tx_view i u = ring_dmas Q (tx_rings a)" "rx_view i u = ring_dmas Q (rx_rings a)" by auto
  note D = only_desc_entries [OF R(3)] and B = same_but_ringsD [OF R(1)]
  have ok: "uk_ok u" "tx_desc_num (uk_adapter u ! i) \<le> 8" "rx_desc_num (uk_adapter u ! i) \<le> 8" using R(2) by (simp_all add: known_as_def)
  have "adapter_addr (uk_adapter u ! j) = adapter_addr (uk_adapter ?u ! j)" for j using D(5,6) il(2) by (cases "j = i") simp_all
  then have addrs: "uk_addrs u = uk_addrs ?u"
    using length_uk_addrs [OF S(1)] length_uk_addrs [OF ok(1)] uk_addrs_nth [OF S(1)] uk_addrs_nth [OF ok(1)] D(1) by (simp add: list_eq_iff_nth_eq)
  have "entry_ok Q j ((k_cards s)[i := ?d] ! j) u" if "j < ?n" for j
  proof (cases "j = i")
    case True
    then show ?thesis using i(1) ent(1-3,6-8) D(6) il(2) R(4-6) ok(2,3) B by (simp add: entry_ok_def)
  next
    case False
    then show ?thesis using S(4) [OF that] D(5) entry_ok_cong [of u j ?u] by simp
  qed
  moreover have "tx_desc_num (uk_adapter u ! j) = 0 \<and> rx_desc_num (uk_adapter u ! j) = 0" if "j < 16" "?n \<le> j" for j
    using S(5) [OF that] D(5) [of j] that i(1) by simp
  ultimately show ?thesis using ok(1) addrs S(2,3,6-9) D(1-4) by (simp add: kernel_ok_def)
qed

lemma kernel_reach_ok:
  assumes "(kernel_step Q)\<^sup>*\<^sup>* (loaded va h) s" "0 < Q"
  shows "kernel_ok Q s"
  using assms(1)
proof (induction rule: rtranclp_induct)
  case base
  then show ?case by (rule loaded_ok)
next
  case (step s t)
  from step.hyps(2) show ?case
  proof cases
    case (step_probe e a h u m)
    then show ?thesis using probe_step_ok [OF step.IH _ assms(2)] by simp
  next
    case (step_open i e a h u m)
    then show ?thesis using open_step_ok [OF step.IH assms(2)] by simp
  qed
qed

section \<open>What the processes find\<close>

text \<open>The base of ring \<open>q\<close> as the card reads it from its registers.\<close>

definition ring_base :: "igb_adapter \<Rightarrow> mmio \<Rightarrow> bool \<Rightarrow> nat \<Rightarrow> u64" where
  "ring_base a m rx q = push_bit 32 (ucast (rd32 a (if rx then E1000_RDBAH q else E1000_TDBAH q) m)) OR
     ucast (rd32 a (if rx then E1000_RDBAL q else E1000_TDBAL q) m)"

definition ring_length :: "igb_adapter \<Rightarrow> mmio \<Rightarrow> bool \<Rightarrow> nat \<Rightarrow> u32" where
  "ring_length a m rx q = rd32 a (if rx then E1000_RDLEN q else E1000_TDLEN q) m"

lemma base_halves:
  fixes w :: u64
  shows "push_bit 32 (ucast (ucast (drop_bit 32 w) :: u32)) OR ucast (ucast w :: u32) = w"
proof (rule bit_word_eqI)
  fix n assume "n < LENGTH(64)"
  then show "bit (push_bit 32 (ucast (ucast (drop_bit 32 w) :: u32)) OR ucast (ucast w :: u32) :: u64) n = bit w n"
    by (cases "n < 32") (auto simp: bit_simps)
qed

lemma open_cardD:
  assumes K: "kernel_ok Q s" and i: "i < length (k_cards s)" "kc_up (k_cards s ! i)" and q: "q < Q"
  shows "ring_base (kc_dev (k_cards s ! i)) (kc_regs (k_cards s ! i)) False q = tx_desc (uk_adapter (k_uk s) ! i) ! q"
    "ring_base (kc_dev (k_cards s ! i)) (kc_regs (k_cards s ! i)) True q = rx_desc (uk_adapter (k_uk s) ! i) ! q"
    "ring_length (kc_dev (k_cards s ! i)) (kc_regs (k_cards s ! i)) rx q = 4096"
    "tx_desc_num (uk_adapter (k_uk s) ! i) = Q" "rx_desc_num (uk_adapter (k_uk s) ! i) = Q"
    "\<exists>r. tx_rings (kc_dev (k_cards s ! i)) ! q = Some r \<and> rg_tail r = hw_addr (kc_dev (k_cards s ! i)) + KE1000_TDT q"
    "\<exists>r. rx_rings (kc_dev (k_cards s ! i)) ! q = Some r \<and> rg_tail r = hw_addr (kc_dev (k_cards s ! i)) + KE1000_RDT q"
proof -
  let ?c = "k_cards s ! i" and ?e = "uk_adapter (k_uk s) ! i"
  let ?a = "kc_dev ?c" and ?m = "kc_regs ?c"
  have ok: "uk_ok (k_uk s)" "uk_adapter_num (k_uk s) = length (k_cards s)" using K by (simp_all add: kernel_ok_def)
  have E: "card_up Q ?a ?m" "tx_view i (k_uk s) = ring_dmas Q (tx_rings ?a)" "rx_view i (k_uk s) = ring_dmas Q (rx_rings ?a)"
    "tx_desc_num ?e \<le> 8" "rx_desc_num ?e \<le> 8" "tx_ring_count ?a = 256" "rx_ring_count ?a = 256"
    using K i unfolding kernel_ok_def entry_ok_def by auto
  have i16: "i < 16" using i(1) ok(2) uk_okD(2) [OF ok(1)] by simp
  have len: "length (tx_desc ?e) = 8" "length (rx_desc ?e) = 8" using uk_okD(3,4) [OF ok(1) i16] .
  have "length (tx_view i (k_uk s)) = Q" "length (rx_view i (k_uk s)) = Q" using E(2,3) by (simp_all add: ring_dmas_def)
  then show num: "tx_desc_num ?e = Q" "rx_desc_num ?e = Q" using E(4,5) len by (simp_all add: tx_view_def rx_view_def)
  obtain r t where rt: "tx_rings ?a ! q = Some r" "rx_rings ?a ! q = Some t" "tx_programmed ?a q r ?m" "rx_programmed ?a q t ?m"
    using E(1) q unfolding card_up_def by blast
  have cnt: "rg_count r = 256" "rg_count t = 256" using E(1,6,7) rt(1,2) q by (auto simp: card_up_def rings_ready_def ready_ring_def)
  have "tx_view i (k_uk s) ! q = rg_dma r" "rx_view i (k_uk s) ! q = rg_dma t" using E(2,3) rt(1,2) q by (simp_all add: ring_dmas_def)
  then have d: "tx_desc ?e ! q = rg_dma r" "rx_desc ?e ! q = rg_dma t" using num q by (simp_all add: tx_view_def rx_view_def)
  show "ring_base ?a ?m False q = tx_desc ?e ! q" "ring_base ?a ?m True q = rx_desc ?e ! q"
    using rt(3,4) by (simp_all add: ring_base_def tx_programmed_def rx_programmed_def base_halves d)
  show "ring_length ?a ?m rx q = 4096" using rt(3,4) cnt by (simp add: ring_length_def tx_programmed_def rx_programmed_def)
  show "\<exists>r. tx_rings ?a ! q = Some r \<and> rg_tail r = hw_addr ?a + KE1000_TDT q" "\<exists>r. rx_rings ?a ! q = Some r \<and> rg_tail r = hw_addr ?a + KE1000_RDT q"
    using rt by (simp_all add: tx_programmed_def rx_programmed_def)
qed

lemma all_registered:
  assumes K: "kernel_ok Q s" and Q: "0 < Q" and cards: "k_cards s \<noteq> []" and up: "\<forall>c \<in> set (k_cards s). kc_up c"
  shows "registered (k_uk s) Q"
proof -
  have S: "uk_ok (k_uk s)" "uk_adapter_num (k_uk s) = length (k_cards s)" "regs_pages (k_uk s) = 128" "desc_pages (k_uk s) = 1"
    "uk_queue_num (k_uk s) = int Q" "Q \<le> 8" using K cards by (simp_all add: kernel_ok_def)
  note U = uk_okD [OF S(1)]
  have "tx_desc_num a = Q \<and> rx_desc_num a = Q \<and> Q \<le> length (tx_desc a) \<and> Q \<le> length (rx_desc a)"
    if "a \<in> set (take (uk_adapter_num (k_uk s)) (uk_adapter (k_uk s)))" for a
  proof -
    have "\<exists>i < length (k_cards s). a = uk_adapter (k_uk s) ! i" using that S(2) U(1,2) by (auto simp: in_set_conv_nth)
    then obtain i where i: "i < length (k_cards s)" "a = uk_adapter (k_uk s) ! i" by blast
    then have "i < 16" using S(2) U(2) by simp
    then show ?thesis using open_cardD(4,5) [OF K i(1) _ Q] up U(3,4) S(6) i by simp
  qed
  then show ?thesis using S cards Q U(1,2) by (simp add: registered_def MAX_ADAPTER_NUM_def MAX_DESC_NUM_def)
qed

lemma same_tail_registers: "KE1000_RDT = E1000_RDT" "KE1000_TDT = E1000_TDT"
  by (simp_all add: fun_eq_iff KE1000_RDT_def KE1000_TDT_def E1000_RDT_def E1000_TDT_def)

lemma queue_choice:
  assumes K: "kernel_ok Q s" and Q: "0 < Q" and i: "i < length (k_cards s)" "kc_up (k_cards s ! i)"
  shows "rss_hash_v4_idx Q saddr daddr sport dport
    = Inr (of_nat (card_queue (kc_dev (k_cards s ! i)) (kc_regs (k_cards s ! i)) (rss_input saddr daddr sport dport)))"
proof -
  have up: "card_up Q (kc_dev (k_cards s ! i)) (kc_regs (k_cards s ! i))" using K i unfolding kernel_ok_def entry_ok_def by auto
  have "Q \<le> 8" using K i(1) by (auto simp: kernel_ok_def)
  moreover have r: "rss_ready (kc_dev (k_cards s ! i)) (kc_regs (k_cards s ! i))" "unat (rss_queues (kc_dev (k_cards s ! i))) = Q"
    using up by (simp_all add: card_up_def card_ready_def)
  moreover have "rss_queues (kc_dev (k_cards s ! i)) \<noteq> 0" using r(2) Q by auto
  ultimately show ?thesis using rss_ready_queue [OF r(1)] by simp
qed

section \<open>A sample\<close>

definition sample_probe :: probe_env where
  "sample_probe = \<lparr>pe_pci = 0, pe_addr = 0x1000, pe_mmio_start = 0x100000, pe_ioremap = 0x200000, pe_invariants = 0, pe_mac_type = e1000_82576,
     pe_queue_num = 4, pe_cpus = 8, pe_mtu = 1500, pe_msix = (\<lambda>_. True), pe_msi = True, pe_nvm = 0, pe_mac = (\<lambda>k. 2 + of_nat k), pe_register = 0\<rparr>"

definition sample_card_env :: card_env where
  "sample_card_env = \<lparr>ce_mc_filter_type = 0, ce_uta_reg_count = 0, ce_junk = [0, 0, 0, 0], ce_dma = (\<lambda>p. of_nat p * 4096), ce_mem = (\<lambda>_ _. 0),
     ce_testing = False, ce_request_irq = 0\<rparr>"

definition sample_kernel :: kernel where
  "sample_kernel = loaded 1 \<lparr>brk = 1, quota = 100\<rparr>"

lemma sample_probe_facts:
  "unat (probe_queues sample_probe) = 4" "probe_queues sample_probe \<noteq> 0" "probe_steps_ok sample_probe" "pe_msix sample_probe k" "pe_mac_type sample_probe \<noteq> e1000_82575"
  "uk_ok (k_uk sample_kernel)" "uk_adapter_num (k_uk sample_kernel) < 16" "pe_addr sample_probe \<notin> set (uk_addrs (k_uk sample_kernel))"
proof -
  have "probe_queues sample_probe = 4"
    by (simp add: probe_queues_def igb_queues_def sample_probe_def IGB_MAX_RX_QUEUES_def new_adapter_def)
  then show "unat (probe_queues sample_probe) = 4" "probe_queues sample_probe \<noteq> 0" by simp_all
  show "probe_steps_ok sample_probe"
    by (auto simp: probe_steps_ok_def sample_probe_def is_valid_ether_addr_def intro!: bexI [of _ 0])
  show "pe_msix sample_probe k" "pe_mac_type sample_probe \<noteq> e1000_82575" by (simp_all add: sample_probe_def)
  show "uk_ok (k_uk sample_kernel)" using loaded_ok [of 0] by (simp add: sample_kernel_def kernel_ok_def)
  show "uk_adapter_num (k_uk sample_kernel) < 16" "pe_addr sample_probe \<notin> set (uk_addrs (k_uk sample_kernel))"
    by (simp_all add: sample_kernel_def loaded_def ukmmap_init_def static_ukmem_def uk_addrs_def)
qed

lemma sample_probed:
  "\<exists>s. kernel_step 4 sample_kernel s \<and> kernel_ok 4 s \<and> length (k_cards s) = 1 \<and> \<not> kc_up (k_cards s ! 0) \<and>
     ig_mac_type (kc_dev (k_cards s ! 0)) = e1000_82576 \<and> 50 \<le> quota (k_heap s)"
proof -
  note F = sample_probe_facts
  obtain err res h u where p: "igb_probe sample_probe (k_heap sample_kernel) (k_uk sample_kernel) = Inr (err, res, h, u)"
    "case res of None \<Rightarrow> err \<noteq> 0 \<and> quota h = quota (k_heap sample_kernel) \<and> (probe_steps_ok sample_probe \<longrightarrow> quota (k_heap sample_kernel) < 26)
     | Some a \<Rightarrow> err = 0 \<and> quota h + held_mem a + 1 = quota (k_heap sample_kernel) \<and> ig_mac_type a = pe_mac_type sample_probe \<and> (\<exists>q. has_queues q a)"
    using probe_ok [OF F(6-8) F(2), of "k_heap sample_kernel"] by (fastforce split: option.splits)
  then obtain a where a: "res = Some a" "err = 0" "quota h + held_mem a + 1 = 100" "ig_mac_type a = e1000_82576" "\<exists>q. has_queues q a"
    using F(3) by (cases res) (auto simp: sample_kernel_def loaded_def sample_probe_def)
  let ?s = "sample_kernel\<lparr>k_cards := k_cards sample_kernel @ [\<lparr>kc_dev = a, kc_phys = pe_mmio_start sample_probe, kc_regs = (\<lambda>_. 0), kc_up = False\<rparr>], k_heap := h, k_uk := u\<rparr>"
  have step: "kernel_step 4 sample_kernel ?s" by (rule step_probe [OF F(1,4,5,8)]) (use p(1) a in simp)
  have ok: "kernel_ok 4 ?s"
    by (rule probe_step_ok [OF _ F(1) _ F(4,5,8)]) (use p(1) a loaded_ok in \<open>simp_all add: sample_kernel_def\<close>)
  have "in_use (tx_rings a) \<le> 16" "in_use (rx_rings a) \<le> 16" "in_use (q_vector a) \<le> 8"
    using a(5) length_filter_le [of _ "tx_rings a"] length_filter_le [of _ "rx_rings a"] length_filter_le [of _ "q_vector a"]
    by (auto simp: in_use_def has_queues_def arrays_ok_def)
  then have "58 \<le> quota h" using a(3) by (simp add: held_mem_def split: if_splits)
  then show ?thesis using step ok a(4) by (intro exI [of _ ?s]) (simp add: sample_kernel_def loaded_def)
qed

lemma sample_up:
  "\<exists>s. (kernel_step 4)\<^sup>*\<^sup>* sample_kernel s \<and> length (k_cards s) = 1 \<and> (\<forall>c \<in> set (k_cards s). kc_up c)"
proof -
  obtain s where s: "kernel_step 4 sample_kernel s" "kernel_ok 4 s" "length (k_cards s) = 1" "\<not> kc_up (k_cards s ! 0)"
    "ig_mac_type (kc_dev (k_cards s ! 0)) = e1000_82576" "50 \<le> quota (k_heap s)" using sample_probed by blast
  have i: "0 < length (k_cards s)" using s(3) by simp
  have t: "ig_mac_type (kc_dev (k_cards s ! 0)) \<noteq> e1000_82575" using s(5) by simp
  have junk: "length (ce_junk sample_card_env) = 4" by (simp add: sample_card_env_def)
  obtain err a h u m where o: "igb_open sample_card_env (kc_dev (k_cards s ! 0)) (k_heap s) (k_uk s) (kc_regs (k_cards s ! 0)) = Inr (err, a, h, u, m)"
    "err \<noteq> 0 \<longrightarrow> ce_testing sample_card_env \<or> ce_request_irq sample_card_env \<noteq> 0 \<or> quota (k_heap s) < 4 * 4"
    using open_ok [OF entry_closed [OF s(2) i s(4)] _ _ t junk, of "k_heap s" "kc_regs (k_cards s ! 0)"] by (fastforce split: if_splits)
  then have "err = 0" using s(6) by (simp add: sample_card_env_def)
  then have "kernel_step 4 s (s\<lparr>k_cards := (k_cards s)[0 := (k_cards s ! 0)\<lparr>kc_dev := a, kc_regs := m, kc_up := True\<rparr>], k_heap := h, k_uk := u\<rparr>)"
    using step_open [OF i s(4) junk] o(1) by simp
  with s(1) have "(kernel_step 4)\<^sup>*\<^sup>* sample_kernel (s\<lparr>k_cards := (k_cards s)[0 := (k_cards s ! 0)\<lparr>kc_dev := a, kc_regs := m, kc_up := True\<rparr>], k_heap := h, k_uk := u\<rparr>)"
    by (rule converse_rtranclp_into_rtranclp [OF _ r_into_rtranclp])
  moreover have "\<exists>c. k_cards s = [c]" using s(3) by (simp add: length_Suc_conv)
  ultimately show ?thesis by (intro exI conjI) auto
qed

section \<open>Properties\<close>

text \<open>
  C15: probing a new card either succeeds, with a structure of \<open>q\<close> queues, where \<open>q\<close> is the number asked for or one, and the card
  entered in the kernel memory module, or it fails and gives back all memory; it fails for lack of memory
  only when fewer than 26 blocks are left. Removing the card gives back the rest.
\<close>

theorem probe_or_back:
  assumes ok: "uk_ok u" "uk_adapter_num u < 16" and fresh: "pe_addr e \<notin> set (uk_addrs u)" and num: "probe_queues e \<noteq> 0"
  shows "\<exists>err res h' u'. igb_probe e h u = Inr (err, res, h', u') \<and>
    (case res of
       None \<Rightarrow> err \<noteq> 0 \<and> quota h' = quota h \<and> (probe_steps_ok e \<longrightarrow> quota h < 26)
     | Some a \<Rightarrow> err = 0 \<and> u' = probed_uk e u \<and>
         (\<exists>q. has_queues q a \<and> (q = 1 \<or> q = unat (probe_queues e)) \<and> ((\<forall>k. pe_msix e k) \<longrightarrow> q = unat (probe_queues e))) \<and>
         (\<exists>h''. igb_remove a h' = Inr h'' \<and> quota h'' = quota h))"
proof -
  obtain err res h' u' where p: "igb_probe e h u = Inr (err, res, h', u')"
    "case res of None \<Rightarrow> err \<noteq> 0 \<and> quota h' = quota h \<and> (probe_steps_ok e \<longrightarrow> quota h < 26)
     | Some a \<Rightarrow> err = 0 \<and> quota h' + held_mem a + 1 = quota h \<and> u' = probed_uk e u \<and>
         (\<exists>q. has_queues q a \<and> (q = 1 \<or> q = unat (probe_queues e)) \<and> ((\<forall>k. pe_msix e k) \<longrightarrow> q = unat (probe_queues e)))"
    using probe_ok [OF ok fresh num, of h] by (fastforce split: option.splits)
  show ?thesis
  proof (cases res)
    case (Some a)
    then have "arrays_ok a" using p(2) by (auto simp: has_queues_def)
    from remove_ok [OF this, of h'] show ?thesis using p Some by (intro exI [of _ err] exI [of _ res] exI [of _ h'] exI [of _ u']) auto
  qed (use p in auto)
qed

lemma probe_or_back_witness:
  "\<exists>a h' u' h''. igb_probe sample_probe \<lparr>brk = 1, quota = 100\<rparr> (k_uk sample_kernel) = Inr (0, Some a, h', u') \<and> has_queues 4 a \<and>
     igb_remove a h' = Inr h'' \<and> quota h'' = 100"
  using probe_or_back [OF sample_probe_facts(6-8,2), of "\<lparr>brk = 1, quota = 100\<rparr>"] sample_probe_facts(1,3,4)
  by (fastforce split: option.splits)



end
