(* ===== verification/DriverLoop.thy ===== *)
theory DriverLoop
  imports Driver "HOL-Library.Multiset"
begin

text \<open>
  The operations of \<open>driver.c\<close> over all cards of a process. A card holds packets on its two rings and
  in their two pools; each operation keeps the cards consistent and moves packets between the cards and the
  caller's list or pool without losing or duplicating one.
\<close>

section \<open>The packets a card holds\<close>

definition ring_ptrs :: "ring \<Rightarrow> ptr list" where
  "ring_ptrs r = map the (on_ring r)"

definition ring_held :: "ring \<Rightarrow> ptr multiset" where
  "ring_held r = mset (ring_ptrs r) + mset (pp_list (r_pool r))"

text \<open>Every place between head and tail has a packet.\<close>

definition ring_full_ok :: "ring \<Rightarrow> bool" where
  "ring_full_ok r \<longleftrightarrow> ring_ok r \<and> None \<notin> set (on_ring r) \<and> r_desc_num r < 2 ^ 31"

text \<open>
  The reclaiming loop looks at the descriptor at the head also when nothing is on the ring: it must
  not claim that a packet has been sent.
\<close>

definition tx_idle_ok :: "ring \<Rightarrow> bool" where
  "tx_idle_ok r \<longleftrightarrow> (r_head r = r_tail r \<longrightarrow> \<not> tx_done (r_desc r ! r_head r))"

definition card_ok :: "nat \<Rightarrow> adapter \<Rightarrow> bool" where
  "card_ok i a \<longleftrightarrow> (\<exists>rx tx. rx_ring a = Some rx \<and> tx_ring a = Some tx \<and> ring_full_ok rx \<and> ring_full_ok tx \<and>
     tx_idle_ok tx \<and> unat (ucast (r_a rx) :: u8) = i)"

definition held_by :: "ring option \<Rightarrow> ptr multiset" where
  "held_by r = (case r of None \<Rightarrow> {#} | Some r \<Rightarrow> ring_held r)"

definition card_held :: "adapter \<Rightarrow> ptr multiset" where
  "card_held a = held_by (rx_ring a) + held_by (tx_ring a)"

definition cards_ok :: "driver \<Rightarrow> bool" where
  "cards_ok d \<longleftrightarrow> (\<forall>i < unat (adapter_num d). i < length (adapters d) \<and> (\<exists>a. adapters d ! i = Some a \<and> card_ok i a))"

definition cards_held :: "driver \<Rightarrow> ptr multiset" where
  "cards_held d = (\<Sum>i<unat (adapter_num d). case adapters d ! i of None \<Rightarrow> {#} | Some a \<Rightarrow> card_held a)"

definition rx_pool :: "adapter \<Rightarrow> ptr list" where
  "rx_pool a = (case rx_ring a of None \<Rightarrow> [] | Some r \<Rightarrow> pp_list (r_pool r))"

lemma held_by_Some [simp]: "held_by (Some r) = ring_held r"
  by (simp add: held_by_def)

lemma on_ring_ptrs: "None \<notin> set (on_ring r) \<Longrightarrow> on_ring r = map Some (ring_ptrs r)"
proof -
  assume "None \<notin> set (on_ring r)"
  then have "Some (the x) = x" if "x \<in> set (on_ring r)" for x using that by (cases x) auto
  then show ?thesis by (simp add: ring_ptrs_def comp_def map_idI)
qed

lemma ring_full_okI: "ring_ok r \<Longrightarrow> on_ring r = map Some ps \<Longrightarrow> r_desc_num r < 2 ^ 31 \<Longrightarrow> ring_full_ok r \<and> ring_ptrs r = ps"
  by (auto simp: ring_full_ok_def ring_ptrs_def comp_def)

lemma cards_okD:
  assumes "cards_ok d" "i < unat (adapter_num d)"
  shows "\<exists>a. driver_get_adapter d i = Inr a \<and> i < length (adapters d) \<and> adapters d ! i = Some a \<and> card_ok i a"
  using assms by (auto simp: cards_ok_def driver_get_adapter_def)

lemma cards_put:
  assumes ok: "cards_ok d" and i: "i < unat (adapter_num d)" and a: "adapters d ! i = Some a" and a': "card_ok i a'"
  shows "cards_ok (put_adapter d i a')" "adapter_num (put_adapter d i a') = adapter_num d"
    "cards_held (put_adapter d i a') + card_held a = cards_held d + card_held a'"
    "\<And>j. j \<noteq> i \<Longrightarrow> adapters (put_adapter d i a') ! j = adapters d ! j" "adapters (put_adapter d i a') ! i = Some a'"
proof -
  have l: "i < length (adapters d)" using cards_okD [OF ok i] by blast
  show "adapter_num (put_adapter d i a') = adapter_num d" "\<And>j. j \<noteq> i \<Longrightarrow> adapters (put_adapter d i a') ! j = adapters d ! j"
    by (simp_all add: put_adapter_def)
  show new: "adapters (put_adapter d i a') ! i = Some a'" using l by (simp add: put_adapter_def)
  show "cards_ok (put_adapter d i a')"
    unfolding cards_ok_def
  proof (intro allI impI)
    fix j assume "j < unat (adapter_num (put_adapter d i a'))"
    then have "j < unat (adapter_num d)" by (simp add: put_adapter_def)
    then show "j < length (adapters (put_adapter d i a')) \<and> (\<exists>a. adapters (put_adapter d i a') ! j = Some a \<and> card_ok j a)"
      using ok a' new by (cases "j = i") (auto simp: cards_ok_def put_adapter_def)
  qed
  let ?h = "\<lambda>d j. case adapters d ! j of None \<Rightarrow> {#} | Some a \<Rightarrow> card_held a"
  have s: "(\<Sum>j<unat (adapter_num d). ?h d' j) = ?h d' i + (\<Sum>j\<in>{..<unat (adapter_num d)} - {i}. ?h d' j)" for d'
    using i by (simp add: sum.remove)
  have "(\<Sum>j\<in>{..<unat (adapter_num d)} - {i}. ?h (put_adapter d i a') j) = (\<Sum>j\<in>{..<unat (adapter_num d)} - {i}. ?h d j)"
    by (rule sum.cong) (auto simp: put_adapter_def)
  then show "cards_held (put_adapter d i a') + card_held a = cards_held d + card_held a'"
    unfolding cards_held_def using s [of d] s [of "put_adapter d i a'"] a new by (simp add: put_adapter_def)
qed

text \<open>A loop over all cards, each of which keeps the card and an invariant of the rest of the state.\<close>

lemma over_cards:
  assumes d: "cards_ok d" and I: "I d s"
    and step: "\<And>i a d s. i < unat (adapter_num d) \<Longrightarrow> cards_ok d \<Longrightarrow> adapters d ! i = Some a \<Longrightarrow> driver_get_adapter d i = Inr a \<Longrightarrow>
      card_ok i a \<Longrightarrow> I d s \<Longrightarrow> \<exists>a' s'. f i (st d s) = Inr (st (put_adapter d i a') s') \<and> card_ok i a' \<and> I (put_adapter d i a') s'"
  shows "\<exists>d' s'. foldE f [0..<unat (adapter_num d)] (st d s) = Inr (st d' s') \<and> cards_ok d' \<and> adapter_num d' = adapter_num d \<and> I d' s'"
proof -
  let ?J = "\<lambda>x. \<exists>d' s'. x = st d' s' \<and> cards_ok d' \<and> adapter_num d' = adapter_num d \<and> I d' s'"
  have "\<exists>x. foldE f [0..<unat (adapter_num d)] (st d s) = Inr x \<and> ?J x"
  proof (rule foldE_invariant)
    show "?J (st d s)" using d I by blast
    fix i x assume i: "i \<in> set [0..<unat (adapter_num d)]" and "?J x"
    then obtain d' s' where x: "x = st d' s'" "cards_ok d'" "adapter_num d' = adapter_num d" "I d' s'" by blast
    have i': "i < unat (adapter_num d')" using i x(3) by simp
    obtain a where a: "driver_get_adapter d' i = Inr a" "adapters d' ! i = Some a" "card_ok i a" using cards_okD [OF x(2) i'] by blast
    obtain a' s2 where s2: "f i x = Inr (st (put_adapter d' i a') s2)" "card_ok i a'" "I (put_adapter d' i a') s2"
      using step [OF i' x(2) a(2,1,3) x(4)] x(1) by blast
    then show "\<exists>y. f i x = Inr y \<and> ?J y" using cards_put(1,2) [OF x(2) i' a(2) s2(2)] x(3) by metis
  qed
  then show ?thesis by blast
qed

text \<open>A card that takes \<open>p\<close> in and gives \<open>q\<close> away.\<close>

lemma moved:
  fixes c c' h h' p q :: "'a multiset"
  assumes "h' + c = h + c'" "c' + q = c + p"
  shows "h' + q = h + p"
proof -
  have "h' + q + c = (h' + c) + q" by (simp only: ac_simps)
  also have "\<dots> = (h + c') + q" by (simp only: assms(1))
  also have "\<dots> = h + (c' + q)" by (simp only: ac_simps)
  also have "\<dots> = h + (c + p)" by (simp only: assms(2))
  also have "\<dots> = h + p + c" by (simp only: ac_simps)
  finally show ?thesis by simp
qed

section \<open>Accounting\<close>

text \<open>Every packet of \<open>A\<close> is in exactly one of the places that \<open>M\<close> counts.\<close>

definition accounted :: "packet store \<Rightarrow> ptr set \<Rightarrow> ptr multiset \<Rightarrow> bool" where
  "accounted pkts A M \<longleftrightarrow> finite A \<and> A \<subseteq> dom pkts \<and> card A < 2 ^ 31 \<and> M = mset_set A"

lemma accounted_part:
  assumes "accounted pkts A M" "mset xs \<subseteq># M"
  shows "distinct xs" "set xs \<subseteq> A" "set xs \<subseteq> dom pkts" "length xs < 2 ^ 31"
proof -
  have A: "finite A" "mset xs \<subseteq># mset_set A" using assms by (simp_all add: accounted_def)
  have "count (mset xs) x \<le> 1" for x
    by (rule order_trans [OF mset_subset_eq_count [OF A(2)]]) (simp add: count_mset_set')
  moreover have "x \<in> set xs \<Longrightarrow> 0 < count (mset xs) x" for x by (simp add: count_greater_zero_iff)
  ultimately show "distinct xs" unfolding distinct_count_atmost_1
    by (metis One_nat_def le_antisym less_eq_Suc_le not_in_iff set_mset_mset)
  show s: "set xs \<subseteq> A" using set_mset_mono [OF A(2)] A(1) by simp
  then show "set xs \<subseteq> dom pkts" using assms(1) unfolding accounted_def by blast
  have "length xs \<le> card A" using size_mset_mono [OF A(2)] by simp
  then show "length xs < 2 ^ 31" using assms(1) unfolding accounted_def by linarith
qed

lemma card_in_cards:
  assumes "i < unat (adapter_num d)" "adapters d ! i = Some a"
  shows "card_held a \<subseteq># cards_held d"
proof -
  have "cards_held d = card_held a + (\<Sum>j\<in>{..<unat (adapter_num d)} - {i}. case adapters d ! j of None \<Rightarrow> {#} | Some a \<Rightarrow> card_held a)"
    using assms by (simp add: cards_held_def sum.remove [of _ i])
  then show ?thesis by simp
qed


section \<open>One card\<close>

lemma card_rings:
  assumes "card_ok i a"
  obtains rx tx where "rx_ring a = Some rx" "tx_ring a = Some tx" "ring_ok rx" "on_ring rx = map Some (ring_ptrs rx)" "r_desc_num rx < 2 ^ 31"
    "ring_ok tx" "on_ring tx = map Some (ring_ptrs tx)" "r_desc_num tx < 2 ^ 31" "tx_idle_ok tx" "unat (ucast (r_a rx) :: u8) = i"
    "card_held a = ring_held rx + ring_held tx" "rx_pool a = pp_list (r_pool rx)"
  using assms on_ring_ptrs by (auto simp: card_ok_def ring_full_ok_def card_held_def rx_pool_def)

lemma card_rx:
  assumes "card_ok i a" "tx_ring a = Some tx" "ring_ok rx'" "on_ring rx' = map Some ps" "r_desc_num rx' < 2 ^ 31" "unat (ucast (r_a rx') :: u8) = i"
  shows "card_ok i (a\<lparr>rx_ring := Some rx'\<rparr>)" "rx_pool (a\<lparr>rx_ring := Some rx'\<rparr>) = pp_list (r_pool rx')"
    "card_held (a\<lparr>rx_ring := Some rx'\<rparr>) = mset ps + mset (pp_list (r_pool rx')) + ring_held tx"
  using assms ring_full_okI [OF assms(3-5)] by (auto simp: card_ok_def card_held_def ring_held_def rx_pool_def)

lemma card_tx:
  assumes "card_ok i a" "rx_ring a = Some rx" "ring_ok tx'" "on_ring tx' = map Some ps" "r_desc_num tx' < 2 ^ 31" "tx_idle_ok tx'"
  shows "card_ok i (a\<lparr>tx_ring := Some tx'\<rparr>)" "rx_pool (a\<lparr>tx_ring := Some tx'\<rparr>) = rx_pool a"
    "card_held (a\<lparr>tx_ring := Some tx'\<rparr>) = ring_held rx + (mset ps + mset (pp_list (r_pool tx')))"
  using assms ring_full_okI [OF assms(3-5)] by (auto simp: card_ok_def card_held_def ring_held_def rx_pool_def)

lemma alloc_card:
  assumes ok: "card_ok i a" and pool: "pool_count_ok pp" "set (pp_list pp) \<subseteq> dom pkts"
  shows "\<exists>a' pp' m'. adapter_alloc_rx_buffers pkts a pp m = Inr (1, a', pp', m') \<and> card_ok i a' \<and> pool_count_ok pp' \<and>
    card_held a' + mset (pp_list pp') = card_held a + mset (pp_list pp) \<and> rx_pool a' = rx_pool a \<and> tx_ring a' = tx_ring a"
proof -
  from card_rings [OF ok] obtain rx tx where r: "rx_ring a = Some rx" "tx_ring a = Some tx" "ring_ok rx"
    "on_ring rx = map Some (ring_ptrs rx)" "r_desc_num rx < 2 ^ 31" "unat (ucast (r_a rx) :: u8) = i"
    "card_held a = ring_held rx + ring_held tx" "rx_pool a = pp_list (r_pool rx)" by metis
  obtain k rx' pp' m' where s: "ring_alloc_rx_buffers pkts rx pp m = Inr (k, rx', pp', m')" "ring_ok rx'"
    "on_ring rx' = map Some (ring_ptrs rx @ take k (pp_list pp))" "pp_list pp' = drop k (pp_list pp)" "pool_count_ok pp'"
    "r_pool rx' = r_pool rx" "r_a rx' = r_a rx" "r_desc_num rx' = r_desc_num rx"
    using alloc_rx_ok [OF r(3,4) pool, of m] by metis
  have c: "card_ok i (a\<lparr>rx_ring := Some rx'\<rparr>)" "rx_pool (a\<lparr>rx_ring := Some rx'\<rparr>) = rx_pool a"
    "card_held (a\<lparr>rx_ring := Some rx'\<rparr>) = mset (ring_ptrs rx @ take k (pp_list pp)) + mset (pp_list (r_pool rx)) + ring_held tx"
    using card_rx [OF ok r(2) s(2,3)] s(6-8) r(5,6,8) by simp_all
  have "mset (pp_list pp) = mset (take k (pp_list pp)) + mset (drop k (pp_list pp))" by (metis append_take_drop_id mset_append)
  then have "card_held (a\<lparr>rx_ring := Some rx'\<rparr>) + mset (pp_list pp') = card_held a + mset (pp_list pp)"
    using c(3) s(4) r(7) by (simp add: ring_held_def)
  moreover have "adapter_alloc_rx_buffers pkts a pp m = Inr (1, a\<lparr>rx_ring := Some rx'\<rparr>, pp', m')"
    using r(1) s(1) by (simp add: adapter_alloc_rx_buffers_def with_rx_def)
  ultimately show ?thesis using c(1,2) s(5) by auto
qed

text \<open>What receiving changes of the packets; \<open>stamped\<close> packets name a card that exists.\<close>

definition rx_filled :: "nat \<Rightarrow> packet store \<Rightarrow> packet store \<Rightarrow> bool" where
  "rx_filled i pkts pkts' \<longleftrightarrow> dom pkts' = dom pkts \<and> (\<forall>p. pkts' p = pkts p \<or>
     (\<exists>pkt len idx. pkts p = Some pkt \<and> unat idx = i \<and> pkts' p = Some (pkt\<lparr>p_len := len, adapter_idx := idx\<rparr>)))"

definition stamped :: "nat \<Rightarrow> packet store \<Rightarrow> ptr \<Rightarrow> bool" where
  "stamped num pkts p \<longleftrightarrow> (\<exists>pkt. pkts p = Some pkt \<and> unat (adapter_idx pkt) < num)"

lemma stamped_filled: "stamped num pkts p \<Longrightarrow> rx_filled i pkts pkts' \<Longrightarrow> i < num \<Longrightarrow> stamped num pkts' p"
proof -
  assume s: "stamped num pkts p" and f: "rx_filled i pkts pkts'" and i: "i < num"
  obtain pkt where p: "pkts p = Some pkt" "unat (adapter_idx pkt) < num" using s by (auto simp: stamped_def)
  from f consider "pkts' p = pkts p" | len idx where "unat idx = i" "pkts' p = Some (pkt\<lparr>p_len := len, adapter_idx := idx\<rparr>)"
    using p(1) unfolding rx_filled_def by fastforce
  then show ?thesis by cases (use p i in \<open>auto simp: stamped_def\<close>)
qed

lemma received_filled:
  assumes "distinct ps" "length ds = length ps" "k \<le> length ps"
  shows "rx_filled (unat (ucast (r_a r) :: u8)) pkts (received r ps ds k pkts)"
    "p \<in> set (take k ps) \<Longrightarrow> set ps \<subseteq> dom pkts \<Longrightarrow> \<exists>pkt. received r ps ds k pkts p = Some pkt \<and> adapter_idx pkt = ucast (r_a r)"
proof -
  have taken: "\<exists>len. received r ps ds k pkts p = map_option (\<lambda>pkt. pkt\<lparr>p_len := len, adapter_idx := ucast (r_a r)\<rparr>) (pkts p)"
    if p: "p \<in> set (take k ps)" for p
  proof -
    obtain j where "j < k" "p = ps ! j" using p assms(3) by (auto simp: in_set_conv_nth)
    then show ?thesis using received_nth [OF assms] by blast
  qed
  then show "p \<in> set (take k ps) \<Longrightarrow> set ps \<subseteq> dom pkts \<Longrightarrow> \<exists>pkt. received r ps ds k pkts p = Some pkt \<and> adapter_idx pkt = ucast (r_a r)"
    using set_take_subset [of k ps] by fastforce
  have "received r ps ds k pkts p = pkts p \<or> (\<exists>pkt len idx. pkts p = Some pkt \<and> unat idx = unat (ucast (r_a r) :: u8) \<and>
      received r ps ds k pkts p = Some (pkt\<lparr>p_len := len, adapter_idx := idx\<rparr>))" for p
  proof (cases "p \<in> set (take k ps)")
    case True
    then show ?thesis using taken [OF True] by (cases "pkts p") auto
  next
    case False
    then show ?thesis using received_other by blast
  qed
  then show "rx_filled (unat (ucast (r_a r) :: u8)) pkts (received r ps ds k pkts)" by (simp add: rx_filled_def)
qed

lemma recv_card:
  assumes ok: "card_ok i a" and num: "i < num" and acc: "accounted pkts A M" "card_held a \<subseteq># M"
    and st: "\<forall>p \<in> set (rx_pool a). stamped num pkts p"
  shows "\<exists>n a' pkts'. adapter_recv a pkts = Inr (n, a', pkts') \<and> card_ok i a' \<and> card_held a' = card_held a \<and>
    rx_filled i pkts pkts' \<and> (\<forall>p \<in> set (rx_pool a'). stamped num pkts' p) \<and> tx_ring a' = tx_ring a"
proof -
  from card_rings [OF ok] obtain rx tx where r: "rx_ring a = Some rx" "tx_ring a = Some tx" "ring_ok rx"
    "on_ring rx = map Some (ring_ptrs rx)" "r_desc_num rx < 2 ^ 31" "unat (ucast (r_a rx) :: u8) = i"
    "card_held a = ring_held rx + ring_held tx" "rx_pool a = pp_list (r_pool rx)" by metis
  have "mset (ring_ptrs rx) \<subseteq># card_held a" "mset (pp_list (r_pool rx)) \<subseteq># card_held a"
    by (simp_all add: r(7) ring_held_def)
  then have "mset (ring_ptrs rx) \<subseteq># M" "mset (pp_list (r_pool rx)) \<subseteq># M"
    using acc(2) subset_mset.order_trans by blast+
  note ptrs = accounted_part [OF acc(1) this(1)] and pool = accounted_part [OF acc(1) this(2)]
  define k where "k = length (takeWhile rx_done (ring_descs rx))"
  have len: "length (ring_descs rx) = length (ring_ptrs rx)"
    using r(3) by (simp add: ring_ptrs_def on_ring_def ring_descs_def ring_ok_def length_between)
  then have k: "k \<le> length (ring_ptrs rx)" by (simp add: k_def length_takeWhile_le flip: len)
  have "length (pp_list (r_pool rx)) + r_desc_num rx < 2 ^ 32" using pool(4) r(5) by simp
  from ring_recv_ok [OF r(3,4) ptrs(1,3) this, folded k_def] obtain rx' where
    s: "ring_recv rx pkts = Inr (k, rx', received rx (ring_ptrs rx) (ring_descs rx) k pkts)" "ring_ok rx'"
    "on_ring rx' = map Some (drop k (ring_ptrs rx))" "pp_list (r_pool rx') = pp_list (r_pool rx) @ take k (ring_ptrs rx)"
    "r_a rx' = r_a rx" "r_desc_num rx' = r_desc_num rx" by metis
  let ?pkts = "received rx (ring_ptrs rx) (ring_descs rx) k pkts" and ?a = "a\<lparr>rx_ring := Some rx'\<rparr>"
  note rec = received_filled [OF ptrs(1) len k, where r = rx and pkts = pkts, unfolded r(6)]
  have c: "card_ok i ?a" "rx_pool ?a = pp_list (r_pool rx')"
    "card_held ?a = mset (drop k (ring_ptrs rx)) + mset (pp_list (r_pool rx')) + ring_held tx"
    using card_rx [OF ok r(2) s(2,3)] s(5,6) r(5,6) by simp_all
  have "mset (ring_ptrs rx) = mset (take k (ring_ptrs rx)) + mset (drop k (ring_ptrs rx))" by (metis append_take_drop_id mset_append)
  then have h: "card_held ?a = card_held a" using c(3) s(4) r(7) by (simp add: ring_held_def)
  have "stamped num ?pkts p" if pp: "p \<in> set (rx_pool ?a)" for p
  proof -
    consider "p \<in> set (rx_pool a)" | "p \<in> set (take k (ring_ptrs rx))" using pp c(2) s(4) r(8) by auto
    then show ?thesis
    proof cases
      case 1
      then show ?thesis using st stamped_filled [OF _ rec(1) num] by blast
    next
      case 2
      then show ?thesis using rec(2) ptrs(3) num r(6) unfolding stamped_def by fastforce
    qed
  qed
  moreover have "adapter_recv a pkts = Inr (k, ?a, ?pkts)" using r(1) s(1) by (simp add: adapter_recv_def with_rx_def)
  ultimately show ?thesis using c(1) h rec(1) by auto
qed

lemma get_all_card:
  assumes ok: "card_ok i a"
  shows "\<exists>rx. with_rx a = Inr rx \<and> (\<exists>pp. packet_pool_get_all (r_pool rx) head = (pp, head @ rx_pool a) \<and>
    (let a' = a\<lparr>rx_ring := Some (rx\<lparr>r_pool := pp\<rparr>)\<rparr> in card_ok i a' \<and> card_held a' + mset (rx_pool a) = card_held a \<and> rx_pool a' = [] \<and>
       tx_ring a' = tx_ring a))"
proof -
  from card_rings [OF ok] obtain rx tx where r: "rx_ring a = Some rx" "tx_ring a = Some tx" "ring_ok rx"
    "on_ring rx = map Some (ring_ptrs rx)" "r_desc_num rx < 2 ^ 31" "unat (ucast (r_a rx) :: u8) = i"
    "card_held a = ring_held rx + ring_held tx" "rx_pool a = pp_list (r_pool rx)" by metis
  have "pool_count_ok (r_pool rx)" using r(3) by (simp add: ring_ok_def)
  from pool_get_all_spec [OF this, of head] obtain pp where
    pp: "packet_pool_get_all (r_pool rx) head = (pp, head @ rx_pool a)" "pp_list pp = []" "pool_count_ok pp"
    by (metis prod.collapse r(8))
  let ?rx = "rx\<lparr>r_pool := pp\<rparr>"
  have rx': "ring_ok ?rx" "on_ring ?rx = map Some (ring_ptrs rx)" "r_desc_num ?rx < 2 ^ 31" "unat (ucast (r_a ?rx) :: u8) = i"
    using r(3-6) pp(3) by (simp_all add: ring_ok_def on_ring_def)
  from card_rx [OF ok r(2) rx'] show ?thesis
    using r(1,7,8) pp(1,2) by (auto simp: with_rx_def ring_held_def Let_def)
qed

text \<open>An empty transmit ring stays as it is until a packet is put on it.\<close>

lemma empty_ring: "ring_ok r \<Longrightarrow> on_ring r = [] \<longleftrightarrow> r_head r = r_tail r"
  using between_eq_Nil [of "r_head r" "r_buffer r" "r_tail r"] by (simp add: ring_ok_def on_ring_def)

lemma reclaim_empty:
  assumes ok: "ring_ok r" and e: "r_head r = r_tail r" and idle: "tx_idle_ok r"
  shows "ring_reclaim_tx_buffers r head = Inr (0, r, head)"
proof -
  have "r_head r < length (r_desc r)" "\<not> tx_done (r_desc r ! r_head r)" "r_desc_num r \<noteq> 0"
    using ok e idle by (simp_all add: ring_ok_def tx_idle_ok_def)
  then show ?thesis
    by (simp add: ring_reclaim_tx_buffers_def next_ne_def ring_reclaim_tx_buffer_def ring_tx_desc_def tx_done_def)
qed

lemma send_nothing:
  assumes ok: "ring_ok r" and e: "pp_list (r_pool r) = [] \<or> r_desc_num r = 1"
  shows "\<exists>pp. ring_send pkts r m = Inr (0, r\<lparr>r_pool := pp\<rparr>, m)"
proof -
  have n: "r_desc_num r \<noteq> 0" and c: "pool_count_ok (r_pool r)" using ok by (simp_all add: ring_ok_def)
  show ?thesis
  proof (cases "(r_tail r + 1) mod r_desc_num r = r_head r")
    case True
    then have "ring_send pkts r m = Inr (0, r\<lparr>r_pool := r_pool r\<rparr>, m)" using n by (simp add: ring_send_def next_ne_def)
    then show ?thesis by blast
  next
    case False
    then have "pp_list (r_pool r) = []" using e ok by (auto simp: ring_ok_def)
    with pool_get_spec [OF c] obtain pp where "packet_pool_get (r_pool r) = Inr (None, pp)" by auto
    then have "ring_send pkts r m = Inr (0, r\<lparr>r_pool := pp\<rparr>, m)"
      using n False by (simp add: ring_send_def next_ne_def ring_send_tx_buffer_def)
    then show ?thesis by blast
  qed
qed

lemma reclaim_card:
  assumes ok: "card_ok i a"
  shows "\<exists>n a' new. adapter_reclaim_tx_buffers a head = Inr (n, a', head @ new) \<and> card_ok i a' \<and>
    card_held a' + mset new = card_held a \<and> rx_pool a' = rx_pool a"
proof -
  from card_rings [OF ok] obtain rx tx where r: "rx_ring a = Some rx" "tx_ring a = Some tx" "ring_ok tx"
    "on_ring tx = map Some (ring_ptrs tx)" "r_desc_num tx < 2 ^ 31" "tx_idle_ok tx"
    "card_held a = ring_held rx + ring_held tx" by metis
  show ?thesis
  proof (cases "r_head tx = r_tail tx")
    case True
    have "adapter_reclaim_tx_buffers a head = Inr (0, a\<lparr>tx_ring := Some tx\<rparr>, head @ [])"
      using r(2) reclaim_empty [OF r(3) True r(6)] by (simp add: adapter_reclaim_tx_buffers_def with_tx_def)
    moreover have "a\<lparr>tx_ring := Some tx\<rparr> = a" using r(2) by simp
    ultimately show ?thesis using ok by (metis add.right_neutral mset.simps(1))
  next
    case False
    then have ne: "ring_ptrs tx \<noteq> []" using r(3,4) empty_ring by auto
    define k where "k = length (takeWhile tx_done (butlast (ring_descs tx)))"
    have len: "length (ring_descs tx) = length (ring_ptrs tx)"
      using r(3) by (simp add: ring_ptrs_def on_ring_def ring_descs_def ring_ok_def length_between)
    have "k \<le> length (butlast (ring_descs tx))" by (simp only: k_def length_takeWhile_le)
    then have k: "k < length (ring_ptrs tx)" using ne len by (cases "ring_ptrs tx") auto
    from ring_reclaim_ok [OF r(3,4) ne, of head, folded k_def] obtain tx' where
      s: "ring_reclaim_tx_buffers tx head = Inr (k, tx', head @ take k (ring_ptrs tx))" "ring_ok tx'"
      "on_ring tx' = map Some (drop k (ring_ptrs tx))" "r_pool tx' = r_pool tx" "r_desc_num tx' = r_desc_num tx" by metis
    have "on_ring tx' \<noteq> []" using s(3) k by simp
    then have idle: "tx_idle_ok tx'" using empty_ring [OF s(2)] by (simp add: tx_idle_ok_def)
    let ?a = "a\<lparr>tx_ring := Some tx'\<rparr>"
    have c: "card_ok i ?a" "rx_pool ?a = rx_pool a"
      "card_held ?a = ring_held rx + (mset (drop k (ring_ptrs tx)) + mset (pp_list (r_pool tx)))"
      using card_tx [OF ok r(1) s(2,3) _ idle] s(4,5) r(5) by simp_all
    have "mset (ring_ptrs tx) = mset (take k (ring_ptrs tx)) + mset (drop k (ring_ptrs tx))" by (metis append_take_drop_id mset_append)
    then have "card_held ?a + mset (take k (ring_ptrs tx)) = card_held a" using c(3) r(7) by (simp add: ring_held_def)
    moreover have "adapter_reclaim_tx_buffers a head = Inr (k, ?a, head @ take k (ring_ptrs tx))"
      using r(2) s(1) by (simp add: adapter_reclaim_tx_buffers_def with_tx_def)
    ultimately show ?thesis using c(1,2) by blast
  qed
qed

lemma send_card:
  assumes ok: "card_ok i a" and acc: "accounted pkts A M" "card_held a \<subseteq># M"
  shows "\<exists>n a' m'. adapter_send pkts a m = Inr (n, a', m') \<and> card_ok i a' \<and> card_held a' = card_held a \<and> rx_pool a' = rx_pool a"
proof -
  from card_rings [OF ok] obtain rx tx where r: "rx_ring a = Some rx" "tx_ring a = Some tx" "ring_ok tx"
    "on_ring tx = map Some (ring_ptrs tx)" "r_desc_num tx < 2 ^ 31" "tx_idle_ok tx"
    "card_held a = ring_held rx + ring_held tx" by metis
  let ?fl = "pp_list (r_pool tx)"
  have "mset ?fl \<subseteq># card_held a" by (simp add: r(7) ring_held_def)
  then have known: "set ?fl \<subseteq> dom pkts" using accounted_part(3) [OF acc(1)] acc(2) subset_mset.order_trans by blast
  define k where "k = min (length ?fl) (r_desc_num tx - 1 - length (ring_ptrs tx))"
  from ring_send_ok [OF r(3,4) known, of m, folded k_def] obtain tx' m' where
    s: "ring_send pkts tx m = Inr (k, tx', m')" "ring_ok tx'" "on_ring tx' = map Some (ring_ptrs tx @ take k ?fl)"
    "pp_list (r_pool tx') = drop k ?fl" "r_desc_num tx' = r_desc_num tx" by metis
  have idle: "tx_idle_ok tx'"
  proof (cases "ring_ptrs tx @ take k ?fl = []")
    case False
    then have "on_ring tx' \<noteq> []" unfolding s(3) by simp
    then show ?thesis using empty_ring [OF s(2)] by (simp add: tx_idle_ok_def)
  next
    case True
    then have "k = 0 \<or> ?fl = []" "ring_ptrs tx = []" by auto
    then have "?fl = [] \<or> r_desc_num tx = 1" using r(3) by (auto simp: k_def ring_ok_def min_def split: if_splits)
    then obtain pp where "ring_send pkts tx m = Inr (0, tx\<lparr>r_pool := pp\<rparr>, m)" using send_nothing [OF r(3)] by blast
    then have "tx' = tx\<lparr>r_pool := pp\<rparr>" using s(1) by simp
    then show ?thesis using r(6) by (simp add: tx_idle_ok_def)
  qed
  let ?a = "a\<lparr>tx_ring := Some tx'\<rparr>"
  have c: "card_ok i ?a" "rx_pool ?a = rx_pool a"
    "card_held ?a = ring_held rx + (mset (ring_ptrs tx @ take k ?fl) + mset (drop k ?fl))"
    using card_tx [OF ok r(1) s(2,3) _ idle] s(4,5) r(5) by simp_all
  have "mset ?fl = mset (take k ?fl) + mset (drop k ?fl)" by (metis append_take_drop_id mset_append)
  then have "card_held ?a = card_held a" using c(3) r(7) by (simp add: ring_held_def)
  moreover have "adapter_send pkts a m = Inr (k, ?a, m')" using r(2) s(1) by (simp add: adapter_send_def with_tx_def)
  ultimately show ?thesis using c(1,2) by blast
qed

section \<open>All cards\<close>

text \<open>The packets received and not yet collected are stamped with an existing card.\<close>

definition cards_stamped :: "packet store \<Rightarrow> driver \<Rightarrow> bool" where
  "cards_stamped pkts d \<longleftrightarrow> (\<forall>i < unat (adapter_num d). \<forall>a. adapters d ! i = Some a \<longrightarrow>
     (\<forall>p \<in> set (rx_pool a). stamped (unat (adapter_num d)) pkts p))"

lemma cards_stamped_put:
  assumes "cards_stamped pkts d" "i < unat (adapter_num d)" "i < length (adapters d)"
    and "\<And>p. stamped (unat (adapter_num d)) pkts p \<Longrightarrow> stamped (unat (adapter_num d)) pkts' p"
    and "\<forall>p \<in> set (rx_pool a'). stamped (unat (adapter_num d)) pkts' p"
  shows "cards_stamped pkts' (put_adapter d i a')"
  using assms by (auto simp: cards_stamped_def put_adapter_def nth_list_update)

lemma cards_stampedD:
  "cards_stamped pkts d \<Longrightarrow> i < unat (adapter_num d) \<Longrightarrow> adapters d ! i = Some a \<Longrightarrow> \<forall>p \<in> set (rx_pool a). stamped (unat (adapter_num d)) pkts p"
  by (auto simp: cards_stamped_def)

lemma accounted_mono: "accounted pkts A M \<Longrightarrow> dom pkts' = dom pkts \<Longrightarrow> accounted pkts' A M"
  by (simp add: accounted_def)

lemma driver_alloc_all:
  assumes d: "cards_ok d" "cards_stamped pkts d" and pool: "pool_count_ok pp" and acc: "accounted pkts A (cards_held d + mset (pp_list pp) + R)"
  shows "\<exists>d' pp' m'. driver_alloc_rx_buffer pkts d pp m = Inr (1, d', pp', m') \<and> cards_ok d' \<and> cards_stamped pkts d' \<and>
    adapter_num d' = adapter_num d \<and> pool_count_ok pp' \<and> cards_held d' + mset (pp_list pp') = cards_held d + mset (pp_list pp)"
proof -
  let ?I = "\<lambda>d' (pp', m'). cards_stamped pkts d' \<and> pool_count_ok pp' \<and> cards_held d' + mset (pp_list pp') = cards_held d + mset (pp_list pp)"
  let ?f = "\<lambda>i (d, pp, m). bindE (driver_get_adapter d i) (\<lambda>a. bindE (adapter_alloc_rx_buffers pkts a pp m) (\<lambda>(_, a, pp, m).
      Inr (put_adapter d i a, pp, m)))"
  have "\<exists>d' s'. foldE ?f [0..<unat (adapter_num d)] (d, (pp, m)) = Inr (d', s') \<and> cards_ok d' \<and> adapter_num d' = adapter_num d \<and> ?I d' s'"
  proof (rule over_cards [where st = Pair and I = ?I])
    fix i a d' and s :: "packet_pool \<times> mmio"
    assume i: "i < unat (adapter_num d')" and d': "cards_ok d'" "adapters d' ! i = Some a" "driver_get_adapter d' i = Inr a" "card_ok i a" and I: "?I d' s"
    obtain pp' m' where s: "s = (pp', m')" by fastforce
    have eq: "cards_held d' + mset (pp_list pp') = cards_held d + mset (pp_list pp)" using I s by simp
    have "mset (pp_list pp') \<subseteq># cards_held d' + mset (pp_list pp') + R" by (simp add: add.assoc subset_mset.add_increasing)
    then have "set (pp_list pp') \<subseteq> dom pkts" using accounted_part(3) [OF acc] eq by metis
    then obtain a' pp2 m2 where a': "adapter_alloc_rx_buffers pkts a pp' m' = Inr (1, a', pp2, m2)" "card_ok i a'" "pool_count_ok pp2"
      "card_held a' + mset (pp_list pp2) = card_held a + mset (pp_list pp')" "rx_pool a' = rx_pool a"
      using alloc_card [OF d'(4), of pp' pkts m'] I s by auto
    note put = cards_put [OF d'(1) i d'(2) a'(2)]
    have "cards_held (put_adapter d' i a') + mset (pp_list pp2) = cards_held d + mset (pp_list pp)"
      using moved [OF put(3) a'(4)] eq by simp
    moreover have "cards_stamped pkts (put_adapter d' i a')"
      using cards_stamped_put [of pkts d' i pkts a'] I s i cards_okD [OF d'(1) i] cards_stampedD [OF _ i d'(2)] a'(5) by auto
    ultimately show "\<exists>a' s'. ?f i (d', s) = Inr (put_adapter d' i a', s') \<and> card_ok i a' \<and> ?I (put_adapter d' i a') s'"
      using s d'(3) a'(1-3) by auto
  qed (use d pool in auto)
  then show ?thesis by (auto simp: driver_alloc_rx_buffer_def)
qed

text \<open>Packets that differ in length and card only.\<close>

definition same_contents :: "packet store \<Rightarrow> packet store \<Rightarrow> bool" where
  "same_contents pkts pkts' \<longleftrightarrow> (\<forall>p. \<exists>len idx. pkts' p = map_option (\<lambda>pkt. pkt\<lparr>p_len := len, adapter_idx := idx\<rparr>) (pkts p))"

lemma same_contents_dom: "same_contents pkts pkts' \<Longrightarrow> dom pkts' = dom pkts"
  unfolding same_contents_def dom_def by (metis (mono_tags) map_option_is_None)

lemma same_contents_refl: "same_contents pkts pkts"
proof -
  have "pkts p = map_option (\<lambda>pkt. pkt\<lparr>p_len := p_len (the (pkts p)), adapter_idx := adapter_idx (the (pkts p))\<rparr>) (pkts p)" for p
    by (cases "pkts p") simp_all
  then show ?thesis unfolding same_contents_def by blast
qed

lemma same_contents_trans: "same_contents a b \<Longrightarrow> same_contents b c \<Longrightarrow> same_contents a c"
proof -
  assume 1: "same_contents a b" and 2: "same_contents b c"
  have "\<exists>len idx. c p = map_option (\<lambda>pkt. pkt\<lparr>p_len := len, adapter_idx := idx\<rparr>) (a p)" for p
  proof -
    obtain l i where "b p = map_option (\<lambda>pkt. pkt\<lparr>p_len := l, adapter_idx := i\<rparr>) (a p)" using 1 unfolding same_contents_def by blast
    moreover obtain l' i' where "c p = map_option (\<lambda>pkt. pkt\<lparr>p_len := l', adapter_idx := i'\<rparr>) (b p)" using 2 unfolding same_contents_def by blast
    ultimately have "c p = map_option (\<lambda>pkt. pkt\<lparr>p_len := l', adapter_idx := i'\<rparr>) (a p)" by (cases "a p") simp_all
    then show ?thesis by blast
  qed
  then show ?thesis by (simp add: same_contents_def)
qed

lemma rx_filled_contents: "rx_filled i pkts pkts' \<Longrightarrow> same_contents pkts pkts'"
  unfolding same_contents_def
proof
  fix p assume f: "rx_filled i pkts pkts'"
  then consider "pkts' p = pkts p" | pkt len idx where "pkts p = Some pkt" "pkts' p = Some (pkt\<lparr>p_len := len, adapter_idx := idx\<rparr>)"
    unfolding rx_filled_def by blast
  then show "\<exists>len idx. pkts' p = map_option (\<lambda>pkt. pkt\<lparr>p_len := len, adapter_idx := idx\<rparr>) (pkts p)"
  proof cases
    case 1
    then show ?thesis using same_contents_refl [of pkts] by (simp add: same_contents_def)
  qed auto
qed

lemma driver_recv_fill:
  assumes d: "cards_ok d" "cards_stamped pkts d" and acc: "accounted pkts A (cards_held d + R)"
  shows "\<exists>n d' pkts'. foldE (\<lambda>i (count, d, pkts). bindE (driver_get_adapter d i) (\<lambda>a.
      bindE (adapter_recv a pkts) (\<lambda>(n, a, pkts). Inr (count + n, put_adapter d i a, pkts)))) [0..<unat (adapter_num d)] (0, d, pkts)
      = Inr (n, d', pkts') \<and> cards_ok d' \<and> cards_stamped pkts' d' \<and> adapter_num d' = adapter_num d \<and>
    cards_held d' = cards_held d \<and> same_contents pkts pkts'"
proof -
  let ?I = "\<lambda>d' (n :: nat, pkts'). cards_stamped pkts' d' \<and> adapter_num d' = adapter_num d \<and> cards_held d' = cards_held d \<and> same_contents pkts pkts'"
  let ?f = "\<lambda>i (count, d, pkts). bindE (driver_get_adapter d i) (\<lambda>a.
      bindE (adapter_recv a pkts) (\<lambda>(n, a, pkts). Inr (count + n, put_adapter d i a, pkts)))"
  let ?st = "\<lambda>d (n :: nat, pkts :: packet store). (n, d, pkts)"
  have "\<exists>d' s'. foldE ?f [0..<unat (adapter_num d)] (?st d (0, pkts)) = Inr (?st d' s') \<and> cards_ok d' \<and> adapter_num d' = adapter_num d \<and> ?I d' s'"
  proof (rule over_cards [where st = ?st and I = ?I])
    fix i a d' and s :: "nat \<times> packet store"
    assume i: "i < unat (adapter_num d')" and d': "cards_ok d'" "adapters d' ! i = Some a" "driver_get_adapter d' i = Inr a" "card_ok i a" and I: "?I d' s"
    obtain n pkts' where s: "s = (n, pkts')" by fastforce
    have I': "cards_stamped pkts' d'" "adapter_num d' = adapter_num d" "cards_held d' = cards_held d" "same_contents pkts pkts'" using I s by simp_all
    have acc': "accounted pkts' A (cards_held d' + R)" using accounted_mono [OF acc same_contents_dom [OF I'(4)]] I'(3) by simp
    have "card_held a \<subseteq># cards_held d' + R" using card_in_cards [OF i d'(2)] by (simp add: subset_mset.add_increasing2)
    then obtain k a' pkts2 where a': "adapter_recv a pkts' = Inr (k, a', pkts2)" "card_ok i a'" "card_held a' = card_held a"
      "rx_filled i pkts' pkts2" "\<forall>p \<in> set (rx_pool a'). stamped (unat (adapter_num d')) pkts2 p"
      using recv_card [OF d'(4) i acc' _ cards_stampedD [OF I'(1) i d'(2)]] by blast
    note put = cards_put [OF d'(1) i d'(2) a'(2)]
    have "cards_held (put_adapter d' i a') = cards_held d" using put(3) a'(3) I'(3) by simp
    moreover have "cards_stamped pkts2 (put_adapter d' i a')"
      by (rule cards_stamped_put [OF I'(1) i _ _ a'(5)]) (use cards_okD [OF d'(1) i] stamped_filled [OF _ a'(4) i] in auto)
    ultimately show "\<exists>a' s'. ?f i (?st d' s) = Inr (?st (put_adapter d' i a') s') \<and> card_ok i a' \<and> ?I (put_adapter d' i a') s'"
      using s d'(3) a'(1,2) put(2) I'(2) same_contents_trans [OF I'(4) rx_filled_contents [OF a'(4)]]
      by (intro exI [of _ a'] exI [of _ "(n + k, pkts2)"]) simp
  qed (use d same_contents_refl in auto)
  then show ?thesis by auto
qed

lemma driver_collect_all:
  assumes d: "cards_ok d" "cards_stamped pkts d"
  shows "\<exists>d' new. driver_get_received_packets d head = Inr (d', head @ new) \<and> cards_ok d' \<and> cards_stamped pkts d' \<and>
    adapter_num d' = adapter_num d \<and> cards_held d' + mset new = cards_held d \<and> (\<forall>p \<in> set new. stamped (unat (adapter_num d)) pkts p)"
proof -
  let ?I = "\<lambda>d' h. adapter_num d' = adapter_num d \<and> cards_stamped pkts d' \<and> (\<exists>new. h = head @ new \<and> cards_held d' + mset new = cards_held d \<and>
     (\<forall>p \<in> set new. stamped (unat (adapter_num d)) pkts p))"
  let ?f = "\<lambda>i (d, head). bindE (driver_get_adapter d i) (\<lambda>a. bindE (with_rx a) (\<lambda>r.
         case packet_pool_get_all (r_pool r) head of (pp, head) \<Rightarrow>
           Inr (put_adapter d i (a\<lparr>rx_ring := Some (r\<lparr>r_pool := pp\<rparr>)\<rparr>), head)))"
  have "\<exists>d' s'. foldE ?f [0..<unat (adapter_num d)] (d, head) = Inr (d', s') \<and> cards_ok d' \<and> adapter_num d' = adapter_num d \<and> ?I d' s'"
  proof (rule over_cards [where st = Pair and I = ?I])
    fix i a d' h
    assume i: "i < unat (adapter_num d')" and d': "cards_ok d'" "adapters d' ! i = Some a" "driver_get_adapter d' i = Inr a" "card_ok i a" and I: "?I d' h"
    then obtain new where new: "h = head @ new" "cards_held d' + mset new = cards_held d" "\<forall>p \<in> set new. stamped (unat (adapter_num d)) pkts p" by blast
    obtain rx pp where r: "with_rx a = Inr rx" "packet_pool_get_all (r_pool rx) h = (pp, h @ rx_pool a)" and
      c: "card_ok i (a\<lparr>rx_ring := Some (rx\<lparr>r_pool := pp\<rparr>)\<rparr>)" "rx_pool (a\<lparr>rx_ring := Some (rx\<lparr>r_pool := pp\<rparr>)\<rparr>) = []"
        "card_held (a\<lparr>rx_ring := Some (rx\<lparr>r_pool := pp\<rparr>)\<rparr>) + mset (rx_pool a) = card_held a"
      using get_all_card [OF d'(4), of h] unfolding Let_def by blast
    let ?a = "a\<lparr>rx_ring := Some (rx\<lparr>r_pool := pp\<rparr>)\<rparr>"
    note put = cards_put [OF d'(1) i d'(2) c(1)]
    have e: "cards_held (put_adapter d' i ?a) + mset (rx_pool a) = cards_held d'"
      using moved [OF put(3), of "mset (rx_pool a)" "{#}"] c(3) by simp
    have "cards_held (put_adapter d' i ?a) + mset (new @ rx_pool a) = cards_held d"
      unfolding new(2) [symmetric] e [symmetric] by (simp add: ac_simps)
    moreover have "cards_stamped pkts (put_adapter d' i ?a)"
      by (rule cards_stamped_put) (use I i c(2) cards_okD [OF d'(1) i] in auto)
    moreover have "\<forall>p \<in> set (new @ rx_pool a). stamped (unat (adapter_num d)) pkts p"
      using new(3) cards_stampedD [OF _ i d'(2), of pkts] I by auto
    ultimately have "?I (put_adapter d' i ?a) (h @ rx_pool a)" using put(2) I new(1) by (intro conjI exI [of _ "new @ rx_pool a"]) simp_all
    then show "\<exists>a' s'. ?f i (d', h) = Inr (put_adapter d' i a', s') \<and> card_ok i a' \<and> ?I (put_adapter d' i a') s'"
      using d'(3) r c(1) by (intro exI [of _ ?a] exI [of _ "h @ rx_pool a"]) simp
  qed (use d in auto)
  then show ?thesis by (auto simp: driver_get_received_packets_def)
qed

lemma driver_recv_all:
  assumes d: "cards_ok d" "cards_stamped pkts d" and acc: "accounted pkts A (cards_held d + R)"
  shows "\<exists>n d' pkts' new. driver_recv d pkts head = Inr (n, d', pkts', head @ new) \<and> cards_ok d' \<and> cards_stamped pkts' d' \<and>
    adapter_num d' = adapter_num d \<and> cards_held d' + mset new = cards_held d \<and> same_contents pkts pkts' \<and>
    (\<forall>p \<in> set new. stamped (unat (adapter_num d)) pkts' p)"
proof -
  obtain n d1 pkts' where 1: "foldE (\<lambda>i (count, d, pkts). bindE (driver_get_adapter d i) (\<lambda>a.
      bindE (adapter_recv a pkts) (\<lambda>(n, a, pkts). Inr (count + n, put_adapter d i a, pkts)))) [0..<unat (adapter_num d)] (0, d, pkts)
      = Inr (n, d1, pkts')" "cards_ok d1" "cards_stamped pkts' d1" "adapter_num d1 = adapter_num d" "cards_held d1 = cards_held d"
    "same_contents pkts pkts'" using driver_recv_fill [OF assms] by blast
  from driver_collect_all [OF 1(2,3), of head] show ?thesis using 1 by (auto simp: driver_recv_def)
qed

lemma driver_reclaim_all:
  assumes d: "cards_ok d" "cards_stamped pkts d"
  shows "\<exists>n d' new. driver_reclaim_tx_buffer d head = Inr (n, d', head @ new) \<and> cards_ok d' \<and> cards_stamped pkts d' \<and>
    adapter_num d' = adapter_num d \<and> cards_held d' + mset new = cards_held d"
proof -
  let ?I = "\<lambda>d' (n :: nat, h). adapter_num d' = adapter_num d \<and> cards_stamped pkts d' \<and> (\<exists>new. h = head @ new \<and> cards_held d' + mset new = cards_held d)"
  let ?f = "\<lambda>i (count, d, head). bindE (driver_get_adapter d i) (\<lambda>a.
       bindE (adapter_reclaim_tx_buffers a head) (\<lambda>(n, a, head). Inr (count + n, put_adapter d i a, head)))"
  let ?st = "\<lambda>d (n :: nat, h :: ptr list). (n, d, h)"
  have "\<exists>d' s'. foldE ?f [0..<unat (adapter_num d)] (?st d (0, head)) = Inr (?st d' s') \<and> cards_ok d' \<and> adapter_num d' = adapter_num d \<and> ?I d' s'"
  proof (rule over_cards [where st = ?st and I = ?I])
    fix i a d' and s :: "nat \<times> ptr list"
    assume i: "i < unat (adapter_num d')" and d': "cards_ok d'" "adapters d' ! i = Some a" "driver_get_adapter d' i = Inr a" "card_ok i a" and I: "?I d' s"
    then obtain n new where s: "s = (n, head @ new)" and new: "cards_held d' + mset new = cards_held d" by (cases s) auto
    obtain k a' new' where a': "adapter_reclaim_tx_buffers a (head @ new) = Inr (k, a', (head @ new) @ new')" "card_ok i a'"
      "card_held a' + mset new' = card_held a" "rx_pool a' = rx_pool a" using reclaim_card [OF d'(4), of "head @ new"] by blast
    note put = cards_put [OF d'(1) i d'(2) a'(2)]
    have e: "cards_held (put_adapter d' i a') + mset new' = cards_held d'"
      using moved [OF put(3), of "mset new'" "{#}"] a'(3) by simp
    have "cards_held (put_adapter d' i a') + mset (new @ new') = cards_held d"
      unfolding new [symmetric] e [symmetric] by (simp add: ac_simps)
    moreover have "cards_stamped pkts (put_adapter d' i a')"
      by (rule cards_stamped_put) (use I s i a'(4) cards_okD [OF d'(1) i] cards_stampedD [OF _ i d'(2), of pkts] in auto)
    ultimately have "?I (put_adapter d' i a') (n + k, head @ new @ new')" using put(2) I s by auto
    then show "\<exists>a' s'. ?f i (?st d' s) = Inr (?st (put_adapter d' i a') s') \<and> card_ok i a' \<and> ?I (put_adapter d' i a') s'"
      using d'(3) a'(1,2) s by (intro exI [of _ a'] exI [of _ "(n + k, head @ new @ new')"]) simp
  qed (use d in auto)
  then show ?thesis by (auto simp: driver_reclaim_tx_buffer_def)
qed

lemma driver_send_all:
  assumes d: "cards_ok d" "cards_stamped pkts d" and acc: "accounted pkts A (cards_held d + R)"
  shows "\<exists>n d' m'. driver_send pkts d m = Inr (n, d', m') \<and> cards_ok d' \<and> cards_stamped pkts d' \<and>
    adapter_num d' = adapter_num d \<and> cards_held d' = cards_held d"
proof -
  let ?I = "\<lambda>d' (s :: nat \<times> mmio). adapter_num d' = adapter_num d \<and> cards_stamped pkts d' \<and> cards_held d' = cards_held d"
  let ?f = "\<lambda>i (count, d, m). bindE (driver_get_adapter d i) (\<lambda>a.
       bindE (adapter_send pkts a m) (\<lambda>(n, a, m). Inr (count + n, put_adapter d i a, m)))"
  let ?st = "\<lambda>d (n :: nat, m :: mmio). (n, d, m)"
  have "\<exists>d' s'. foldE ?f [0..<unat (adapter_num d)] (?st d (0, m)) = Inr (?st d' s') \<and> cards_ok d' \<and> adapter_num d' = adapter_num d \<and> ?I d' s'"
  proof (rule over_cards [where st = ?st and I = ?I])
    fix i a d' and s :: "nat \<times> mmio"
    assume i: "i < unat (adapter_num d')" and d': "cards_ok d'" "adapters d' ! i = Some a" "driver_get_adapter d' i = Inr a" "card_ok i a" and I: "?I d' s"
    obtain n m' where s: "s = (n, m')" by fastforce
    have acc': "accounted pkts A (cards_held d' + R)" using acc I by simp
    have "card_held a \<subseteq># cards_held d' + R" using card_in_cards [OF i d'(2)] by (simp add: subset_mset.add_increasing2)
    then obtain k a' m2 where a': "adapter_send pkts a m' = Inr (k, a', m2)" "card_ok i a'" "card_held a' = card_held a" "rx_pool a' = rx_pool a"
      using send_card [OF d'(4) acc', of m'] by blast
    note put = cards_put [OF d'(1) i d'(2) a'(2)]
    have "cards_stamped pkts (put_adapter d' i a')"
      by (rule cards_stamped_put) (use I i a'(4) cards_okD [OF d'(1) i] cards_stampedD [OF _ i d'(2), of pkts] in auto)
    then have "?I (put_adapter d' i a') (n + k, m2)" using put(2,3) a'(3) I by simp
    then show "\<exists>a' s'. ?f i (?st d' s) = Inr (?st (put_adapter d' i a') s') \<and> card_ok i a' \<and> ?I (put_adapter d' i a') s'"
      using d'(3) a'(1,2) s by (intro exI [of _ a'] exI [of _ "(n + k, m2)"]) simp
  qed (use d in auto)
  then show ?thesis by (auto simp: driver_send_def)
qed

end
