(* ===== verification/Turn.thy ===== *)
theory Turn
  imports ArpStack MainLoop DriverLoop
begin

text \<open>
  One turn of the endless loop of \<open>main.c\<close> in a process that runs alone. The state before and after a
  turn is consistent, no step of the turn is a fault, and every packet of the process is at every
  moment in exactly one place: in the free pool, on a ring or a queue of a card, or on one of the lists of
  the loop.
\<close>

section \<open>Expired connections leave the rest alone\<close>

definition only_conns :: "'a cnet_scheme \<Rightarrow> 'a cnet_scheme \<Rightarrow> bool" where
  "only_conns n n' \<longleftrightarrow> same_idents (ng_lips n) (ng_lips n') \<and> ng_id n' = ng_id n \<and> ng_d n' = ng_d n \<and> ng_itf n' = ng_itf n \<and>
     ng_z n' = ng_z n \<and> ng_q n' = ng_q n \<and> ng_rt n' = ng_rt n \<and> ng_heap n' = ng_heap n \<and> ng_rand n' = ng_rand n \<and>
     ng_ents n' = ng_ents n \<and> ng_pools n' = ng_pools n \<and> ng_vs n' = ng_vs n \<and> ng_pkts n' = ng_pkts n \<and>
     ng_queues n' = ng_queues n \<and> ng_mmio n' = ng_mmio n \<and> cnet.more n' = cnet.more n"

lemma only_conns_refl [simp]: "only_conns n n"
  by (simp add: only_conns_def)

lemma only_conns_trans: "only_conns a b \<Longrightarrow> only_conns b c \<Longrightarrow> only_conns a c"
  by (simp add: only_conns_def same_idents_def)

lemma only_conns_clock [simp]:
  "only_conns n (n\<lparr>net_clock := c\<rparr>)" "only_conns (n\<lparr>net_clock := c\<rparr>) n' \<longleftrightarrow> only_conns n n'"
  by (simp_all add: only_conns_def)

lemma put_port_ident:
  "lip_put_tcp_port lip port = Inr lip' \<Longrightarrow> lip_ident lip' = lip_ident lip"
  "lip_put_udp_port lip port = Inr lip' \<Longrightarrow> lip_ident lip' = lip_ident lip"
  by (auto simp: lip_put_tcp_port_def lip_put_udp_port_def lip_ident_def fault_simps)

lemma connection_free_only:
  assumes "connection_free p n = Inr n'"
  shows "only_conns n n'"
proof -
  obtain cp where cp: "conns n p = Some cp" using assms by (auto simp: connection_free_def fault_simps)
  have del: "only_conns m m'" if d: "connection_del p m = Inr m'" for m m' :: "'a cnet_scheme"
  proof -
    obtain cq where c: "conns m p = Some cq" using d by (auto simp: connection_del_def fault_simps)
    have "m' = (if CONNECTION_IS_FULLNAT cq
       then m\<lparr>client_hashtable := ht_del (client_hashtable m) p, self_hashtable := ht_del (self_hashtable m) p\<rparr>
       else m\<lparr>client_hashtable := ht_del (client_hashtable m) p\<rparr>)"
      using d c by (cases "CONNECTION_IS_FULLNAT cq") (simp_all add: connection_del_def Let_def)
    then show ?thesis by (simp add: only_conns_def)
  qed
  have put: "only_conns m (connectoin_put_free p m)" for m :: "'a cnet_scheme"
    by (simp add: connectoin_put_free_def only_conns_def)
  have lip: "only_conns n (n\<lparr>ng_lips := (ng_lips n)(l \<mapsto> b)\<rparr>)" if "ng_lips n l = Some a" "lip_ident b = lip_ident a" for l a b
    using that by (simp add: only_conns_def same_idents_def)
  obtain m where m: "only_conns n m" "bindE (connection_del p (m\<lparr>net_clock := timer_del (net_clock m) p\<rparr>)) (\<lambda>n. Inr (connectoin_put_free p n)) = Inr n'"
  proof (cases "CONNECTION_IS_FULLNAT cp")
    case True
    then obtain a b where "ng_lips n (c_self_addr cp) = Some a"
      "(if CONNECTION_IS_TCP cp then lip_put_tcp_port a (c_self_port cp) else lip_put_udp_port a (c_self_port cp)) = Inr b"
      "bindE (connection_del p ((n\<lparr>ng_lips := (ng_lips n)(c_self_addr cp \<mapsto> b)\<rparr>)\<lparr>net_clock := timer_del (net_clock (n\<lparr>ng_lips := (ng_lips n)(c_self_addr cp \<mapsto> b)\<rparr>)) p\<rparr>))
         (\<lambda>n. Inr (connectoin_put_free p n)) = Inr n'"
      using assms cp by (auto simp: connection_free_def bindE_assoc Let_def elim!: bindE_InrE simp: fault_simps)
    note ab = this
    have "lip_ident b = lip_ident a" using ab(2) by (auto dest: put_port_ident split: if_splits)
    from that [OF lip [OF ab(1) this] ab(3)] show thesis .
  next
    case False
    then show thesis using assms cp that [of n] by (simp add: connection_free_def Let_def)
  qed
  then obtain x where "connection_del p (m\<lparr>net_clock := timer_del (net_clock m) p\<rparr>) = Inr x" "n' = connectoin_put_free p x"
    by (auto simp: fault_simps)
  then have "only_conns m x" "only_conns x n'" using del [of "m\<lparr>net_clock := timer_del (net_clock m) p\<rparr>" x] put by simp_all
  then show ?thesis using m(1) only_conns_trans by blast
qed

text \<open>The timer loop applies its handler some number of times.\<close>

lemma foldE_rel:
  assumes "\<And>x s s'. f x s = Inr s' \<Longrightarrow> R s s'" "\<And>s. R s s" "\<And>a b c. R a b \<Longrightarrow> R b c \<Longrightarrow> R a c"
  shows "foldE f xs s = Inr s' \<Longrightarrow> R s s'"
proof (induction xs arbitrary: s)
  case (Cons x xs)
  then obtain t where "f x s = Inr t" "foldE f xs t = Inr s'" by (auto simp: fault_simps)
  then show ?case using assms(1,3) Cons.IH by blast
qed (use assms(2) in auto)

lemma expire_rel:
  assumes h: "\<And>t s s'. handler t s = Inr s' \<Longrightarrow> R (snd s) (snd s')" and r: "\<And>w. R w w" "\<And>a b c. R a b \<Longrightarrow> R b c \<Longrightarrow> R a c"
    and e: "timer_expire handler tsc (c, w) = Inr (c', w')"
  shows "R w w'"
proof -
  have fold: "foldE handler xs s = Inr s' \<Longrightarrow> R (snd s) (snd s')" for xs s s'
    by (rule foldE_rel [where R = "\<lambda>s s'. R (snd s) (snd s')" and f = handler and xs = xs]) (use h r in blast)+
  have tick: "tick handler s = Inr s' \<Longrightarrow> R (snd s) (snd s')" for s s'
    using fold [of _ "(_, snd s)" s'] by (cases s) (simp only: tick_eq snd_conv)
  have loop: "expire_loop k handler el s = Inr (el', s') \<Longrightarrow> R (snd s) (snd s')" for k el s el' s'
  proof (induction k arbitrary: el s)
    case (Suc k)
    show ?case
    proof (cases "cpu_frequency (fst s) < el")
      case True
      with Suc.prems obtain t where t: "tick handler s = Inr t" "expire_loop k handler (el - cpu_frequency (fst t)) t = Inr (el', s')"
        by (auto simp: fault_simps)
      show ?thesis by (rule r(2) [OF tick [OF t(1)] Suc.IH [OF t(2)]])
    next
      case False
      then show ?thesis using Suc.prems r(1) by simp
    qed
  qed (use r(1) in \<open>auto split: if_splits\<close>)
  show ?thesis using e loop [where s = "(c, w)"] by (auto simp: timer_expire_def fault_simps Let_def)
qed

lemma expire_only:
  assumes "net_timer_expire tsc n = Inr n'"
  shows "only_conns n n'"
proof -
  obtain c w where t: "timer_expire timeout_handler tsc (net_clock n, n) = Inr (c, w)" "n' = w\<lparr>net_clock := c\<rparr>"
    using assms by (auto simp: net_timer_expire_def fault_simps)
  have "only_conns (snd s) (snd s')" if h: "timeout_handler t s = Inr s'" for t and s s' :: "clock \<times> 'a cnet_scheme"
  proof -
    obtain c n where s: "s = (c, n)" by fastforce
    then obtain m where "connection_free t (n\<lparr>net_clock := c\<rparr>) = Inr m" "s' = (net_clock m, m)"
      using h by (auto simp: timeout_handler_eq fault_simps)
    then show ?thesis using connection_free_only s by fastforce
  qed
  then have "only_conns n w" by (rule expire_rel [OF _ only_conns_refl only_conns_trans t(1)])
  then show ?thesis using t(2) only_conns_clock only_conns_trans by blast
qed

section \<open>The state of the loop\<close>

text \<open>A process that runs alone: its own queue exists, and it is the only one packets are dispatched to.\<close>

definition alone :: "dispatch \<Rightarrow> 'a net_scheme \<Rightarrow> bool" where
  "alone dp n \<longleftrightarrow> dispatch_module_init 1 0 = Inr dp \<and> lfq_nproc (ng_q n) = 1 \<and> lfq_id (ng_q n) = 0 \<and>
     (\<exists>a q. send_queue (ng_q n) = [a] \<and> ng_queues n a = Some q)"

definition no_lists :: lists where
  "no_lists = \<lparr>recv_from_driver = [], recv_from_dispatch = [], to_reclaim = [], free_head = []\<rparr>"

text \<open>Where the packets are.\<close>

definition held :: "unet \<Rightarrow> lists \<Rightarrow> ptr multiset" where
  "held n l = cards_held (ng_d n) + mset (pp_list (free_packet_pool (ng_z n))) + mset (recv_from_driver l) +
     mset (recv_from_dispatch l) + mset (to_reclaim l) + mset (free_head l)"

text \<open>The packets belong to the process.\<close>

definition own_ids :: "ptr set \<Rightarrow> packet store \<Rightarrow> bool" where
  "own_ids A pkts \<longleftrightarrow> (\<forall>p \<in> A. \<forall>pkt. pkts p = Some pkt \<longrightarrow> p_id pkt = 0)"

definition loop_ok :: "ptr set \<Rightarrow> unet \<Rightarrow> lists \<Rightarrow> bool" where
  "loop_ok A n l \<longleftrightarrow> stack_ok n \<and> cards_ok (ng_d n) \<and> cards_stamped (ng_pkts n) (ng_d n) \<and>
     pool_count_ok (free_packet_pool (ng_z n)) \<and> alone (disp n) n \<and> 0 < cpu_frequency (net_clock n) \<and>
     accounted (ng_pkts n) A (held n l) \<and> own_ids A (ng_pkts n)"

lemma loop_okD:
  assumes "loop_ok A n l"
  shows "stack_ok n" "cards_ok (ng_d n)" "cards_stamped (ng_pkts n) (ng_d n)" "pool_count_ok (free_packet_pool (ng_z n))"
    "alone (disp n) n" "0 < cpu_frequency (net_clock n)" "accounted (ng_pkts n) A (held n l)"
    "own_ids A (ng_pkts n)"
  using assms unfolding loop_ok_def by blast+

text \<open>
  The destination port the parser stores for an IP frame: in the TCP or UDP header, uninitialised
  for ICMP. A port is dispatched to the only process unless it is 65535, since the slice is rounded down; no
  frame may be sent to that port.
\<close>

definition frame_dport :: "u16 \<Rightarrow> bytes \<Rightarrow> u16" where
  "frame_dport junk d =
     (let (proto, header) = (if ip_version d = 4 then (ip_protocol d ETH_HDR, ETH_HDR + IP_HDR) else (ip6_nexthdr d ETH_HDR, ETH_HDR + IP6_HDR))
      in if proto = PROTO_TCP \<or> proto = PROTO_UDP then ld16 d (header + 2) else junk)"

definition frame_here :: "u16 \<Rightarrow> bytes \<Rightarrow> bool" where
  "frame_here junk d \<longleftrightarrow> accepted d \<longrightarrow> eth_proto d = PROTO_IP \<longrightarrow> frame_dport junk d \<noteq> 65535"

definition ports_here :: "input \<Rightarrow> ptr set \<Rightarrow> packet store \<Rightarrow> bool" where
  "ports_here e A pkts \<longleftrightarrow> (\<forall>p \<in> A. \<forall>pkt. pkts p = Some pkt \<longrightarrow> frame_here (snd (in_ports e p)) (p_data pkt))"

lemma alone_slices:
  assumes "alone dp n"
  shows "disp_num dp = 1" "port_base dp = 1024" "port_slice dp = 64511"
proof -
  obtain d where d: "dispatch_module_init 1 0 = Inr d" "disp_num d = 1" "uint (port_base d) = 1024" "uint (port_slice d) = 64511"
    using dispatch_init_eq [of 1 0] by auto
  then have "d = dp" using assms by (simp add: alone_def)
  moreover have "port_base d = 1024" "port_slice d = 64511" using d(3,4) by (simp_all add: word_uint_eq_iff)
  ultimately show "disp_num dp = 1" "port_base dp = 1024" "port_slice dp = 64511" using d(2) by simp_all
qed

lemma port_to_self:
  assumes "alone dp n" "port \<noteq> 65535"
  shows "dispatch_port_to_id dp port = Inr 0"
proof -
  have "uint port < 65536" using uint_lt2p [of port] by simp
  moreover have "uint port \<noteq> 65535" using assms(2) by (simp add: word_uint_eq_iff)
  ultimately have "\<bar>uint port - 1024\<bar> < 64511" using uint_ge_0 [of port] by linarith
  then have "(uint port - 1024) sdiv 64511 = 0" by (simp add: signed_divide_int_def div_pos_pos_trivial)
  then show ?thesis using alone_slices [OF assms(1)] by (simp add: dispatch_port_to_id_def)
qed

lemma hash_to_self: "alone dp n \<Longrightarrow> dispatch_hash_to_id dp h = Inr 0"
  using alone_slices [of dp n] by (simp add: dispatch_hash_to_id_def)

lemma dispatch_to_self:
  assumes ok: "net_ok n" and al: "alone dp n" and p: "na_port (p_daddr pkt) \<noteq> 65535"
  shows "dispatch_ip_packet dp pkt n = Inr 0"
proof -
  obtain a b where "ng_interface_lookup_vsip n (na_ip (p_saddr pkt)) = Inr a" "ng_interface_lookup_selfip n (na_ip (p_daddr pkt)) = Inr b"
    using net_lookup [OF ok] unfolding ng_interface_lookup_vsip_def ng_interface_lookup_selfip_def by blast
  then show ?thesis using port_to_self [OF al p] hash_to_self [OF al] by (simp add: dispatch_ip_packet_def Let_def)
qed

lemma flush_alone: "alone dp n \<Longrightarrow> dispatch_flush n = Inr n"
  by (auto simp: alone_def dispatch_flush_def lfq_send_flush_def flush_to_def)

lemma recv_alone: "alone dp n \<Longrightarrow> lfq_recv z (ng_q n) queues head = Inr (0, queues, head)"
  by (simp add: alone_def lfq_recv_def recv_from_def)

lemma dispatch_alone:
  assumes ok: "net_ok n" and al: "alone dp n"
    and ps: "\<And>p. p \<in> set head \<Longrightarrow> \<exists>pkt. ng_pkts n p = Some pkt \<and> (PACKET_IS_IP pkt \<longrightarrow> na_port (p_daddr pkt) \<noteq> 65535)"
  shows "dispatch_packet dp head [] free n = Inr (n, head, [], free)"
proof -
  have "foldE (dispatch_send_step dp) ps (n, head) = Inr (n, head)" if "set ps \<subseteq> set head" for ps
    using that
  proof (induction ps)
    case (Cons p ps)
    obtain pkt where pkt: "ng_pkts n p = Some pkt" "PACKET_IS_IP pkt \<longrightarrow> na_port (p_daddr pkt) \<noteq> 65535" using ps Cons.prems by auto
    then have "dispatch_send_step dp p (n, head) = Inr (n, head)"
      using dispatch_to_self [OF ok al, of pkt] al by (cases "PACKET_IS_IP pkt") (simp_all add: dispatch_send_step_def alone_def)
    then show ?case using Cons by simp
  qed simp
  then show ?thesis using flush_alone [OF al] recv_alone [OF al] by (simp add: dispatch_packet_def Let_def)
qed

lemma reclaim_alone:
  assumes al: "alone dp n" and ps: "\<And>p. p \<in> set head \<Longrightarrow> \<exists>pkt. ng_pkts n p = Some pkt \<and> p_id pkt = 0"
  shows "dispatch_reclaim head n = Inr (n, head)"
proof -
  have "foldE dispatch_reclaim_step ps (n, head) = Inr (n, head)" if "set ps \<subseteq> set head" for ps
    using that
  proof (induction ps)
    case (Cons p ps)
    obtain pkt where pkt: "ng_pkts n p = Some pkt" "p_id pkt = 0" using ps Cons.prems by auto
    then have "dispatch_reclaim_step p (n, head) = Inr (n, head)" using al by (simp add: dispatch_reclaim_step_def alone_def Let_def)
    then show ?case using Cons by simp
  qed simp
  then show ?thesis using flush_alone [OF al] by (simp add: dispatch_reclaim_def)
qed

section \<open>More packets on the send queues\<close>

definition off_queue :: "driver \<Rightarrow> nat \<Rightarrow> ptr multiset" where
  "off_queue d i = (case adapters d ! i of None \<Rightarrow> {#} | Some a \<Rightarrow>
     held_by (rx_ring a) + (case tx_ring a of None \<Rightarrow> {#} | Some r \<Rightarrow> mset (ring_ptrs r)))"

lemma cards_held_split: "cards_held d = (\<Sum>i<unat (adapter_num d). off_queue d i) + tx_queued d"
proof -
  have "(case adapters d ! i of None \<Rightarrow> {#} | Some a \<Rightarrow> card_held a) = off_queue d i + mset (tx_queue d i)" for i
    by (cases "adapters d ! i"; cases "tx_ring (the (adapters d ! i))")
      (simp_all add: off_queue_def tx_queue_def card_held_def held_by_def ring_held_def)
  then show ?thesis by (simp add: cards_held_def tx_queued_def sum.distrib)
qed

lemma queue_more_at:
  assumes "i < length (adapters d)" "adapters d ! i = Some a" "tx_ring a = Some r"
  shows "adapters (queue_more f d) ! i = Some (a\<lparr>tx_ring := Some (r\<lparr>r_pool := pool_more (r_pool r) (f i)\<rparr>)\<rparr>)"
  using assms by (simp add: queue_more_def)

lemma pool_more_count:
  assumes "pool_count_ok pp" "length (pp_list (pool_more pp ps)) < 2 ^ 64"
  shows "pool_count_ok (pool_more pp ps)"
  using assms by (simp add: pool_count_ok_def pool_more_def unat_word_ariths u64_unat_of_nat)

lemma sum_subset:
  fixes f :: "nat \<Rightarrow> 'a multiset"
  shows "(\<And>i. i < k \<Longrightarrow> f i \<subseteq># g i) \<Longrightarrow> (\<Sum>i<k. f i) \<subseteq># (\<Sum>i<k. g i)"
  by (induction k) (simp_all add: subset_mset.add_mono)

lemma queues_grow:
  assumes ok: "cards_ok d" and q: "only_queued d d'"
  shows "tx_queued d \<subseteq># tx_queued d'"
proof -
  obtain f where f: "d' = queue_more f d" using q by (auto simp: only_queued_def)
  have "mset (tx_queue d i) \<subseteq># mset (tx_queue d' i)" if i: "i < unat (adapter_num d)" for i
  proof -
    obtain a where a: "i < length (adapters d)" "adapters d ! i = Some a" "card_ok i a" using cards_okD [OF ok i] by blast
    then obtain r where r: "tx_ring a = Some r" by (auto simp: card_ok_def)
    show ?thesis using a(2) r queue_more_at [OF a(1,2) r, of f] by (simp add: f tx_queue_def pool_more_def)
  qed
  then have "(\<Sum>i<unat (adapter_num d). mset (tx_queue d i)) \<subseteq># (\<Sum>i<unat (adapter_num d). mset (tx_queue d' i))" by (rule sum_subset)
  then show ?thesis by (simp add: tx_queued_def f queue_more_def)
qed

lemma queue_more_cards:
  assumes ok: "cards_ok d" and q: "only_queued d d'" "tx_queued d' = tx_queued d + X" and small: "size (tx_queued d') < 2 ^ 64"
    and st: "cards_stamped pkts d"
  shows "cards_ok d'" "adapter_num d' = adapter_num d" "cards_held d' = cards_held d + X" "cards_stamped pkts d'"
proof -
  obtain f where f: "d' = queue_more f d" using q(1) by (auto simp: only_queued_def)
  show num: "adapter_num d' = adapter_num d" by (simp add: f queue_more_def)
  have at: "\<exists>a r. i < length (adapters d') \<and> adapters d ! i = Some a \<and> tx_ring a = Some r \<and> card_ok i a \<and>
      adapters d' ! i = Some (a\<lparr>tx_ring := Some (r\<lparr>r_pool := pool_more (r_pool r) (f i)\<rparr>)\<rparr>)"
    if i: "i < unat (adapter_num d)" for i
  proof -
    obtain a where a: "i < length (adapters d)" "adapters d ! i = Some a" "card_ok i a" using cards_okD [OF ok i] by blast
    then obtain r where r: "tx_ring a = Some r" by (auto simp: card_ok_def)
    show ?thesis using a r queue_more_at [OF a(1,2) r, of f] by (simp add: f) (simp add: queue_more_def)
  qed
  have "off_queue d' i = off_queue d i" if "i < unat (adapter_num d)" for i
    using at [OF that] by (auto simp: off_queue_def ring_ptrs_def on_ring_def)
  then show "cards_held d' = cards_held d + X" by (simp add: cards_held_split num q(2) add.assoc)
  show "cards_stamped pkts d'"
    using st at by (fastforce simp: cards_stamped_def num rx_pool_def)
  show "cards_ok d'"
    unfolding cards_ok_def num
  proof (intro allI impI)
    fix i assume i: "i < unat (adapter_num d)"
    from at [OF this] obtain a r where a: "i < length (adapters d')" "adapters d ! i = Some a" "tx_ring a = Some r" "card_ok i a"
      "adapters d' ! i = Some (a\<lparr>tx_ring := Some (r\<lparr>r_pool := pool_more (r_pool r) (f i)\<rparr>)\<rparr>)" by blast
    let ?r = "r\<lparr>r_pool := pool_more (r_pool r) (f i)\<rparr>"
    from card_rings [OF a(4)] a(3) obtain rx where r: "rx_ring a = Some rx" "ring_ok r" "on_ring r = map Some (ring_ptrs r)"
      "r_desc_num r < 2 ^ 31" "tx_idle_ok r" by (metis option.inject)
    have "mset (tx_queue d' i) \<subseteq># tx_queued d'"
      unfolding tx_queued_def using i num by (simp add: sum.remove [of _ i])
    then have "length (tx_queue d' i) < 2 ^ 64" using small size_mset_mono by (metis le_less_trans size_mset)
    then have "length (pp_list (pool_more (r_pool r) (f i))) < 2 ^ 64" using a(5) by (simp add: tx_queue_def)
    then have "pool_count_ok (pool_more (r_pool r) (f i))" using pool_more_count r(2) by (simp add: ring_ok_def)
    then have "ring_ok ?r" "on_ring ?r = map Some (ring_ptrs r)" "r_desc_num ?r < 2 ^ 31" "tx_idle_ok ?r"
      using r by (simp_all add: ring_ok_def on_ring_def tx_idle_ok_def)
    from card_tx(1) [OF a(4) r(1) this] a(1,5)
    show "i < length (adapters d') \<and> (\<exists>a. adapters d' ! i = Some a \<and> card_ok i a)" by blast
  qed
qed

section \<open>Receiving\<close>

lemma cards_dev_ok: "cards_ok d \<Longrightarrow> dev_ok d"
  unfolding dev_ok_def cards_ok_def card_ok_def by blast

lemma stack_ok_device:
  assumes "stack_ok n" "dev_ok d" "adapter_num d = adapter_num (ng_d n)"
  shows "stack_ok (n\<lparr>ng_d := d, ng_z := z, ng_mmio := m, ng_pkts := pkts\<rparr>)"
proof -
  let ?n = "n\<lparr>ng_d := d, ng_z := z, ng_mmio := m, ng_pkts := pkts\<rparr>"
  have "conn_ok ?n" using stack_okD(1) [OF assms(1)] unfolding conn_ok_def net_ok_def conn_wf_def by simp
  moreover have "env_ok ?n" using stack_okD(2) [OF assms(1)] assms(2,3) unfolding env_ok_def by simp
  moreover have "serves ?n cp" if "serves n cp" for cp using that assms(3) by (simp add: serves_def)
  ultimately show ?thesis using stack_okD(4) [OF assms(1)] by (simp add: stack_ok_def)
qed

lemma recv_init_proto:
  assumes "accepted (p_data pkt)" "PACKET_IS_IP (snd (packet_recv_init junk pkt))"
  shows "protocol_ip (snd (packet_recv_init junk pkt)) \<noteq> 0"
  using assms by (auto simp: parse_defs accepted_def supported_def PACKET_IS_IP_def PACKET_IS_ARP_def
      PROTO_IP_def PROTO_ARP_def PROTO_TCP_def PROTO_UDP_def PROTO_ICMP_def PROTO_ICMPV6_def)

lemma recv_init_dport:
  assumes "accepted (p_data pkt)" "PACKET_IS_IP (snd (packet_recv_init junk pkt))" "frame_here (snd junk) (p_data pkt)"
  shows "na_port (p_daddr (snd (packet_recv_init junk pkt))) \<noteq> 65535"
  using assms unfolding frame_here_def frame_dport_def
  by (auto simp: parse_defs accepted_def supported_def PACKET_IS_IP_def PACKET_IS_ARP_def
      PROTO_IP_def PROTO_ARP_def PROTO_TCP_def PROTO_UDP_def PROTO_ICMP_def PROTO_ICMPV6_def split: if_splits)

text \<open>Receiving and filtering change neither the owner of a packet nor the card of an accepted one.\<close>

definition filtered :: "(ptr \<Rightarrow> u16 \<times> u16) \<Rightarrow> ptr list \<Rightarrow> packet store \<Rightarrow> packet store" where
  "filtered junk ps pkts = (\<lambda>p. if p \<in> set ps then map_option (\<lambda>pkt. snd (packet_recv_init (junk p) pkt)) (pkts p) else pkts p)"

lemma filtered_facts:
  "dom (filtered junk ps pkts) = dom pkts"
  "stamped num pkts p \<Longrightarrow> stamped num (filtered junk ps pkts) p"
  "map_option p_id (filtered junk ps pkts p) = map_option p_id (pkts p)"
  by (auto simp: filtered_def dom_def stamped_def recv_init_frame option.map_comp comp_def split: if_splits)

lemma same_contents_id: "same_contents pkts pkts' \<Longrightarrow> map_option p_id (pkts' p) = map_option p_id (pkts p)"
proof -
  assume "same_contents pkts pkts'"
  then obtain l i where "pkts' p = map_option (\<lambda>pkt. pkt\<lparr>p_len := l, adapter_idx := i\<rparr>) (pkts p)" unfolding same_contents_def by blast
  then show ?thesis by (simp add: option.map_comp comp_def)
qed

lemma received_here:
  assumes "ports_here e A pkts" "same_contents pkts pkts'" "p \<in> A" "pkts' p = Some q"
  shows "frame_here (snd (in_ports e p)) (p_data q)"
proof -
  obtain l i where "pkts' p = map_option (\<lambda>pkt. pkt\<lparr>p_len := l, adapter_idx := i\<rparr>) (pkts p)" using assms(2) unfolding same_contents_def by blast
  then obtain pkt where "pkts p = Some pkt" "q = pkt\<lparr>p_len := l, adapter_idx := i\<rparr>" using assms(4) by (cases "pkts p") auto
  then show ?thesis using assms(1,3) by (auto simp: ports_here_def)
qed

lemma accountedI: "accounted pkts A M \<Longrightarrow> M' = M \<Longrightarrow> dom pkts' = dom pkts \<Longrightarrow> accounted pkts' A M'"
  by (simp add: accounted_def)

lemma ids_same: "own_ids A pkts \<Longrightarrow> (\<And>p. map_option p_id (pkts' p) = map_option p_id (pkts p)) \<Longrightarrow> own_ids A pkts'"
  unfolding own_ids_def by (metis (mono_tags, lifting) map_option_eq_Some)

lemma receive_ok:
  assumes ok: "loop_ok A n no_lists" and here: "ports_here e A (ng_pkts n)"
  shows "\<exists>n' ps fs. loop_receive e (n, no_lists) = Inr (n', no_lists\<lparr>recv_from_driver := ps, free_head := fs\<rparr>) \<and>
    loop_ok A n' (no_lists\<lparr>recv_from_driver := ps, free_head := fs\<rparr>) \<and> (\<forall>p \<in> set ps. receivable n' p) \<and>
    need n' = need n \<and> quota (ng_heap n') = quota (ng_heap n) \<and> conns n' = conns n"
proof -
  note L = loop_okD [OF ok]
  let ?pool = "free_packet_pool (ng_z n)"
  have acc: "accounted (ng_pkts n) A (cards_held (ng_d n) + mset (pp_list ?pool) + {#})" using L(7) by (simp add: held_def no_lists_def)
  obtain d1 pp m1 where 1: "driver_alloc_rx_buffer (ng_pkts n) (ng_d n) ?pool (ng_mmio n) = Inr (1, d1, pp, m1)" "cards_ok d1"
    "cards_stamped (ng_pkts n) d1" "adapter_num d1 = adapter_num (ng_d n)" "pool_count_ok pp"
    "cards_held d1 + mset (pp_list pp) = cards_held (ng_d n) + mset (pp_list ?pool)"
    using driver_alloc_all [OF L(2,3,4) acc] by blast
  have acc1: "accounted (ng_pkts n) A (cards_held d1 + mset (pp_list pp))" using acc 1(6) by simp
  obtain k d2 pkts2 new where 2: "driver_recv d1 (ng_pkts n) [] = Inr (k, d2, pkts2, new)" "cards_ok d2" "cards_stamped pkts2 d2"
    "adapter_num d2 = adapter_num d1" "cards_held d2 + mset new = cards_held d1" "same_contents (ng_pkts n) pkts2"
    "\<forall>p \<in> set new. stamped (unat (adapter_num d1)) pkts2 p"
    using driver_recv_all [OF 1(2,3) acc1, of "[]"] by auto
  have dom2: "dom pkts2 = dom (ng_pkts n)" using same_contents_dom [OF 2(6)] .
  have acc2: "accounted pkts2 A (cards_held d2 + mset new + mset (pp_list pp))" by (rule accountedI [OF acc1 _ dom2]) (simp add: 2(5))
  have new: "distinct new" "set new \<subseteq> A" "set new \<subseteq> dom pkts2" using accounted_part [OF acc2, of new] by simp_all
  let ?pkts = "filtered (in_ports e) new pkts2" and ?ok = "\<lambda>p. accepted (p_data (the (pkts2 p)))"
  have 3: "packet_init_and_filter (in_ports e) pkts2 new [] = Inr (?pkts, filter ?ok new, filter (\<lambda>p. \<not> ?ok p) new)"
    using packet_init_and_filter_ok [OF new(1,3), of "in_ports e" "[]"] by (simp add: filtered_def)
  let ?n = "n\<lparr>ng_d := d2, ng_z := (ng_z n)\<lparr>free_packet_pool := pp\<rparr>, ng_mmio := m1, ng_pkts := ?pkts\<rparr>"
  let ?l = "no_lists\<lparr>recv_from_driver := filter ?ok new, free_head := filter (\<lambda>p. \<not> ?ok p) new\<rparr>"
  have num: "adapter_num d2 = adapter_num (ng_d n)" using 1(4) 2(4) by simp
  have st: "stack_ok ?n" by (rule stack_ok_device [OF L(1) cards_dev_ok [OF 2(2)] num])
  have al: "alone (disp n) ?n" using L(5) by (simp add: alone_def)
  have got: "\<exists>pkt. pkts2 p = Some pkt \<and> ?pkts p = Some (snd (packet_recv_init (in_ports e p) pkt))" if "p \<in> set new" for p
    using that new(3) by (auto simp: filtered_def)
  have port: "\<exists>pkt. ng_pkts ?n p = Some pkt \<and> (PACKET_IS_IP pkt \<longrightarrow> na_port (p_daddr pkt) \<noteq> 65535)" if p: "p \<in> set (filter ?ok new)" for p
  proof -
    obtain pkt where pkt: "pkts2 p = Some pkt" "?pkts p = Some (snd (packet_recv_init (in_ports e p) pkt))" using got p by auto
    have "frame_here (snd (in_ports e p)) (p_data pkt)" using received_here [OF here 2(6) _ pkt(1)] p new(2) by auto
    then show ?thesis using recv_init_dport [of pkt "in_ports e p"] pkt p by simp
  qed
  have 4: "dispatch_packet (disp n) (filter ?ok new) [] (filter (\<lambda>p. \<not> ?ok p) new) ?n = Inr (?n, filter ?ok new, [], filter (\<lambda>p. \<not> ?ok p) new)"
    by (rule dispatch_alone [OF stack_ok_net [OF st] al port])
  have res: "loop_receive e (n, no_lists) = Inr (?n, ?l)"
    using 1(1) 2(1) 3 4 by (simp add: loop_receive_def packet_zone_get_free_packet_pool_def no_lists_def Let_def)
  have rec: "receivable ?n p" if p: "p \<in> set (filter ?ok new)" for p
  proof -
    obtain pkt where pkt: "pkts2 p = Some pkt" "?pkts p = Some (snd (packet_recv_init (in_ports e p) pkt))" using got p by auto
    have "stamped (unat (adapter_num d2)) ?pkts p" using 2(4,7) p filtered_facts(2) by auto
    then show ?thesis using pkt p recv_init_proto [of pkt] by (auto simp: receivable_def stamped_def)
  qed
  have "mset (filter ?ok new) + mset (filter (\<lambda>p. \<not> ?ok p) new) = mset new" by (simp flip: multiset_partition)
  then have "held ?n ?l = cards_held d2 + mset new + mset (pp_list pp)"
    by (simp add: held_def no_lists_def ac_simps)
  then have "accounted ?pkts A (held ?n ?l)" using acc2 filtered_facts(1) accountedI by metis
  moreover have "cards_stamped ?pkts d2" using 2(3) filtered_facts(2) by (auto simp: cards_stamped_def)
  moreover have "own_ids A ?pkts"
    by (rule ids_same [OF L(8)]) (simp_all add: filtered_facts(3) same_contents_id [OF 2(6)])
  ultimately have "loop_ok A ?n ?l" using st 2(2) 1(5) al L(6) unfolding loop_ok_def by simp
  then show ?thesis using res rec
    by (intro exI [of _ ?n] exI [of _ "filter ?ok new"] exI [of _ "filter (\<lambda>p. \<not> ?ok p) new"]) (simp add: need_def)
qed

section \<open>Processing\<close>

lemma process_nothing: "process_packets mem junk [] free n = Inr (n, [], free)"
  by (simp add: process_packets_def)

lemma queued_held: "tx_queued d \<subseteq># cards_held d"
  by (simp add: cards_held_split)

lemma accounted_size: "accounted pkts A M \<Longrightarrow> size M < 2 ^ 31"
  by (auto simp: accounted_def)

lemma accounted_apart: "accounted pkts A (M + N) \<Longrightarrow> p \<in># M \<Longrightarrow> p \<notin># N"
proof
  assume a: "accounted pkts A (M + N)" "p \<in># M" "p \<in># N"
  then have "count (M + N) p \<le> 1" by (simp add: accounted_def count_mset_set')
  moreover have "0 < count M p" "0 < count N p" using a by simp_all
  ultimately show False by simp
qed

text \<open>The packets on the receive queues are not in the batch: they keep their card.\<close>

lemma cards_stamped_same:
  assumes st: "cards_stamped pkts d" and same: "\<And>q. q \<in># cards_held d \<Longrightarrow> pkts' q = pkts q"
  shows "cards_stamped pkts' d"
  unfolding cards_stamped_def
proof (intro allI impI ballI)
  fix i a p assume i: "i < unat (adapter_num d)" "adapters d ! i = Some a" "p \<in> set (rx_pool a)"
  then have "p \<in># card_held a" by (auto simp: card_held_def rx_pool_def ring_held_def held_by_def split: option.splits)
  then have "p \<in># cards_held d" using card_in_cards [OF i(1,2)] by (meson mset_subset_eqD)
  then show "stamped (unat (adapter_num d)) pkts' p" using cards_stampedD [OF st i(1,2)] i(3) same by (simp add: stamped_def)
qed

lemma more_disp:
  fixes n n' :: unet
  shows "cnet.more n' = cnet.more n \<Longrightarrow> disp n' = disp n"
  by (cases n; cases n') simp

lemma alone_same: "alone dp n \<Longrightarrow> loop_same n n' \<Longrightarrow> alone dp n'"
  by (simp add: alone_def loop_same_def)

text \<open>The packets of a batch that are not freed wait on the cards' queues.\<close>

lemma batch_cards:
  assumes b: "batch_done ps fs fs' n n'" and ok: "cards_ok (ng_d n)" "cards_stamped (ng_pkts n) (ng_d n)"
    and acc: "accounted (ng_pkts n) A (cards_held (ng_d n) + mset ps + mset fs + Z)"
  shows "cards_ok (ng_d n')" "cards_stamped (ng_pkts n') (ng_d n')" "adapter_num (ng_d n') = adapter_num (ng_d n)"
    "accounted (ng_pkts n') A (cards_held (ng_d n') + mset fs' + Z)"
proof -
  have q: "only_queued (ng_d n) (ng_d n')" and same: "\<And>q. q \<notin> set ps \<Longrightarrow> ng_pkts n' q = ng_pkts n q"
    and dom: "dom (ng_pkts n') = dom (ng_pkts n)"
    and eq: "tx_queued (ng_d n') + mset fs' = tx_queued (ng_d n) + mset fs + mset ps"
    using b by (simp_all add: batch_done_def env_same_def)
  obtain X where X: "tx_queued (ng_d n') = tx_queued (ng_d n) + X"
    using queues_grow [OF ok(1) q] by (auto simp: mset_subset_eq_exists_conv)
  have "X + mset fs' = mset fs + mset ps"
    using eq unfolding X by (simp add: add.assoc)
  then have keep: "cards_held (ng_d n) + X + mset fs' + Z = cards_held (ng_d n) + mset ps + mset fs + Z" by (simp add: ac_simps)
  have "tx_queued (ng_d n') \<subseteq># cards_held (ng_d n) + X" using queued_held [of "ng_d n"] X by simp
  also have "\<dots> \<subseteq># cards_held (ng_d n) + mset ps + mset fs + Z" unfolding keep [symmetric] by (simp add: add.assoc)
  finally have "size (tx_queued (ng_d n')) < 2 ^ 64" using accounted_size [OF acc] size_mset_mono by fastforce
  from queue_more_cards [OF ok(1) q X this ok(2)]
  have c: "cards_ok (ng_d n')" "adapter_num (ng_d n') = adapter_num (ng_d n)" "cards_held (ng_d n') = cards_held (ng_d n) + X" by simp_all
  show "cards_ok (ng_d n')" "adapter_num (ng_d n') = adapter_num (ng_d n)" using c(1,2) .
  show "accounted (ng_pkts n') A (cards_held (ng_d n') + mset fs' + Z)"
    by (rule accountedI [OF acc _ dom]) (simp add: c(3) keep)
  have "ng_pkts n' p = ng_pkts n p" if "p \<in># cards_held (ng_d n)" for p
    using same accounted_apart [of _ A "cards_held (ng_d n)" "mset ps + mset fs + Z" p] acc that by (auto simp: add.assoc)
  from cards_stamped_same [OF ok(2) this] have "cards_stamped (ng_pkts n') (ng_d n)" .
  from queue_more_cards(4) [OF ok(1) q X \<open>size (tx_queued (ng_d n')) < 2 ^ 64\<close> this]
  show "cards_stamped (ng_pkts n') (ng_d n')" .
qed

lemma process_ok:
  assumes ok: "loop_ok A n (no_lists\<lparr>recv_from_driver := ps, free_head := fs\<rparr>)" and rec: "\<And>p. p \<in> set ps \<Longrightarrow> receivable n p"
    and mem: "card A * need n \<le> quota (ng_heap n)"
  shows "\<exists>n' fs'. loop_process e (n, no_lists\<lparr>recv_from_driver := ps, free_head := fs\<rparr>) = Inr (n', no_lists\<lparr>free_head := fs'\<rparr>) \<and>
    loop_ok A n' (no_lists\<lparr>free_head := fs'\<rparr>) \<and> need n' = need n \<and> quota (ng_heap n) \<le> quota (ng_heap n') + card A * need n"
proof -
  note L = loop_okD [OF ok]
  let ?pool = "mset (pp_list (free_packet_pool (ng_z n)))"
  have acc: "accounted (ng_pkts n) A (cards_held (ng_d n) + mset ps + mset fs + ?pool)"
    using L(7) by (simp add: held_def no_lists_def ac_simps)
  have "mset ps \<subseteq># cards_held (ng_d n) + mset ps + mset fs + ?pool" by (simp add: subset_mset.add_increasing2 subset_mset.add_increasing)
  note ps = accounted_part [OF acc this]
  have "finite A" using acc by (simp add: accounted_def)
  then have "length ps \<le> card A" using ps(1,2) by (metis card_mono distinct_card)
  then have few: "length ps * need n \<le> card A * need n" by simp
  then have "length ps * need n \<le> quota (ng_heap n)" using mem by (meson le_trans)
  from batch_handled [OF L(1) rec ps(1) this, of "in_conn e" "in_ip e" fs]
  obtain n' fs' where b: "process_packets (in_conn e) (in_ip e) ps fs n = Inr (n', [], fs')" "batch_done ps fs fs' n n'"
    unfolding process_packets_def by blast
  note C = batch_cards [OF b(2) L(2,3) acc]
  have z: "stack_ok n'" "ng_z n' = ng_z n" "loop_same n n'" "\<And>q. map_option p_id (ng_pkts n' q) = map_option p_id (ng_pkts n q)"
    using b(2) by (simp_all add: batch_done_def env_same_def)
  have d: "disp n' = disp n" "0 < cpu_frequency (net_clock n')"
    using more_disp [of n' n] z(3) L(6) by (simp_all add: loop_same_def)
  have "held n' (no_lists\<lparr>free_head := fs'\<rparr>) = cards_held (ng_d n') + mset fs' + ?pool"
    by (simp add: held_def no_lists_def z(2) ac_simps)
  then have "accounted (ng_pkts n') A (held n' (no_lists\<lparr>free_head := fs'\<rparr>))" using C(4) by (simp only:)
  moreover have "pool_count_ok (free_packet_pool (ng_z n'))" using L(4) z(2) by (simp only:)
  moreover have "alone (disp n') n'" using alone_same [OF L(5) z(3)] d(1) by (simp only:)
  ultimately have "loop_ok A n' (no_lists\<lparr>free_head := fs'\<rparr>)"
    unfolding loop_ok_def using z(1) C(1,2) d(2) ids_same [OF L(8) z(4)] by blast
  moreover have "loop_process e (n, no_lists\<lparr>recv_from_driver := ps, free_head := fs\<rparr>) = Inr (n', no_lists\<lparr>free_head := fs'\<rparr>)"
    using b(1) by (simp add: loop_process_def process_nothing no_lists_def)
  moreover have "need n' = need n" "quota (ng_heap n) \<le> quota (ng_heap n') + card A * need n"
    using b(2) few by (auto simp: batch_done_def need_def env_same_def pools_kept_def)
  ultimately show ?thesis by blast
qed

section \<open>Giving buffers back and sending\<close>

lemma alone_frame:
  "alone dp n \<Longrightarrow> ng_q n' = ng_q n \<Longrightarrow> ng_queues n' = ng_queues n \<Longrightarrow> alone dp n'"
  by (simp add: alone_def)

lemma zone_reclaim:
  "packet_zone_reclaim z ps = (z\<lparr>free_packet_pool := pool_more (free_packet_pool z) ps\<rparr>, [])"
  by (simp add: packet_zone_reclaim_def pool_put_all_spec pool_more_def)

text \<open>The timers free connections; those that stay are still served.\<close>

lemma expire_ok:
  assumes ok: "stack_ok n" and f: "0 < cpu_frequency (net_clock n)"
  shows "\<exists>n'. net_timer_expire tsc n = Inr n' \<and> stack_ok n' \<and> only_conns n n' \<and> cpu_frequency (net_clock n') = cpu_frequency (net_clock n)"
proof -
  obtain n' where n': "net_timer_expire tsc n = Inr n'" "conn_ok n'"
    "conns n' = conns n |` (- due (net_clock n) (whole_seconds (cpu_frequency (net_clock n)) (CLOCK tsc - phase (net_clock n))))"
    "total_clock_seconds (net_clock n') = total_clock_seconds (net_clock n)" "cpu_frequency (net_clock n') = cpu_frequency (net_clock n)"
    using net_timer_expire_spec [OF stack_okD(1) [OF ok] f refl] by blast
  have o: "only_conns n n'" by (rule expire_only [OF n'(1)])
  then have "env_same n n'" using n'(4,5) by (simp add: only_conns_def env_same_def loop_same_def)
  then have "stack_ok n'" by (rule stack_okI [OF ok n'(2)]) (use n'(3) in \<open>auto simp: restrict_map_def split: if_splits\<close>)
  then show ?thesis using n' o by blast
qed

lemma reclaim_ok:
  assumes ok: "loop_ok A n (no_lists\<lparr>free_head := fs\<rparr>)"
  shows "\<exists>n'. loop_reclaim e (n, no_lists\<lparr>free_head := fs\<rparr>) = Inr (n', no_lists) \<and> loop_ok A n' no_lists \<and>
    need n' = need n \<and> quota (ng_heap n') = quota (ng_heap n)"
proof -
  note L = loop_okD [OF ok]
  let ?z = "ng_z n" and ?pool = "free_packet_pool (ng_z n)"
  have acc: "accounted (ng_pkts n) A (cards_held (ng_d n) + mset (pp_list ?pool) + mset fs)" using L(7) by (simp add: held_def no_lists_def)
  obtain k d1 rec where 1: "driver_reclaim_tx_buffer (ng_d n) [] = Inr (k, d1, rec)" "cards_ok d1" "cards_stamped (ng_pkts n) d1"
    "adapter_num d1 = adapter_num (ng_d n)" "cards_held d1 + mset rec = cards_held (ng_d n)"
    using driver_reclaim_all [OF L(2,3), of "[]"] by auto
  let ?pool1 = "pool_more ?pool (fs @ rec)"
  have acc1: "accounted (ng_pkts n) A (cards_held d1 + mset (pp_list ?pool1))"
    using acc unfolding 1(5) [symmetric] by (simp add: pool_more_def ac_simps)
  have rec: "\<exists>pkt. ng_pkts n p = Some pkt \<and> p_id pkt = 0" if "p \<in> set rec" for p
  proof -
    have "mset rec \<subseteq># cards_held (ng_d n) + mset (pp_list ?pool) + mset fs" unfolding 1(5) [symmetric] by simp
    from accounted_part(2,3) [OF acc this] that L(8) show ?thesis by (fastforce simp: own_ids_def)
  qed
  have 2: "dispatch_reclaim rec (n\<lparr>ng_d := d1\<rparr>) = Inr (n\<lparr>ng_d := d1\<rparr>, rec)"
    by (rule reclaim_alone [of "disp n"]) (use L(5) rec in \<open>auto simp: alone_def\<close>)
  have "mset (pp_list ?pool1) \<subseteq># cards_held d1 + mset (pp_list ?pool1)" by simp
  from accounted_part(4) [OF acc1 this] have "length (pp_list ?pool1) < 2 ^ 64" by simp
  then have p1: "pool_count_ok ?pool1" by (rule pool_more_count [OF L(4)])
  obtain k' d2 m2 where 3: "driver_send (ng_pkts n) d1 (ng_mmio n) = Inr (k', d2, m2)" "cards_ok d2" "cards_stamped (ng_pkts n) d2"
    "adapter_num d2 = adapter_num d1" "cards_held d2 = cards_held d1" using driver_send_all [OF 1(2,3) acc1] by blast
  let ?n = "n\<lparr>ng_z := ?z\<lparr>free_packet_pool := ?pool1\<rparr>, ng_d := d2, ng_mmio := m2\<rparr>"
  have al: "alone (disp n) ?n" by (rule alone_frame [OF L(5)]) simp_all
  have "adapter_num d2 = adapter_num (ng_d n)" using 1(4) 3(4) by simp
  from stack_ok_device [OF L(1) cards_dev_ok [OF 3(2)] this, where z = "?z\<lparr>free_packet_pool := ?pool1\<rparr>" and m = m2 and pkts = "ng_pkts n"]
  have st: "stack_ok ?n" by (cases n) simp
  obtain n' where n': "net_timer_expire (in_tsc e) ?n = Inr n'" "stack_ok n'" "only_conns ?n n'" "cpu_frequency (net_clock n') = cpu_frequency (net_clock n)"
    using expire_ok [OF st, of "in_tsc e"] L(6) by auto
  have res: "loop_reclaim e (n, no_lists\<lparr>free_head := fs\<rparr>) = Inr (n', no_lists)"
    using 1(1) 2 3(1) flush_alone [OF al] n'(1) by (simp add: loop_reclaim_def no_lists_def zone_reclaim)
  have same: "ng_d n' = d2" "ng_z n' = ?z\<lparr>free_packet_pool := ?pool1\<rparr>" "ng_q n' = ng_q n" "ng_pkts n' = ng_pkts n" "ng_queues n' = ng_queues n"
    "disp n' = disp n" using n'(3) more_disp [of n' ?n] by (simp_all add: only_conns_def)
  have "loop_ok A n' no_lists"
    unfolding loop_ok_def using n'(2,4) 3(2,3) p1 alone_frame [OF L(5), of n'] L(6,8) acc1
    by (simp add: same held_def no_lists_def 3(5))
  moreover have "need n' = need n" "quota (ng_heap n') = quota (ng_heap n)" using n'(3) by (simp_all add: only_conns_def need_def)
  ultimately show ?thesis using res by blast
qed

section \<open>One turn\<close>

lemma loop_turn_ok:
  assumes ok: "loop_ok A n no_lists" and here: "ports_here e A (ng_pkts n)" and mem: "card A * need n \<le> quota (ng_heap n)"
  shows "\<exists>n'. loop_iteration e (n, no_lists) = Inr (n', no_lists) \<and> loop_ok A n' no_lists \<and> need n' = need n \<and>
    quota (ng_heap n) \<le> quota (ng_heap n') + card A * need n"
proof -
  obtain a ps fs where a: "loop_receive e (n, no_lists) = Inr (a, no_lists\<lparr>recv_from_driver := ps, free_head := fs\<rparr>)"
    "loop_ok A a (no_lists\<lparr>recv_from_driver := ps, free_head := fs\<rparr>)" "\<And>p. p \<in> set ps \<Longrightarrow> receivable a p"
    "need a = need n" "quota (ng_heap a) = quota (ng_heap n)" using receive_ok [OF ok here] by blast
  have "card A * need a \<le> quota (ng_heap a)" using mem a(4,5) by simp
  from process_ok [OF a(2,3) this, of e] obtain b gs where b: "loop_process e (a, no_lists\<lparr>recv_from_driver := ps, free_head := fs\<rparr>) = Inr (b, no_lists\<lparr>free_head := gs\<rparr>)"
    "loop_ok A b (no_lists\<lparr>free_head := gs\<rparr>)" "need b = need n" "quota (ng_heap n) \<le> quota (ng_heap b) + card A * need n"
    unfolding a(4,5) by blast
  from reclaim_ok [OF b(2), of e] obtain n' where n': "loop_reclaim e (b, no_lists\<lparr>free_head := gs\<rparr>) = Inr (n', no_lists)" "loop_ok A n' no_lists"
    "need n' = need b" "quota (ng_heap n') = quota (ng_heap b)" by blast
  have "loop_iteration e (n, no_lists) = Inr (n', no_lists)" using a(1) b(1) n'(1) by (simp add: loop_iteration_def)
  then show ?thesis using n'(2-4) b(3,4) by simp
qed

end
