(* ===== verification/Running.thy ===== *)
theory Running
  imports Turn SampleNet
begin

text \<open>
  The main loop as a whole: the ARP requests for the servers before the first turn, and any
  number of turns between which the cards write into the shared memory. No fault occurs.
\<close>

section \<open>Asking for the servers\<close>

lemma stack_nic:
  assumes "stack_ok n" "i < unat (adapter_num (ng_d n))"
  shows "nic_ok (ng_itf n) (int i)"
proof -
  have "itf_num (ng_itf n) = int (length (itf_nics (ng_itf n)))" using stack_ok_net [OF assms(1)] by (simp add: net_ok_def itf_ok_def)
  moreover have "itf_num (ng_itf n) = int (unat (adapter_num (ng_d n)))" using stack_okD(2) [OF assms(1)] by (simp add: env_ok_def)
  ultimately show ?thesis using assms(2) unfolding nic_ok_def by linarith
qed

text \<open>The next local IP of a card: only the turn of the card's list changes.\<close>

lemma next_lip_ok:
  assumes ok: "loop_ok A n l" and i: "nic_ok (ng_itf n) i"
  shows "\<exists>p itf. ng_interface_get_lip_rr i vs v4 n = Inr (p, n\<lparr>ng_itf := itf\<rparr>) \<and> loop_ok A (n\<lparr>ng_itf := itf\<rparr>) l \<and>
    nic_ok itf i \<and> (p \<noteq> None \<longrightarrow> (\<exists>lip. ng_lips n (the p) = Some lip))"
proof -
  note L = loop_okD [OF ok]
  have net: "net_ok n" using stack_ok_net [OF L(1)] .
  let ?p = "case nic_list (ng_itf n) (nat i) vs v4 of [] \<Rightarrow> None | p # _ \<Rightarrow> Some p"
  obtain itf where itf: "ng_interface_get_lip_rr i vs v4 n = Inr (?p, n\<lparr>ng_itf := itf\<rparr>)" "net_ok (n\<lparr>ng_itf := itf\<rparr>)"
    "itf_num itf = itf_num (ng_itf n)" using net_get_lip_rr [OF net i] by blast
  let ?n = "n\<lparr>ng_itf := itf\<rparr>"
  have "env_same n ?n" using itf(3) by (simp add: env_same_def loop_same_def)
  moreover have "conn_ok ?n" using stack_okD(1) [OF L(1)] itf(2) unfolding conn_ok_def by (simp add: conn_wf_def)
  ultimately have "stack_ok ?n"
    by (intro stack_okI [OF L(1)]) (use stack_okD(4) [OF L(1)] in \<open>auto simp: serves_def\<close>)
  then have "loop_ok A ?n l" using L by (simp add: loop_ok_def held_def alone_def)
  moreover have "nic_ok itf i" using itf(2,3) i by (simp add: nic_ok_def net_ok_def itf_ok_def)
  moreover have "\<exists>lip. ng_lips n (the ?p) = Some lip" if "?p \<noteq> None"
  proof -
    have "the ?p \<in> set (nic_list (ng_itf n) (nat i) vs v4)" using that by (cases "nic_list (ng_itf n) (nat i) vs v4") simp_all
    then show ?thesis using nic_list_lip [of "ng_rand n" "ng_lips n" "ng_itf n" i "the ?p" vs v4] net i by (auto simp: net_ok_def)
  qed
  ultimately show ?thesis using itf(1) by blast
qed

text \<open>A packet that leaves the free pool for the send queue of card \<open>i\<close>.\<close>

lemma pool_to_queue:
  assumes ok: "loop_ok A n no_lists" and i: "i < unat (adapter_num (ng_d n))" and p: "pp_list (free_packet_pool (ng_z n)) = p # ps"
    and pp: "pp_list pp = ps" "pool_count_ok pp"
    and q: "ng_pkts n p = Some pkt" "p_id q = p_id pkt" "unat (adapter_idx q) = i"
  shows "\<exists>k n'. ng_driver_put_packet_to_send_buffer p (n\<lparr>ng_z := (ng_z n)\<lparr>free_packet_pool := pp\<rparr>, ng_pkts := (ng_pkts n)(p \<mapsto> q)\<rparr>) = Inr (k, n') \<and>
    loop_ok A n' no_lists \<and> ng_pools n' = ng_pools n \<and> ng_heap n' = ng_heap n \<and> adapter_num (ng_d n') = adapter_num (ng_d n)"
proof -
  note L = loop_okD [OF ok]
  let ?pkts = "(ng_pkts n)(p \<mapsto> q)"
  have acc: "accounted (ng_pkts n) A (cards_held (ng_d n) + ({#p#} + mset ps))" using L(7) p by (simp add: held_def no_lists_def)
  obtain d where d: "driver_put_packet_to_send_buffer ?pkts (ng_d n) p = Inr (1, d)" "adapter_num d = adapter_num (ng_d n)"
    "tx_queued d = tx_queued (ng_d n) + {#p#}" "only_queued (ng_d n) d"
    using put_tx_spec [OF stack_okD(3) [OF L(1)], of ?pkts p q] i q(3) by auto
  have "tx_queued d \<subseteq># cards_held (ng_d n) + ({#p#} + mset ps)" unfolding d(3) using queued_held [of "ng_d n"] by (simp add: subset_mset.add_increasing2)
  then have small: "size (tx_queued d) < 2 ^ 64" using accounted_size [OF acc] size_mset_mono by fastforce
  have "?pkts x = ng_pkts n x" if "x \<in># cards_held (ng_d n)" for x using accounted_apart [OF acc that] by auto
  from cards_stamped_same [OF L(3) this] have "cards_stamped ?pkts (ng_d n)" .
  note Q = queue_more_cards [OF L(2) d(4,3) small this]
  let ?n = "n\<lparr>ng_d := d, ng_z := (ng_z n)\<lparr>free_packet_pool := pp\<rparr>, ng_mmio := ng_mmio n, ng_pkts := ?pkts\<rparr>"
  have res: "ng_driver_put_packet_to_send_buffer p (n\<lparr>ng_z := (ng_z n)\<lparr>free_packet_pool := pp\<rparr>, ng_pkts := ?pkts\<rparr>) = Inr (1, ?n)"
    using d(1) by (cases n) (simp add: ng_driver_put_packet_to_send_buffer_def)
  have st: "stack_ok ?n" by (rule stack_ok_device [OF L(1) cards_dev_ok [OF Q(1)] d(2)])
  have "held ?n no_lists = cards_held (ng_d n) + ({#p#} + mset ps)" by (simp add: held_def no_lists_def Q(3) pp(1))
  moreover have "dom ?pkts = dom (ng_pkts n)" using q(1) by auto
  ultimately have "accounted ?pkts A (held ?n no_lists)" using accountedI [OF acc] by metis
  moreover have "own_ids A ?pkts" by (rule ids_same [OF L(8)]) (use q(1,2) in auto)
  ultimately have "loop_ok A ?n no_lists" unfolding loop_ok_def using st Q(1,4) pp(2) L(6) alone_frame [OF L(5), of ?n] by simp
  then show ?thesis using res d(2) by auto
qed

lemma request_ok:
  assumes ok: "loop_ok A n no_lists" and i: "i < unat (adapter_num (ng_d n))"
  shows "\<exists>k n'. arp_send_request addr i n = Inr (k, n') \<and> loop_ok A n' no_lists \<and> ng_pools n' = ng_pools n \<and> ng_heap n' = ng_heap n \<and>
    adapter_num (ng_d n') = adapter_num (ng_d n)"
proof -
  note L = loop_okD [OF ok]
  obtain p1 itf1 where 1: "ng_interface_get_vsipv4_rr (int i) n = Inr (p1, n\<lparr>ng_itf := itf1\<rparr>)" "loop_ok A (n\<lparr>ng_itf := itf1\<rparr>) no_lists"
    "nic_ok itf1 (int i)" "p1 \<noteq> None \<longrightarrow> (\<exists>lip. ng_lips n (the p1) = Some lip)"
    using next_lip_ok [OF ok stack_nic [OF L(1) i], of True True] unfolding ng_interface_get_vsipv4_rr_def by blast
  obtain p2 itf2 where 2: "ng_interface_get_selfipv4_rr (int i) (n\<lparr>ng_itf := itf1\<rparr>) = Inr (p2, n\<lparr>ng_itf := itf2\<rparr>)" "loop_ok A (n\<lparr>ng_itf := itf2\<rparr>) no_lists"
    "p2 \<noteq> None \<longrightarrow> (\<exists>lip. ng_lips n (the p2) = Some lip)"
    using next_lip_ok [OF 1(2), of "int i" False True] 1(3) unfolding ng_interface_get_selfipv4_rr_def by auto
  obtain l itf where l: "(if p1 = None then ng_interface_get_selfipv4_rr (int i) (n\<lparr>ng_itf := itf1\<rparr>) else Inr (p1, n\<lparr>ng_itf := itf1\<rparr>)) = Inr (l, n\<lparr>ng_itf := itf\<rparr>)"
    "loop_ok A (n\<lparr>ng_itf := itf\<rparr>) no_lists" "l \<noteq> None \<longrightarrow> (\<exists>lip. ng_lips n (the l) = Some lip)"
    using 1 2 by (cases "p1 = None") auto
  let ?n = "n\<lparr>ng_itf := itf\<rparr>" and ?pool = "free_packet_pool (ng_z n)"
  obtain pp where pp: "packet_pool_get ?pool = Inr (case pp_list ?pool of [] \<Rightarrow> None | p # _ \<Rightarrow> Some p, pp)" "pp_list pp = tl (pp_list ?pool)" "pool_count_ok pp"
    using pool_get_spec [OF L(4)] by blast
  have get: "ng_get_free_packet ?n = Inr (case pp_list ?pool of [] \<Rightarrow> None | p # _ \<Rightarrow> Some p, ?n\<lparr>ng_z := (ng_z n)\<lparr>free_packet_pool := pp\<rparr>\<rparr>)"
    using pp(1) by (simp add: ng_get_free_packet_def packet_zone_get_free_packet_pool_def)
  show ?thesis
  proof (cases "l = None \<or> pp_list ?pool = []")
    case True
    have "pp = ?pool" if "pp_list ?pool = []"
      using pp(1) L(4) that by (simp add: packet_pool_get_def pool_count_ok_def word_less_nat_alt)
    then have "arp_send_request addr i n = Inr (0, ?n)" using True 1(1) l(1) get by (cases l) (auto simp: arp_send_request_def)
    then show ?thesis using l(2) by auto
  next
    case False
    then obtain a lip p ps where a: "l = Some a" "ng_lips n a = Some lip" "pp_list ?pool = p # ps" using l(3) by (cases "pp_list ?pool") auto
    have "mset (p # ps) \<subseteq># held n no_lists" using a(3) by (simp add: held_def no_lists_def)
    from accounted_part(3) [OF L(7) this] obtain pkt where pkt: "ng_pkts n p = Some pkt" by auto
    obtain mac where mac: "driver_get_mac (ng_d n) i = Inr mac" using dev_mac [OF stack_okD(3) [OF L(1)] i] by blast
    let ?q = "pkt\<lparr>p_data := arp_request_frame mac (ip_w0 (lip_get_ip_address lip)) (ip_w0 addr) (p_data pkt), p_len := of_nat (ARP_HDR + ETH_HDR), adapter_idx := of_nat i\<rparr>"
    have "unat (adapter_num (ng_d n)) < 2 ^ 8" using unsigned_less [of "adapter_num (ng_d n)"] by simp
    then have idx: "unat (of_nat i :: u8) = i" using i by (simp add: unat_of_nat)
    from pool_to_queue [OF l(2), of i p ps pp pkt ?q] i a(3) pp(2,3) pkt idx
    obtain k n' where n': "ng_driver_put_packet_to_send_buffer p (?n\<lparr>ng_z := (ng_z n)\<lparr>free_packet_pool := pp\<rparr>, ng_pkts := (ng_pkts n)(p \<mapsto> ?q)\<rparr>) = Inr (k, n')"
      "loop_ok A n' no_lists" "ng_pools n' = ng_pools n" "ng_heap n' = ng_heap n" "adapter_num (ng_d n') = adapter_num (ng_d n)" by auto
    have "arp_send_request addr i n = Inr (1, n')"
      using 1(1) l(1) get a pkt mac n'(1) by (simp add: arp_send_request_def ng_driver_get_mac_def Let_def)
    then show ?thesis using n'(2-5) by blast
  qed
qed

lemma find_routes_ok:
  assumes ok: "loop_ok A n no_lists"
  shows "\<exists>n'. rt_find_server_route n = Inr n' \<and> loop_ok A n' no_lists \<and> need n' = need n \<and> ng_heap n' = ng_heap n"
proof -
  let ?I = "\<lambda>n'. loop_ok A n' no_lists \<and> ng_pools n' = ng_pools n \<and> ng_heap n' = ng_heap n \<and> adapter_num (ng_d n') = adapter_num (ng_d n)"
  let ?f = "\<lambda>srv i n. bindE (get_server (ng_pools n) srv) (\<lambda>s. bindE (arp_send_request (server_get_ip_address s) i n) (\<lambda>(_, n). Inr n))"
  let ?num = "unat (adapter_num (ng_d n))"
  have srv: "\<exists>s. get_server (ng_pools n) x = Inr s" if "x \<in> set (server_list (ng_pools n))" for x
    using stack_okD(2) [OF loop_okD(1) [OF ok]] that by (simp add: env_ok_def)
  have inner: "\<exists>n'. foldE (?f x) [0..<?num] m = Inr n' \<and> ?I n'" if x: "x \<in> set (server_list (ng_pools n))" and m: "?I m" for x m
  proof (rule foldE_invariant)
    show "?I m" by (rule m)
    fix i a assume i: "i \<in> set [0..<?num]" and a: "?I a"
    obtain s where s: "get_server (ng_pools a) x = Inr s" using srv [OF x] a by auto
    have "loop_ok A a no_lists" "i < unat (adapter_num (ng_d a))" using i a by simp_all
    from request_ok [OF this, of "server_get_ip_address s"] s a show "\<exists>b. ?f x i a = Inr b \<and> ?I b" by auto
  qed
  have "\<exists>n'. foldE (\<lambda>srv. foldE (?f srv) [0..<?num]) (server_list (ng_pools n)) n = Inr n' \<and> ?I n'"
    by (rule foldE_invariant) (use ok inner in blast)+
  then show ?thesis
    by (auto simp: rt_find_server_route_def ng_driver_get_adapter_num_def driver_get_adapter_num_def server_pool_get_server_list_def need_def)
qed

section \<open>The cards\<close>

text \<open>
  What the cards do to the shared memory between two turns: they write frames into the packets, and
  anything into the descriptors they own, those between head and tail.
\<close>

record device =
  dma :: "ptr \<Rightarrow> bytes"
  rx_back :: "nat \<Rightarrow> nat \<Rightarrow> desc"
  tx_back :: "nat \<Rightarrow> nat \<Rightarrow> desc"

definition ring_written :: "(nat \<Rightarrow> desc) \<Rightarrow> ring \<Rightarrow> ring" where
  "ring_written w r = r\<lparr>r_desc := map (\<lambda>j. if (j + r_desc_num r - r_head r) mod r_desc_num r < (r_tail r + r_desc_num r - r_head r) mod r_desc_num r
     then w j else r_desc r ! j) [0..<length (r_desc r)]\<rparr>"

definition card_written :: "(nat \<Rightarrow> desc) \<Rightarrow> (nat \<Rightarrow> desc) \<Rightarrow> adapter \<Rightarrow> adapter" where
  "card_written rx tx a = a\<lparr>rx_ring := map_option (ring_written rx) (rx_ring a), tx_ring := map_option (ring_written tx) (tx_ring a)\<rparr>"

definition cards_write :: "device \<Rightarrow> unet \<Rightarrow> unet" where
  "cards_write w n = n\<lparr>ng_d := (ng_d n)\<lparr>adapters := map (\<lambda>i. map_option (card_written (rx_back w i) (tx_back w i)) (adapters (ng_d n) ! i))
       [0..<length (adapters (ng_d n))]\<rparr>,
     ng_pkts := (\<lambda>p. map_option (\<lambda>pkt. pkt\<lparr>p_data := dma w p\<rparr>) (ng_pkts n p))\<rparr>"

lemma ring_written_frame:
  "r_head (ring_written w r) = r_head r" "r_tail (ring_written w r) = r_tail r" "r_desc_num (ring_written w r) = r_desc_num r"
  "on_ring (ring_written w r) = on_ring r" "r_pool (ring_written w r) = r_pool r" "r_a (ring_written w r) = r_a r"
  "ring_ok (ring_written w r) = ring_ok r" "ring_held (ring_written w r) = ring_held r"
  by (simp_all add: ring_written_def on_ring_def ring_ok_def ring_held_def ring_ptrs_def)

lemma tx_idle_written:
  assumes "ring_ok r" "tx_idle_ok r"
  shows "tx_idle_ok (ring_written w r)"
  using assms by (auto simp: tx_idle_ok_def ring_written_def ring_ok_def)

lemma card_written_ok:
  assumes "card_ok i a"
  shows "card_ok i (card_written rx tx a)" "card_held (card_written rx tx a) = card_held a" "rx_pool (card_written rx tx a) = rx_pool a"
  using assms tx_idle_written
  by (auto simp: card_ok_def card_written_def card_held_def rx_pool_def ring_full_ok_def ring_written_frame held_by_def)

text \<open>Nothing the program relies on between two turns is changed.\<close>

lemma cards_write_ok:
  assumes ok: "loop_ok A n no_lists"
  shows "loop_ok A (cards_write w n) no_lists" "need (cards_write w n) = need n" "ng_heap (cards_write w n) = ng_heap n"
    "ng_pkts (cards_write w n) p = map_option (\<lambda>pkt. pkt\<lparr>p_data := dma w p\<rparr>) (ng_pkts n p)"
proof -
  note L = loop_okD [OF ok]
  show need: "need (cards_write w n) = need n" "ng_heap (cards_write w n) = ng_heap n"
    "ng_pkts (cards_write w n) p = map_option (\<lambda>pkt. pkt\<lparr>p_data := dma w p\<rparr>) (ng_pkts n p)" for p
    by (simp_all add: cards_write_def need_def)
  let ?d = "ng_d (cards_write w n)" and ?pkts = "ng_pkts (cards_write w n)"
  have num: "adapter_num ?d = adapter_num (ng_d n)" by (simp add: cards_write_def)
  have at: "i < length (adapters ?d) \<and> (\<exists>a. adapters (ng_d n) ! i = Some a \<and> adapters ?d ! i = Some (card_written (rx_back w i) (tx_back w i) a) \<and> card_ok i a)"
    if "i < unat (adapter_num (ng_d n))" for i
    using cards_okD [OF L(2) that] by (auto simp: cards_write_def)
  have c: "cards_ok ?d" using at card_written_ok(1) unfolding cards_ok_def num by metis
  have "(case adapters ?d ! i of None \<Rightarrow> {#} | Some a \<Rightarrow> card_held a) = (case adapters (ng_d n) ! i of None \<Rightarrow> {#} | Some a \<Rightarrow> card_held a)"
    if "i < unat (adapter_num (ng_d n))" for i using at [OF that] card_written_ok(2) by auto
  then have held: "cards_held ?d = cards_held (ng_d n)" by (simp add: cards_held_def num)
  have st: "stamped num ?pkts p = stamped num (ng_pkts n) p" for num p by (auto simp: stamped_def need(3))
  have s: "cards_stamped ?pkts ?d"
    using L(3) at card_written_ok(3) unfolding cards_stamped_def num st by fastforce
  have "stack_ok (n\<lparr>ng_d := ?d, ng_z := ng_z n, ng_mmio := ng_mmio n, ng_pkts := ?pkts\<rparr>)"
    by (rule stack_ok_device [OF L(1) cards_dev_ok [OF c] num])
  then have "stack_ok (cards_write w n)" by (simp add: cards_write_def)
  moreover have "dom ?pkts = dom (ng_pkts n)" by (auto simp: need(3))
  moreover have "own_ids A ?pkts" by (rule ids_same [OF L(8)]) (simp add: need(3) option.map_comp comp_def)
  moreover have "held (cards_write w n) no_lists = held n no_lists" unfolding held_def held by (simp add: cards_write_def)
  moreover have "alone (disp n) (cards_write w n)" by (rule alone_frame [OF L(5)]) (simp_all add: cards_write_def)
  moreover have "disp (cards_write w n) = disp n" "ng_z (cards_write w n) = ng_z n" "net_clock (cards_write w n) = net_clock n"
    by (simp_all add: cards_write_def)
  ultimately show "loop_ok A (cards_write w n) no_lists"
    unfolding loop_ok_def using c s L(4,6) accountedI [OF L(7)] by simp
qed

section \<open>The main loop\<close>

text \<open>A turn whose frames are all for this process.\<close>

definition turn_here :: "ptr set \<Rightarrow> input \<times> device \<Rightarrow> bool" where
  "turn_here A = (\<lambda>(e, w). \<forall>p \<in> A. frame_here (snd (in_ports e p)) (dma w p))"

lemma turns_ok:
  assumes "loop_ok A n no_lists" "\<forall>t \<in> set turns. turn_here A t" "length turns * (card A * need n) \<le> quota (ng_heap n)"
  shows "\<exists>n'. foldE (\<lambda>(e, outside) (n, l). loop_iteration e (outside n, l)) (map (\<lambda>(e, w). (e, cards_write w)) turns) (n, no_lists) = Inr (n', no_lists) \<and>
    loop_ok A n' no_lists"
  using assms
proof (induction turns arbitrary: n)
  case (Cons t turns)
  obtain e w where t: "t = (e, w)" by fastforce
  let ?n = "cards_write w n"
  note W = cards_write_ok [OF Cons.prems(1), of w]
  have "ports_here e A (ng_pkts ?n)" using Cons.prems(2) t by (auto simp: ports_here_def W(4) turn_here_def)
  moreover have "card A * need ?n \<le> quota (ng_heap ?n)" using Cons.prems(3) W(2,3) by simp
  ultimately obtain m where m: "loop_iteration e (?n, no_lists) = Inr (m, no_lists)" "loop_ok A m no_lists" "need m = need n"
    "quota (ng_heap n) \<le> quota (ng_heap m) + card A * need n"
    using loop_turn_ok [OF W(1)] unfolding W(2,3) by blast
  have "length turns * (card A * need m) \<le> quota (ng_heap m)" using Cons.prems(3) m(3,4) by simp
  from Cons.IH [OF m(2) _ this] Cons.prems(2) m(1) t show ?case by auto
qed simp

section \<open>A process that runs\<close>

text \<open>One card with empty rings, two free packets, the only process.\<close>

definition loop_ring :: ring where
  "loop_ring = \<lparr>r_a = 0, r_desc = replicate 4 \<lparr>d_lo = 0, d_hi = 0\<rparr>, r_desc_num = 4, r_head = 0, r_tail = 0, r_tail_reg = 0,
     r_queue_idx = 0, r_pool = packet_pool_init, r_buffer = replicate 4 None\<rparr>"

definition loop_driver :: driver where
  "loop_driver = sample_driver\<lparr>adapters := [Some (sample_card\<lparr>tx_ring := Some loop_ring, rx_ring := Some loop_ring\<rparr>)]\<rparr>"

definition loop_net :: unet where
  "loop_net = cnet.extend (idle_net\<lparr>ng_d := loop_driver, ng_z := (ng_z idle_net)\<lparr>free_packet_pool := \<lparr>pp_num = 2, pp_list = [42, 43]\<rparr>\<rparr>,
       ng_q := (ng_q idle_net)\<lparr>send_queue := [7]\<rparr>, ng_heap := \<lparr>brk = 2000, quota = 100\<rparr>,
       ng_queues := [7 \<mapsto> \<lparr>lq_size = 0, lq_list = [], lq_head = 0, lq_tail = 0, lq_desc = []\<rparr>]\<rparr>)
     \<lparr>disp = \<lparr>disp_id = 0, disp_num = 1, port_base = 1024, port_slice = 64511, disp_port_low = 1024, disp_port_high = 65534\<rparr>\<rparr>"

text \<open>The card receives the request of a client and sends everything.\<close>

definition loop_input :: input where
  "loop_input = \<lparr>in_ports = (\<lambda>_. (0, 0)), in_conn = (\<lambda>_. sample_client), in_ip = sample_ip 0, in_tsc = 500\<rparr>"

definition loop_device :: device where
  "loop_device = \<lparr>dma = (\<lambda>_. p_data sample_request), rx_back = (\<lambda>_ _. \<lparr>d_lo = 0, d_hi = 0x3C00000001\<rparr>),
     tx_back = (\<lambda>_ _. \<lparr>d_lo = 0, d_hi = 0x100000000\<rparr>)\<rparr>"

lemma stack_ok_extend: "stack_ok (cnet.extend n m) = stack_ok n"
  by (simp add: stack_ok_def conn_ok_def net_ok_def conn_wf_def env_ok_def serves_def cnet.defs)

lemma loop_cards: "cards_ok loop_driver" "cards_held loop_driver = {#}" "cards_stamped pkts loop_driver"
  by (simp_all add: cards_ok_def cards_held_def cards_stamped_def loop_driver_def sample_driver_def sample_card_def card_ok_def
      card_held_def held_by_def ring_held_def ring_ptrs_def rx_pool_def ring_full_ok_def ring_ok_def tx_idle_ok_def tx_done_def tx_status_def
      on_ring_def between_def loop_ring_def packet_pool_init_def pool_count_ok_def)

lemma loop_net_ok: "loop_ok {42, 43} loop_net no_lists"
proof -
  let ?n = "idle_net\<lparr>ng_d := loop_driver, ng_z := ng_z loop_net, ng_mmio := ng_mmio idle_net, ng_pkts := ng_pkts idle_net\<rparr>"
  have "adapter_num loop_driver = adapter_num (ng_d idle_net)" by (simp add: loop_driver_def idle_net_def)
  from stack_ok_device [OF sample_stack_ok(1) cards_dev_ok [OF loop_cards(1)] this] have "stack_ok ?n" .
  then have "stack_ok loop_net"
    by (simp add: stack_ok_def conn_ok_def net_ok_def conn_wf_def env_ok_def serves_def pool_ok_def rt_nics_ok_def loop_net_def cnet.defs idle_net_def)
  moreover have "alone (disp loop_net) loop_net"
    by (simp add: alone_def loop_net_def cnet.defs idle_net_def dispatch_module_init_def signed_divide_int_def Let_def)
  moreover have "accounted (ng_pkts loop_net) {42, 43} (held loop_net no_lists)"
    by (auto simp: accounted_def held_def no_lists_def loop_net_def cnet.defs idle_net_def loop_cards)
  moreover have "own_ids {42, 43} (ng_pkts loop_net)"
    by (auto simp: own_ids_def loop_net_def cnet.defs idle_net_def sample_request_def sample_answer_def sample_packet_def)
  ultimately show ?thesis
    using loop_cards by (simp add: loop_ok_def loop_net_def cnet.defs idle_net_def pool_count_ok_def sample_clock_def)
qed

lemma loop_turn_here: "turn_here A (loop_input, loop_device)"
proof -
  have "frame_here 0 (p_data sample_request)" by code_simp
  then show ?thesis by (simp add: turn_here_def loop_input_def loop_device_def)
qed

text \<open>
  C1: a process that runs alone and starts consistent makes any number of turns of the main loop without
  a fault, whatever frames the cards write between the turns, as long as the memory lasts and no
  frame is sent to port 65535: its lists are empty after every turn, its state is consistent, and every
  packet is in exactly one place, on a ring or queue of a card or in the free pool.
\<close>

theorem main_loop_runs:
  assumes ok: "loop_ok A n no_lists" and here: "\<forall>t \<in> set turns. turn_here A t"
    and mem: "length turns * (card A * need n) \<le> quota (ng_heap n)"
  shows "\<exists>n'. main_loop (map (\<lambda>(e, w). (e, cards_write w)) turns) n = Inr (n', no_lists) \<and> loop_ok A n' no_lists \<and>
    cards_held (ng_d n') + mset (pp_list (free_packet_pool (ng_z n'))) = mset_set A"
proof -
  obtain a where a: "rt_find_server_route n = Inr a" "loop_ok A a no_lists" "need a = need n" "ng_heap a = ng_heap n"
    using find_routes_ok [OF ok] by blast
  obtain n' where n': "main_loop (map (\<lambda>(e, w). (e, cards_write w)) turns) n = Inr (n', no_lists)" "loop_ok A n' no_lists"
    using turns_ok [OF a(2) here] mem a(1,3,4) by (auto simp: main_loop_def no_lists_def)
  then show ?thesis using loop_okD(7) [OF n'(2)] by (simp add: accounted_def held_def no_lists_def)
qed

theorem main_loop_runs_witness:
  "\<exists>n'. main_loop (map (\<lambda>(e, w). (e, cards_write w)) (replicate 4 (loop_input, loop_device))) loop_net = Inr (n', no_lists) \<and>
     cards_held (ng_d n') + mset (pp_list (free_packet_pool (ng_z n'))) = {#42, 43#}"
proof -
  have "need loop_net = 3" by (simp add: need_def loop_net_def cnet.defs idle_net_def sample_pools_def)
  moreover have "quota (ng_heap loop_net) = 100" by (simp add: loop_net_def cnet.defs)
  ultimately have "length (replicate 4 (loop_input, loop_device)) * (card {42 :: ptr, 43} * need loop_net) \<le> quota (ng_heap loop_net)" by simp
  from main_loop_runs [OF loop_net_ok _ this] loop_turn_here show ?thesis by auto
qed

end
