(* ===== verification/Spec2Isabelle.thy ===== *)
theory Spec2Isabelle
  imports ListHead LfqProtocol Rss SampleNet Dispatch MainLoop DeviceMap KernelStart Running
begin

text \<open>
  \<^bold>\<open>ustack\<close> is a network stack in user space that works as a load balancer for TCP and UDP: clients
  talk to virtual servers, and every connection is forwarded to one of the servers of a pool, either
  with both ends rewritten (full NAT, with a port of a local IP) or with the client's address kept
  (transparent). Several processes, one per CPU, poll their own queues of the network cards, whose
  registers, rings and packet memory a kernel module has mapped into them, and exchange packets over
  lock-free queues in shared memory. This development models the program from the kernel module's
  mapping to the endless loop of a process.

  \<^bold>\<open>Conventions.\<close> A C structure is a record with the same fields, a pointer a number (\<open>ptr\<close>) into a
  store of records (\<open>'a store\<close>), integers have the width of the source and wrap around. Operations are
  named as in the source and take and return the part of the state they use; from the theory
  \<open>NetGlobal\<close> on this is one record with all global variables of a process (\<open>net\<close>, extended to \<open>cnet\<close>
  with the connections and to \<open>unet\<close> with the dispatcher). An operation that can go wrong answers
  \<open>fault + 'a\<close>: a wild or NULL pointer, an index out of bounds, a division by zero, a call of
  \<open>exit\<close>, a loop without end. \<open>malloc\<close> draws on a finite quota, so that running out of memory is
  a case of every theorem; the contents of fresh memory are parameters (\<open>junk\<close>, \<open>mem\<close>). What the
  program reads from outside (the device, the registers, the time stamp counter, the answers of the
  operating system) are parameters as well; nothing is assumed of them but what a theorem says.

  \<^bold>\<open>Theories\<close> (sources under \<open>src/uspace/src\<close> with their headers, unless given).
  \<^item> \<open>Prelude\<close>: stores, faults and their monad, memory, bytes in memory, byte order, general lemmas.
  \<^item> \<open>ListHead\<close> (\<open>common/list.h\<close>): circular lists by their links, against lists; \<open>HashTable\<close>
    (\<open>hashtable.c\<close>): buckets, with the locale of a bucket search that routes, local IPs, nodes of virtual
    servers and connections interpret; \<open>RingBuffer\<close>: index arithmetic shared by the ports, the
    queues and the rings of the cards; \<open>RoundRobin\<close>: the locale of lists searched by rotation.
  \<^item> \<open>NetAddr\<close> (\<open>common/types.h\<close>, \<open>jhash.h\<close>, \<open>hashtable.h\<close>), \<open>PortRange\<close>, \<open>LocalIp\<close>, \<open>Interface\<close>,
    \<open>Route\<close>, \<open>ServerPool\<close>, \<open>VServer\<close>, \<open>MemPool\<close>, \<open>Timer\<close>, \<open>Rss\<close>, \<open>Checksum\<close>: the files of these names.
  \<^item> \<open>Packet\<close> (\<open>packet.c\<close>): packet buffers, the zone they are cut from, parsing and filtering.
  \<^item> \<open>Driver\<close> (\<open>driver.c\<close>): descriptor rings, receiving, sending and reclaiming; \<open>DriverLoop\<close>: the
    same for all cards of a process. \<open>Ukmem\<close> (\<open>modules/ukmem.c\<close>): registering of the cards and mapping of
    their memory; \<open>DeviceMap\<close>: that the driver and the kernel module agree.
  \<^item> The vendor's driver for the cards (\<open>modules/igb/igb_main.c\<close>), as far as ustack has changed it and depends
    on it. \<open>IgbQueues\<close>: how many queues a card gets, its rings, vectors and descriptors, and the calls to the
    kernel memory module; \<open>IgbRegs\<close>: the registers written when a card is opened and closed (rings, hash
    key, redirection table, control), as a map from addresses to words. \<open>IgbSetup\<close>, \<open>IgbRss\<close>, \<open>IgbProbe\<close>, \<open>IgbOpen\<close>,
    \<open>IgbConf\<close>, \<open>IgbUp\<close>: what probing, allocating, programming and closing leave behind; \<open>IgbBoot\<close>: the
    kernel as a step relation that probes and opens cards; \<open>KernelStart\<close>: what a process finds then.
  \<^item> \<open>LfQueue\<close> (\<open>lf_queue.c\<close>): the shared queues and their layout; \<open>LfqProtocol\<close>: sender and receiver as
    interleaved steps.
  \<^item> \<open>NetGlobal\<close> (\<open>net_global.c\<close>), \<open>Connection\<close> (\<open>connection.c\<close>), \<open>Tcp\<close>, \<open>Arp\<close>, \<open>Process\<close>, \<open>Dispatch\<close>,
    \<open>MainLoop\<close> (\<open>main.c\<close>, \<open>test.c\<close>): the program above the data structures.
  \<^item> Invariants and composition: \<open>ConnInv\<close>, \<open>ConnLookup\<close>, \<open>ConnCreate\<close> (connections), \<open>Forward\<close> (what
    rewriting does to a packet), \<open>Stack\<close> and \<open>ArpStack\<close> (handling of packets), \<open>Turn\<close>
    and \<open>Running\<close> (one turn and any number of turns of the main loop), \<open>SampleNet\<close> (a small state on which
    the theorems about whole states are instantiated).

  \<^bold>\<open>What the theorems show.\<close> Each structure has an invariant that its operations keep (\<open>pr_ok\<close>,
  \<open>itf_ok\<close>, \<open>rt_ok\<close> and \<open>rt_unique\<close>, \<open>vs_ok\<close>, \<open>sp_ok\<close>, \<open>pool_ok\<close>, \<open>wheel_ok\<close>, \<open>ring_ok\<close>, \<open>lq_ok\<close>) and a content, a
  list or a map, in terms of which the operations are specified. \<open>conn_ok\<close> ties the connections to
  their tables, timers and memory pool, \<open>ports_ok\<close> accounts for every port of every local IP,
  \<open>keys_ok\<close> says that connections are filed under their keys, and \<open>stack_ok\<close> adds what the handling of a packet
  relies on. With \<open>stack_ok\<close> a batch of packets is handled without a fault and without losing a packet
  (\<open>packets_conserved\<close>); \<open>loop_ok\<close> adds the cards, the free packets and the queues of a process that runs
  alone, and under it the main loop turns without a fault and without losing a packet
  (\<open>Running.main_loop_runs\<close>); the addresses of a forwarded packet and its way back are those promised
  (\<open>nat_round_trip\<close>). On the side of the kernel \<open>kernel_ok\<close> ties the entries of the kernel memory module to the cards and
  holds in every state the kernel can reach; from it follow the agreement of the rings a process opens with
  those the card was given (\<open>KernelStart.process_shares_rings\<close>) and of the queue the card and the stack choose
  for a flow (\<open>KernelStart.card_and_stack_agree\<close>). How a card reads its registers, that is, the hash over the key
  registers and the index into the redirection table (\<open>IgbRss\<close>), is that of its data sheet. Some theorems state a flaw of the source (\<open>transparent_reply_bounces\<close>,
  \<open>dispatch_byte_order\<close>, \<open>add_server_spec\<close>).

  \<^bold>\<open>Loops and fuel.\<close> Loops over lists and arrays are recursions on the list or \<open>foldE\<close> over it. Loops
  that run until a condition holds have fuel and answer the fault \<open>Diverges\<close> when it is used up; the fuel
  is the bound of the source (the size of a ring, the number of ports, the whole seconds elapsed plus
  one, the number of processes), and the specifications, which give an answer, show that it suffices.

  \<^bold>\<open>Not modelled.\<close> Printing and hexadecimal dumps; of the vendor's driver the interrupts, the kernel's
  own sending and receiving, link state, address filters, virtual functions, power management, the
  access to PHY and NVM and the ethtool interface, which do not take part in what the processes do: what
  probing relies on of these is an answer in \<open>probe_env\<close> and \<open>card_env\<close>; page tables, locking and the registration of the
  kernel module; \<open>fork\<close>, CPU affinity, files and \<open>mmap\<close>, which are parameters; \<open>uspace/tmp\<close> and
  \<open>pagefault.c\<close>, which are not built. The memory barriers of the queues are the order of the
  steps in \<open>LfqProtocol\<close>.
\<close>

section \<open>Properties of the running process\<close>

text \<open>
  C2: a process whose state is consistent handles any batch of received packets without a fault, as long
  as memory is left; afterwards the state is consistent, the batch is empty, and every packet of it
  is exactly once among the packets to free or on the send queue of a card.
\<close>

theorem packets_conserved:
  assumes "stack_ok n" "distinct head" "\<And>p. p \<in> set head \<Longrightarrow> receivable n p"
    and "length head * need n \<le> quota (ng_heap n)"
  shows "\<exists>n' free'. process_packets mem junk head free n = Inr (n', [], free') \<and> stack_ok n' \<and> ng_z n' = ng_z n \<and>
    tx_queued (ng_d n') + mset free' = tx_queued (ng_d n) + mset free + mset head \<and>
    (\<forall>q. q \<notin> set head \<longrightarrow> ng_pkts n' q = ng_pkts n q)"
  by (rule process_packets_handled [OF assms])

lemma packets_conserved_witness:
  "\<exists>n' free'. process_packets (\<lambda>_. sample_connection) (sample_ip 0) [42, 43] [5] sample_net = Inr (n', [], free') \<and>
     stack_ok n' \<and> tx_queued (ng_d n') + mset free' = tx_queued (ng_d sample_net) + {#5, 42, 43#}"
proof -
  have r: "receivable sample_net p" if "p \<in> set [42, 43]" for p
    using that by (auto simp: receivable_def sample_defs sample_request_def sample_answer_def sample_packet_def PROTO_TCP_def)
  have "length [42, 43 :: ptr] * need sample_net \<le> quota (ng_heap sample_net)" by (simp add: need_def sample_defs)
  from packets_conserved [OF sample_stack_ok(2) _ r this, of "\<lambda>_. sample_connection" "sample_ip 0" "[5]"]
  show ?thesis by auto
qed



text \<open>
  C5: creating a connection keeps the tables, the timer wheel, the memory pool and the accounts of the
  ports consistent; it answers a new connection for the client with a server, a route and a local
  port nobody else uses, or none, and then no port is taken.
\<close>

theorem connection_create_spec:
  assumes ok: "conn_ok n" "ports_ok n" "keys_ok n"
    and vs: "vs_store (ng_vs n) v = Some vs" "pool_at (vs_pool vs) (ng_pools n)"
    and wheel: "CONNECTION_TIMEOUT_SECONDS \<le> total_clock_seconds (net_clock n)"
  shows "\<exists>r n'. connection_create mem pkt v n = Inr (r, n') \<and> conn_ok n' \<and> ports_ok n' \<and> keys_ok n' \<and>
    (case r of
       None \<Rightarrow> conns n' = conns n \<and> ng_lips n' = ng_lips n
     | Some p \<Rightarrow> conns n p = None \<and> (\<exists>cp. conns n' = (conns n)(p \<mapsto> cp) \<and> created n v vs pkt (ng_lips n') cp))"
proof -
  obtain r n' where c: "connection_create mem pkt v n = Inr (r, n')" "conn_ok n'"
    "case r of None \<Rightarrow> conns n' = conns n
     | Some p \<Rightarrow> conns n p = None \<and> (\<exists>cp. conns n' = (conns n)(p \<mapsto> cp) \<and> created n v vs pkt (ng_lips n') cp)"
    using connection_create_ok [OF ok(1) vs wheel] by blast
  from connection_create_accounts [OF ok vs wheel c(1)] c show ?thesis by (cases r) auto
qed

lemma connection_create_spec_witness:
  "\<exists>r n'. connection_create (\<lambda>_. sample_connection) sample_request 1 idle_net = Inr (r, n') \<and> conn_ok n' \<and> ports_ok n' \<and> keys_ok n'"
proof -
  have v: "vs_store (ng_vs idle_net) 1 = Some (the (vs_store sample_vs_state 1))"
      "pool_at (vs_pool (the (vs_store sample_vs_state 1))) (ng_pools idle_net)"
      "CONNECTION_TIMEOUT_SECONDS \<le> total_clock_seconds (net_clock idle_net)"
    by (simp_all add: idle_net_def sample_vs_state_def sample_pools_def pool_at_def sp_ok_def MAX_SERVER_def
        sample_clock_def CONNECTION_TIMEOUT_SECONDS_def)
  from connection_create_spec [OF idle_net_ok v, of "\<lambda>_. sample_connection" sample_request] show ?thesis by blast
qed

text \<open>
  C6: freeing a connection removes it from every table, the timer wheel and the pool of connections,
  keeps all accounts, and gives the port of a full-NAT connection back to the end of the range it was
  taken from.
\<close>

theorem connection_free_spec:
  assumes ok: "conn_ok n" "ports_ok n" "keys_ok n" and p: "conns n p = Some cp"
  shows "\<exists>n'. connection_free p n = Inr n' \<and> conn_ok n' \<and> ports_ok n' \<and> keys_ok n' \<and> conns n' = (conns n)(p := None) \<and>
    (if CONNECTION_IS_FULLNAT cp
     then \<exists>lip r r'. ng_lips n (c_self_addr cp) = Some lip \<and> lip_range lip (CONNECTION_IS_TCP cp) = Some r \<and>
       ng_lips n' = (ng_lips n)(c_self_addr cp \<mapsto> set_lip_range lip (CONNECTION_IS_TCP cp) (Some r')) \<and>
       pr_content r' = pr_content r @ [c_self_port cp]
     else ng_lips n' = ng_lips n)"
proof -
  obtain lips where f: "connection_free p n = Inr (freed p lips cp n)" "conn_ok (freed p lips cp n)" "ports_ok (freed p lips cp n)"
    "if CONNECTION_IS_FULLNAT cp
     then \<exists>lip r r'. ng_lips n (c_self_addr cp) = Some lip \<and> lip_range lip (CONNECTION_IS_TCP cp) = Some r \<and>
       lips = (ng_lips n)(c_self_addr cp \<mapsto> set_lip_range lip (CONNECTION_IS_TCP cp) (Some r')) \<and>
       pr_content r' = pr_content r @ [c_self_port cp]
     else lips = ng_lips n"
    using connection_free_ports [OF ok(1,2) p] by blast
  have "keys_ok (freed p lips cp n)" by (rule connection_free_keys [OF ok(1,3) p f(1,2)])
  moreover have "conns (freed p lips cp n) = (conns n)(p := None)" "ng_lips (freed p lips cp n) = lips"
    by (simp_all add: freed_def)
  ultimately show ?thesis using f by metis
qed

lemma connection_free_spec_witness:
  "\<exists>n'. connection_free 1000 sample_net = Inr n' \<and> stack_ok sample_net \<and> ports_ok n' \<and> conns n' = Map.empty"
proof -
  have "conns sample_net 1000 = Some sample_client" "conns sample_net = [1000 \<mapsto> sample_client]" by (simp_all add: sample_net_def)
  with connection_free_spec [OF sample_net_ok this(1)] sample_stack_ok(2) show ?thesis by auto
qed

text \<open>
  C7: looking a connection up never fails; it answers a live connection with the address and port asked
  for whenever one with the protocol asked for is linked, and sets the protocol of what it answers.
\<close>

theorem connection_found:
  assumes ok: "conn_ok n" "keys_ok n" and proto: "proto \<noteq> 0"
  shows "\<exists>r n'. connection_lookup ip port proto is_client n = Inr (r, n') \<and> conn_ok n' \<and>
    (case r of
       None \<Rightarrow> n' = n \<and> (\<nexists>p. conn_key n is_client p (ip, port, proto))
     | Some p \<Rightarrow> n' = n\<lparr>conns := set_proto p proto (conns n)\<rparr> \<and> conns n p \<noteq> None \<and>
         match_in n is_client (ip, port, proto) p = Inr True)"
proof -
  obtain r n' where c: "connection_lookup ip port proto is_client n = Inr (r, n')" "conn_ok n'"
    "case r of None \<Rightarrow> n' = n
     | Some p \<Rightarrow> n' = n\<lparr>conns := set_proto p proto (conns n)\<rparr> \<and>
         match_in n is_client (ip, port, proto) p = Inr True \<and> conns n p \<noteq> None \<and>
         p \<in> set (bucket_of n is_client (conn_slot (ng_rand n) (ip, port, proto)))"
    using connection_lookup_spec [OF ok(1) proto] by blast
  then show ?thesis using connection_lookup_complete [OF ok proto] by (cases r) fastforce+
qed

lemma connection_found_witness:
  "\<exists>n'. connection_lookup (sample_ip 1) 8 PROTO_TCP True sample_net = Inr (Some 1000, n')"
proof -
  have k: "conn_key sample_net True 1000 (sample_ip 1, 8, PROTO_TCP)" "conns sample_net p \<noteq> None \<longleftrightarrow> p = 1000" for p
    by (simp_all add: conn_key_def sample_net_def sample_client_def ip_address_eq_def sample_ip_def)
  have "PROTO_TCP \<noteq> 0" by (simp add: PROTO_TCP_def)
  from connection_found [OF sample_net_ok(1,3) this, of "sample_ip 1" 8 True]
  obtain r n' where "connection_lookup (sample_ip 1) 8 PROTO_TCP True sample_net = Inr (r, n')" "r \<noteq> None"
      "r = Some p \<Longrightarrow> conns sample_net p \<noteq> None" for p
    using k(1) by (fastforce split: option.splits)
  then show ?thesis using k(2) by (cases r) auto
qed





end
